(* ===== verification/Prelude.thy ===== *)
theory Prelude
  imports Main "HOL-Library.Word"
begin

text \<open>
  Shared vocabulary of the development: the result of running a piece of C code, the state
  passing combinators the components are written with, a total-correctness predicate with one
  rewrite rule per combinator, and the generic list lemmas the memory model rests on.

  Facts are gathered in three collections: \<open>runs_simps\<close> evaluates \<open>runs\<close> on a combinator or
  an operation, \<open>frame_simps\<close> says which part of the state an operation leaves alone, and
  \<open>abs_simps\<close> rewrites an abstraction function over an update.
\<close>

named_theorems runs_simps \<open>evaluation of runs on combinators and operations\<close>
named_theorems frame_simps \<open>parts of the state an operation leaves alone\<close>
named_theorems abs_simps \<open>abstraction functions over updates\<close>

type_synonym u64 = "64 word"
type_synonym u32 = "32 word"
type_synonym u16 = "16 word"

section \<open>Outcomes of C code\<close>

text \<open>
  \<open>Done a s\<close>: the function returned \<open>a\<close> in state \<open>s\<close>. \<open>Exited c s\<close>: \<open>exit(c)\<close> was called.
  \<open>Aborted s\<close>: \<open>abort()\<close> was called. \<open>Undefined\<close>: the C program has undefined behaviour on this
  path (a wild or dangling access, a bad \<open>free\<close>, an uninitialised read, a call through NULL).
  \<open>Replaced s\<close>: \<open>exec\<close> succeeded and the process goes on as another program.
  \<open>OutOfFuel\<close>: a loop of the model ran out of its fuel.
\<close>

datatype ('a, 's) outcome =
    Done 'a 's
  | Exited int 's
  | Aborted 's
  | Replaced 's
  | Undefined
  | OutOfFuel

type_synonym ('a, 's) prog = "'s \<Rightarrow> ('a, 's) outcome"

definition ret :: "'a \<Rightarrow> ('a, 's) prog" where
  "ret a = (\<lambda>s. Done a s)"

definition bind :: "('a, 's) prog \<Rightarrow> ('a \<Rightarrow> ('b, 's) prog) \<Rightarrow> ('b, 's) prog" where
  "bind m f = (\<lambda>s. case m s of
       Done a s' \<Rightarrow> f a s'
     | Exited c s' \<Rightarrow> Exited c s'
     | Aborted s' \<Rightarrow> Aborted s'
     | Replaced s' \<Rightarrow> Replaced s'
     | Undefined \<Rightarrow> Undefined
     | OutOfFuel \<Rightarrow> OutOfFuel)"

text \<open>\<open>seq m k\<close> is the statement sequence \<open>m; k\<close>.\<close>

definition seq :: "('a, 's) prog \<Rightarrow> ('b, 's) prog \<Rightarrow> ('b, 's) prog" where
  "seq m k = bind m (\<lambda>_. k)"

definition modify :: "('s \<Rightarrow> 's) \<Rightarrow> (unit, 's) prog" where
  "modify f = (\<lambda>s. Done () (f s))"

definition gets :: "('s \<Rightarrow> 'a) \<Rightarrow> ('a, 's) prog" where
  "gets f = (\<lambda>s. Done (f s) s)"

text \<open>\<open>reads f\<close> evaluates an expression that is undefined where \<open>f\<close> gives \<open>None\<close>;
  \<open>writes f\<close> is a store that is undefined there.\<close>

definition reads :: "('s \<Rightarrow> 'a option) \<Rightarrow> ('a, 's) prog" where
  "reads f = (\<lambda>s. case f s of None \<Rightarrow> Undefined | Some a \<Rightarrow> Done a s)"

definition writes :: "('s \<Rightarrow> 's option) \<Rightarrow> (unit, 's) prog" where
  "writes f = (\<lambda>s. case f s of None \<Rightarrow> Undefined | Some s' \<Rightarrow> Done () s')"

definition abort_prog :: "('a, 's) prog" where
  "abort_prog = (\<lambda>s. Aborted s)"

definition exit_prog :: "int \<Rightarrow> ('a, 's) prog" where
  "exit_prog c = (\<lambda>s. Exited c s)"

definition replaced_prog :: "('a, 's) prog" where
  "replaced_prog = (\<lambda>s. Replaced s)"

definition undefined_prog :: "('a, 's) prog" where
  "undefined_prog = (\<lambda>s. Undefined)"

text \<open>A loop over values fixed before it starts.\<close>

primrec for_each :: "('a \<Rightarrow> (unit, 's) prog) \<Rightarrow> 'a list \<Rightarrow> (unit, 's) prog" where
  "for_each f [] = ret ()"
| "for_each f (x # xs) = seq (f x) (for_each f xs)"

section \<open>Total correctness\<close>

text \<open>\<open>runs m s Q\<close>: from \<open>s\<close> the code returns normally, without undefined behaviour, abort or
  exit, and its result and final state satisfy \<open>Q\<close>.\<close>

definition runs :: "('a, 's) prog \<Rightarrow> 's \<Rightarrow> ('a \<Rightarrow> 's \<Rightarrow> bool) \<Rightarrow> bool" where
  "runs m s Q = (case m s of Done a s' \<Rightarrow> Q a s' | _ \<Rightarrow> False)"

lemma runs_iff: "runs m s Q \<longleftrightarrow> (\<exists>a s'. m s = Done a s' \<and> Q a s')"
  by (simp add: runs_def split: outcome.splits)

lemma runs_ret [runs_simps]: "runs (ret a) s Q \<longleftrightarrow> Q a s"
  by (simp add: runs_def ret_def)

lemma runs_bind [runs_simps]: "runs (bind m f) s Q \<longleftrightarrow> runs m s (\<lambda>a s'. runs (f a) s' Q)"
  by (simp add: runs_def bind_def split: outcome.splits)

lemma runs_seq [runs_simps]: "runs (seq m k) s Q \<longleftrightarrow> runs m s (\<lambda>_ s'. runs k s' Q)"
  by (simp add: seq_def runs_bind)

lemma runs_modify [runs_simps]: "runs (modify f) s Q \<longleftrightarrow> Q () (f s)"
  by (simp add: runs_def modify_def)

lemma runs_gets [runs_simps]: "runs (gets f) s Q \<longleftrightarrow> Q (f s) s"
  by (simp add: runs_def gets_def)

lemma runs_reads [runs_simps]: "runs (reads f) s Q \<longleftrightarrow> (\<exists>a. f s = Some a \<and> Q a s)"
  by (simp add: runs_def reads_def split: option.splits)

lemma runs_writes [runs_simps]: "runs (writes f) s Q \<longleftrightarrow> (\<exists>s'. f s = Some s' \<and> Q () s')"
  by (simp add: runs_def writes_def split: option.splits)

lemma runs_if [runs_simps]: "runs (if b then m else n) s Q \<longleftrightarrow> (if b then runs m s Q else runs n s Q)"
  by simp

lemma runs_failing [runs_simps]:
  "\<not> runs abort_prog s Q" "\<not> runs (exit_prog c) s Q" "\<not> runs undefined_prog s Q" "\<not> runs replaced_prog s Q"
  by (simp_all add: runs_def abort_prog_def exit_prog_def undefined_prog_def replaced_prog_def)

lemma runs_mono: "runs m s P \<Longrightarrow> (\<And>a s'. P a s' \<Longrightarrow> Q a s') \<Longrightarrow> runs m s Q"
  by (simp add: runs_def split: outcome.splits)

lemma runs_conj: "runs m s P \<Longrightarrow> runs m s Q \<Longrightarrow> runs m s (\<lambda>a s'. P a s' \<and> Q a s')"
  by (simp add: runs_def split: outcome.splits)

lemma runs_Done: "m s = Done a s' \<Longrightarrow> Q a s' \<Longrightarrow> runs m s Q"
  by (simp add: runs_def)

lemmas prog_defs = ret_def bind_def seq_def modify_def gets_def reads_def writes_def
  abort_prog_def exit_prog_def undefined_prog_def replaced_prog_def

section \<open>Replacing a segment of a list\<close>

definition splice :: "nat \<Rightarrow> 'a list \<Rightarrow> 'a list \<Rightarrow> 'a list" where
  "splice i new xs = take i xs @ new @ drop (i + length new) xs"

lemma length_splice [simp]: "i + length new \<le> length xs \<Longrightarrow> length (splice i new xs) = length xs"
  by (simp add: splice_def)

lemma splice_same [simp]:
  "i + length new \<le> length xs \<Longrightarrow> n = length new \<Longrightarrow> take n (drop i (splice i new xs)) = new"
  by (simp add: splice_def)

lemma nth_splice:
  "i + length new \<le> length xs \<Longrightarrow> j < length xs \<Longrightarrow>
   splice i new xs ! j = (if i \<le> j \<and> j < i + length new then new ! (j - i) else xs ! j)"
  by (auto simp: splice_def nth_append min_def)

lemma splice_other:
  assumes "i + length new \<le> length xs" "j + n \<le> length xs" "j + n \<le> i \<or> i + length new \<le> j"
  shows "take n (drop j (splice i new xs)) = take n (drop j xs)"
  using assms by (intro nth_equalityI) (auto simp: nth_splice)

lemma splice_all: "length new = length xs \<Longrightarrow> splice 0 new xs = new"
  by (simp add: splice_def)

lemma splice_append_left: "i + length new \<le> length xs \<Longrightarrow> splice i new (xs @ ys) = splice i new xs @ ys"
  by (simp add: splice_def)

lemma splice_append_right:
  "length xs \<le> i \<Longrightarrow> splice i new (xs @ ys) = xs @ splice (i - length xs) new ys"
  by (simp add: splice_def)

section \<open>Counting in a word\<close>

lemma unat_inc: "i < n \<Longrightarrow> unat (i + 1) = Suc (unat i)" for i n :: "'a::len word"
proof -
  assume "i < n"
  then have "Suc (unat i) \<le> unat n"
    by (simp add: word_less_nat_alt Suc_leI)
  also have "unat n < 2 ^ LENGTH('a)"
    by (rule unsigned_less)
  finally show ?thesis
    by (simp add: unat_word_ariths)
qed

lemma unat_of_nat_small: "n < 2 ^ 64 \<Longrightarrow> unat (of_nat n :: u64) = n"
  by (simp add: unat_of_nat)

end
