(* ===== verification/Memory.thy ===== *)
theory Memory
  imports Prelude
begin

text \<open>
  The C memory the program runs on: pointers, the bytes of objects, and what the source uses of
  the C library (\<open>malloc\<close>, \<open>realloc\<close>, \<open>free\<close>, \<open>memcpy\<close>, \<open>strcpy\<close>, \<open>strlen\<close>, \<open>snprintf\<close>, \<open>errno\<close>
  and the standard streams). A pointer is an object and a byte offset, so arithmetic on a pointer
  stays in its object and two live objects never overlap. Integer addresses have no object:
  \<open>null\<close> is the address 0, and no access through them is defined.

  An object is a list of bytes. A byte holds a character, is uninitialised, or is the \<open>i\<close>-th
  byte of a pointer or a 64-bit integer stored there; reading such a value back needs all eight
  bytes of it in order. The allocator's answers are not determined by the program: the state
  carries an oracle saying which of the coming requests are granted.
\<close>

section \<open>Pointers and bytes\<close>

text \<open>\<open>Blk n\<close> is the \<open>n\<close>-th object \<open>malloc\<close> gave out, \<open>Sym l x\<close> the object named \<open>x\<close> of the
  \<open>l\<close>-th shared object loaded, \<open>Ext n\<close> an opaque handle (\<open>DIR *\<close>, \<open>dlopen\<close>).\<close>

datatype base = NoBase | Blk nat | Sym nat string | Ext nat

datatype ptr = Ptr (pbase: base) (poff: int)

definition null :: ptr where
  "null = Ptr NoBase 0"

definition ptr_add :: "ptr \<Rightarrow> int \<Rightarrow> ptr" where
  "ptr_add p k = Ptr (pbase p) (poff p + k)"

lemma ptr_add_simps [simp]:
  "pbase (ptr_add p k) = pbase p" "poff (ptr_add p k) = poff p + k"
  "ptr_add (Ptr b i) k = Ptr b (i + k)"
  by (simp_all add: ptr_add_def)

lemma null_simps [simp]:
  "pbase null = NoBase" "Ptr (Blk n) i \<noteq> null" "null \<noteq> Ptr (Blk n) i"
  "Ptr (Ext n) i \<noteq> null" "null \<noteq> Ptr (Ext n) i" "Ptr (Sym n x) i \<noteq> null" "null \<noteq> Ptr (Sym n x) i"
  by (simp_all add: null_def)

datatype val = VPtr ptr | VWord u64

datatype mval = Undef | Chr char | Frag val nat

definition enc :: "val \<Rightarrow> mval list" where
  "enc v = map (Frag v) [0..<8]"

definition dec :: "mval list \<Rightarrow> val option" where
  "dec bs = (case bs of Frag v i # _ \<Rightarrow> if bs = enc v then Some v else None | _ \<Rightarrow> None)"

lemma length_enc [simp]: "length (enc v) = 8"
  by (simp add: enc_def)

lemma dec_enc [simp]: "dec (enc v) = Some v"
  by (simp add: dec_def enc_def upt_rec)

lemma dec_iff: "dec bs = Some v \<longleftrightarrow> bs = enc v"
proof
  assume "dec bs = Some v"
  then show "bs = enc v"
    by (auto simp: dec_def split: list.splits mval.splits if_splits)
qed simp

lemma enc_inject [simp]: "enc v = enc w \<longleftrightarrow> v = w"
  using dec_enc [of v] dec_enc [of w] by (metis option.inject)

lemma enc_nonempty [simp]: "enc v \<noteq> []"
  using length_enc [of v] by (metis list.size(3) zero_neq_numeral)

text \<open>The bytes of a C string, and the string found at the start of a run of bytes: \<open>None\<close> where
  no terminating NUL is reached over initialised characters.\<close>

definition cstr :: "string \<Rightarrow> mval list" where
  "cstr x = map Chr x @ [Chr (CHR 0x00)]"

fun str_at :: "mval list \<Rightarrow> string option" where
  "str_at (Chr c # bs) = (if c = CHR 0x00 then Some [] else map_option (Cons c) (str_at bs))"
| "str_at _ = None"

definition c_string :: "string \<Rightarrow> bool" where
  "c_string x = list_all (\<lambda>c. c \<noteq> CHR 0x00) x"

lemma length_cstr [simp]: "length (cstr x) = Suc (length x)"
  by (simp add: cstr_def)

lemma c_string_simps [simp]:
  "c_string []" "c_string (c # x) \<longleftrightarrow> c \<noteq> CHR 0x00 \<and> c_string x"
  "c_string (x @ y) \<longleftrightarrow> c_string x \<and> c_string y"
  by (simp_all add: c_string_def)

lemma c_string_take [simp]: "c_string x \<Longrightarrow> c_string (take n x)"
  by (auto simp: c_string_def list_all_iff dest: in_set_takeD)

lemma str_at_cstr: "c_string x \<Longrightarrow> str_at (cstr x @ bs) = Some x"
  by (induction x) (simp_all add: cstr_def c_string_def)

lemma str_at_cstr_exact [simp]: "c_string x \<Longrightarrow> str_at (cstr x) = Some x"
  using str_at_cstr [of x "[]"] by simp

lemma str_at_c_string: "str_at bs = Some x \<Longrightarrow> c_string x"
  by (induction bs arbitrary: x rule: str_at.induct) (auto split: if_splits)

section \<open>The state of the process\<close>

record proc =
  blocks :: "base \<Rightarrow> mval list option"
  next_blk :: nat
  grants :: "nat \<Rightarrow> bool"
  requests :: nat
  errno_of :: int
  stdout_of :: string
  stderr_of :: string

text \<open>Objects not yet given out are not there, and integer addresses have no object.\<close>

definition mem_ok :: "'z proc_scheme \<Rightarrow> bool" where
  "mem_ok s \<longleftrightarrow> (\<forall>n \<ge> next_blk s. blocks s (Blk n) = None) \<and> blocks s NoBase = None"

text \<open>No coming request is refused.\<close>

definition never_oom :: "'z proc_scheme \<Rightarrow> bool" where
  "never_oom s \<longleftrightarrow> (\<forall>k \<ge> requests s. grants s k)"

lemma mem_okD: "mem_ok s \<Longrightarrow> next_blk s \<le> n \<Longrightarrow> blocks s (Blk n) = None"
  by (simp add: mem_ok_def)

lemma mem_ok_fresh: "mem_ok s \<Longrightarrow> blocks s (Blk n) = Some bs \<Longrightarrow> n < next_blk s"
  using mem_okD [of s n] by (cases "n < next_blk s") auto

lemma never_oom_now: "never_oom s \<Longrightarrow> grants s (requests s)"
  by (simp add: never_oom_def)

section \<open>Access\<close>

definition peek :: "'z proc_scheme \<Rightarrow> ptr \<Rightarrow> nat \<Rightarrow> mval list option" where
  "peek s p n = (case blocks s (pbase p) of
       None \<Rightarrow> None
     | Some bs \<Rightarrow> if 0 \<le> poff p \<and> nat (poff p) + n \<le> length bs
                  then Some (take n (drop (nat (poff p)) bs)) else None)"

definition poke :: "ptr \<Rightarrow> mval list \<Rightarrow> 'z proc_scheme \<Rightarrow> 'z proc_scheme option" where
  "poke p new s = (case blocks s (pbase p) of
       None \<Rightarrow> None
     | Some bs \<Rightarrow> if 0 \<le> poff p \<and> nat (poff p) + length new \<le> length bs
                  then Some (s\<lparr>blocks := (blocks s)(pbase p \<mapsto> splice (nat (poff p)) new bs)\<rparr>)
                  else None)"

definition load_bytes :: "ptr \<Rightarrow> nat \<Rightarrow> (mval list, 'z proc_scheme) prog" where
  "load_bytes p n = reads (\<lambda>s. peek s p n)"

definition store_bytes :: "ptr \<Rightarrow> mval list \<Rightarrow> (unit, 'z proc_scheme) prog" where
  "store_bytes p new = writes (poke p new)"

definition as_word :: "val option \<Rightarrow> u64 option" where
  "as_word v = (case v of Some (VWord w) \<Rightarrow> Some w | _ \<Rightarrow> None)"

definition as_ptr :: "val option \<Rightarrow> ptr option" where
  "as_ptr v = (case v of Some (VPtr p) \<Rightarrow> Some p | _ \<Rightarrow> None)"

definition load_word :: "ptr \<Rightarrow> (u64, 'z proc_scheme) prog" where
  "load_word p = reads (\<lambda>s. Option.bind (peek s p 8) (\<lambda>bs. as_word (dec bs)))"

definition load_ptr :: "ptr \<Rightarrow> (ptr, 'z proc_scheme) prog" where
  "load_ptr p = reads (\<lambda>s. Option.bind (peek s p 8) (\<lambda>bs. as_ptr (dec bs)))"

definition store_word :: "ptr \<Rightarrow> u64 \<Rightarrow> (unit, 'z proc_scheme) prog" where
  "store_word p w = store_bytes p (enc (VWord w))"

definition store_ptr :: "ptr \<Rightarrow> ptr \<Rightarrow> (unit, 'z proc_scheme) prog" where
  "store_ptr p q = store_bytes p (enc (VPtr q))"

lemma as_simps [simp]:
  "as_word (Some (VWord w)) = Some w" "as_ptr (Some (VPtr p)) = Some p"
  by (simp_all add: as_word_def as_ptr_def)

lemma as_word_iff: "as_word v = Some w \<longleftrightarrow> v = Some (VWord w)"
  by (simp add: as_word_def split: option.splits val.splits)

lemma as_ptr_iff: "as_ptr v = Some p \<longleftrightarrow> v = Some (VPtr p)"
  by (simp add: as_ptr_def split: option.splits val.splits)

lemmas dec_simps = dec_iff as_word_iff as_ptr_iff

text \<open>The string a pointer points to.\<close>

definition str_of_ptr :: "'z proc_scheme \<Rightarrow> ptr \<Rightarrow> string option" where
  "str_of_ptr s p = (case blocks s (pbase p) of
       None \<Rightarrow> None
     | Some bs \<Rightarrow> if 0 \<le> poff p then str_at (drop (nat (poff p)) bs) else None)"

definition load_str :: "ptr \<Rightarrow> (string, 'z proc_scheme) prog" where
  "load_str p = reads (\<lambda>s. str_of_ptr s p)"

section \<open>The allocator\<close>

definition malloc :: "u64 \<Rightarrow> (ptr, 'z proc_scheme) prog" where
  "malloc n = (\<lambda>s.
     let s1 = s\<lparr>requests := Suc (requests s)\<rparr> in
     if grants s (requests s)
     then Done (Ptr (Blk (next_blk s)) 0)
            (s1\<lparr>blocks := (blocks s)(Blk (next_blk s) \<mapsto> replicate (unat n) Undef),
                next_blk := Suc (next_blk s)\<rparr>)
     else Done null s1)"

text \<open>\<open>free(NULL)\<close> does nothing; anything but the start of a live \<open>malloc\<close> object is undefined.\<close>

definition free :: "ptr \<Rightarrow> (unit, 'z proc_scheme) prog" where
  "free p = (\<lambda>s.
     if p = null then Done () s
     else case p of
       Ptr (Blk n) i \<Rightarrow>
         if i = 0 \<and> blocks s (Blk n) \<noteq> None
         then Done () (s\<lparr>blocks := (blocks s)(Blk n := None)\<rparr>) else Undefined
     | _ \<Rightarrow> Undefined)"

text \<open>A successful \<open>realloc\<close> gives a new object that starts with the old one's bytes, and the old
  pointer is dead; a refused one leaves the old object as it is. Size 0 is left undefined.\<close>

definition realloc :: "ptr \<Rightarrow> u64 \<Rightarrow> (ptr, 'z proc_scheme) prog" where
  "realloc p n = (\<lambda>s.
     if p = null then malloc n s
     else case p of
       Ptr (Blk b) i \<Rightarrow>
         (case blocks s (Blk b) of
            None \<Rightarrow> Undefined
          | Some bs \<Rightarrow>
              if i \<noteq> 0 \<or> n = 0 then Undefined
              else let s1 = s\<lparr>requests := Suc (requests s)\<rparr> in
                if grants s (requests s)
                then Done (Ptr (Blk (next_blk s)) 0)
                       (s1\<lparr>blocks := (blocks s)(Blk b := None,
                              Blk (next_blk s) \<mapsto>
                                take (unat n) bs @ replicate (unat n - length bs) Undef),
                           next_blk := Suc (next_blk s)\<rparr>)
                else Done null s1)
     | _ \<Rightarrow> Undefined)"

section \<open>Strings and streams\<close>

definition strcpy :: "ptr \<Rightarrow> string \<Rightarrow> (unit, 'z proc_scheme) prog" where
  "strcpy p x = store_bytes p (cstr x)"

text \<open>\<open>snprintf p n\<close> of a format whose expansion is \<open>x\<close>; the value returned is the length of
  \<open>x\<close>.\<close>

definition snprintf :: "ptr \<Rightarrow> u64 \<Rightarrow> string \<Rightarrow> (int, 'z proc_scheme) prog" where
  "snprintf p n x =
     (if n = 0 then ret (int (length x))
      else seq (store_bytes p (cstr (take (unat n - 1) x))) (ret (int (length x))))"

definition strlen :: "string \<Rightarrow> u64" where
  "strlen x = of_nat (length x)"

definition print_out :: "string \<Rightarrow> (unit, 'z proc_scheme) prog" where
  "print_out x = modify (\<lambda>s. s\<lparr>stdout_of := stdout_of s @ x\<rparr>)"

definition print_err :: "string \<Rightarrow> (unit, 'z proc_scheme) prog" where
  "print_err x = modify (\<lambda>s. s\<lparr>stderr_of := stderr_of s @ x\<rparr>)"

definition newline :: char where "newline = CHR 0x0A"

definition nl :: string where "nl = [newline]"

text \<open>\<open>%d\<close>.\<close>

fun show_nat :: "nat \<Rightarrow> string" where
  "show_nat n = (if n < 10 then [char_of (48 + n)] else show_nat (n div 10) @ [char_of (48 + n mod 10)])"

definition show_int :: "int \<Rightarrow> string" where
  "show_int i = (if i < 0 then ''-'' @ show_nat (nat (- i)) else show_nat (nat i))"

section \<open>Laws of access and of the allocator\<close>

lemma runs_load_bytes [runs_simps]: "runs (load_bytes p n) s Q \<longleftrightarrow> (\<exists>bs. peek s p n = Some bs \<and> Q bs s)"
  by (simp add: load_bytes_def runs_simps)

lemma runs_store_bytes [runs_simps]: "runs (store_bytes p new) s Q \<longleftrightarrow> (\<exists>s'. poke p new s = Some s' \<and> Q () s')"
  by (simp add: store_bytes_def runs_simps)

lemma runs_load_word [runs_simps]:
  "runs (load_word p) s Q \<longleftrightarrow> (\<exists>w. peek s p 8 = Some (enc (VWord w)) \<and> Q w s)"
  by (auto simp: load_word_def runs_reads bind_eq_Some_conv dec_simps)

lemma runs_load_ptr [runs_simps]:
  "runs (load_ptr p) s Q \<longleftrightarrow> (\<exists>q. peek s p 8 = Some (enc (VPtr q)) \<and> Q q s)"
  by (auto simp: load_ptr_def runs_reads bind_eq_Some_conv dec_simps)

lemma runs_load_str [runs_simps]:
  "runs (load_str p) s Q \<longleftrightarrow> (\<exists>x. str_of_ptr s p = Some x \<and> Q x s)"
  by (simp add: load_str_def runs_simps)

lemma runs_malloc_ok:
  "grants s (requests s) \<Longrightarrow>
   runs (malloc n) s Q \<longleftrightarrow> Q (Ptr (Blk (next_blk s)) 0)
     (s\<lparr>requests := Suc (requests s),
        blocks := (blocks s)(Blk (next_blk s) \<mapsto> replicate (unat n) Undef),
        next_blk := Suc (next_blk s)\<rparr>)"
  by (simp add: runs_def malloc_def Let_def)

lemma runs_malloc_fail:
  "\<not> grants s (requests s) \<Longrightarrow> runs (malloc n) s Q \<longleftrightarrow> Q null (s\<lparr>requests := Suc (requests s)\<rparr>)"
  by (simp add: runs_def malloc_def Let_def)

lemma runs_free_null [runs_simps]: "runs (free null) s Q \<longleftrightarrow> Q () s"
  by (simp add: runs_def free_def)

lemma runs_free [runs_simps]:
  "runs (free (Ptr (Blk n) 0)) s Q \<longleftrightarrow>
   blocks s (Blk n) \<noteq> None \<and> Q () (s\<lparr>blocks := (blocks s)(Blk n := None)\<rparr>)"
  by (simp add: runs_def free_def)

lemma runs_print [runs_simps]:
  "runs (print_out x) s Q \<longleftrightarrow> Q () (s\<lparr>stdout_of := stdout_of s @ x\<rparr>)"
  "runs (print_err x) s Q \<longleftrightarrow> Q () (s\<lparr>stderr_of := stderr_of s @ x\<rparr>)"
  by (simp_all add: print_out_def print_err_def runs_simps)

section \<open>Printing in a loop\<close>

text \<open>On any heap \<open>B\<close> the code prints \<open>x\<close> and does nothing else.\<close>

definition prints :: "(unit, 'z proc_scheme) prog \<Rightarrow> (base \<Rightarrow> mval list option) \<Rightarrow> string \<Rightarrow> bool" where
  "prints m B x \<longleftrightarrow> (\<forall>s. blocks s = B \<longrightarrow> (\<forall>Q. runs m s Q \<longleftrightarrow> Q () (s\<lparr>stdout_of := stdout_of s @ x\<rparr>)))"

lemma printsD: "prints m (blocks s) x \<Longrightarrow> runs m s Q \<longleftrightarrow> Q () (s\<lparr>stdout_of := stdout_of s @ x\<rparr>)"
  by (simp add: prints_def)

lemma prints_each:
  assumes "\<And>i. i \<in> set xs \<Longrightarrow> prints (f i) B (g i)"
  shows "prints (for_each f xs) B (concat (map g xs))"
  using assms
proof (induction xs)
  case Nil
  then show ?case by (simp add: prints_def runs_ret)
next
  case (Cons i xs)
  then have "prints (f i) B (g i)" "prints (for_each f xs) B (concat (map g xs))" by simp_all
  then show ?case by (simp add: prints_def runs_seq)
qed

lemma prints_seq: "prints m B x \<Longrightarrow> prints m' B y \<Longrightarrow> prints (seq m m') B (x @ y)"
  by (simp add: prints_def runs_seq)

section \<open>Segments of an object\<close>

text \<open>An object written as three stretches of bytes is read and written at the middle one.\<close>

lemma peek_seg:
  "blocks s b = Some (xs @ ys @ zs) \<Longrightarrow> i = int (length xs) \<Longrightarrow> n = length ys \<Longrightarrow>
   peek s (Ptr b i) n = Some ys"
  by (simp add: peek_def)

lemma poke_seg:
  "blocks s b = Some (xs @ ys @ zs) \<Longrightarrow> i = int (length xs) \<Longrightarrow> length new = length ys \<Longrightarrow>
   poke (Ptr b i) new s = Some (s\<lparr>blocks := (blocks s)(b \<mapsto> xs @ new @ zs)\<rparr>)"
  by (simp add: poke_def splice_def)

lemma str_of_ptr_seg:
  "blocks s b = Some (xs @ cstr x @ zs) \<Longrightarrow> i = int (length xs) \<Longrightarrow> c_string x \<Longrightarrow>
   str_of_ptr s (Ptr b i) = Some x"
  by (simp add: str_of_ptr_def str_at_cstr)

lemma peek_no_object: "blocks s (pbase p) = None \<Longrightarrow> peek s p n = None"
  by (simp add: peek_def)

lemma poke_no_object: "blocks s (pbase p) = None \<Longrightarrow> poke p new s = None"
  by (simp add: poke_def)

lemma mem_ok_free [frame_simps]: "mem_ok s \<Longrightarrow> mem_ok (s\<lparr>blocks := (blocks s)(b := None)\<rparr>)"
  by (simp add: mem_ok_def)

section \<open>What a piece of code does to the heap\<close>

text \<open>\<open>heap_only s s'\<close>: only the heap and the allocator's counters differ. \<open>untouched B s s'\<close>: no
  object outside \<open>B\<close> differs. \<open>healthy s\<close>: the heap is well formed and no request will be refused.
  \<open>heap_ext s s'\<close>: only the heap differs, it is well formed again, and objects made meanwhile are
  new.\<close>

definition heap_only :: "'z proc_scheme \<Rightarrow> 'z proc_scheme \<Rightarrow> bool" where
  "heap_only s s' \<longleftrightarrow> (\<exists>f n k. s' = s\<lparr>blocks := f, next_blk := n, requests := k\<rparr>)"

definition untouched :: "base set \<Rightarrow> 'z proc_scheme \<Rightarrow> 'z proc_scheme \<Rightarrow> bool" where
  "untouched B s s' \<longleftrightarrow> (\<forall>b. b \<notin> B \<longrightarrow> blocks s' b = blocks s b)"

definition healthy :: "'z proc_scheme \<Rightarrow> bool" where
  "healthy s \<longleftrightarrow> mem_ok s \<and> never_oom s"

definition heap_ext :: "'z proc_scheme \<Rightarrow> 'z proc_scheme \<Rightarrow> bool" where
  "heap_ext s s' \<longleftrightarrow> heap_only s s' \<and> mem_ok s' \<and> next_blk s \<le> next_blk s' \<and> requests s \<le> requests s'"

lemma heap_only_same: "heap_only s (s\<lparr>blocks := f, next_blk := n, requests := k\<rparr>)"
  by (auto simp: heap_only_def)

lemma heap_only_refl [simp]: "heap_only s s"
  using heap_only_same [where s = s and f = "blocks s" and n = "next_blk s" and k = "requests s"]
  by simp

lemma heap_only_upd [simp]:
  "heap_only s (s\<lparr>blocks := f\<rparr>)" "heap_only s (s\<lparr>requests := k, blocks := f, next_blk := n\<rparr>)"
  "heap_only s (s\<lparr>requests := k\<rparr>)"
proof -
  have "s\<lparr>requests := k, blocks := f, next_blk := n\<rparr> = s\<lparr>blocks := f, next_blk := n, requests := k\<rparr>"
    by simp
  then show "heap_only s (s\<lparr>requests := k, blocks := f, next_blk := n\<rparr>)"
    using heap_only_same by metis
  show "heap_only s (s\<lparr>blocks := f\<rparr>)" "heap_only s (s\<lparr>requests := k\<rparr>)"
    using heap_only_same [where s = s and f = f and n = "next_blk s" and k = "requests s"]
      heap_only_same [where s = s and f = "blocks s" and n = "next_blk s" and k = k]
    by simp_all
qed

lemma heap_only_trans: "heap_only s s1 \<Longrightarrow> heap_only s1 s2 \<Longrightarrow> heap_only s s2"
  unfolding heap_only_def by fastforce

lemma heap_only_proc:
  assumes "heap_only s s'"
  shows "grants s' = grants s" "errno_of s' = errno_of s" "stdout_of s' = stdout_of s"
    "stderr_of s' = stderr_of s"
  using assms by (auto simp: heap_only_def)

lemma untouched_refl [simp]: "untouched B s s"
  by (simp add: untouched_def)

lemma untouched_trans: "untouched B s s1 \<Longrightarrow> untouched B s1 s2 \<Longrightarrow> untouched B s s2"
  by (simp add: untouched_def)

lemma untouched_mono: "untouched A s s' \<Longrightarrow> A \<subseteq> B \<Longrightarrow> untouched B s s'"
  by (auto simp: untouched_def)

lemma untouchedD: "untouched B s s' \<Longrightarrow> b \<notin> B \<Longrightarrow> blocks s' b = blocks s b"
  by (simp add: untouched_def)

lemma heap_ext_refl: "mem_ok s \<Longrightarrow> heap_ext s s"
  by (simp add: heap_ext_def)

lemma heap_ext_trans: "heap_ext s s1 \<Longrightarrow> heap_ext s1 s2 \<Longrightarrow> heap_ext s s2"
  by (auto simp: heap_ext_def intro: heap_only_trans)

lemma heap_ext_mem_ok: "heap_ext s s' \<Longrightarrow> mem_ok s'"
  by (simp add: heap_ext_def)

lemma heap_ext_healthy: "healthy s \<Longrightarrow> heap_ext s s' \<Longrightarrow> healthy s'"
  by (auto simp: heap_ext_def healthy_def never_oom_def heap_only_proc)

lemma healthy_mem_ok: "healthy s \<Longrightarrow> mem_ok s"
  by (simp add: healthy_def)

lemma healthy_fresh: "healthy s \<Longrightarrow> next_blk s \<le> n \<Longrightarrow> blocks s (Blk n) = None"
  by (simp add: healthy_def mem_okD)

lemma healthy_live: "healthy s \<Longrightarrow> blocks s (Blk n) = Some bs \<Longrightarrow> n < next_blk s"
  by (simp add: healthy_def mem_ok_fresh)

text \<open>The rules of the allocator: whatever it answers, and on a healthy heap.\<close>

lemma runs_malloc_any:
  assumes "mem_ok s"
    and "\<And>s'. heap_ext s s' \<Longrightarrow> grants s (requests s) \<Longrightarrow>
      blocks s' = (blocks s)(Blk (next_blk s) \<mapsto> replicate (unat n) Undef) \<Longrightarrow>
      next_blk s' = Suc (next_blk s) \<Longrightarrow> requests s' = Suc (requests s) \<Longrightarrow> Q (Ptr (Blk (next_blk s)) 0) s'"
    and "\<And>s'. heap_ext s s' \<Longrightarrow> blocks s' = blocks s \<Longrightarrow> \<not> grants s (requests s) \<Longrightarrow>
      requests s' = Suc (requests s) \<Longrightarrow> Q null s'"
  shows "runs (malloc n) s Q"
proof (cases "grants s (requests s)")
  case True
  with assms(1,2) show ?thesis by (auto simp: runs_malloc_ok heap_ext_def mem_ok_def)
next
  case False
  with assms(1,3) show ?thesis by (auto simp: runs_malloc_fail heap_ext_def mem_ok_def)
qed

lemma runs_malloc:
  assumes "healthy s"
    and "\<And>s'. heap_ext s s' \<Longrightarrow> blocks s' = (blocks s)(Blk (next_blk s) \<mapsto> replicate (unat n) Undef) \<Longrightarrow>
      next_blk s' = Suc (next_blk s) \<Longrightarrow> Q (Ptr (Blk (next_blk s)) 0) s'"
  shows "runs (malloc n) s Q"
  by (rule runs_malloc_any) (use assms in \<open>auto simp: healthy_def never_oom_def\<close>)

lemma runs_realloc:
  assumes "healthy s" "blocks s (Blk b) = Some bs" "n \<noteq> 0"
    and "\<And>s'. heap_ext s s' \<Longrightarrow> blocks s' = (blocks s)(Blk b := None,
        Blk (next_blk s) \<mapsto> take (unat n) bs @ replicate (unat n - length bs) Undef) \<Longrightarrow>
      next_blk s' = Suc (next_blk s) \<Longrightarrow> Q (Ptr (Blk (next_blk s)) 0) s'"
  shows "runs (realloc (Ptr (Blk b) 0) n) s Q"
  using assms
  by (auto simp: healthy_def never_oom_def runs_def realloc_def Let_def heap_ext_def mem_ok_def)

lemma runs_realloc_any:
  assumes "mem_ok s" "blocks s (Blk b) = Some bs" "n \<noteq> 0"
    and "\<And>s'. heap_ext s s' \<Longrightarrow> grants s (requests s) \<Longrightarrow> blocks s' = (blocks s)(Blk b := None,
        Blk (next_blk s) \<mapsto> take (unat n) bs @ replicate (unat n - length bs) Undef) \<Longrightarrow>
      Q (Ptr (Blk (next_blk s)) 0) s'"
    and "\<And>s'. heap_ext s s' \<Longrightarrow> blocks s' = blocks s \<Longrightarrow> \<not> grants s (requests s) \<Longrightarrow> Q null s'"
  shows "runs (realloc (Ptr (Blk b) 0) n) s Q"
proof (cases "grants s (requests s)")
  case True
  with assms(1-4) show ?thesis
    by (auto simp: runs_def realloc_def Let_def heap_ext_def mem_ok_def)
next
  case False
  with assms(1-3,5) show ?thesis
    by (auto simp: runs_def realloc_def Let_def heap_ext_def mem_ok_def)
qed

lemma heap_ext_store:
  assumes "mem_ok s" "blocks s b = Some bs" "b \<noteq> NoBase"
  shows "heap_ext s (s\<lparr>blocks := (blocks s)(b \<mapsto> bs')\<rparr>)"
  using assms mem_ok_fresh [of s]
  by (cases b) (auto simp: heap_ext_def mem_ok_def)

lemma heap_ext_free:
  assumes "mem_ok s"
  shows "heap_ext s (s\<lparr>blocks := (blocks s)(b := None)\<rparr>)"
  using assms by (auto simp: heap_ext_def mem_ok_def)

lemma healthy_free: "healthy s \<Longrightarrow> healthy (s\<lparr>blocks := (blocks s)(b := None)\<rparr>)"
  using heap_ext_free heap_ext_healthy healthy_mem_ok by blast

lemma healthy_io [simp]: "healthy (s\<lparr>stdout_of := x\<rparr>) = healthy s" "healthy (s\<lparr>stderr_of := x\<rparr>) = healthy s"
  by (simp_all add: healthy_def mem_ok_def never_oom_def)

lemma free_again:
  assumes "blocks s b = None" "untouched {b} s s'"
  shows "(blocks s')(b := None) = blocks s"
  using assms by (auto simp: untouched_def fun_eq_iff)

end
