(* ===== verification/Errm.thy ===== *)
theory Errm
  imports Memory
begin

text \<open>
  The error manager of \<open>src/errm\<close>: the thread's error code and the stack of deferred calls.
  A function written with \<open>edf_func1\<close> and its kin (here \<open>edf\<close>) clears the error code, pushes a
  frame, runs its body, runs the calls the body deferred and pops the frame. A frame holds two
  arrays of calls: \<open>static_defer\<close> copies the argument object into the frame's byte pool, \<open>defer\<close>
  keeps the argument pointer.

  Function pointers are names of type \<open>'h\<close>; what a named function does is the parameter \<open>call\<close> of
  the operations that call one. The locale \<open>defer_handlers\<close> is the contract such functions keep,
  and the rules for whole \<open>edf\<close> functions are proved inside it.
\<close>

section \<open>Error codes\<close>

datatype error_code =
    No_Error
  | NO_PERMISSIONS
  | NOT_ENOUGH_MEMORY
  | NOT_THE_EXPECTED
  | DOES_NOT_EXIST
  | LIMIT_EXCEEDED
  | PARSING_ERROR
  | DYN_SHARED_OBJ_ERROR
  | UNKNOWN_ERROR

text \<open>The value of the C enumerator; \<open>No_Error\<close> is the 0 that \<open>errm_clear\<close> stores.\<close>

fun code_of :: "error_code \<Rightarrow> nat" where
  "code_of No_Error = 0"
| "code_of NO_PERMISSIONS = 1"
| "code_of NOT_ENOUGH_MEMORY = 2"
| "code_of NOT_THE_EXPECTED = 3"
| "code_of DOES_NOT_EXIST = 4"
| "code_of LIMIT_EXCEEDED = 5"
| "code_of PARSING_ERROR = 6"
| "code_of DYN_SHARED_OBJ_ERROR = 7"
| "code_of UNKNOWN_ERROR = 8"

definition ERROR_CODES_LEN :: nat where
  "ERROR_CODES_LEN = 9"

lemma code_of_inject [simp]: "code_of a = code_of b \<longleftrightarrow> a = b"
  by (cases a; cases b) simp_all

lemma code_of_zero [simp]: "code_of c = 0 \<longleftrightarrow> c = No_Error" "0 < code_of c \<longleftrightarrow> c \<noteq> No_Error"
  by (cases c; simp)+

instantiation error_code :: linorder
begin
definition less_eq_error_code :: "error_code \<Rightarrow> error_code \<Rightarrow> bool" where
  "less_eq_error_code a b = (code_of a \<le> code_of b)"
definition less_error_code :: "error_code \<Rightarrow> error_code \<Rightarrow> bool" where
  "less_error_code a b = (code_of a < code_of b)"
instance
  by standard (auto simp: less_eq_error_code_def less_error_code_def)
end

definition error_messages :: "string list" where
  "error_messages =
     [[],
      ''Permission denied'',
      ''Not enough memory available'',
      ''Not the expected'',
      ''Does not exist'',
      ''Limit exceeded'',
      ''Parsing error'',
      ''Can't load (symbols from) a Dynamic Shared Oject'',
      ''An unkown error occured'']"

section \<open>State\<close>

definition STACK_SIZE :: nat where "STACK_SIZE = 12"
definition MAX_DYN_DEFERS :: nat where "MAX_DYN_DEFERS = 12"
definition MAX_STATIC_DEFERS :: nat where "MAX_STATIC_DEFERS = 6"
definition POOL_SIZE :: nat where "POOL_SIZE = MAX_STATIC_DEFERS * 8"

lemmas errm_consts = STACK_SIZE_def MAX_DYN_DEFERS_def MAX_STATIC_DEFERS_def POOL_SIZE_def

text \<open>A frame of the defer stack (\<open>struct defer_data_t\<close>). An array slot never written holds
  \<open>None\<close>; a static argument is its offset in the pool.\<close>

record 'h frame =
  static_defers :: "'h option list"
  static_defer_args :: "nat list"
  dyn_defers :: "'h option list"
  dyn_defer_args :: "ptr list"
  pool_data :: "mval list"
  pool_used :: u64
  static_len :: nat
  dyn_len :: nat

record 'h errm_state = proc +
  err_code :: error_code
  frames :: "'h frame list"
  curr :: int

definition empty_frame :: "'h frame" where
  "empty_frame =
     \<lparr>static_defers = replicate MAX_STATIC_DEFERS None,
      static_defer_args = replicate MAX_STATIC_DEFERS 0,
      dyn_defers = replicate MAX_DYN_DEFERS None,
      dyn_defer_args = replicate MAX_DYN_DEFERS null,
      pool_data = replicate POOL_SIZE Undef, pool_used = 0, static_len = 0, dyn_len = 0\<rparr>"

section \<open>Operations\<close>

definition errm_error :: "error_code \<Rightarrow> (unit, ('h, 'z) errm_state_scheme) prog" where
  "errm_error c = modify (\<lambda>s. s\<lparr>err_code := c\<rparr>)"

definition errm_clear :: "(unit, ('h, 'z) errm_state_scheme) prog" where
  "errm_clear = modify (\<lambda>s. s\<lparr>err_code := No_Error\<rparr>)"

definition errm_error_code :: "(nat, ('h, 'z) errm_state_scheme) prog" where
  "errm_error_code = gets (\<lambda>s. code_of (err_code s))"

text \<open>\<open>if (Errored) return A;\<close> followed by the rest of the function.\<close>

definition on_error_return ::
  "'a \<Rightarrow> ('a, ('h, 'z) errm_state_scheme) prog \<Rightarrow> ('a, ('h, 'z) errm_state_scheme) prog" where
  "on_error_return A k = bind errm_error_code (\<lambda>c. if c \<noteq> 0 then ret A else k)"

definition defer_push :: "(int, ('h, 'z) errm_state_scheme) prog" where
  "defer_push = bind (gets curr) (\<lambda>c.
     if int STACK_SIZE - 1 \<le> c then ret 0
     else seq (modify (\<lambda>s. s\<lparr>curr := curr s + 1\<rparr>)) (ret 1))"

definition defer_pop :: "(int, ('h, 'z) errm_state_scheme) prog" where
  "defer_pop = bind (gets curr) (\<lambda>c.
     if c \<le> -1 then ret 0
     else seq (modify (\<lambda>s. s\<lparr>curr := curr s - 1\<rparr>)) (ret 1))"

text \<open>\<open>defer_stack.stack + defer_stack.curr\<close> as an index; using it outside the array is
  undefined.\<close>

definition curr_index :: "('h, 'z) errm_state_scheme \<Rightarrow> nat option" where
  "curr_index s = (if 0 \<le> curr s \<and> nat (curr s) < length (frames s) then Some (nat (curr s)) else None)"

definition set_frame ::
  "nat \<Rightarrow> 'h frame \<Rightarrow> ('h, 'z) errm_state_scheme \<Rightarrow> ('h, 'z) errm_state_scheme" where
  "set_frame i fr s = s\<lparr>frames := (frames s)[i := fr]\<rparr>"

text \<open>The fields \<open>static_defer\<close> and \<open>defer\<close> write in the current frame.\<close>

definition add_static :: "'h \<Rightarrow> u64 \<Rightarrow> mval list \<Rightarrow> 'h frame \<Rightarrow> 'h frame" where
  "add_static handle n arg fr = fr\<lparr>
     pool_used := pool_used fr + n,
     pool_data := splice (unat (pool_used fr)) (take (unat n) arg) (pool_data fr),
     static_defer_args := (static_defer_args fr)[static_len fr := unat (pool_used fr)],
     static_defers := (static_defers fr)[static_len fr := Some handle],
     static_len := static_len fr + 1\<rparr>"

definition add_dyn :: "'h \<Rightarrow> ptr \<Rightarrow> 'h frame \<Rightarrow> 'h frame" where
  "add_dyn handle arg fr = fr\<lparr>
     dyn_defer_args := (dyn_defer_args fr)[dyn_len fr := arg],
     dyn_defers := (dyn_defers fr)[dyn_len fr := Some handle],
     dyn_len := dyn_len fr + 1\<rparr>"

text \<open>The object at \<open>arg\<close> is given by its bytes; \<open>memcpy\<close> is undefined where it would read past
  that object or write past the pool (\<open>used + s\<close> is computed in \<open>size_t\<close>).\<close>

definition static_defer :: "'h \<Rightarrow> u64 \<Rightarrow> mval list \<Rightarrow> (unit, ('h, 'z) errm_state_scheme) prog" where
  "static_defer handle n arg =
     bind (reads curr_index) (\<lambda>i.
     bind (gets (\<lambda>s. frames s ! i)) (\<lambda>fr.
       if MAX_STATIC_DEFERS \<le> static_len fr then abort_prog
       else if of_nat POOL_SIZE < pool_used fr + n then abort_prog
       else if length arg < unat n \<or> POOL_SIZE < unat (pool_used fr) + unat n then undefined_prog
       else modify (set_frame i (add_static handle n arg fr))))"

definition defer_call :: "'h \<Rightarrow> ptr \<Rightarrow> (unit, ('h, 'z) errm_state_scheme) prog" where
  "defer_call handle arg =
     bind (reads curr_index) (\<lambda>i.
     bind (gets (\<lambda>s. frames s ! i)) (\<lambda>fr.
       if MAX_DYN_DEFERS \<le> dyn_len fr then abort_prog
       else modify (set_frame i (add_dyn handle arg fr))))"

text \<open>What a handler receives: a pointer into the frame's pool, given by the bytes found there,
  or the deferred pointer.\<close>

datatype defer_arg = Pooled "mval list" | Passed ptr

type_synonym ('h, 'z) dispatch = "'h \<Rightarrow> defer_arg \<Rightarrow> (unit, ('h, 'z) errm_state_scheme) prog"

text \<open>The two loops of \<open>run_defers\<close>. A handler may itself defer into the frame, so the loops need
  not end: the first argument is fuel. The frame is the one current when the loop starts.\<close>

fun run_static :: "nat \<Rightarrow> ('h, 'z) dispatch \<Rightarrow> nat \<Rightarrow> (unit, ('h, 'z) errm_state_scheme) prog" where
  "run_static 0 call i = (\<lambda>s. OutOfFuel)"
| "run_static (Suc k) call i =
     bind (gets (\<lambda>s. frames s ! i)) (\<lambda>fr.
       if static_len fr = 0 then ret ()
       else let n = static_len fr - 1 in
         seq (modify (set_frame i (fr\<lparr>static_len := n\<rparr>)))
           (case static_defers fr ! n of
              None \<Rightarrow> undefined_prog
            | Some h \<Rightarrow> seq (call h (Pooled (drop (static_defer_args fr ! n) (pool_data fr))))
                           (run_static k call i)))"

fun run_dyn :: "nat \<Rightarrow> ('h, 'z) dispatch \<Rightarrow> nat \<Rightarrow> (unit, ('h, 'z) errm_state_scheme) prog" where
  "run_dyn 0 call i = (\<lambda>s. OutOfFuel)"
| "run_dyn (Suc k) call i =
     bind (gets (\<lambda>s. frames s ! i)) (\<lambda>fr.
       if dyn_len fr = 0 then ret ()
       else let n = dyn_len fr - 1 in
         seq (modify (set_frame i (fr\<lparr>dyn_len := n\<rparr>)))
           (case dyn_defers fr ! n of
              None \<Rightarrow> undefined_prog
            | Some h \<Rightarrow> seq (call h (Passed (dyn_defer_args fr ! n))) (run_dyn k call i)))"

definition run_defers :: "nat \<Rightarrow> ('h, 'z) dispatch \<Rightarrow> (unit, ('h, 'z) errm_state_scheme) prog" where
  "run_defers fuel call =
     bind (reads curr_index) (\<lambda>i.
       seq (run_static fuel call i)
      (seq (modify (\<lambda>s. set_frame i ((frames s ! i)\<lparr>pool_used := 0\<rparr>) s))
           (run_dyn fuel call i)))"

text \<open>Handlers that do not defer leave at most \<open>MAX_DYN_DEFERS\<close> calls per loop.\<close>

definition defer_fuel :: nat where
  "defer_fuel = Suc MAX_DYN_DEFERS"

text \<open>The wrapper that \<open>edf_func1\<close>, \<open>edf_static_func1\<close>, \<open>edf_func2\<close> and \<open>edf_static_func2\<close> generate
  around a body; \<open>name\<close> and \<open>loc\<close> are the function's name and its \<open>__FILE__:__LINE__\<close>.\<close>

definition edf ::
  "('h, 'z) dispatch \<Rightarrow> string \<Rightarrow> string \<Rightarrow> ('a, ('h, 'z) errm_state_scheme) prog \<Rightarrow>
   ('a, ('h, 'z) errm_state_scheme) prog" where
  "edf call name loc body =
     seq errm_clear
    (bind defer_push (\<lambda>dpret.
       if dpret = 0
       then seq (print_err (''Defer-stack limit reached'' @ [newline]))
           (seq (print_err (''-> in function \"'' @ name @ ''\" on '' @ loc @ [newline])) abort_prog)
       else bind body (\<lambda>r.
            seq (run_defers defer_fuel call)
           (bind defer_pop (\<lambda>dpret.
              if dpret = 0
              then seq (print_err (''Defer-stack underflow!!'' @ [newline])) abort_prog
              else ret r)))))"

text \<open>The \<open>errno\<close> values of the target (Linux).\<close>

definition EPERM :: int where "EPERM = 1"
definition ENOENT :: int where "ENOENT = 2"
definition ESRCH :: int where "ESRCH = 3"
definition EINTR :: int where "EINTR = 4"
definition EAGAIN :: int where "EAGAIN = 11"
definition ENOMEM :: int where "ENOMEM = 12"
definition EACCES :: int where "EACCES = 13"
definition EEXIST :: int where "EEXIST = 17"
definition ENOTDIR :: int where "ENOTDIR = 20"
definition ENFILE :: int where "ENFILE = 23"
definition EMFILE :: int where "EMFILE = 24"

lemmas errno_consts = EPERM_def ENOENT_def ESRCH_def EINTR_def EAGAIN_def ENOMEM_def EACCES_def
  EEXIST_def ENOTDIR_def ENFILE_def EMFILE_def

definition errm_error_from_errno :: "(unit, ('h, 'z) errm_state_scheme) prog" where
  "errm_error_from_errno = bind (gets errno_of) (\<lambda>e.
     if e = EACCES then errm_error NO_PERMISSIONS
     else if e = ENFILE then errm_error LIMIT_EXCEEDED
     else if e = ENOENT then errm_error DOES_NOT_EXIST
     else if e = ENOTDIR then errm_error NOT_THE_EXPECTED
     else if e = ENOMEM then errm_error NOT_ENOUGH_MEMORY
     else ret ())"

section \<open>Invariant and abstract view of the defer stack\<close>

definition frame_ok :: "'h frame \<Rightarrow> bool" where
  "frame_ok fr \<longleftrightarrow>
     length (static_defers fr) = MAX_STATIC_DEFERS \<and>
     length (static_defer_args fr) = MAX_STATIC_DEFERS \<and>
     length (dyn_defers fr) = MAX_DYN_DEFERS \<and> length (dyn_defer_args fr) = MAX_DYN_DEFERS \<and>
     length (pool_data fr) = POOL_SIZE \<and> unat (pool_used fr) \<le> POOL_SIZE \<and>
     static_len fr \<le> MAX_STATIC_DEFERS \<and> dyn_len fr \<le> MAX_DYN_DEFERS \<and>
     (\<forall>j < static_len fr. static_defers fr ! j \<noteq> None) \<and>
     (\<forall>j < dyn_len fr. dyn_defers fr ! j \<noteq> None)"

definition idle :: "'h frame \<Rightarrow> bool" where
  "idle fr \<longleftrightarrow> static_len fr = 0 \<and> dyn_len fr = 0 \<and> pool_used fr = 0"

definition stack_ok :: "('h, 'z) errm_state_scheme \<Rightarrow> bool" where
  "stack_ok s \<longleftrightarrow> length (frames s) = STACK_SIZE \<and> -1 \<le> curr s \<and> curr s < int STACK_SIZE \<and>
     (\<forall>j < STACK_SIZE. frame_ok (frames s ! j)) \<and>
     (\<forall>j < STACK_SIZE. curr s < int j \<longrightarrow> idle (frames s ! j))"

definition top :: "('h, 'z) errm_state_scheme \<Rightarrow> 'h frame" where
  "top s = frames s ! nat (curr s)"

text \<open>The calls a frame holds, in the order they were deferred, and in the order they will run.\<close>

definition statics :: "'h frame \<Rightarrow> ('h \<times> defer_arg) list" where
  "statics fr = map (\<lambda>j. (the (static_defers fr ! j), Pooled (drop (static_defer_args fr ! j) (pool_data fr))))
                  [0..<static_len fr]"

definition dyns :: "'h frame \<Rightarrow> ('h \<times> defer_arg) list" where
  "dyns fr = map (\<lambda>j. (the (dyn_defers fr ! j), Passed (dyn_defer_args fr ! j))) [0..<dyn_len fr]"

definition pending :: "'h frame \<Rightarrow> ('h \<times> defer_arg) list" where
  "pending fr = rev (statics fr) @ rev (dyns fr)"

definition cleared :: "'h frame \<Rightarrow> 'h frame" where
  "cleared fr = fr\<lparr>static_len := 0, pool_used := 0, dyn_len := 0\<rparr>"

primrec call_all ::
  "('h, 'z) dispatch \<Rightarrow> ('h \<times> defer_arg) list \<Rightarrow> (unit, ('h, 'z) errm_state_scheme) prog" where
  "call_all call [] = ret ()"
| "call_all call (x # xs) = seq (call (fst x) (snd x)) (call_all call xs)"

lemma frame_ok_empty [simp]: "frame_ok empty_frame" "idle empty_frame"
  by (simp_all add: frame_ok_def empty_frame_def idle_def errm_consts)

lemma frame_ok_cleared [simp]: "frame_ok fr \<Longrightarrow> frame_ok (cleared fr)" "idle (cleared fr)"
  by (simp_all add: frame_ok_def cleared_def idle_def)

lemma pending_idle [abs_simps]: "idle fr \<Longrightarrow> pending fr = []"
  by (simp add: pending_def statics_def dyns_def idle_def)

lemma pending_cleared [abs_simps]: "pending (cleared fr) = []"
  by (simp add: pending_idle)

lemma frame_ok_add_dyn:
  assumes "frame_ok fr" "dyn_len fr < MAX_DYN_DEFERS"
  shows "frame_ok (add_dyn h p fr)"
  using assms by (auto simp: frame_ok_def add_dyn_def nth_list_update less_Suc_eq)

lemma dyns_add_dyn [abs_simps]:
  assumes "frame_ok fr" "dyn_len fr < MAX_DYN_DEFERS"
  shows "dyns (add_dyn h p fr) = dyns fr @ [(h, Passed p)]"
  using assms by (auto simp: dyns_def add_dyn_def frame_ok_def)

lemma statics_add_dyn [abs_simps]: "statics (add_dyn h p fr) = statics fr"
  by (simp add: statics_def add_dyn_def)

lemma pending_add_dyn:
  "frame_ok fr \<Longrightarrow> dyn_len fr < MAX_DYN_DEFERS \<Longrightarrow>
   pending (add_dyn h p fr) = rev (statics fr) @ (h, Passed p) # rev (dyns fr)"
  by (simp add: pending_def abs_simps)

text \<open>Room for an object of \<open>n\<close> bytes in the pool and a slot for its call.\<close>

definition static_room :: "u64 \<Rightarrow> 'h frame \<Rightarrow> bool" where
  "static_room n fr \<longleftrightarrow>
     static_len fr < MAX_STATIC_DEFERS \<and> unat (pool_used fr) + unat n \<le> POOL_SIZE"

lemma unat_pool_sum:
  assumes "unat (pool_used fr) + unat n \<le> POOL_SIZE"
  shows "unat (pool_used fr + n) = unat (pool_used fr) + unat n"
  using assms by (subst unat_add_lem [THEN iffD1]) (auto simp: errm_consts)

lemma frame_ok_add_static:
  assumes "frame_ok fr" "static_room n fr" "unat n \<le> length arg"
  shows "frame_ok (add_static h n arg fr)"
  using assms unat_pool_sum [of fr n]
  by (auto simp: frame_ok_def add_static_def static_room_def nth_list_update less_Suc_eq)

lemma statics_add_static:
  assumes "frame_ok fr" "static_room n fr" "unat n \<le> length arg"
  shows "statics (add_static h n arg fr) =
    map (\<lambda>j. (the (static_defers fr ! j),
       Pooled (drop (static_defer_args fr ! j)
         (splice (unat (pool_used fr)) (take (unat n) arg) (pool_data fr))))) [0..<static_len fr]
    @ [(h, Pooled (take (unat n) arg @ drop (unat (pool_used fr) + unat n) (pool_data fr)))]"
  using assms by (auto simp: statics_def add_static_def frame_ok_def static_room_def splice_def)

lemma dyns_add_static [abs_simps]: "dyns (add_static h n arg fr) = dyns fr"
  by (simp add: dyns_def add_static_def)

section \<open>Rules for deferring\<close>

lemma stack_ok_index:
  assumes "stack_ok s" "0 \<le> curr s"
  shows "curr_index s = Some (nat (curr s))" "frame_ok (top s)" "nat (curr s) < length (frames s)"
  using assms by (auto simp: stack_ok_def curr_index_def top_def)

lemma runs_defer_call:
  assumes "stack_ok s" "0 \<le> curr s" "dyn_len (top s) < MAX_DYN_DEFERS"
  shows "runs (defer_call h p) s Q \<longleftrightarrow> Q () (set_frame (nat (curr s)) (add_dyn h p (top s)) s)"
  using assms by (simp add: defer_call_def runs_simps stack_ok_index top_def)

lemma static_room_guard:
  assumes "static_room n fr"
  shows "\<not> of_nat POOL_SIZE < pool_used fr + n"
proof -
  have le: "unat (pool_used fr) + unat n \<le> POOL_SIZE"
    using assms by (simp add: static_room_def)
  have "unat (of_nat POOL_SIZE :: u64) = POOL_SIZE"
    by (simp add: errm_consts)
  with le unat_pool_sum [OF le] show ?thesis
    by (simp add: word_less_nat_alt)
qed

lemma runs_static_defer:
  assumes "stack_ok s" "0 \<le> curr s" "static_room n (top s)" "unat n \<le> length arg"
  shows "runs (static_defer h n arg) s Q \<longleftrightarrow>
    Q () (set_frame (nat (curr s)) (add_static h n arg (top s)) s)"
  using assms static_room_guard [OF assms(3)]
  by (auto simp: static_defer_def runs_simps stack_ok_index top_def static_room_def)

lemma set_frame_simps [simp]:
  "curr (set_frame i fr s) = curr s" "err_code (set_frame i fr s) = err_code s"
  "blocks (set_frame i fr s) = blocks s" "next_blk (set_frame i fr s) = next_blk s"
  "grants (set_frame i fr s) = grants s" "requests (set_frame i fr s) = requests s"
  "errno_of (set_frame i fr s) = errno_of s" "stdout_of (set_frame i fr s) = stdout_of s"
  "stderr_of (set_frame i fr s) = stderr_of s"
  "frames (set_frame i fr s) = (frames s)[i := fr]"
  by (simp_all add: set_frame_def)

lemma top_set_frame [simp]:
  "stack_ok s \<Longrightarrow> 0 \<le> curr s \<Longrightarrow> top (set_frame (nat (curr s)) fr s) = fr"
  using stack_ok_index(3) [of s] by (simp add: top_def)

lemma set_frame_twice [simp]: "set_frame i x (set_frame i y s) = set_frame i x s"
  by (simp add: set_frame_def)

lemma set_frame_top [simp]: "set_frame (nat (curr s)) (top s) s = s"
  by (simp add: set_frame_def top_def)

lemma stack_ok_set_top:
  assumes "stack_ok s" "0 \<le> curr s" "frame_ok fr"
  shows "stack_ok (set_frame (nat (curr s)) fr s)"
  using assms by (auto simp: stack_ok_def nth_list_update)

section \<open>The contract of deferred handlers, and what \<open>run_defers\<close> and \<open>edf\<close> do under it\<close>

text \<open>\<open>with_stack F c s\<close> is \<open>s\<close> with the defer stack replaced.\<close>

definition with_stack ::
  "'h frame list \<Rightarrow> int \<Rightarrow> ('h, 'z) errm_state_scheme \<Rightarrow> ('h, 'z) errm_state_scheme" where
  "with_stack F c s = s\<lparr>frames := F, curr := c\<rparr>"

lemma with_stack_simps [simp]:
  "frames (with_stack F c s) = F" "curr (with_stack F c s) = c"
  "err_code (with_stack F c s) = err_code s"
  "blocks (with_stack F c s) = blocks s" "next_blk (with_stack F c s) = next_blk s"
  "grants (with_stack F c s) = grants s" "requests (with_stack F c s) = requests s"
  "errno_of (with_stack F c s) = errno_of s" "stdout_of (with_stack F c s) = stdout_of s"
  "stderr_of (with_stack F c s) = stderr_of s"
  "with_stack F c (with_stack F' c' s) = with_stack F c s"
  "with_stack (frames s) (curr s) s = s"
  by (simp_all add: with_stack_def)

lemma set_frame_with_stack:
  "set_frame i fr s = with_stack ((frames s)[i := fr]) (curr s) s"
  by (simp add: set_frame_def with_stack_def)

text \<open>A handler neither looks at the defer stack nor changes it, and reports no error.\<close>

locale defer_handlers =
  fixes call :: "('h, 'z) dispatch"
  assumes call_with_stack:
      "call h a (with_stack F c s) = map_outcome (\<lambda>u. u) (with_stack F c) (call h a s)"
    and call_err_code: "call h a s = Done u s' \<Longrightarrow> err_code s' = err_code s"
begin

lemma runs_call_with_stack:
  "runs (call h a) (with_stack F c s) Q \<longleftrightarrow> runs (call h a) s (\<lambda>u s'. Q u (with_stack F c s'))"
  by (simp add: runs_def call_with_stack split: outcome.splits)

lemma runs_all_with_stack:
  "runs (call_all call xs) (with_stack F c s) Q \<longleftrightarrow>
   runs (call_all call xs) s (\<lambda>u s'. Q u (with_stack F c s'))"
  by (induction xs arbitrary: s) (simp_all add: runs_simps runs_call_with_stack)

lemma call_keeps_stack:
  assumes "call h a s = Done u s'"
  shows "frames s' = frames s" "curr s' = curr s"
proof -
  have "call h a s = map_outcome (\<lambda>u. u) (with_stack (frames s) (curr s)) (call h a s)"
    using call_with_stack [of h a "frames s" "curr s" s] by simp
  with assms have "s' = with_stack (frames s) (curr s) s'" by simp
  then show "frames s' = frames s" "curr s' = curr s"
    by (metis with_stack_simps(1), metis with_stack_simps(2))
qed

lemma call_all_keeps:
  "call_all call xs s = Done u s' \<Longrightarrow> frames s' = frames s \<and> curr s' = curr s \<and> err_code s' = err_code s"
proof (induction xs arbitrary: s)
  case Nil
  then show ?case by (simp add: ret_def)
next
  case (Cons x xs)
  then obtain v s1 where "call (fst x) (snd x) s = Done v s1" "call_all call xs s1 = Done u s'"
    by (auto simp: seq_def bind_def split: outcome.splits)
  with Cons.IH [of s1] show ?case
    by (auto dest: call_keeps_stack call_err_code)
qed

lemma runs_all_keeps:
  "runs (call_all call xs) s Q \<Longrightarrow>
   runs (call_all call xs) s (\<lambda>u s'. Q u s' \<and> frames s' = frames s \<and> curr s' = curr s \<and> err_code s' = err_code s)"
  by (auto simp: runs_iff dest: call_all_keeps)

lemma runs_run_static:
  assumes "i < length (frames s)" "frame_ok (frames s ! i)" "static_len (frames s ! i) < k"
  shows "runs (run_static k call i) s Q \<longleftrightarrow>
    runs (call_all call (rev (statics (frames s ! i)))) s
      (\<lambda>u s'. Q u (with_stack ((frames s)[i := (frames s ! i)\<lparr>static_len := 0\<rparr>]) (curr s) s'))"
  using assms
proof (induction k arbitrary: s Q)
  case 0
  then show ?case by simp
next
  case (Suc k)
  let ?fr = "frames s ! i"
  show ?case
  proof (cases "static_len ?fr")
    case 0
    have "(frames s)[i := ?fr\<lparr>static_len := 0\<rparr>] = frames s"
      using 0 Suc.prems(1) by (simp add: list_update_same_conv)
    with 0 show ?thesis by (simp add: runs_simps statics_def)
  next
    case (Suc n)
    let ?fr' = "?fr\<lparr>static_len := n\<rparr>"
    have ok': "frame_ok ?fr'"
      using Suc.prems(2) Suc by (auto simp: frame_ok_def)
    obtain h where h: "static_defers ?fr ! n = Some h"
      using Suc.prems(2) Suc by (auto simp: frame_ok_def)
    have st: "statics ?fr = statics ?fr' @ [(h, Pooled (drop (static_defer_args ?fr ! n) (pool_data ?fr)))]"
      using Suc h by (simp add: statics_def)
    have IH: "runs (run_static k call i) (with_stack ((frames s)[i := ?fr']) (curr s) s1) Q \<longleftrightarrow>
       runs (call_all call (rev (statics ?fr'))) s1
         (\<lambda>u s'. Q u (with_stack ((frames s)[i := ?fr\<lparr>static_len := 0\<rparr>]) (curr s) s'))" for s1
      using Suc.IH [of "with_stack ((frames s)[i := ?fr']) (curr s) s1" Q] Suc.prems Suc ok'
      by (simp add: runs_all_with_stack)
    show ?thesis
      using Suc h by (simp add: runs_simps Let_def set_frame_with_stack runs_call_with_stack IH st)
  qed
qed

lemma runs_run_dyn:
  assumes "i < length (frames s)" "frame_ok (frames s ! i)" "dyn_len (frames s ! i) < k"
  shows "runs (run_dyn k call i) s Q \<longleftrightarrow>
    runs (call_all call (rev (dyns (frames s ! i)))) s
      (\<lambda>u s'. Q u (with_stack ((frames s)[i := (frames s ! i)\<lparr>dyn_len := 0\<rparr>]) (curr s) s'))"
  using assms
proof (induction k arbitrary: s Q)
  case 0
  then show ?case by simp
next
  case (Suc k)
  let ?fr = "frames s ! i"
  show ?case
  proof (cases "dyn_len ?fr")
    case 0
    have "(frames s)[i := ?fr\<lparr>dyn_len := 0\<rparr>] = frames s"
      using 0 Suc.prems(1) by (simp add: list_update_same_conv)
    with 0 show ?thesis by (simp add: runs_simps dyns_def)
  next
    case (Suc n)
    let ?fr' = "?fr\<lparr>dyn_len := n\<rparr>"
    have ok': "frame_ok ?fr'"
      using Suc.prems(2) Suc by (auto simp: frame_ok_def)
    obtain h where h: "dyn_defers ?fr ! n = Some h"
      using Suc.prems(2) Suc by (auto simp: frame_ok_def)
    have st: "dyns ?fr = dyns ?fr' @ [(h, Passed (dyn_defer_args ?fr ! n))]"
      using Suc h by (simp add: dyns_def)
    have IH: "runs (run_dyn k call i) (with_stack ((frames s)[i := ?fr']) (curr s) s1) Q \<longleftrightarrow>
       runs (call_all call (rev (dyns ?fr'))) s1
         (\<lambda>u s'. Q u (with_stack ((frames s)[i := ?fr\<lparr>dyn_len := 0\<rparr>]) (curr s) s'))" for s1
      using Suc.IH [of "with_stack ((frames s)[i := ?fr']) (curr s) s1" Q] Suc.prems Suc ok'
      by (simp add: runs_all_with_stack)
    show ?thesis
      using Suc h by (simp add: runs_simps Let_def set_frame_with_stack runs_call_with_stack IH st)
  qed
qed

end

text \<open>The stack \<open>F\<close> as an \<open>edf\<close> function called in \<open>s\<close> leaves it: the frames of the callers are
  untouched, the frames above them are idle. \<open>balanced s s'\<close>: the call from \<open>s\<close> to \<open>s'\<close> does so.\<close>

definition defers_ok :: "('h, 'z) errm_state_scheme \<Rightarrow> 'h frame list \<Rightarrow> bool" where
  "defers_ok s F \<longleftrightarrow> length F = STACK_SIZE \<and> (\<forall>j < STACK_SIZE. frame_ok (F ! j)) \<and>
     (\<forall>j < STACK_SIZE. int j \<le> curr s \<longrightarrow> F ! j = frames s ! j) \<and>
     (\<forall>j < STACK_SIZE. curr s < int j \<longrightarrow> idle (F ! j))"

definition balanced :: "('h, 'z) errm_state_scheme \<Rightarrow> ('h, 'z) errm_state_scheme \<Rightarrow> bool" where
  "balanced s s' \<longleftrightarrow> curr s' = curr s \<and> defers_ok s (frames s')"

text \<open>The state in which the body of an \<open>edf\<close> function starts, and the callers' frames.\<close>

definition entered :: "('h, 'z) errm_state_scheme \<Rightarrow> ('h, 'z) errm_state_scheme" where
  "entered s = s\<lparr>err_code := No_Error, curr := curr s + 1\<rparr>"

definition agree_below :: "('h, 'z) errm_state_scheme \<Rightarrow> ('h, 'z) errm_state_scheme \<Rightarrow> bool" where
  "agree_below s s1 \<longleftrightarrow> curr s1 = curr s + 1 \<and>
     (\<forall>j < STACK_SIZE. int j \<le> curr s \<longrightarrow> frames s1 ! j = frames s ! j)"

lemma entered_simps [simp]:
  "frames (entered s) = frames s" "curr (entered s) = curr s + 1" "err_code (entered s) = No_Error"
  "blocks (entered s) = blocks s" "next_blk (entered s) = next_blk s"
  "grants (entered s) = grants s" "requests (entered s) = requests s"
  "errno_of (entered s) = errno_of s" "stdout_of (entered s) = stdout_of s"
  "stderr_of (entered s) = stderr_of s"
  by (simp_all add: entered_def)

lemma stack_ok_entered: "stack_ok s \<Longrightarrow> curr s < 11 \<Longrightarrow> stack_ok (entered s)"
  by (auto simp: stack_ok_def STACK_SIZE_def)

lemma agree_below_entered: "agree_below s (entered s)"
  by (simp add: agree_below_def)

lemma stack_ok_ge: "stack_ok s \<Longrightarrow> -1 \<le> curr s"
  by (simp add: stack_ok_def)

lemma stack_ok_lt: "stack_ok s \<Longrightarrow> curr s < 12"
  by (simp add: stack_ok_def STACK_SIZE_def)

lemma idle_top_entered: "stack_ok s \<Longrightarrow> curr s < 11 \<Longrightarrow> idle (top (entered s))"
  by (auto simp: stack_ok_def top_def STACK_SIZE_def)

lemma defers_ok_self: "stack_ok s \<Longrightarrow> defers_ok s (frames s)"
  by (auto simp: defers_ok_def stack_ok_def)

lemma balanced_refl: "stack_ok s \<Longrightarrow> balanced s s"
  by (simp add: balanced_def defers_ok_self)

lemma balanced_trans: "balanced s s1 \<Longrightarrow> balanced s1 s2 \<Longrightarrow> balanced s s2"
  by (auto simp: balanced_def defers_ok_def)

lemma balanced_stack_ok: "stack_ok s \<Longrightarrow> balanced s s' \<Longrightarrow> stack_ok s'"
  by (auto simp: balanced_def defers_ok_def stack_ok_def)

lemma balanced_top: "stack_ok s \<Longrightarrow> 0 \<le> curr s \<Longrightarrow> balanced s s' \<Longrightarrow> top s' = top s"
  by (auto simp: balanced_def defers_ok_def top_def stack_ok_def)

lemma balanced_agree: "agree_below s s1 \<Longrightarrow> balanced s1 s2 \<Longrightarrow> agree_below s s2"
  by (auto simp: balanced_def defers_ok_def agree_below_def)

lemma agree_below_set_top:
  assumes "stack_ok s1" "-1 \<le> curr s" "agree_below s s1"
  shows "agree_below s (set_frame (nat (curr s1)) fr s1)"
  using assms by (auto simp: agree_below_def nth_list_update)

lemma balanced_with_stack: "defers_ok s F \<Longrightarrow> balanced s (with_stack F (curr s) s')"
  by (simp add: balanced_def)

lemma defers_ok_leave:
  assumes "stack_ok s" "stack_ok s1" "agree_below s s1"
  shows "defers_ok s ((frames s1)[nat (curr s1) := cleared (top s1)])"
proof -
  have "0 \<le> curr s1"
    using assms stack_ok_ge [of s] by (simp add: agree_below_def)
  with assms stack_ok_index [of s1] show ?thesis
    by (auto simp: defers_ok_def stack_ok_def agree_below_def nth_list_update)
qed

lemma call_all_append:
  "call_all call (xs @ ys) = seq (call_all call xs) (call_all call ys)"
  by (induction xs) (simp_all add: seq_def bind_def ret_def fun_eq_iff split: outcome.splits)

context defer_handlers
begin

lemma runs_run_defers:
  assumes "stack_ok s" "0 \<le> curr s"
  shows "runs (run_defers defer_fuel call) s Q \<longleftrightarrow>
    runs (call_all call (pending (top s))) s
      (\<lambda>u s'. Q u (with_stack ((frames s)[nat (curr s) := cleared (top s)]) (curr s) s'))"
proof -
  let ?i = "nat (curr s)"
  note idx = stack_ok_index [OF assms]
  have lens: "static_len (frames s ! ?i) < defer_fuel" "dyn_len (frames s ! ?i) < defer_fuel"
    using idx(2) by (auto simp: frame_ok_def top_def defer_fuel_def errm_consts)
  have "frame_ok ((frames s ! ?i)\<lparr>static_len := 0, pool_used := 0\<rparr>)"
    using idx(2) by (auto simp: frame_ok_def top_def)
  moreover have "dyns ((frames s ! ?i)\<lparr>static_len := 0, pool_used := 0\<rparr>) = dyns (frames s ! ?i)"
    by (simp add: dyns_def)
  ultimately show ?thesis
    using idx lens
    by (simp add: run_defers_def runs_simps runs_run_static runs_run_dyn top_def set_frame_with_stack
        pending_def call_all_append cleared_def runs_all_with_stack)
qed

text \<open>The rule for a whole \<open>edf\<close> function: run the body from \<open>entered s\<close>, then the calls it left
  pending; what then holds whatever idle frames are left above the callers' holds of the call.\<close>

lemma runs_edf:
  assumes ok: "stack_ok s" and room: "curr s < 11"
    and body: "runs body (entered s) (\<lambda>r s1. stack_ok s1 \<and> agree_below s s1 \<and>
      runs (call_all call (pending (top s1))) s1
        (\<lambda>_ s2. \<forall>F. defers_ok s F \<longrightarrow> Q r (with_stack F (curr s) s2)))"
  shows "runs (edf call name loc body) s Q"
proof -
  have en: "s\<lparr>err_code := No_Error, curr := curr s + 1\<rparr> = entered s"
    by (simp add: entered_def)
  have run: "runs (run_defers defer_fuel call) s1
      (\<lambda>_ s2. runs defer_pop s2 (\<lambda>d s3. d \<noteq> 0 \<and> Q r s3))"
    if s1: "stack_ok s1" "agree_below s s1"
      and calls: "runs (call_all call (pending (top s1))) s1
        (\<lambda>_ s2. \<forall>F. defers_ok s F \<longrightarrow> Q r (with_stack F (curr s) s2))" for r s1
  proof -
    have c: "0 \<le> curr s1" "curr s1 = curr s + 1"
      using s1 stack_ok_ge [OF ok] by (simp_all add: agree_below_def)
    show ?thesis
      unfolding runs_run_defers [OF s1(1) c(1)]
      by (rule runs_mono [OF calls])
         (use defers_ok_leave [OF ok s1] c in
           \<open>auto simp: defer_pop_def runs_simps with_stack_def\<close>)
  qed
  have "runs body (entered s) (\<lambda>r s1. runs (run_defers defer_fuel call) s1
      (\<lambda>_ s2. runs defer_pop s2 (\<lambda>d s3. d \<noteq> 0 \<and> Q r s3)))"
    by (rule runs_mono [OF body]) (auto intro: run)
  then have body': "runs body (entered s) (\<lambda>r s1. runs (run_defers defer_fuel call) s1
      (\<lambda>_ s2. runs defer_pop s2 (\<lambda>d s3. runs (if d = 0
         then seq (print_err (''Defer-stack underflow!!'' @ [newline])) abort_prog else ret r) s3 Q)))"
    by (rule runs_mono) (auto elim!: runs_mono simp: runs_simps)
  show ?thesis
    using body' room
    by (simp add: edf_def errm_clear_def defer_push_def runs_simps STACK_SIZE_def en)
qed

end

section \<open>Sequences of deferrals\<close>

text \<open>A thread's state before its first \<open>edf\<close> call: the zero-initialised stack with \<open>curr = -1\<close>.\<close>

definition fresh_stack :: "'h frame list" where
  "fresh_stack = replicate STACK_SIZE empty_frame"

fun defer_each :: "('h \<times> ptr) list \<Rightarrow> (unit, ('h, 'z) errm_state_scheme) prog" where
  "defer_each [] = ret ()"
| "defer_each ((h, p) # ds) = seq (defer_call h p) (defer_each ds)"

fun static_each :: "('h \<times> mval list) list \<Rightarrow> (unit, ('h, 'z) errm_state_scheme) prog" where
  "static_each [] = ret ()"
| "static_each ((h, obj) # ds) = seq (static_defer h (of_nat (length obj)) obj) (static_each ds)"

lemma stack_ok_fresh: "curr s = -1 \<Longrightarrow> frames s = fresh_stack \<Longrightarrow> stack_ok s"
  by (simp add: stack_ok_def fresh_stack_def errm_consts)

lemma defer_call_full:
  assumes "stack_ok s" "0 \<le> curr s" "dyn_len (top s) = MAX_DYN_DEFERS"
  shows "defer_call h p s = Aborted s"
  using assms by (simp add: defer_call_def prog_defs stack_ok_index top_def)

lemma dyn_len_add_dyn [simp]: "dyn_len (add_dyn h p fr) = dyn_len fr + 1"
  by (simp add: add_dyn_def)

lemma runs_defer_each:
  assumes "stack_ok s" "0 \<le> curr s" "dyn_len (top s) + length ds \<le> MAX_DYN_DEFERS"
  shows "runs (defer_each ds) s (\<lambda>_ s'. stack_ok s' \<and> s' = set_frame (nat (curr s)) (top s') s \<and>
    statics (top s') = statics (top s) \<and>
    dyns (top s') = dyns (top s) @ map (\<lambda>(h, p). (h, Passed p)) ds)"
  using assms
proof (induction ds arbitrary: s rule: defer_each.induct)
  case 1
  then show ?case
    by (simp add: runs_simps)
next
  case (2 h p ds)
  let ?s1 = "set_frame (nat (curr s)) (add_dyn h p (top s)) s"
  note idx = stack_ok_index [OF 2(2,3)]
  have ok1: "stack_ok ?s1"
    using 2(2,3,4) idx by (intro stack_ok_set_top frame_ok_add_dyn) auto
  have "runs (defer_each ds) ?s1 (\<lambda>_ s'. stack_ok s' \<and> s' = set_frame (nat (curr ?s1)) (top s') ?s1 \<and>
    statics (top s') = statics (top ?s1) \<and>
    dyns (top s') = dyns (top ?s1) @ map (\<lambda>(h, p). (h, Passed p)) ds)"
    using 2(2,3,4) ok1 by (intro 2(1)) auto
  then show ?case
    using 2(2,3,4) idx
    by (auto simp: runs_simps runs_defer_call abs_simps elim!: runs_mono)
qed

lemma defer_each_over:
  assumes "stack_ok s" "0 \<le> curr s" "MAX_DYN_DEFERS < dyn_len (top s) + length ds"
  shows "\<exists>s'. defer_each ds s = Aborted s'"
  using assms
proof (induction ds arbitrary: s rule: defer_each.induct)
  case 1
  then show ?case
    using stack_ok_index(2) [of s] by (simp add: frame_ok_def)
next
  case (2 h p ds)
  note idx = stack_ok_index [OF 2(2,3)]
  show ?case
  proof (cases "dyn_len (top s) < MAX_DYN_DEFERS")
    case True
    let ?s1 = "set_frame (nat (curr s)) (add_dyn h p (top s)) s"
    have "defer_call h p s = Done () ?s1"
      using True 2(2,3) idx by (simp add: defer_call_def prog_defs top_def)
    moreover have "\<exists>s'. defer_each ds ?s1 = Aborted s'"
      using True 2(2,3,4) idx by (intro 2(1) stack_ok_set_top frame_ok_add_dyn) auto
    ultimately show ?thesis by (auto simp: seq_def bind_def)
  next
    case False
    then have "dyn_len (top s) = MAX_DYN_DEFERS"
      using idx(2) by (simp add: frame_ok_def)
    with 2(2,3) show ?thesis
      by (simp add: defer_call_full seq_def bind_def)
  qed
qed

text \<open>Frame \<open>fr\<close> holds the static calls \<open>ds\<close>, each object in its own bytes of the pool.\<close>

definition holds_objects :: "'h frame \<Rightarrow> ('h \<times> mval list) list \<Rightarrow> bool" where
  "holds_objects fr ds \<longleftrightarrow> static_len fr = length ds \<and>
     unat (pool_used fr) = sum_list (map (length \<circ> snd) ds) \<and>
     (\<forall>j < length ds. static_defers fr ! j = Some (fst (ds ! j)) \<and>
        static_defer_args fr ! j + length (snd (ds ! j)) \<le> unat (pool_used fr) \<and>
        take (length (snd (ds ! j))) (drop (static_defer_args fr ! j) (pool_data fr)) = snd (ds ! j))"

lemma holds_objects_idle: "idle fr \<Longrightarrow> holds_objects fr []"
  by (simp add: holds_objects_def idle_def)

lemma holds_objects_add_dyn: "holds_objects (add_dyn h p fr) st = holds_objects fr st"
  by (simp add: holds_objects_def add_dyn_def)

lemma holds_objects_add:
  assumes fr: "frame_ok fr" "holds_objects fr ds" and room: "static_room n fr"
    and n: "unat n = length obj"
  shows "holds_objects (add_static h n obj fr) (ds @ [(h, obj)])"
proof -
  have used: "unat (pool_used fr + n) = unat (pool_used fr) + length obj"
    using room n by (simp add: unat_pool_sum static_room_def)
  have bound: "unat (pool_used fr) + length obj \<le> length (pool_data fr)"
    using room n fr(1) by (simp add: static_room_def frame_ok_def)
  have old: "take m (drop a (splice (unat (pool_used fr)) obj (pool_data fr))) = take m (drop a (pool_data fr))"
    if "a + m \<le> unat (pool_used fr)" for a m
    using that bound by (intro splice_other) auto
  have fields: "static_len fr = length ds" "static_len fr < length (static_defers fr)"
    "static_len fr < length (static_defer_args fr)"
    using fr room by (simp_all add: holds_objects_def frame_ok_def static_room_def)
  have "static_defers (add_static h n obj fr) ! j = Some (fst ((ds @ [(h, obj)]) ! j)) \<and>
      static_defer_args (add_static h n obj fr) ! j + length (snd ((ds @ [(h, obj)]) ! j))
        \<le> unat (pool_used fr + n) \<and>
      take (length (snd ((ds @ [(h, obj)]) ! j)))
        (drop (static_defer_args (add_static h n obj fr) ! j) (pool_data (add_static h n obj fr)))
        = snd ((ds @ [(h, obj)]) ! j)" if "j < Suc (length ds)" for j
  proof (cases "j = length ds")
    case True
    with fields n used bound show ?thesis by (simp add: add_static_def)
  next
    case False
    with that have j: "j < length ds" by simp
    have slot: "static_defer_args fr ! j + length (snd (ds ! j)) \<le> unat (pool_used fr)"
        "static_defers fr ! j = Some (fst (ds ! j))"
        "take (length (snd (ds ! j))) (drop (static_defer_args fr ! j) (pool_data fr)) = snd (ds ! j)"
      using fr(2) j unfolding holds_objects_def by blast+
    with j fields n used old [OF slot(1)] show ?thesis
      by (simp add: add_static_def nth_append)
  qed
  then show ?thesis
    using fr(2) used by (simp add: holds_objects_def add_static_def)
qed

lemma runs_static_each:
  assumes "stack_ok s" "0 \<le> curr s" "holds_objects (top s) ds0"
    "length ds0 + length ds \<le> MAX_STATIC_DEFERS"
    "sum_list (map (length \<circ> snd) (ds0 @ ds)) \<le> POOL_SIZE"
  shows "runs (static_each ds) s (\<lambda>_ s'. stack_ok s' \<and> s' = set_frame (nat (curr s)) (top s') s \<and>
    holds_objects (top s') (ds0 @ ds) \<and> dyns (top s') = dyns (top s))"
  using assms
proof (induction ds arbitrary: s ds0 rule: static_each.induct)
  case 1
  then show ?case by (simp add: runs_simps)
next
  case (2 h obj ds)
  let ?n = "of_nat (length obj) :: u64"
  let ?s1 = "set_frame (nat (curr s)) (add_static h ?n obj (top s)) s"
  note idx = stack_ok_index [OF 2(2,3)]
  have n: "unat ?n = length obj"
    using 2(6) by (simp add: unat_of_nat errm_consts)
  have room: "static_room ?n (top s)"
    using 2(4,5,6) n by (auto simp: static_room_def holds_objects_def o_def)
  have ok1: "stack_ok ?s1"
    using 2(2,3) idx room n by (intro stack_ok_set_top frame_ok_add_static) auto
  have holds1: "holds_objects (top ?s1) (ds0 @ [(h, obj)])"
    using 2(2,3,4) idx room n by (simp add: holds_objects_add)
  have "runs (static_each ds) ?s1 (\<lambda>_ s'. stack_ok s' \<and> s' = set_frame (nat (curr ?s1)) (top s') ?s1 \<and>
    holds_objects (top s') ((ds0 @ [(h, obj)]) @ ds) \<and> dyns (top s') = dyns (top ?s1))"
    by (rule 2(1)) (use 2(2-6) ok1 holds1 in auto)
  then show ?case
    using 2(2,3) room n
    by (auto simp: runs_simps runs_static_defer abs_simps elim!: runs_mono)
qed

lemma holds_objects_statics:
  assumes "holds_objects fr ds"
  shows "list_all2 (\<lambda>(h, obj) (h', a). h' = h \<and> (\<exists>rest. a = Pooled (obj @ rest))) ds (statics fr)"
proof (rule list_all2_all_nthI)
  show "length ds = length (statics fr)"
    using assms by (simp add: holds_objects_def statics_def)
next
  fix j assume j: "j < length ds"
  let ?o = "snd (ds ! j)" and ?b = "drop (static_defer_args fr ! j) (pool_data fr)"
  have "?b = ?o @ drop (length ?o) ?b"
    using assms j unfolding holds_objects_def by (metis append_take_drop_id)
  then have "\<exists>rest. Pooled ?b = Pooled (?o @ rest)" by blast
  with assms j show "(\<lambda>(h, obj) (h', a). h' = h \<and> (\<exists>rest. a = Pooled (obj @ rest))) (ds ! j) (statics fr ! j)"
    by (auto simp: holds_objects_def statics_def case_prod_unfold)
qed

section \<open>The stack of frames as a state machine\<close>

text \<open>What a thread can do with its defer stack: enter an \<open>edf\<close> function, defer calls in it, and
  leave it, which runs the deferred calls first. Between these steps the rest of the state may
  change in any way.\<close>

inductive stack_step ::
  "('h, 'z) dispatch \<Rightarrow> ('h, 'z) errm_state_scheme \<Rightarrow> ('h, 'z) errm_state_scheme \<Rightarrow> bool"
  for call where
  enter: "defer_push s = Done d s' \<Longrightarrow> d \<noteq> 0 \<Longrightarrow> stack_step call s s'"
| dyn: "defer_call h p s = Done () s' \<Longrightarrow> stack_step call s s'"
| static: "unat n \<le> length obj \<Longrightarrow> static_defer h n obj s = Done () s' \<Longrightarrow> stack_step call s s'"
| leave: "run_defers defer_fuel call s = Done () s1 \<Longrightarrow> defer_pop s1 = Done d s' \<Longrightarrow> d \<noteq> 0 \<Longrightarrow>
    stack_step call s s'"
| other: "frames s' = frames s \<Longrightarrow> curr s' = curr s \<Longrightarrow> stack_step call s s'"

inductive stack_reach :: "('h, 'z) dispatch \<Rightarrow> ('h, 'z) errm_state_scheme \<Rightarrow> bool" for call where
  start: "frames s = fresh_stack \<Longrightarrow> curr s = -1 \<Longrightarrow> stack_reach call s"
| step: "stack_reach call s \<Longrightarrow> stack_step call s s' \<Longrightarrow> stack_reach call s'"

lemma stack_ok_push:
  assumes "stack_ok s" "defer_push s = Done d s'" "d \<noteq> 0"
  shows "stack_ok s'"
  using assms by (auto simp: defer_push_def prog_defs stack_ok_def split: if_splits)

lemma zero_lens [simp]:
  fixes xs :: "'h frame list"
  shows
  "static_len (xs ! i) = 0 \<Longrightarrow> xs[i := (xs ! i)\<lparr>static_len := 0\<rparr>] = xs"
  "dyn_len (xs ! i) = 0 \<Longrightarrow> xs[i := (xs ! i)\<lparr>dyn_len := 0\<rparr>] = xs"
proof -
  have zero: "static_len fr = 0 \<Longrightarrow> fr\<lparr>static_len := 0\<rparr> = fr"
    "dyn_len fr = 0 \<Longrightarrow> fr\<lparr>dyn_len := 0\<rparr> = fr" for fr :: "'h frame"
    by (cases fr; simp)+
  show "static_len (xs ! i) = 0 \<Longrightarrow> xs[i := (xs ! i)\<lparr>static_len := 0\<rparr>] = xs"
    using zero(1) [of "xs ! i"] by (metis list_update_id)
  show "dyn_len (xs ! i) = 0 \<Longrightarrow> xs[i := (xs ! i)\<lparr>dyn_len := 0\<rparr>] = xs"
    using zero(2) [of "xs ! i"] by (metis list_update_id)
qed

lemma curr_index_Some: "curr_index s = Some i \<longleftrightarrow> 0 \<le> curr s \<and> i = nat (curr s) \<and> i < length (frames s)"
  by (auto simp: curr_index_def)

lemma stack_ok_defer_call:
  assumes "stack_ok s" "defer_call h p s = Done () s'"
  shows "stack_ok s'"
proof -
  have c: "0 \<le> curr s"
    using assms(2) by (auto simp: defer_call_def prog_defs curr_index_def split: if_splits)
  note idx = stack_ok_index [OF assms(1) c]
  have "dyn_len (top s) < MAX_DYN_DEFERS" "s' = set_frame (nat (curr s)) (add_dyn h p (top s)) s"
    using assms(2) idx by (auto simp: defer_call_def prog_defs top_def split: if_splits)
  with assms(1) c idx show ?thesis
    by (simp add: stack_ok_set_top frame_ok_add_dyn)
qed

lemma stack_ok_static_defer:
  assumes "stack_ok s" "unat n \<le> length obj" "static_defer h n obj s = Done () s'"
  shows "stack_ok s'"
proof -
  have c: "0 \<le> curr s"
    using assms(3) by (auto simp: static_defer_def prog_defs curr_index_def split: if_splits)
  note idx = stack_ok_index [OF assms(1) c]
  have "static_room n (top s)" "s' = set_frame (nat (curr s)) (add_static h n obj (top s)) s"
    using assms(3) idx
    by (auto simp: static_defer_def prog_defs top_def static_room_def split: if_splits)
  with assms(1,2) c idx show ?thesis
    by (simp add: stack_ok_set_top frame_ok_add_static)
qed

context defer_handlers
begin

text \<open>Whenever the deferred calls do return, \<open>run_defers\<close> leaves the frame idle.\<close>

lemma run_static_keeps:
  "i < length (frames s) \<Longrightarrow> run_static k call i s = Done () s' \<Longrightarrow>
   curr s' = curr s \<and> (\<exists>fr. frames s' = (frames s)[i := fr] \<and> fr = (frames s ! i)\<lparr>static_len := 0\<rparr>)"
proof (induction k arbitrary: s)
  case 0
  then show ?case by simp
next
  case (Suc k)
  show ?case
  proof (cases "static_len (frames s ! i)")
    case 0
    with Suc.prems have "s' = s" by (simp add: prog_defs)
    with 0 show ?thesis by simp
  next
    case (Suc n)
    let ?s1 = "set_frame i ((frames s ! i)\<lparr>static_len := n\<rparr>) s"
    obtain h u s2 where
        called: "call h (Pooled (drop (static_defer_args (frames s ! i) ! n) (pool_data (frames s ! i)))) ?s1
          = Done u s2" and "run_static k call i s2 = Done () s'"
      using Suc Suc.prems(2) by (auto simp: prog_defs Let_def split: option.splits outcome.splits)
    with Suc.IH [of s2] Suc.prems(1) call_keeps_stack [OF called] show ?thesis
      by auto
  qed
qed

lemma run_dyn_keeps:
  "i < length (frames s) \<Longrightarrow> run_dyn k call i s = Done () s' \<Longrightarrow>
   curr s' = curr s \<and> (\<exists>fr. frames s' = (frames s)[i := fr] \<and> fr = (frames s ! i)\<lparr>dyn_len := 0\<rparr>)"
proof (induction k arbitrary: s)
  case 0
  then show ?case by simp
next
  case (Suc k)
  show ?case
  proof (cases "dyn_len (frames s ! i)")
    case 0
    with Suc.prems have "s' = s" by (simp add: prog_defs)
    with 0 show ?thesis by simp
  next
    case (Suc n)
    let ?s1 = "set_frame i ((frames s ! i)\<lparr>dyn_len := n\<rparr>) s"
    obtain h u s2 where called: "call h (Passed (dyn_defer_args (frames s ! i) ! n)) ?s1 = Done u s2"
        and "run_dyn k call i s2 = Done () s'"
      using Suc Suc.prems(2) by (auto simp: prog_defs Let_def split: option.splits outcome.splits)
    with Suc.IH [of s2] Suc.prems(1) call_keeps_stack [OF called] show ?thesis
      by auto
  qed
qed

lemma run_defers_keeps:
  assumes "stack_ok s" "run_defers k call s = Done () s1"
  shows "0 \<le> curr s" "curr s1 = curr s" "frames s1 = (frames s)[nat (curr s) := cleared (top s)]"
proof -
  obtain i s2 where i: "curr_index s = Some i" and s2: "run_static k call i s = Done () s2"
    and dyn: "run_dyn k call i (set_frame i ((frames s2 ! i)\<lparr>pool_used := 0\<rparr>) s2) = Done () s1"
    using assms(2) by (auto simp: run_defers_def prog_defs split: option.splits outcome.splits)
  from i have idx: "0 \<le> curr s" "i = nat (curr s)" "i < length (frames s)"
    by (auto simp: curr_index_Some)
  with run_static_keeps [OF _ s2] run_dyn_keeps [OF _ dyn]
  show "0 \<le> curr s" "curr s1 = curr s" "frames s1 = (frames s)[nat (curr s) := cleared (top s)]"
    by (auto simp: cleared_def top_def)
qed

lemma stack_step_ok: "stack_step call s s' \<Longrightarrow> stack_ok s \<Longrightarrow> stack_ok s'"
proof (induction rule: stack_step.induct)
  case (leave s s1 d s')
  note keeps = run_defers_keeps [OF leave.prems leave.hyps(1)]
  have s': "curr s' = curr s1 - 1" "frames s' = frames s1"
    using leave.hyps(2,3) by (auto simp: defer_pop_def prog_defs split: if_splits)
  show ?case
    using leave.prems keeps s' stack_ok_index [OF leave.prems keeps(1)]
    by (auto simp: stack_ok_def nth_list_update)
next
  case (other s' s)
  then show ?case by (simp add: stack_ok_def)
qed (auto intro: stack_ok_push stack_ok_defer_call stack_ok_static_defer)

end

section \<open>Concrete states and handlers\<close>

text \<open>A thread at its start, and a thread inside one \<open>edf\<close> function. Handlers named by strings that
  print their name keep the contract.\<close>

definition thread_start :: "'h errm_state" where
  "thread_start =
     \<lparr>blocks = (\<lambda>_. None), next_blk = 0, grants = (\<lambda>_. True), requests = 0, errno_of = 0,
      stdout_of = [], stderr_of = [], err_code = No_Error, frames = fresh_stack, curr = -1\<rparr>"

definition in_function :: "'h errm_state" where
  "in_function = thread_start\<lparr>curr := 0\<rparr>"

definition say :: "(string, 'z) dispatch" where
  "say h a = print_out h"

lemma thread_start_ok: "stack_ok thread_start" "curr thread_start = -1" "stack_reach call thread_start"
  by (simp_all add: thread_start_def stack_ok_fresh stack_reach.start)

lemma in_function_ok:
  "stack_ok in_function" "curr in_function = 0" "idle (top in_function)" "top in_function = empty_frame"
  by (simp_all add: in_function_def thread_start_def stack_ok_def top_def fresh_stack_def errm_consts)

interpretation say: defer_handlers say
  by unfold_locales (auto simp: say_def print_out_def modify_def with_stack_def)

section \<open>Properties\<close>

lemma code_of_message [simp]: "code_of c < ERROR_CODES_LEN"
  by (cases c) (simp_all add: ERROR_CODES_LEN_def)

text \<open>C1: Deferring a list of calls in a function and unwinding it does what calling the handlers in the reverse
  order does, and leaves the frame idle, as long as there are at most \<open>MAX_DYN_DEFERS\<close> of them; with one more
  the thread aborts.\<close>

theorem defers_run_in_reverse:
  assumes "defer_handlers call" "stack_ok s" "0 \<le> curr s" "idle (top s)"
  shows "if length ds \<le> MAX_DYN_DEFERS
    then \<exists>fr. idle fr \<and> (\<forall>Q. runs (seq (defer_each ds) (run_defers defer_fuel call)) s Q \<longleftrightarrow>
           runs (call_all call (map (\<lambda>(h, p). (h, Passed p)) (rev ds))) s (\<lambda>u s'. Q u (set_frame (nat (curr s)) fr s')))
    else \<exists>s'. seq (defer_each ds) (run_defers defer_fuel call) s = Aborted s'"
proof (cases "length ds \<le> MAX_DYN_DEFERS")
  case True
  let ?i = "nat (curr s)"
  have none: "statics (top s) = []" "dyns (top s) = []" "dyn_len (top s) = 0"
    using assms(4) by (simp_all add: idle_def statics_def dyns_def)
  with True runs_defer_each [OF assms(2,3), of ds] obtain s1 where s1: "defer_each ds s = Done () s1" "stack_ok s1"
    "s1 = with_stack ((frames s)[?i := top s1]) (curr s) s" "pending (top s1) = map (\<lambda>(h, p). (h, Passed p)) (rev ds)"
    by (auto simp: runs_iff pending_def rev_map set_frame_with_stack)
  then have curr: "curr s1 = curr s" "(frames s1)[?i := fr] = (frames s)[?i := fr]" for fr
    by (metis with_stack_simps(2), metis with_stack_simps(1) list_update_overwrite)
  have keep: "set_frame ?i fr s' = with_stack ((frames s)[?i := fr]) (curr s) s'"
    if "call_all call xs s = Done u s'" for fr xs u s'
    using defer_handlers.call_all_keeps [OF assms(1) that] by (simp add: set_frame_with_stack)
  have "runs (seq (defer_each ds) (run_defers defer_fuel call)) s Q \<longleftrightarrow>
      runs (call_all call (pending (top s1))) s (\<lambda>u s'. Q u (set_frame ?i (cleared (top s1)) s'))" for Q
  proof -
    have "runs (seq (defer_each ds) (run_defers defer_fuel call)) s Q \<longleftrightarrow> runs (run_defers defer_fuel call) s1 Q"
      by (simp add: runs_def seq_def bind_def s1(1))
    also have "\<dots> \<longleftrightarrow> runs (call_all call (pending (top s1))) (with_stack ((frames s)[?i := top s1]) (curr s) s)
        (\<lambda>u s'. Q u (with_stack ((frames s)[?i := cleared (top s1)]) (curr s) s'))"
      using defer_handlers.runs_run_defers [OF assms(1) s1(2), of Q] assms(3) curr s1(3) by simp
    also have "\<dots> \<longleftrightarrow> runs (call_all call (pending (top s1))) s
        (\<lambda>u s'. Q u (with_stack ((frames s)[?i := cleared (top s1)]) (curr s) s'))"
      by (simp add: defer_handlers.runs_all_with_stack [OF assms(1)])
    also have "\<dots> \<longleftrightarrow> runs (call_all call (pending (top s1))) s (\<lambda>u s'. Q u (set_frame ?i (cleared (top s1)) s'))"
      unfolding runs_iff by (intro ex_cong1 conj_cong refl) (simp add: keep)
    finally show ?thesis .
  qed
  with True s1(4) show ?thesis by (intro iffD2 [OF if_bool_eq_conj]) (auto intro!: exI [of _ "cleared (top s1)"])
next
  case False
  with assms defer_each_over [of s ds] show ?thesis by (auto simp: idle_def seq_def bind_def)
qed

theorem defers_run_in_reverse_witness:
  "runs (seq (defer_each [(''a'', null), (''b'', Ptr (Blk 3) 0)]) (run_defers defer_fuel say)) in_function (\<lambda>_ s'.
     stdout_of s' = ''ba'') \<and>
   (\<exists>s'. seq (defer_each (replicate 13 (''a'', null))) (run_defers defer_fuel say) in_function = Aborted s')"
proof -
  note inst = defers_run_in_reverse [OF say.defer_handlers_axioms in_function_ok(1), unfolded in_function_ok(2), OF order_refl in_function_ok(3)]
  have out: "stdout_of (in_function :: string errm_state) = []" by (simp add: in_function_def thread_start_def)
  have few: "length [(''a'', null), (''b'', Ptr (Blk 3) 0)] \<le> MAX_DYN_DEFERS" "\<not> length (replicate 13 (''a'', null)) \<le> MAX_DYN_DEFERS"
    by (simp_all add: MAX_DYN_DEFERS_def)
  have two: "runs (seq (defer_each [(''a'', null), (''b'', Ptr (Blk 3) 0)]) (run_defers defer_fuel say)) in_function
      (\<lambda>_ s'. stdout_of s' = ''ba'')"
    using inst [of "[(''a'', null), (''b'', Ptr (Blk 3) 0)]", unfolded if_P [OF few(1)]]
    by (auto simp only:) (simp add: runs_simps say_def print_out_def set_frame_def out)
  show ?thesis
    using two inst [of "replicate 13 (''a'', null)", unfolded if_not_P [OF few(2)]] ..
qed

text \<open>C2: Objects given to \<open>static_defer\<close> are copied into disjoint parts of the pool: when the
  frame is unwound, each handler gets a pointer to the bytes of the object it was deferred with,
  last deferred first, whatever was deferred after it.\<close>

theorem static_objects_intact:
  assumes "stack_ok s" "0 \<le> curr s" "idle (top s)"
    and "length ds \<le> MAX_STATIC_DEFERS" "sum_list (map (length \<circ> snd) ds) \<le> POOL_SIZE"
  shows "runs (static_each ds) s (\<lambda>_ s'. stack_ok s' \<and> s' = set_frame (nat (curr s)) (top s') s \<and>
    list_all2 (\<lambda>(h, obj) (h', a). h' = h \<and> (\<exists>rest. a = Pooled (obj @ rest)))
      (rev ds) (pending (top s')))"
proof -
  have "holds_objects (top s) []" "dyns (top s) = []"
    using assms(3) by (simp_all add: holds_objects_idle) (simp add: idle_def dyns_def)
  with assms runs_static_each [of s "[]" ds] show ?thesis
    by (auto simp: pending_def list_all2_rev elim!: runs_mono dest!: holds_objects_statics)
qed

theorem static_objects_intact_witness:
  "runs (static_each [(''a'', cstr ''one''), (''b'', cstr ''three'')]) in_function (\<lambda>_ s'.
    list_all2 (\<lambda>(h, obj) (h', a). h' = h \<and> (\<exists>rest. a = Pooled (obj @ rest)))
      [(''b'', cstr ''three''), (''a'', cstr ''one'')] (pending (top s')))"
  using static_objects_intact [of in_function "[(''a'', cstr ''one''), (''b'', cstr ''three'')]"]
  by (auto simp: in_function_ok errm_consts elim!: runs_mono)

text \<open>On any reachable defer stack, \<open>static_defer\<close> of an object no larger than its storage
  either stores the call or aborts, and it aborts exactly when all slots are taken or the pool has
  too little room; it never writes outside the pool.\<close>

lemma static_defer_total:
  assumes "stack_ok s" "0 \<le> curr s" "unat n \<le> length obj" "unat n + POOL_SIZE < 2 ^ 64"
  shows "static_defer h n obj s =
    (if static_room n (top s) then Done () (set_frame (nat (curr s)) (add_static h n obj (top s)) s)
     else Aborted s)"
proof -
  note idx = stack_ok_index [OF assms(1,2)]
  have le: "unat (pool_used (top s)) \<le> POOL_SIZE"
    using idx(2) by (simp add: frame_ok_def)
  have sum: "unat (pool_used (top s) + n) = unat (pool_used (top s)) + unat n"
    using le assms(4) by (subst unat_add_lem [THEN iffD1]) auto
  have guard: "(of_nat POOL_SIZE < pool_used (top s) + n) = (POOL_SIZE < unat (pool_used (top s)) + unat n)"
    by (simp add: word_less_nat_alt sum) (simp add: errm_consts)
  show ?thesis
    using idx assms(3) guard
    by (auto simp: static_defer_def prog_defs top_def static_room_def)
qed

text \<open>C4: Every defer stack a thread can reach by entering functions, deferring calls and leaving
  functions is well formed: the depth stays within the array, every used slot holds a call, the
  pool is not overrun and the frames above the current one hold nothing.\<close>

theorem reachable_stack_ok:
  assumes "defer_handlers call" "stack_reach call s"
  shows "stack_ok s"
  using assms(2)
proof (induction rule: stack_reach.induct)
  case (start s)
  then show ?case by (rule stack_ok_fresh [rotated])
next
  case (step s s')
  show ?case
    by (rule defer_handlers.stack_step_ok [OF assms(1) step.hyps(2) step.IH])
qed

theorem reachable_stack_ok_witness:
  "\<exists>s1 s2 s3. defer_push (thread_start :: string errm_state) = Done 1 s1 \<and> defer_call ''h'' null s1 = Done () s2 \<and>
     static_defer ''g'' 2 [Chr (CHR 0x01), Chr (CHR 0x02)] s2 = Done () s3 \<and> dyn_len (top s3) = 1 \<and> static_len (top s3) = 1 \<and> stack_ok s3"
proof -
  let ?s = "thread_start :: string errm_state"
  define s1 s2 s3 where "s1 = ?s\<lparr>curr := 0\<rparr>" and "s2 = set_frame 0 (add_dyn ''h'' null (frames s1 ! 0)) s1"
    and "s3 = set_frame 0 (add_static ''g'' 2 [Chr (CHR 0x01), Chr (CHR 0x02)] (frames s2 ! 0)) s2"
  have step: "defer_push ?s = Done 1 s1" "defer_call ''h'' null s1 = Done () s2" "static_defer ''g'' 2 [Chr (CHR 0x01), Chr (CHR 0x02)] s2 = Done () s3"
    by (simp_all add: s1_def s2_def s3_def defer_push_def defer_call_def static_defer_def prog_defs thread_start_def curr_index_def
        fresh_stack_def errm_consts empty_frame_def add_dyn_def add_static_def set_frame_def)
  have "stack_reach say s3"
    by (rule stack_reach.step [OF stack_reach.step [OF stack_reach.step [OF thread_start_ok(3) stack_step.enter [OF step(1)]]
          stack_step.dyn [OF step(2)]] stack_step.static [OF _ step(3)]]) simp_all
  moreover have "dyn_len (top s3) = 1" "static_len (top s3) = 1"
    by (simp_all add: s1_def s2_def s3_def thread_start_def top_def fresh_stack_def errm_consts empty_frame_def add_dyn_def add_static_def set_frame_def)
  ultimately show ?thesis using step reachable_stack_ok [OF say.defer_handlers_axioms] by blast
qed

text \<open>C5: An \<open>edf\<close> function whose body and deferred calls return gives back the body's result
  and error code, with the defer stack as it was for its callers; the deferred calls ran on the
  body's final state, last deferred first.\<close>

theorem edf_balanced:
  assumes "defer_handlers call" "stack_ok s" "curr s < 11"
    and "body (entered s) = Done r s1" "stack_ok s1" "agree_below s s1"
    and "call_all call (pending (top s1)) s1 = Done () s2"
  shows "runs (edf call name loc body) s (\<lambda>r' s'. r' = r \<and> balanced s s' \<and> err_code s' = err_code s1 \<and>
    s' = with_stack (frames s') (curr s) s2)"
proof (rule defer_handlers.runs_edf [OF assms(1-3)])
  have "err_code s2 = err_code s1"
    using defer_handlers.call_all_keeps [OF assms(1,7)] by simp
  then show "runs body (entered s) (\<lambda>ra s1'. stack_ok s1' \<and> agree_below s s1' \<and>
      runs (call_all call (pending (top s1'))) s1' (\<lambda>_ s2'. \<forall>F. defers_ok s F \<longrightarrow>
        ra = r \<and> balanced s (with_stack F (curr s) s2') \<and>
        err_code (with_stack F (curr s) s2') = err_code s1 \<and>
        with_stack F (curr s) s2' = with_stack (frames (with_stack F (curr s) s2')) (curr s) s2))"
    by (simp add: runs_def assms(4-7) balanced_with_stack)
qed

theorem edf_balanced_witness:
  "runs (edf say ''f'' ''f.c:1'' (ret (7::int))) thread_start
     (\<lambda>r s'. r = 7 \<and> balanced thread_start s' \<and> err_code s' = No_Error)"
proof -
  have idle: "pending (top (entered (thread_start :: string errm_state))) = []"
    by (intro pending_idle idle_top_entered) (simp_all add: thread_start_ok)
  have "runs (edf say ''f'' ''f.c:1'' (ret (7::int))) thread_start
     (\<lambda>r s'. r = 7 \<and> balanced thread_start s' \<and> err_code s' = err_code (entered (thread_start :: string errm_state)) \<and>
       s' = with_stack (frames s') (curr (thread_start :: string errm_state)) (entered thread_start))"
    by (rule edf_balanced [OF say.defer_handlers_axioms])
      (simp_all add: thread_start_ok stack_ok_entered agree_below_entered idle ret_def)
  then show ?thesis by (rule runs_mono) simp
qed

text \<open>The thirteenth nested \<open>edf\<close> call does not run its body: it reports the function and
  aborts.\<close>

lemma edf_depth_limit:
  assumes "curr s = int STACK_SIZE - 1"
  shows "edf call name loc body s =
    Aborted (s\<lparr>err_code := No_Error, stderr_of := stderr_of s @ ''Defer-stack limit reached'' @
      [newline] @ ''-> in function \"'' @ name @ ''\" on '' @ loc @ [newline]\<rparr>)"
  using assms
  by (simp add: edf_def errm_clear_def defer_push_def print_err_def prog_defs STACK_SIZE_def)

text \<open>\<open>errm_error_from_errno\<close> reports a code for exactly five values of \<open>errno\<close>; for any
  other value, \<open>EMFILE\<close> among them, it leaves the error code as it is, so after \<open>errm_clear\<close> no
  error is reported.\<close>

lemma errno_reported_iff:
  assumes "err_code s = No_Error"
  shows "\<exists>s'. errm_error_from_errno s = Done () s' \<and> s' = s\<lparr>err_code := err_code s'\<rparr> \<and>
    (err_code s' \<noteq> No_Error) = (errno_of s \<in> {EACCES, ENFILE, ENOENT, ENOTDIR, ENOMEM}) \<and>
    (errno_of s = EMFILE \<longrightarrow> err_code s' = No_Error)"
  using assms by (auto simp: errm_error_from_errno_def errm_error_def prog_defs errno_consts)

end
