(* ===== verification/Dga.thy ===== *)
theory Dga
  imports Memory
begin

text \<open>
  The dynamic generic arrays of \<open>src/dga\<close>. An array is a heap object: a header of three 64-bit
  fields (\<open>len\<close>, \<open>cap\<close>, \<open>szt\<close>) followed by the elements; the pointer handed out points behind the
  header. Sizes are computed in \<open>size_t\<close>, that is modulo \<open>2 ^ 64\<close>.

  \<open>is_dga\<close> is the abstract view (length, element size, bytes of the elements), \<open>dga_ok\<close> adds that
  the storage is as long as the header says. The locale \<open>dyn_array\<close> is the interface the rest of
  the program uses.
\<close>

section \<open>Operations\<close>

definition HEADER :: int where
  [simp]: "HEADER = 24"

definition dga_header :: "ptr \<Rightarrow> ptr" where
  "dga_header arr = ptr_add arr (- HEADER)"

definition fld_len :: "ptr \<Rightarrow> ptr" where "fld_len h = h"
definition fld_szt :: "ptr \<Rightarrow> ptr" where "fld_szt h = ptr_add h 16"

definition dga_new :: "u64 \<Rightarrow> u64 \<Rightarrow> (ptr, 'z proc_scheme) prog" where
  "dga_new n obj_size =
     bind (malloc (of_int HEADER + obj_size * n)) (\<lambda>h.
     seq (if h \<noteq> null
          then seq (store_word (fld_len h) n) (store_word (fld_szt h) obj_size)
          else ret ())
     (ret (ptr_add h HEADER)))"

definition dga_len :: "ptr \<Rightarrow> (u64, 'z proc_scheme) prog" where
  "dga_len arr = load_word (fld_len (dga_header arr))"

definition dga_resize :: "ptr \<Rightarrow> u64 \<Rightarrow> (ptr, 'z proc_scheme) prog" where
  "dga_resize arr new_size =
     (let h = dga_header arr in
      seq (store_word (fld_len h) new_size)
     (bind (load_word (fld_szt h)) (\<lambda>szt.
      bind (load_word (fld_len h)) (\<lambda>len.
      bind (realloc h (of_int HEADER + szt * len)) (\<lambda>tmp.
        if tmp \<noteq> null then ret (ptr_add tmp HEADER) else ret tmp)))))"

definition dga_grow :: "ptr \<Rightarrow> u64 \<Rightarrow> (ptr, 'z proc_scheme) prog" where
  "dga_grow arr n = bind (dga_len arr) (\<lambda>len. dga_resize arr (len + n))"

definition dga_shrink :: "ptr \<Rightarrow> u64 \<Rightarrow> (ptr, 'z proc_scheme) prog" where
  "dga_shrink arr n = bind (dga_len arr) (\<lambda>len. dga_resize arr (len - n))"

definition dga_free :: "ptr \<Rightarrow> (unit, 'z proc_scheme) prog" where
  "dga_free arr = free (dga_header arr)"

definition dga_alloc_size :: "ptr \<Rightarrow> (u64, 'z proc_scheme) prog" where
  "dga_alloc_size h =
     bind (load_word (fld_szt h)) (\<lambda>szt.
     bind (load_word (fld_len h)) (\<lambda>len.
       ret (of_int HEADER + szt * len)))"

definition dga_dup :: "ptr \<Rightarrow> (ptr, 'z proc_scheme) prog" where
  "dga_dup arr =
     (let h = dga_header arr in
      bind (dga_alloc_size h) (\<lambda>size.
      bind (malloc size) (\<lambda>tmp.
        if tmp \<noteq> null
        then bind (load_bytes h (unat size)) (\<lambda>bs.
             seq (store_bytes tmp bs) (ret (ptr_add tmp HEADER)))
        else ret null)))"

text \<open>The macros \<open>dga_resize_or\<close>, \<open>dga_grow_or\<close> and \<open>dga_shrink_or\<close>: \<open>jump\<close> is the statement behind the macro,
  which at every use leaves by \<open>goto\<close>; otherwise the array variable is set and control goes on.\<close>

definition dga_resize_or ::
  "ptr \<Rightarrow> u64 \<Rightarrow> ('a, 'z proc_scheme) prog \<Rightarrow> (ptr \<Rightarrow> ('a, 'z proc_scheme) prog) \<Rightarrow> ('a, 'z proc_scheme) prog" where
  "dga_resize_or A n jump k = bind (dga_resize A n) (\<lambda>tmp. if tmp = null then jump else k tmp)"

definition dga_grow_or ::
  "ptr \<Rightarrow> u64 \<Rightarrow> ('a, 'z proc_scheme) prog \<Rightarrow> (ptr \<Rightarrow> ('a, 'z proc_scheme) prog) \<Rightarrow> ('a, 'z proc_scheme) prog" where
  "dga_grow_or A n jump k = bind (dga_grow A n) (\<lambda>tmp. if tmp = null then jump else k tmp)"

definition dga_shrink_or ::
  "ptr \<Rightarrow> u64 \<Rightarrow> ('a, 'z proc_scheme) prog \<Rightarrow> (ptr \<Rightarrow> ('a, 'z proc_scheme) prog) \<Rightarrow> ('a, 'z proc_scheme) prog" where
  "dga_shrink_or A n jump k = bind (dga_shrink A n) (\<lambda>tmp. if tmp = null then jump else k tmp)"

section \<open>Abstract view\<close>

definition dga_bytes :: "u64 \<Rightarrow> mval list \<Rightarrow> u64 \<Rightarrow> mval list \<Rightarrow> mval list" where
  "dga_bytes n cap szt payload = enc (VWord n) @ cap @ enc (VWord szt) @ payload"

definition is_dga :: "'z proc_scheme \<Rightarrow> ptr \<Rightarrow> u64 \<Rightarrow> u64 \<Rightarrow> mval list \<Rightarrow> bool" where
  "is_dga s p n szt payload \<longleftrightarrow>
     (\<exists>b cap. p = Ptr (Blk b) 24 \<and> length cap = 8 \<and>
        blocks s (Blk b) = Some (dga_bytes n cap szt payload))"

text \<open>\<open>fits n szt\<close>: \<open>n\<close> elements of \<open>szt\<close> bytes and their header have a size in \<open>size_t\<close>.\<close>

definition fits :: "u64 \<Rightarrow> u64 \<Rightarrow> bool" where
  "fits n szt \<longleftrightarrow> 24 + unat n * unat szt < 2 ^ 64"

definition dga_ok :: "'z proc_scheme \<Rightarrow> ptr \<Rightarrow> u64 \<Rightarrow> u64 \<Rightarrow> mval list \<Rightarrow> bool" where
  "dga_ok s p n szt payload \<longleftrightarrow>
     is_dga s p n szt payload \<and> length payload = unat n * unat szt \<and> fits n szt"

lemma length_dga_bytes [simp]: "length cap = 8 \<Longrightarrow> length (dga_bytes n cap szt pl) = 24 + length pl"
  by (simp add: dga_bytes_def)

lemma dga_ptr_simps [simp]:
  "dga_header (Ptr b i) = Ptr b (i - 24)" "fld_len (Ptr b i) = Ptr b i"
  "fld_szt (Ptr b i) = Ptr b (i + 16)"
  by (simp_all add: dga_header_def fld_len_def fld_szt_def)

lemma unat_alloc_size:
  assumes "fits n szt"
  shows "unat (24 + szt * n) = 24 + unat n * unat szt"
proof -
  have m: "unat (szt * n) = unat szt * unat n"
    using assms by (subst unat_mult_lem [THEN iffD1]) (auto simp: fits_def mult.commute)
  have "unat (24 + szt * n) = (unat (24 :: u64) + unat (szt * n)) mod 2 ^ 64"
    by (simp only: unat_word_ariths) simp
  also have "\<dots> = 24 + unat n * unat szt"
    using assms m by (simp add: fits_def mult.commute)
  finally show ?thesis .
qed

lemma alloc_size_nonzero: "fits n szt \<Longrightarrow> 24 + szt * n \<noteq> 0"
  using unat_alloc_size [of n szt] by (metis add_is_0 unat_0 zero_neq_numeral)

lemma is_dga_cong: "blocks s' (pbase p) = blocks s (pbase p) \<Longrightarrow> is_dga s' p n szt pl \<longleftrightarrow> is_dga s p n szt pl"
  unfolding is_dga_def by (metis ptr.sel(1))

lemma dga_ok_cong: "blocks s' (pbase p) = blocks s (pbase p) \<Longrightarrow> dga_ok s' p n szt pl \<longleftrightarrow> dga_ok s p n szt pl"
  unfolding dga_ok_def using is_dga_cong by blast

lemma dga_ok_untouched: "dga_ok s p n szt pl \<Longrightarrow> untouched B s s' \<Longrightarrow> pbase p \<notin> B \<Longrightarrow> dga_ok s' p n szt pl"
  using dga_ok_cong [of s' p s] untouchedD [of B s s' "pbase p"] by blast

lemma peek_dga:
  assumes "blocks s b = Some (dga_bytes n cap szt pl)" "length cap = 8"
  shows "peek s (Ptr b 0) 8 = Some (enc (VWord n))" "peek s (Ptr b 16) 8 = Some (enc (VWord szt))"
proof -
  show "peek s (Ptr b 0) 8 = Some (enc (VWord n))"
    by (rule peek_seg [where xs = "[]" and zs = "cap @ enc (VWord szt) @ pl"])
      (simp_all add: assms dga_bytes_def)
  show "peek s (Ptr b 16) 8 = Some (enc (VWord szt))"
    by (rule peek_seg [where xs = "enc (VWord n) @ cap" and zs = pl])
      (simp_all add: assms dga_bytes_def)
qed

lemma poke_dga_len:
  assumes "blocks s b = Some (dga_bytes n cap szt pl)"
  shows "poke (Ptr b 0) (enc (VWord m)) s = Some (s\<lparr>blocks := (blocks s)(b \<mapsto> dga_bytes m cap szt pl)\<rparr>)"
proof -
  have "poke (Ptr b 0) (enc (VWord m)) s =
      Some (s\<lparr>blocks := (blocks s)(b \<mapsto> [] @ enc (VWord m) @ (cap @ enc (VWord szt) @ pl))\<rparr>)"
    by (rule poke_seg [where ys = "enc (VWord n)"]) (simp_all add: assms dga_bytes_def)
  then show ?thesis by (simp add: dga_bytes_def)
qed

section \<open>Rules of the operations on a healthy heap\<close>

lemma take_dga_bytes:
  "length cap = 8 \<Longrightarrow> take (24 + k) (dga_bytes n cap szt pl) = dga_bytes n cap szt (take k pl)"
  by (simp add: dga_bytes_def)

lemma dga_bytes_append: "dga_bytes n cap szt pl @ xs = dga_bytes n cap szt (pl @ xs)"
  by (simp add: dga_bytes_def)

text \<open>A fresh object with room for a header becomes an array when both fields are stored.\<close>

lemma runs_store_header:
  assumes "blocks s (Blk b) = Some (replicate (24 + k) Undef)"
  shows "runs (seq (store_word (Ptr (Blk b) 0) n) (store_word (Ptr (Blk b) 16) szt)) s Q \<longleftrightarrow>
    Q () (s\<lparr>blocks := (blocks s)(Blk b \<mapsto> dga_bytes n (replicate 8 Undef) szt (replicate k Undef))\<rparr>)"
proof -
  let ?r = "replicate 8 Undef"
  have "replicate (24 + k) Undef = [] @ ?r @ (?r @ ?r @ replicate k Undef)"
    by (rule replicate_eqI [symmetric]) auto
  with assms have b: "blocks s (Blk b) = Some ([] @ ?r @ (?r @ ?r @ replicate k Undef))"
    by simp
  let ?s1 = "s\<lparr>blocks := (blocks s)(Blk b \<mapsto> [] @ enc (VWord n) @ (?r @ ?r @ replicate k Undef))\<rparr>"
  have b1: "blocks ?s1 (Blk b) = Some ((enc (VWord n) @ ?r) @ ?r @ replicate k Undef)"
    by simp
  have "poke (Ptr (Blk b) 0) (enc (VWord n)) s = Some ?s1"
    by (rule poke_seg [OF b]) simp_all
  moreover have "poke (Ptr (Blk b) 16) (enc (VWord szt)) ?s1 = Some (?s1\<lparr>blocks := (blocks ?s1)(Blk b \<mapsto>
      (enc (VWord n) @ ?r) @ enc (VWord szt) @ replicate k Undef)\<rparr>)"
    by (rule poke_seg [OF b1]) simp_all
  ultimately show ?thesis
    by (simp add: runs_simps store_word_def dga_bytes_def)
qed

lemma runs_dga_new_gen:
  assumes "healthy s" "24 \<le> unat (24 + szt * n)"
    and "\<And>s'. heap_ext s s' \<Longrightarrow>
      is_dga s' (Ptr (Blk (next_blk s)) 24) n szt (replicate (unat (24 + szt * n) - 24) Undef) \<Longrightarrow>
      untouched {Blk (next_blk s)} s s' \<Longrightarrow> next_blk s' = Suc (next_blk s) \<Longrightarrow>
      Q (Ptr (Blk (next_blk s)) 24) s'"
  shows "runs (dga_new n szt) s Q"
  unfolding dga_new_def runs_bind
proof (rule runs_malloc [OF assms(1)])
  fix s1 assume ext: "heap_ext s s1"
    and bl: "blocks s1 = (blocks s)(Blk (next_blk s) \<mapsto> replicate (unat (of_int HEADER + szt * n)) Undef)"
    and nx: "next_blk s1 = Suc (next_blk s)"
  let ?k = "unat (24 + szt * n) - 24" and ?b = "Blk (next_blk s)"
  let ?s2 = "s1\<lparr>blocks := (blocks s1)(?b \<mapsto> dga_bytes n (replicate 8 Undef) szt (replicate ?k Undef))\<rparr>"
  have b1: "blocks s1 ?b = Some (replicate (24 + ?k) Undef)"
    using assms(2) by (simp add: bl)
  have "heap_ext s ?s2"
    by (rule heap_ext_trans [OF ext heap_ext_store [OF heap_ext_mem_ok [OF ext] b1]]) simp
  moreover have "untouched {?b} s ?s2"
    by (simp add: untouched_def bl)
  moreover have "is_dga ?s2 (Ptr ?b 24) n szt (replicate ?k Undef)"
    unfolding is_dga_def by (rule exI [of _ "next_blk s"], rule exI [of _ "replicate 8 Undef"]) simp
  ultimately have "Q (Ptr ?b 24) ?s2"
    using nx by (intro assms(3)) simp_all
  then show "runs (seq (if Ptr ?b 0 \<noteq> null then seq (store_word (fld_len (Ptr ?b 0)) n)
      (store_word (fld_szt (Ptr ?b 0)) szt) else ret ()) (ret (ptr_add (Ptr ?b 0) HEADER))) s1 Q"
    using runs_store_header [OF b1] by (simp add: runs_seq [of "seq _ _"] runs_ret)
qed

lemma runs_dga_new:
  assumes "healthy s" "fits n szt"
    and "\<And>s'. heap_ext s s' \<Longrightarrow>
      dga_ok s' (Ptr (Blk (next_blk s)) 24) n szt (replicate (unat n * unat szt) Undef) \<Longrightarrow>
      untouched {Blk (next_blk s)} s s' \<Longrightarrow> next_blk s' = Suc (next_blk s) \<Longrightarrow>
      Q (Ptr (Blk (next_blk s)) 24) s'"
  shows "runs (dga_new n szt) s Q"
  by (rule runs_dga_new_gen [OF assms(1)])
    (use assms(2,3) in \<open>auto simp: unat_alloc_size dga_ok_def\<close>)

lemma runs_dga_len [runs_simps]: "is_dga s p n szt pl \<Longrightarrow> runs (dga_len p) s Q \<longleftrightarrow> Q n s"
  by (auto simp: is_dga_def dga_len_def runs_load_word peek_dga)

text \<open>The elements after a resize: the old ones that fit, then uninitialised bytes.\<close>

definition resized :: "nat \<Rightarrow> mval list \<Rightarrow> mval list" where
  "resized k pl = take k pl @ replicate (k - length pl) Undef"

lemma length_resized [simp]: "length (resized k pl) = k"
  by (simp add: resized_def)

lemma runs_dga_resize:
  assumes h: "healthy s" and dga: "dga_ok s p n szt pl" and fits: "fits m szt"
    and Q: "\<And>s'. heap_ext s s' \<Longrightarrow>
      dga_ok s' (Ptr (Blk (next_blk s)) 24) m szt (resized (unat m * unat szt) pl) \<Longrightarrow>
      blocks s' (pbase p) = None \<Longrightarrow> untouched {pbase p, Blk (next_blk s)} s s' \<Longrightarrow>
      next_blk s' = Suc (next_blk s) \<Longrightarrow> Q (Ptr (Blk (next_blk s)) 24) s'"
  shows "runs (dga_resize p m) s Q"
proof -
  obtain b cap where p: "p = Ptr (Blk b) 24" and cap: "length cap = 8"
    and bl: "blocks s (Blk b) = Some (dga_bytes n cap szt pl)"
    using dga by (auto simp: dga_ok_def is_dga_def)
  have fresh: "b \<noteq> next_blk s"
    using healthy_live [OF h bl] by simp
  let ?s1 = "s\<lparr>blocks := (blocks s)(Blk b \<mapsto> dga_bytes m cap szt pl)\<rparr>"
  have ext: "heap_ext s ?s1"
    using heap_ext_store [OF healthy_mem_ok [OF h] bl] by simp
  have b1: "blocks ?s1 (Blk b) = Some (dga_bytes m cap szt pl)" by simp
  have sz: "unat (24 + szt * m) = 24 + unat m * unat szt" "24 + szt * m \<noteq> 0"
    using unat_alloc_size [OF fits] alloc_size_nonzero [OF fits] by simp_all
  let ?k = "unat m * unat szt"
  have bytes: "take (unat (24 + szt * m)) (dga_bytes m cap szt pl)
      @ replicate (unat (24 + szt * m) - length (dga_bytes m cap szt pl)) Undef =
      dga_bytes m cap szt (resized ?k pl)"
    using cap by (simp add: sz take_dga_bytes dga_bytes_append resized_def)
  have "runs (realloc (Ptr (Blk b) 0) (24 + szt * m)) ?s1
      (\<lambda>tmp s'. tmp \<noteq> null \<and> Q (ptr_add tmp HEADER) s')"
  proof (rule runs_realloc [OF heap_ext_healthy [OF h ext] b1 sz(2)])
    fix s' assume ext': "heap_ext ?s1 s'" and nx: "next_blk s' = Suc (next_blk ?s1)"
      and bl': "blocks s' = (blocks ?s1)(Blk b := None, Blk (next_blk ?s1) \<mapsto>
        take (unat (24 + szt * m)) (dga_bytes m cap szt pl)
        @ replicate (unat (24 + szt * m) - length (dga_bytes m cap szt pl)) Undef)"
    have "is_dga s' (Ptr (Blk (next_blk s)) 24) m szt (resized ?k pl)"
      unfolding is_dga_def bl' bytes by (rule exI [of _ "next_blk s"], rule exI [of _ cap]) (simp add: cap)
    then have "dga_ok s' (Ptr (Blk (next_blk s)) 24) m szt (resized ?k pl)"
      using fits by (simp add: dga_ok_def)
    moreover have "untouched {pbase p, Blk (next_blk s)} s s'"
      by (simp add: untouched_def bl' p)
    ultimately show "Ptr (Blk (next_blk ?s1)) 0 \<noteq> null \<and> Q (ptr_add (Ptr (Blk (next_blk ?s1)) 0) HEADER) s'"
      using heap_ext_trans [OF ext ext'] nx fresh Q by (simp add: bl' p)
  qed
  then have "runs (realloc (Ptr (Blk b) 0) (24 + szt * m)) ?s1
      (\<lambda>tmp s'. runs (if tmp \<noteq> null then ret (ptr_add tmp HEADER) else ret tmp) s' Q)"
    by (rule runs_mono) (simp add: runs_simps)
  then show ?thesis
    using peek_dga [OF b1 cap] bl
    by (simp add: dga_resize_def Let_def p runs_simps store_word_def poke_dga_len)
qed

lemma runs_dga_grow:
  assumes "is_dga s p n szt pl"
  shows "runs (dga_grow p k) s Q \<longleftrightarrow> runs (dga_resize p (n + k)) s Q"
  using assms by (simp add: dga_grow_def runs_simps)

lemma runs_dga_shrink:
  assumes "is_dga s p n szt pl"
  shows "runs (dga_shrink p k) s Q \<longleftrightarrow> runs (dga_resize p (n - k)) s Q"
  using assms by (simp add: dga_shrink_def runs_simps)

lemma runs_dga_free [runs_simps]:
  assumes "is_dga s p n szt pl"
  shows "runs (dga_free p) s Q \<longleftrightarrow> Q () (s\<lparr>blocks := (blocks s)(pbase p := None)\<rparr>)"
  using assms by (auto simp: is_dga_def dga_free_def runs_free)

lemma runs_dga_dup:
  assumes h: "healthy s" and dga: "dga_ok s p n szt pl"
    and Q: "\<And>s'. heap_ext s s' \<Longrightarrow> dga_ok s' (Ptr (Blk (next_blk s)) 24) n szt pl \<Longrightarrow>
      untouched {Blk (next_blk s)} s s' \<Longrightarrow> next_blk s' = Suc (next_blk s) \<Longrightarrow>
      Q (Ptr (Blk (next_blk s)) 24) s'"
  shows "runs (dga_dup p) s Q"
proof -
  obtain b cap where p: "p = Ptr (Blk b) 24" and cap: "length cap = 8"
    and bl: "blocks s (Blk b) = Some (dga_bytes n cap szt pl)"
    and len: "length pl = unat n * unat szt" and fits: "fits n szt"
    using dga by (auto simp: dga_ok_def is_dga_def)
  have fresh: "b \<noteq> next_blk s"
    using healthy_live [OF h bl] by simp
  have sz: "unat (24 + szt * n) = 24 + length pl"
    using unat_alloc_size [OF fits] len by simp
  let ?nb = "Blk (next_blk s)"
  have "runs (malloc (24 + szt * n)) s (\<lambda>tmp s1. tmp \<noteq> null \<and>
      runs (load_bytes (Ptr (Blk b) 0) (24 + length pl)) s1 (\<lambda>bs s2.
      runs (store_bytes tmp bs) s2 (\<lambda>_ s3. Q (ptr_add tmp HEADER) s3)))"
  proof (rule runs_malloc [OF h])
    fix s1 assume ext: "heap_ext s s1" and nx: "next_blk s1 = Suc (next_blk s)"
      and bl1: "blocks s1 = (blocks s)(?nb \<mapsto> replicate (unat (24 + szt * n)) Undef)"
    let ?D = "dga_bytes n cap szt pl"
    let ?s2 = "s1\<lparr>blocks := (blocks s1)(?nb \<mapsto> [] @ ?D @ [])\<rparr>"
    have "peek s1 (Ptr (Blk b) 0) (24 + length pl) = Some ?D"
      by (rule peek_seg [where xs = "[]" and zs = "[]"]) (simp_all add: bl1 bl fresh cap)
    moreover have "poke (Ptr ?nb 0) ?D s1 = Some ?s2"
      by (rule poke_seg [where ys = "replicate (unat (24 + szt * n)) Undef"])
        (simp_all add: bl1 sz cap)
    moreover have "Q (ptr_add (Ptr ?nb 0) HEADER) ?s2"
    proof -
      have "blocks s1 ?nb = Some (replicate (unat (24 + szt * n)) Undef)"
        by (simp add: bl1)
      then have "heap_ext s ?s2"
        by (rule heap_ext_trans [OF ext heap_ext_store [OF heap_ext_mem_ok [OF ext]]]) simp
      moreover have "is_dga ?s2 (Ptr ?nb 24) n szt pl"
        unfolding is_dga_def by (rule exI [of _ "next_blk s"], rule exI [of _ cap]) (simp add: cap)
      moreover have "untouched {?nb} s ?s2"
        by (simp add: untouched_def bl1)
      ultimately show ?thesis
        using Q [of ?s2] fits len nx by (simp add: dga_ok_def)
    qed
    ultimately show "Ptr ?nb 0 \<noteq> null \<and> runs (load_bytes (Ptr (Blk b) 0) (24 + length pl)) s1
        (\<lambda>bs s2. runs (store_bytes (Ptr ?nb 0) bs) s2 (\<lambda>_ s3. Q (ptr_add (Ptr ?nb 0) HEADER) s3))"
      by (simp add: runs_simps)
  qed
  then have "runs (malloc (24 + szt * n)) s (\<lambda>tmp s1.
      (tmp \<noteq> null \<longrightarrow> (\<exists>bs. peek s1 (Ptr (Blk b) 0) (24 + length pl) = Some bs \<and>
         (\<exists>s2. poke tmp bs s1 = Some s2 \<and> Q (ptr_add tmp 24) s2))) \<and> (tmp = null \<longrightarrow> Q null s1))"
    by (rule runs_mono) (auto simp: runs_simps)
  then show ?thesis
    using peek_dga [OF bl cap]
    by (simp add: dga_dup_def dga_alloc_size_def Let_def p runs_simps sz)
qed

section \<open>The interface the program uses\<close>

text \<open>An array handle \<open>p\<close> holds \<open>n\<close> elements of \<open>t\<close> bytes each, whose bytes are \<open>pl\<close>. Operations
  change no object but the array's own, and the object behind a handle made by an operation is new.\<close>

locale dyn_array =
  fixes make :: "u64 \<Rightarrow> u64 \<Rightarrow> (ptr, 'z proc_scheme) prog"
    and len_of :: "ptr \<Rightarrow> (u64, 'z proc_scheme) prog"
    and grow :: "ptr \<Rightarrow> u64 \<Rightarrow> (ptr, 'z proc_scheme) prog"
    and release :: "ptr \<Rightarrow> (unit, 'z proc_scheme) prog"
    and rep :: "'z proc_scheme \<Rightarrow> ptr \<Rightarrow> u64 \<Rightarrow> u64 \<Rightarrow> mval list \<Rightarrow> bool"
  assumes rep_length: "rep s p n t pl \<Longrightarrow> length pl = unat n * unat t"
    and rep_local: "rep s p n t pl \<Longrightarrow> blocks s' (pbase p) = blocks s (pbase p) \<Longrightarrow> rep s' p n t pl"
    and rep_live: "rep s p n t pl \<Longrightarrow> blocks s (pbase p) \<noteq> None"
    and make_spec: "healthy s \<Longrightarrow> fits n t \<Longrightarrow> runs (make n t) s (\<lambda>p s'. p \<noteq> null \<and> heap_ext s s' \<and>
      rep s' p n t (replicate (unat n * unat t) Undef) \<and>
      blocks s (pbase p) = None \<and> untouched {pbase p} s s')"
    and len_spec: "rep s p n t pl \<Longrightarrow> runs (len_of p) s (\<lambda>k s'. k = n \<and> s' = s)"
    and grow_spec: "healthy s \<Longrightarrow> rep s p n t pl \<Longrightarrow> fits (n + k) t \<Longrightarrow>
      runs (grow p k) s (\<lambda>q s'. q \<noteq> null \<and> heap_ext s s' \<and>
        rep s' q (n + k) t (resized (unat (n + k) * unat t) pl) \<and>
        blocks s (pbase q) = None \<and> blocks s' (pbase p) = None \<and> untouched {pbase p, pbase q} s s')"
    and store_spec: "healthy s \<Longrightarrow> rep s p n t pl \<Longrightarrow> i + length bs \<le> length pl \<Longrightarrow>
      runs (store_bytes (ptr_add p (int i)) bs) s (\<lambda>_ s'. heap_ext s s' \<and>
        rep s' p n t (splice i bs pl) \<and> untouched {pbase p} s s')"
    and load_spec: "rep s p n t pl \<Longrightarrow> i + j \<le> length pl \<Longrightarrow>
      peek s (ptr_add p (int i)) j = Some (take j (drop i pl))"
    and release_spec: "rep s p n t pl \<Longrightarrow>
      runs (release p) s (\<lambda>_ s'. s' = s\<lparr>blocks := (blocks s)(pbase p := None)\<rparr>)"
begin

lemma rep_untouched: "rep s p n t pl \<Longrightarrow> untouched B s s' \<Longrightarrow> pbase p \<notin> B \<Longrightarrow> rep s' p n t pl"
  using rep_local untouchedD by blast

text \<open>The program's way to append: grow by one, later write the last element.\<close>

lemma grow_one:
  assumes "healthy s" "rep s p n t pl" "fits (n + 1) t" "unat (n + 1) = Suc (unat n)"
  shows "runs (grow p 1) s (\<lambda>q s'. q \<noteq> null \<and> heap_ext s s' \<and>
    rep s' q (n + 1) t (pl @ replicate (unat t) Undef) \<and>
    blocks s (pbase q) = None \<and> blocks s' (pbase p) = None \<and> untouched {pbase p, pbase q} s s')"
proof -
  have "resized (unat (n + 1) * unat t) pl = pl @ replicate (unat t) Undef"
    using assms(4) rep_length [OF assms(2)] by (simp add: resized_def)
  with grow_spec [OF assms(1-3)] show ?thesis by simp
qed

lemma set_last:
  assumes "healthy s" "rep s p n t (pl @ old)" "length bs = length old"
  shows "runs (store_bytes (ptr_add p (int (length pl))) bs) s (\<lambda>_ s'. heap_ext s s' \<and>
    rep s' p n t (pl @ bs) \<and> untouched {pbase p} s s')"
proof -
  have "splice (length pl) bs (pl @ old) = pl @ bs"
    using assms(3) by (simp add: splice_def)
  with store_spec [OF assms(1,2), of "length pl" bs] assms(3) show ?thesis by simp
qed

lemma make_release:
  assumes "healthy s" "fits n t"
  shows "runs (bind (make n t) release) s (\<lambda>_ s'. heap_ext s s' \<and> blocks s' = blocks s)"
proof -
  have "runs (release p) s1 (\<lambda>_ s'. heap_ext s s' \<and> blocks s' = blocks s)"
    if "heap_ext s s1" "rep s1 p n t pl" "blocks s (pbase p) = None" "untouched {pbase p} s s1" for p s1 pl
    by (rule runs_mono [OF release_spec [OF that(2)]])
      (use that heap_ext_free [OF heap_ext_mem_ok [OF that(1)], of "pbase p"] in
        \<open>auto simp: untouched_def fun_eq_iff intro: heap_ext_trans\<close>)
  then show ?thesis
    unfolding runs_bind by (intro runs_mono [OF make_spec [OF assms]]) auto
qed

end

lemma dga_store:
  assumes "healthy s" "dga_ok s p n t pl" "i + length bs \<le> length pl"
  shows "runs (store_bytes (ptr_add p (int i)) bs) s (\<lambda>_ s'. heap_ext s s' \<and>
    dga_ok s' p n t (splice i bs pl) \<and> untouched {pbase p} s s')"
proof -
  obtain b cap where p: "p = Ptr (Blk b) 24" and cap: "length cap = 8"
    and bl: "blocks s (Blk b) = Some (dga_bytes n cap t pl)"
    using assms(2) by (auto simp: dga_ok_def is_dga_def)
  have D: "dga_bytes n cap t pl =
      (enc (VWord n) @ cap @ enc (VWord t) @ take i pl) @ take (length bs) (drop i pl) @ drop (i + length bs) pl"
    by (simp add: dga_bytes_def) (metis append_assoc append_take_drop_id drop_drop add.commute)
  let ?s1 = "s\<lparr>blocks := (blocks s)(Blk b \<mapsto> dga_bytes n cap t (splice i bs pl))\<rparr>"
  have "poke (Ptr (Blk b) (24 + int i)) bs s = Some (s\<lparr>blocks := (blocks s)(Blk b \<mapsto>
      (enc (VWord n) @ cap @ enc (VWord t) @ take i pl) @ bs @ drop (i + length bs) pl)\<rparr>)"
    by (rule poke_seg [OF bl [unfolded D]]) (use assms(3) cap in auto)
  then have "poke (Ptr (Blk b) (24 + int i)) bs s = Some ?s1"
    by (simp add: dga_bytes_def splice_def)
  moreover have "heap_ext s ?s1"
    using heap_ext_store [OF healthy_mem_ok [OF assms(1)] bl] by simp
  moreover have "is_dga ?s1 p n t (splice i bs pl)"
    unfolding is_dga_def by (rule exI [of _ b], rule exI [of _ cap]) (simp add: cap p)
  moreover have "untouched {pbase p} s ?s1"
    by (simp add: untouched_def p)
  ultimately show ?thesis
    using assms(2,3) by (auto simp: runs_simps p dga_ok_def)
qed

lemma dga_load:
  assumes "dga_ok s p n t pl" "i + k \<le> length pl"
  shows "peek s (ptr_add p (int i)) k = Some (take k (drop i pl))"
proof -
  obtain b cap where p: "p = Ptr (Blk b) 24" and cap: "length cap = 8"
    and bl: "blocks s (Blk b) = Some (dga_bytes n cap t pl)"
    using assms(1) by (auto simp: dga_ok_def is_dga_def)
  have D: "dga_bytes n cap t pl =
      (enc (VWord n) @ cap @ enc (VWord t) @ take i pl) @ take k (drop i pl) @ drop (i + k) pl"
    by (simp add: dga_bytes_def) (metis append_assoc append_take_drop_id drop_drop add.commute)
  have "peek s (Ptr (Blk b) (24 + int i)) k = Some (take k (drop i pl))"
    by (rule peek_seg [OF bl [unfolded D]]) (use cap assms(2) in auto)
  then show ?thesis by (simp add: p)
qed

interpretation dga: dyn_array dga_new dga_len dga_grow dga_free dga_ok
proof unfold_locales
  fix s p n t pl and s' :: "'z proc_scheme"
  assume ok: "dga_ok s p n t pl"
  show "length pl = unat n * unat t"
    using ok by (simp add: dga_ok_def)
  show "blocks s (pbase p) \<noteq> None"
    using ok by (auto simp: dga_ok_def is_dga_def)
  show "runs (dga_len p) s (\<lambda>k s'. k = n \<and> s' = s)"
    using ok by (simp add: dga_ok_def runs_dga_len [of s p n t pl])
  show "runs (dga_free p) s (\<lambda>_ s'. s' = s\<lparr>blocks := (blocks s)(pbase p := None)\<rparr>)"
    using ok by (simp add: dga_ok_def runs_dga_free [of s p n t pl])
  show "i + k \<le> length pl \<Longrightarrow> peek s (ptr_add p (int i)) k = Some (take k (drop i pl))" for i k
    using ok by (rule dga_load)
  assume "blocks s' (pbase p) = blocks s (pbase p)"
  with ok show "dga_ok s' p n t pl" using dga_ok_cong [of s' p s n t pl] by blast
next
  fix s n t
  assume "healthy s" "fits n t"
  then show "runs (dga_new n t) s (\<lambda>p s'. p \<noteq> null \<and> heap_ext s s' \<and>
      dga_ok s' p n t (replicate (unat n * unat t) Undef) \<and>
      blocks s (pbase p) = None \<and> untouched {pbase p} s s')"
    by (intro runs_dga_new) (auto simp: healthy_fresh)
next
  fix s p n t pl k
  assume h: "healthy s" and ok: "dga_ok s p n t pl" and "fits (n + k) t"
  then show "runs (dga_grow p k) s (\<lambda>q s'. q \<noteq> null \<and> heap_ext s s' \<and>
        dga_ok s' q (n + k) t (resized (unat (n + k) * unat t) pl) \<and>
        blocks s (pbase q) = None \<and> blocks s' (pbase p) = None \<and> untouched {pbase p, pbase q} s s')"
    by (subst runs_dga_grow [where n = n and szt = t and pl = pl])
      (auto simp: dga_ok_def healthy_fresh intro!: runs_dga_resize [OF h ok])
qed (rule dga_store)

text \<open>The interface of a client that also cuts its arrays.\<close>

locale resizable_array = dyn_array +
  fixes resize :: "ptr \<Rightarrow> u64 \<Rightarrow> (ptr, 'a proc_scheme) prog"
  assumes resize_spec: "healthy s \<Longrightarrow> rep s p n t pl \<Longrightarrow> fits m t \<Longrightarrow>
      runs (resize p m) s (\<lambda>q s'. q \<noteq> null \<and> heap_ext s s' \<and>
        rep s' q m t (resized (unat m * unat t) pl) \<and>
        blocks s (pbase q) = None \<and> blocks s' (pbase p) = None \<and> untouched {pbase p, pbase q} s s')"
begin

lemma cut:
  assumes "healthy s" "rep s p n t pl" "fits m t" "unat m \<le> unat n"
  shows "runs (resize p m) s (\<lambda>q s'. q \<noteq> null \<and> heap_ext s s' \<and> rep s' q m t (take (unat m * unat t) pl) \<and>
    blocks s (pbase q) = None \<and> blocks s' (pbase p) = None \<and> untouched {pbase p, pbase q} s s')"
proof -
  have "resized (unat m * unat t) pl = take (unat m * unat t) pl"
    using assms(4) rep_length [OF assms(2)] by (simp add: resized_def)
  with resize_spec [OF assms(1-3)] show ?thesis by simp
qed

end

interpretation dga_cut: resizable_array dga_new dga_len dga_grow dga_free dga_ok dga_resize
proof unfold_locales
  fix s p n t pl m
  assume "healthy s" and "dga_ok s p n t pl" and "fits m t"
  then show "runs (dga_resize p m) s (\<lambda>q s'. q \<noteq> null \<and> heap_ext s s' \<and>
        dga_ok s' q m t (resized (unat m * unat t) pl) \<and>
        blocks s (pbase q) = None \<and> blocks s' (pbase p) = None \<and> untouched {pbase p, pbase q} s s')"
    by (intro runs_dga_resize) (auto simp: healthy_fresh)
qed

section \<open>Properties\<close>

text \<open>A process with an empty heap, one that cannot allocate, and one holding an array of two
  bytes.\<close>

definition empty_proc :: proc where
  "empty_proc = \<lparr>blocks = (\<lambda>_. None), next_blk = 0, grants = (\<lambda>_. True), requests = 0,
     errno_of = 0, stdout_of = [], stderr_of = []\<rparr>"

definition full_proc :: proc where
  "full_proc = empty_proc\<lparr>grants := (\<lambda>_. False)\<rparr>"

definition two_bytes :: "mval list" where
  "two_bytes = [Chr (CHR ''a''), Chr (CHR ''b'')]"

definition array_proc :: proc where
  "array_proc = empty_proc\<lparr>next_blk := 1,
     blocks := [Blk 0 \<mapsto> dga_bytes 2 (replicate 8 Undef) 1 two_bytes]\<rparr>"

lemma concrete_procs:
  "healthy empty_proc" "healthy array_proc" "dga_ok array_proc (Ptr (Blk 0) 24) 2 1 two_bytes"
proof -
  show "healthy empty_proc" "healthy array_proc"
    by (simp_all add: healthy_def mem_ok_def never_oom_def empty_proc_def array_proc_def)
  have "is_dga array_proc (Ptr (Blk 0) 24) 2 1 two_bytes"
    unfolding is_dga_def by (rule exI [of _ 0], rule exI [of _ "replicate 8 Undef"]) (simp add: array_proc_def)
  then show "dga_ok array_proc (Ptr (Blk 0) 24) 2 1 two_bytes"
    by (simp add: dga_ok_def fits_def two_bytes_def)
qed

text \<open>A new array of \<open>n\<close> elements has the length and element size asked for and uninitialised
  storage of exactly that size in an object of its own, and freeing it gives back the heap as it
  was.\<close>

lemma dga_new_free:
  assumes "healthy s" "fits n t"
  shows "runs (dga_new n t) s (\<lambda>p s'. dga_ok s' p n t (replicate (unat n * unat t) Undef) \<and>
      blocks s (pbase p) = None \<and> untouched {pbase p} s s' \<and> runs (dga_len p) s' (\<lambda>k _. k = n))
    \<and> runs (bind (dga_new n t) dga_free) s (\<lambda>_ s'. blocks s' = blocks s)"
proof
  show "runs (dga_new n t) s (\<lambda>p s'. dga_ok s' p n t (replicate (unat n * unat t) Undef) \<and>
      blocks s (pbase p) = None \<and> untouched {pbase p} s s' \<and> runs (dga_len p) s' (\<lambda>k _. k = n))"
    by (rule runs_mono [OF dga.make_spec [OF assms]]) (auto dest: dga.len_spec elim: runs_mono)
  show "runs (bind (dga_new n t) dga_free) s (\<lambda>_ s'. blocks s' = blocks s)"
    by (rule runs_mono [OF dga.make_release [OF assms]]) simp
qed

text \<open>Resizing keeps every element that fits the new size at its place, leaves the rest of the
  new storage uninitialised, frees the old storage and touches no other object.\<close>

lemma dga_resize_keeps:
  assumes "healthy s" "dga_ok s p n t pl" "fits m t"
  shows "runs (dga_resize p m) s (\<lambda>q s'. q \<noteq> null \<and> dga_ok s' q m t (resized (unat m * unat t) pl) \<and>
    blocks s' (pbase p) = None \<and> untouched {pbase p, pbase q} s s' \<and>
    (\<forall>i < min (length pl) (unat m * unat t). resized (unat m * unat t) pl ! i = pl ! i))"
  by (rule runs_dga_resize [OF assms]) (auto simp: resized_def nth_append)

text \<open>Growing an array and shrinking it by the same number of elements gives back an array with
  the same length and elements.\<close>

lemma dga_grow_shrink:
  assumes "healthy s" "dga_ok s p n t pl" "unat n + unat k < 2 ^ 64" "fits (n + k) t"
  shows "runs (bind (dga_grow p k) (\<lambda>q. dga_shrink q k)) s (\<lambda>r s'. r \<noteq> null \<and> dga_ok s' r n t pl \<and>
    untouched {pbase p, pbase r} s s')"
proof -
  have sum: "unat (n + k) = unat n + unat k"
    using assms(3) by (subst unat_add_lem [THEN iffD1]) auto
  have len: "length pl = unat n * unat t" and fits: "fits n t"
    using assms(2) by (simp_all add: dga_ok_def)
  have again: "resized (unat n * unat t) (resized (unat (n + k) * unat t) pl) = pl"
    using len sum by (simp add: resized_def add_mult_distrib)
  have "runs (dga_shrink q k) s1 (\<lambda>r s'. r \<noteq> null \<and> dga_ok s' r n t pl \<and> untouched {pbase p, pbase r} s s')"
    if ext: "heap_ext s s1" and q: "dga_ok s1 q (n + k) t (resized (unat (n + k) * unat t) pl)"
      and other: "blocks s (pbase q) = None" "untouched {pbase p, pbase q} s s1" for q s1
  proof -
    have "is_dga s1 q (n + k) t (resized (unat (n + k) * unat t) pl)"
      using q by (simp add: dga_ok_def)
    then have "runs (dga_resize q n) s1 (\<lambda>r s'. r \<noteq> null \<and> dga_ok s' r n t pl \<and> untouched {pbase p, pbase r} s s')"
      by (intro runs_mono [OF dga_resize_keeps [OF heap_ext_healthy [OF assms(1) ext] q fits]])
        (use other again in \<open>auto simp: untouched_def, metis\<close>)
    then show ?thesis
      by (simp add: runs_dga_shrink [OF \<open>is_dga s1 q _ _ _\<close>])
  qed
  then show ?thesis
    unfolding runs_bind by (intro runs_mono [OF dga.grow_spec [OF assms(1,2,4)]]) auto
qed

text \<open>A duplicate holds the same elements, and writing to it leaves the original as it is.\<close>

lemma dga_dup_independent:
  assumes "healthy s" "dga_ok s p n t pl" "i + length bs \<le> length pl"
  shows "runs (bind (dga_dup p) (\<lambda>q. seq (store_bytes (ptr_add q (int i)) bs) (ret q))) s
    (\<lambda>q s'. dga_ok s' p n t pl \<and> dga_ok s' q n t (splice i bs pl) \<and> pbase q \<noteq> pbase p)"
  unfolding runs_bind runs_seq runs_ret
proof (rule runs_dga_dup [OF assms(1,2)])
  let ?q = "Ptr (Blk (next_blk s)) 24"
  fix s1 assume s1: "heap_ext s s1" "dga_ok s1 ?q n t pl" "untouched {Blk (next_blk s)} s s1"
  have p: "pbase p \<noteq> pbase ?q"
    using dga.rep_live [OF assms(2)] healthy_fresh [OF assms(1)] by auto
  have "dga_ok s1 p n t pl"
    using dga.rep_untouched [OF assms(2) s1(3)] p by simp
  then show "runs (store_bytes (ptr_add ?q (int i)) bs) s1
      (\<lambda>_ s'. dga_ok s' p n t pl \<and> dga_ok s' ?q n t (splice i bs pl) \<and> pbase ?q \<noteq> pbase p)"
    by (intro runs_mono [OF dga_store [OF heap_ext_healthy [OF assms(1) s1(1)] s1(2) assms(3)]])
      (use p in \<open>auto intro: dga.rep_untouched\<close>)
qed

text \<open>When the allocator refuses, \<open>dga_new\<close> still returns a pointer that is not NULL, so the
  callers' tests for NULL never see the failure, and the first use of the array is undefined.\<close>

lemma dga_new_hides_oom:
  assumes "\<not> grants s (requests s)" "mem_ok s"
  shows "\<exists>p s'. dga_new n t s = Done p s' \<and> p \<noteq> null \<and> blocks s' = blocks s \<and>
    dga_len p s' = Undefined \<and> dga_grow p k s' = Undefined \<and> dga_resize p m s' = Undefined \<and>
    strcpy p x s' = Undefined"
proof -
  let ?s' = "s\<lparr>requests := Suc (requests s)\<rparr>"
  have no: "blocks ?s' NoBase = None"
    using assms(2) by (simp add: mem_ok_def)
  have "dga_new n t s = Done (ptr_add null 24) ?s'"
    using assms(1) by (simp add: dga_new_def malloc_def prog_defs Let_def)
  moreover have "ptr_add null 24 \<noteq> null"
    by (simp add: null_def)
  moreover have "dga_len (ptr_add null 24) ?s' = Undefined" "dga_resize (ptr_add null 24) m ?s' = Undefined"
    "strcpy (ptr_add null 24) x ?s' = Undefined"
    using no by (simp_all add: dga_len_def load_word_def dga_resize_def store_word_def store_bytes_def
        writes_def strcpy_def prog_defs null_def peek_no_object poke_no_object Let_def)
  moreover from this(1) have "dga_grow (ptr_add null 24) k ?s' = Undefined"
    by (simp add: dga_grow_def bind_def)
  ultimately show ?thesis by force
qed

text \<open>When the allocator refuses a resize the result is NULL and the storage is as before, but
  the header already says the new length: the array's length and storage no longer agree.\<close>

lemma dga_resize_oom_breaks_length:
  assumes "\<not> grants s (requests s)" "dga_ok s p n t pl" "24 + t * m \<noteq> 0"
  shows "\<exists>s'. dga_resize p m s = Done null s' \<and> is_dga s' p m t pl \<and> untouched {pbase p} s s' \<and>
    (dga_ok s' p m t pl \<longrightarrow> unat m * unat t = unat n * unat t)"
proof -
  obtain b cap where p: "p = Ptr (Blk b) 24" and cap: "length cap = 8"
    and bl: "blocks s (Blk b) = Some (dga_bytes n cap t pl)" and len: "length pl = unat n * unat t"
    using assms(2) by (auto simp: dga_ok_def is_dga_def)
  let ?s1 = "s\<lparr>blocks := (blocks s)(Blk b \<mapsto> dga_bytes m cap t pl)\<rparr>"
  let ?s2 = "?s1\<lparr>requests := Suc (requests s)\<rparr>"
  have "blocks ?s1 (Blk b) = Some (dga_bytes m cap t pl)" by simp
  note peeks = peek_dga [OF this cap]
  have "dga_resize p m s = Done null ?s2"
    using assms(1,3) poke_dga_len [OF bl, of m] peeks
    by (simp add: dga_resize_def Let_def p prog_defs store_word_def store_bytes_def writes_def
        load_word_def realloc_def)
  moreover have "is_dga ?s2 p m t pl"
    unfolding is_dga_def by (rule exI [of _ b], rule exI [of _ cap]) (simp add: cap p)
  moreover have "untouched {pbase p} s ?s2" by (simp add: untouched_def p)
  ultimately show ?thesis
    using len by (auto simp: dga_ok_def)
qed

text \<open>The size of a new array is not checked for overflow: where \<open>n\<close> elements do not fit
  \<open>size_t\<close> and the wrapped size still holds a header, the call succeeds and the array says it has
  \<open>n\<close> elements while its storage is smaller.\<close>

lemma dga_new_overflow:
  assumes "healthy s" "\<not> fits n t" "24 \<le> unat (24 + t * n)"
  shows "runs (dga_new n t) s (\<lambda>p s'. \<exists>pl. is_dga s' p n t pl \<and> length pl < unat n * unat t \<and>
    runs (dga_len p) s' (\<lambda>k _. k = n))"
proof (rule runs_dga_new_gen [OF assms(1,3)])
  let ?k = "unat (24 + t * n) - 24"
  fix s' assume dga: "is_dga s' (Ptr (Blk (next_blk s)) 24) n t (replicate ?k Undef)"
  have "unat (24 + t * n) < 2 ^ 64"
    using unsigned_less [of "24 + t * n"] by simp
  then have "?k < unat n * unat t"
    using assms(2) by (simp add: fits_def)
  with dga show "\<exists>pl. is_dga s' (Ptr (Blk (next_blk s)) 24) n t pl \<and> length pl < unat n * unat t \<and>
      runs (dga_len (Ptr (Blk (next_blk s)) 24)) s' (\<lambda>k _. k = n)"
    by (intro exI [of _ "replicate ?k Undef"]) (simp add: runs_dga_len [OF dga])
qed

end
