(* ===== verification/Posix.thy ===== *)
theory Posix
  imports Errm Dga
begin

text \<open>
  The state of a prom process and the services of the operating system it calls. The services are
  not code of the program: what they answer is a parameter, a record \<open>posix\<close> of functions over an
  abstract operating system state \<open>'e\<close>. What the process itself keeps of them is state here: the
  open directory streams with the entries still to be delivered, the loaded shared objects and
  the pending \<open>dlerror\<close> message.
\<close>

section \<open>State\<close>

text \<open>The functions the program passes to \<open>defer\<close> and \<open>static_defer\<close>.\<close>

datatype handler = H_free | H_wordfree | H_close_dir | H_free_mod_names

text \<open>\<open>struct module_cbs\<close>: the callbacks a module can install. \<open>None\<close> is a field nothing was stored in.\<close>

record module_cbs =
  cb_read_file :: "ptr option"
  cb_write_file :: "ptr option"
  cb_syscall :: "ptr option"
  cb_cmd :: "ptr option"

text \<open>A symbol of a shared object is a character array or a function on a module's callbacks.\<close>

datatype symbol = Data string | Func "module_cbs \<Rightarrow> module_cbs"

type_synonym shared_object = "string \<Rightarrow> symbol option"

text \<open>The shell's \<open>struct global_state\<close>, with the \<open>struct winsize\<close> as its two fields.\<close>

record global_state =
  g_vterm :: ptr
  g_vtscr :: ptr
  ws_row :: u16
  ws_col :: u16
  fd_master :: int
  fd_slave :: int
  pid_child :: int
  got_sigwinch :: bool

text \<open>The process. \<open>last_syscall\<close> is the static variable of the tracer, \<open>globe\<close> the shell's global.\<close>

record 'e world = "handler errm_state" +
  env :: 'e
  dirs :: "nat \<Rightarrow> string list option"
  libs :: "nat \<Rightarrow> shared_object option"
  next_ext :: nat
  dl_error :: "string option"
  last_syscall :: u64
  globe :: global_state

text \<open>The answers of the operating system. \<open>wordexp\<close> gives the expanded words or fails; \<open>getcwd\<close>
  gives the working directory or fails; \<open>opendir\<close> gives \<open>errno\<close> or the names the stream will
  deliver, in order; \<open>dlopen\<close> (of the program itself for no path) gives a message or the object;
  \<open>symlink\<close> and \<open>remove\<close> give \<open>errno\<close> or the new state.\<close>

record 'e posix =
  os_wordexp :: "'e \<Rightarrow> string \<Rightarrow> string list option"
  os_getcwd :: "'e \<Rightarrow> int + string"
  os_opendir :: "'e \<Rightarrow> string \<Rightarrow> int + string list"
  os_dlopen :: "'e \<Rightarrow> string option \<Rightarrow> string + shared_object"
  os_nosym :: "string \<Rightarrow> string"
  os_symlink :: "'e \<Rightarrow> string \<Rightarrow> string \<Rightarrow> int + 'e"
  os_remove :: "'e \<Rightarrow> string \<Rightarrow> int + 'e"

definition set_errno :: "int \<Rightarrow> (unit, 'z proc_scheme) prog" where
  "set_errno e = modify (\<lambda>s. s\<lparr>errno_of := e\<rparr>)"

section \<open>Word expansion\<close>

text \<open>An object the C library allocates for a result it has already promised.\<close>

definition lib_alloc :: "mval list \<Rightarrow> (ptr, 'z proc_scheme) prog" where
  "lib_alloc bs = (\<lambda>s. Done (Ptr (Blk (next_blk s)) 0)
     (s\<lparr>blocks := (blocks s)(Blk (next_blk s) \<mapsto> bs), next_blk := Suc (next_blk s)\<rparr>))"

fun lib_alloc_all :: "string list \<Rightarrow> (ptr list, 'z proc_scheme) prog" where
  "lib_alloc_all [] = ret []"
| "lib_alloc_all (w # ws) =
     bind (lib_alloc (cstr w)) (\<lambda>p. bind (lib_alloc_all ws) (\<lambda>ps. ret (p # ps)))"

definition ptr_bytes :: "ptr list \<Rightarrow> mval list" where
  "ptr_bytes ps = concat (map (enc \<circ> VPtr) ps)"

text \<open>The bytes of a \<open>wordexp_t\<close> object: \<open>we_wordc\<close>, \<open>we_wordv\<close>, \<open>we_offs\<close>.\<close>

definition wordexp_bytes :: "u64 \<Rightarrow> ptr \<Rightarrow> mval list" where
  "wordexp_bytes wordc wordv = enc (VWord wordc) @ enc (VPtr wordv) @ enc (VWord 0)"

definition sizeof_wordexp :: u64 where
  "sizeof_wordexp = 24"

definition we_wordc :: "mval list \<Rightarrow> u64 option" where
  "we_wordc w = as_word (dec (take 8 w))"

definition we_wordv :: "mval list \<Rightarrow> ptr option" where
  "we_wordv w = as_ptr (dec (take 8 (drop 8 w)))"

text \<open>\<open>wordexp(path, &w, 0)\<close>: the object \<open>w\<close>, whose word vector ends with NULL, or no object where
  the call returns an error.\<close>

definition wordexp :: "'e posix \<Rightarrow> string \<Rightarrow> (mval list option, 'e world) prog" where
  "wordexp P path = bind (gets (\<lambda>s. os_wordexp P (env s) path)) (\<lambda>r.
     case r of
       None \<Rightarrow> ret None
     | Some ws \<Rightarrow>
         bind (lib_alloc_all ws) (\<lambda>ps.
         bind (lib_alloc (ptr_bytes (ps @ [null]))) (\<lambda>v.
           ret (Some (wordexp_bytes (of_nat (length ws)) v)))))"

fun free_words :: "nat \<Rightarrow> ptr \<Rightarrow> (unit, 'z proc_scheme) prog" where
  "free_words 0 v = ret ()"
| "free_words (Suc k) v = bind (load_ptr v) (\<lambda>p. seq (free p) (free_words k (ptr_add v 8)))"

definition wordfree :: "mval list \<Rightarrow> (unit, 'z proc_scheme) prog" where
  "wordfree w = (case (we_wordc w, we_wordv w) of
       (Some n, Some v) \<Rightarrow> seq (free_words (unat n) v) (free v)
     | _ \<Rightarrow> undefined_prog)"

section \<open>Directories\<close>

definition getcwd :: "'e posix \<Rightarrow> (ptr, 'e world) prog" where
  "getcwd P = bind (gets (\<lambda>s. os_getcwd P (env s))) (\<lambda>r.
     case r of
       Inl e \<Rightarrow> seq (set_errno e) (ret null)
     | Inr cwd \<Rightarrow> bind (malloc (strlen cwd + 1)) (\<lambda>p.
         if p = null then seq (set_errno ENOMEM) (ret null)
         else seq (strcpy p cwd) (ret p)))"

definition opendir :: "'e posix \<Rightarrow> string \<Rightarrow> (ptr, 'e world) prog" where
  "opendir P path = bind (gets (\<lambda>s. os_opendir P (env s) path)) (\<lambda>r.
     case r of
       Inl e \<Rightarrow> seq (set_errno e) (ret null)
     | Inr names \<Rightarrow> (\<lambda>s. Done (Ptr (Ext (next_ext s)) 0)
         (s\<lparr>dirs := (dirs s)(next_ext s \<mapsto> names), next_ext := Suc (next_ext s)\<rparr>)))"

definition dir_stream :: "'e world \<Rightarrow> ptr \<Rightarrow> (nat \<times> string list) option" where
  "dir_stream s dp = (case dp of
       Ptr (Ext n) i \<Rightarrow> if i = 0 then map_option (Pair n) (dirs s n) else None
     | _ \<Rightarrow> None)"

text \<open>The next entry's name, or \<open>None\<close> for the NULL at the end.\<close>

definition readdir :: "ptr \<Rightarrow> (string option, 'e world) prog" where
  "readdir dp = bind (reads (\<lambda>s. dir_stream s dp)) (\<lambda>st.
     case snd st of
       [] \<Rightarrow> ret None
     | x # xs \<Rightarrow> seq (modify (\<lambda>s. s\<lparr>dirs := (dirs s)(fst st \<mapsto> xs)\<rparr>)) (ret (Some x)))"

definition closedir :: "ptr \<Rightarrow> (unit, 'e world) prog" where
  "closedir dp = bind (reads (\<lambda>s. dir_stream s dp)) (\<lambda>st.
     modify (\<lambda>s. s\<lparr>dirs := (dirs s)(fst st := None)\<rparr>))"

section \<open>Links and shared objects\<close>

definition EFAULT :: int where "EFAULT = 14"

definition path_call ::
  "ptr \<Rightarrow> (string \<Rightarrow> (int, 'e world) prog) \<Rightarrow> (int, 'e world) prog" where
  "path_call p f = (if p = null then seq (set_errno EFAULT) (ret (- 1)) else bind (load_str p) f)"

definition os_result :: "int + 'e \<Rightarrow> (int, 'e world) prog" where
  "os_result r = (case r of
       Inl e \<Rightarrow> seq (set_errno e) (ret (- 1))
     | Inr e' \<Rightarrow> seq (modify (\<lambda>s. s\<lparr>env := e'\<rparr>)) (ret 0))"

definition symlink :: "'e posix \<Rightarrow> string \<Rightarrow> ptr \<Rightarrow> (int, 'e world) prog" where
  "symlink P target link = path_call link (\<lambda>l.
     bind (gets (\<lambda>s. os_symlink P (env s) target l)) os_result)"

definition remove_file :: "'e posix \<Rightarrow> ptr \<Rightarrow> (int, 'e world) prog" where
  "remove_file P path = path_call path (\<lambda>x. bind (gets (\<lambda>s. os_remove P (env s) x)) os_result)"

text \<open>The data symbols of object \<open>n\<close> become objects of the process when it is loaded.\<close>

definition map_lib :: "nat \<Rightarrow> shared_object \<Rightarrow> (base \<Rightarrow> mval list option) \<Rightarrow> base \<Rightarrow> mval list option" where
  "map_lib n so f b = (case b of
       Sym m x \<Rightarrow> if m = n then (case so x of Some (Data t) \<Rightarrow> Some (cstr t) | _ \<Rightarrow> None) else f b
     | _ \<Rightarrow> f b)"

definition unmap_lib :: "nat \<Rightarrow> (base \<Rightarrow> mval list option) \<Rightarrow> base \<Rightarrow> mval list option" where
  "unmap_lib n f b = (case b of Sym m x \<Rightarrow> if m = n then None else f b | _ \<Rightarrow> f b)"

definition dlopen :: "'e posix \<Rightarrow> string option \<Rightarrow> (ptr, 'e world) prog" where
  "dlopen P path = bind (gets (\<lambda>s. os_dlopen P (env s) path)) (\<lambda>r.
     case r of
       Inl msg \<Rightarrow> seq (modify (\<lambda>s. s\<lparr>dl_error := Some msg\<rparr>)) (ret null)
     | Inr so \<Rightarrow> (\<lambda>s. Done (Ptr (Ext (next_ext s)) 0)
         (s\<lparr>blocks := map_lib (next_ext s) so (blocks s),
            libs := (libs s)(next_ext s \<mapsto> so), next_ext := Suc (next_ext s)\<rparr>)))"

definition lib_of :: "'e world \<Rightarrow> ptr \<Rightarrow> (nat \<times> shared_object) option" where
  "lib_of s h = (case h of
       Ptr (Ext n) i \<Rightarrow> if i = 0 then map_option (Pair n) (libs s n) else None
     | _ \<Rightarrow> None)"

definition dlsym :: "'e posix \<Rightarrow> ptr \<Rightarrow> string \<Rightarrow> (ptr, 'e world) prog" where
  "dlsym P h x = bind (reads (\<lambda>s. lib_of s h)) (\<lambda>l.
     if snd l x = None
     then seq (modify (\<lambda>s. s\<lparr>dl_error := Some (os_nosym P x)\<rparr>)) (ret null)
     else ret (Ptr (Sym (fst l) x) 0))"

definition dlclose :: "ptr \<Rightarrow> (unit, 'e world) prog" where
  "dlclose h = bind (reads (\<lambda>s. lib_of s h)) (\<lambda>l.
     modify (\<lambda>s. s\<lparr>blocks := unmap_lib (fst l) (blocks s), libs := (libs s)(fst l := None)\<rparr>))"

text \<open>The pending message, which the call clears.\<close>

definition dlerror :: "(string option, 'e world) prog" where
  "dlerror = bind (gets dl_error) (\<lambda>m. seq (modify (\<lambda>s. s\<lparr>dl_error := None\<rparr>)) (ret m))"

text \<open>The function a pointer points to.\<close>

definition func_of :: "'e world \<Rightarrow> ptr \<Rightarrow> (module_cbs \<Rightarrow> module_cbs) option" where
  "func_of s p = (case p of
       Ptr (Sym n x) i \<Rightarrow>
         (case libs s n of
            Some so \<Rightarrow> (case so x of Some (Func f) \<Rightarrow> if i = 0 then Some f else None | _ \<Rightarrow> None)
          | None \<Rightarrow> None)
     | _ \<Rightarrow> None)"

section \<open>Code that leaves the defer stack and the error code alone\<close>

definition stackless :: "('a, ('h, 'z) errm_state_scheme) prog \<Rightarrow> bool" where
  "stackless m \<longleftrightarrow>
     (\<forall>F c s. m (with_stack F c s) = map_outcome (\<lambda>x. x) (with_stack F c) (m s)) \<and>
     (\<forall>s a s'. m s = Done a s' \<longrightarrow> err_code s' = err_code s)"

named_theorems stackless_intros \<open>closure of stackless\<close>

lemma stacklessD:
  assumes "stackless m"
  shows "m (with_stack F c s) = map_outcome (\<lambda>x. x) (with_stack F c) (m s)"
    and "m s = Done a s' \<Longrightarrow> err_code s' = err_code s"
  using assms unfolding stackless_def by blast+

lemma stackless_ret [stackless_intros]: "stackless (ret a)"
  by (simp add: stackless_def ret_def)

lemma stackless_undefined [stackless_intros]: "stackless undefined_prog"
  by (simp add: stackless_def undefined_prog_def)

lemma stackless_bind [stackless_intros]:
  assumes "stackless m" "\<And>a. stackless (f a)"
  shows "stackless (bind m f)"
proof -
  have "bind m f (with_stack F c s) = map_outcome (\<lambda>x. x) (with_stack F c) (bind m f s)" for F c s
  proof -
    have "m (with_stack F c s) = map_outcome (\<lambda>x. x) (with_stack F c) (m s)"
      using assms(1) by (simp add: stackless_def)
    moreover have "f a (with_stack F c s1) = map_outcome (\<lambda>x. x) (with_stack F c) (f a s1)" for a s1
      using assms(2) by (simp add: stackless_def)
    ultimately show ?thesis
      by (cases "m s") (simp_all add: bind_def)
  qed
  moreover have "bind m f s = Done a s' \<Longrightarrow> err_code s' = err_code s" for s a s'
    using assms by (cases "m s") (auto simp: bind_def stackless_def)
  ultimately show ?thesis by (simp add: stackless_def)
qed

lemma stackless_seq [stackless_intros]: "stackless m \<Longrightarrow> stackless k \<Longrightarrow> stackless (seq m k)"
  by (simp add: seq_def stackless_bind)

lemma stackless_if [stackless_intros]: "stackless m \<Longrightarrow> stackless k \<Longrightarrow> stackless (if b then m else k)"
  by simp

lemma stackless_reads [stackless_intros]:
  "(\<And>F c s. f (with_stack F c s) = f s) \<Longrightarrow> stackless (reads f)"
  by (auto simp: stackless_def reads_def split: option.splits)

lemma stackless_gets [stackless_intros]:
  "(\<And>F c s. f (with_stack F c s) = f s) \<Longrightarrow> stackless (gets f)"
  by (auto simp: stackless_def gets_def)

lemma stackless_modify [stackless_intros]:
  "(\<And>F c s. f (with_stack F c s) = with_stack F c (f s)) \<Longrightarrow> (\<And>s. err_code (f s) = err_code s) \<Longrightarrow>
   stackless (modify f)"
  by (auto simp: stackless_def modify_def)

lemma peek_with_stack [simp]: "peek (with_stack F c s) = peek s"
  by (simp add: peek_def fun_eq_iff)

lemma stackless_load_ptr [stackless_intros]: "stackless (load_ptr p)"
  by (simp add: load_ptr_def stackless_intros)

lemma stackless_load_word [stackless_intros]: "stackless (load_word p)"
  by (simp add: load_word_def stackless_intros)

lemma stackless_free [stackless_intros]: "stackless (free p)"
  by (cases p rule: ptr.exhaust, cases "pbase p")
    (auto simp: stackless_def free_def with_stack_def split: base.splits if_splits)

lemma stackless_free_words [stackless_intros]: "stackless (free_words k v)"
  by (induction k arbitrary: v) (simp_all add: stackless_intros)

lemma stackless_wordfree [stackless_intros]: "stackless (wordfree w)"
  by (auto simp: wordfree_def stackless_intros split: option.splits)

lemma stackless_closedir [stackless_intros]: "stackless (closedir dp)"
  unfolding closedir_def
  by (intro stackless_intros) (auto simp: dir_stream_def with_stack_def split: ptr.splits base.splits)

section \<open>Fields an operation on the heap or on the defer stack leaves alone\<close>

lemma heap_only_errm:
  fixes s s' :: "('h, 'z) errm_state_scheme"
  assumes "heap_only s s'"
  shows "frames s' = frames s" "curr s' = curr s" "err_code s' = err_code s"
  using assms by (auto simp: heap_only_def)

lemma heap_only_world:
  fixes s s' :: "'e world"
  assumes "heap_only s s'"
  shows "env s' = env s" "dirs s' = dirs s" "libs s' = libs s" "next_ext s' = next_ext s"
    "dl_error s' = dl_error s"
  using assms by (auto simp: heap_only_def)

lemma world_simps [simp]:
  fixes s :: "'e world"
  shows "env (with_stack F c s) = env s" "dirs (with_stack F c s) = dirs s"
    "libs (with_stack F c s) = libs s" "next_ext (with_stack F c s) = next_ext s"
    "dl_error (with_stack F c s) = dl_error s"
    "env (entered s) = env s" "dirs (entered s) = dirs s"
    "libs (entered s) = libs s" "next_ext (entered s) = next_ext s"
    "dl_error (entered s) = dl_error s"
    "env (set_frame i fr s) = env s" "dirs (set_frame i fr s) = dirs s"
    "libs (set_frame i fr s) = libs s" "next_ext (set_frame i fr s) = next_ext s"
    "dl_error (set_frame i fr s) = dl_error s"
  by (simp_all add: with_stack_def entered_def set_frame_def)

text \<open>\<open>proc_step s s'\<close>: a step that keeps the heap well formed and changes neither the operating
  system nor the loaded objects nor the streams. \<open>call_step\<close> adds a balanced defer stack.\<close>

definition proc_step :: "'e world \<Rightarrow> 'e world \<Rightarrow> bool" where
  "proc_step s s' \<longleftrightarrow> mem_ok s' \<and> next_blk s \<le> next_blk s' \<and> requests s \<le> requests s' \<and>
     grants s' = grants s \<and> env s' = env s \<and> libs s' = libs s \<and> dl_error s' = dl_error s \<and>
     stdout_of s' = stdout_of s \<and> stderr_of s' = stderr_of s \<and> next_ext s \<le> next_ext s'"

definition call_step :: "'e world \<Rightarrow> 'e world \<Rightarrow> bool" where
  "call_step s s' \<longleftrightarrow> balanced s s' \<and> proc_step s s'"

lemma proc_step_trans: "proc_step s s1 \<Longrightarrow> proc_step s1 s2 \<Longrightarrow> proc_step s s2"
  by (auto simp: proc_step_def)

lemma proc_step_refl: "mem_ok s \<Longrightarrow> proc_step s s"
  by (simp add: proc_step_def)

lemma proc_step_mem_ok: "proc_step s s' \<Longrightarrow> mem_ok s'"
  by (simp add: proc_step_def)

lemma proc_step_heap: "heap_ext s s' \<Longrightarrow> proc_step s s'"
  using heap_only_world [of s s'] heap_only_proc [of s s'] by (auto simp: proc_step_def heap_ext_def)

lemma mem_ok_stack [simp]:
  "mem_ok (with_stack F c s) = mem_ok s" "mem_ok (entered s) = mem_ok s"
  "mem_ok (set_frame i fr s) = mem_ok s" "mem_ok (s\<lparr>err_code := e\<rparr>) = mem_ok s"
  by (simp_all add: mem_ok_def)

lemma proc_step_stack [simp]:
  "proc_step s (with_stack F c s1) = proc_step s s1" "proc_step (with_stack F c s) s1 = proc_step s s1"
  "proc_step s (set_frame i fr s1) = proc_step s s1" "proc_step (set_frame i fr s) s1 = proc_step s s1"
  "proc_step s (entered s1) = proc_step s s1" "proc_step (entered s) s1 = proc_step s s1"
  "proc_step s (s1\<lparr>err_code := e\<rparr>) = proc_step s s1"
  by (simp_all add: proc_step_def)

lemma call_stepD: "call_step s s' \<Longrightarrow> proc_step s s'" "call_step s s' \<Longrightarrow> balanced s s'"
  by (simp_all add: call_step_def)

lemma call_step_trans: "call_step s s1 \<Longrightarrow> call_step s1 s2 \<Longrightarrow> call_step s s2"
  by (auto simp: call_step_def intro: balanced_trans proc_step_trans)

lemma call_step_with_stack: "defers_ok s F \<Longrightarrow> proc_step s s' \<Longrightarrow> call_step s (with_stack F (curr s) s')"
  by (simp add: call_step_def balanced_with_stack)

lemma call_step_stack_ok: "stack_ok s \<Longrightarrow> call_step s s' \<Longrightarrow> stack_ok s'"
  by (auto simp: call_step_def intro: balanced_stack_ok)

lemma call_step_curr: "call_step s s' \<Longrightarrow> curr s' = curr s"
  by (simp add: call_step_def balanced_def)

lemma call_step_top: "stack_ok s \<Longrightarrow> 0 \<le> curr s \<Longrightarrow> call_step s s' \<Longrightarrow> top s' = top s"
  by (auto simp: call_step_def intro: balanced_top)

lemma call_step_agree: "agree_below s s1 \<Longrightarrow> call_step s1 s2 \<Longrightarrow> agree_below s s2"
  by (auto simp: call_step_def intro: balanced_agree)

lemma proc_step_healthy: "healthy s \<Longrightarrow> proc_step s s' \<Longrightarrow> healthy s'"
  by (auto simp: healthy_def proc_step_def never_oom_def)

text \<open>Two states with the same defer stack.\<close>

lemma stack_cong:
  assumes "frames s' = frames s" "curr s' = curr s"
  shows "stack_ok s' = stack_ok s" "agree_below t s' = agree_below t s" "top s' = top s"
  using assms by (simp_all add: stack_ok_def agree_below_def top_def)

lemma call_step_heap:
  assumes "stack_ok s" "heap_ext s s'"
  shows "call_step s s'"
proof -
  have "heap_only s s'"
    using assms(2) by (simp add: heap_ext_def)
  then have "frames s' = frames s" "curr s' = curr s"
    by (rule heap_only_errm)+
  with assms show ?thesis
    by (simp add: call_step_def proc_step_heap balanced_def defers_ok_self)
qed

section \<open>Rules of the word expansion\<close>

lemma length_ptr_bytes [simp]: "length (ptr_bytes ps) = 8 * length ps"
  by (induction ps) (simp_all add: ptr_bytes_def)

lemma ptr_bytes_simps [simp]:
  "ptr_bytes [] = []" "ptr_bytes (p # ps) = enc (VPtr p) @ ptr_bytes ps"
  "ptr_bytes (ps @ qs) = ptr_bytes ps @ ptr_bytes qs"
  by (simp_all add: ptr_bytes_def)

lemma ptr_bytes_nth:
  "i < length ps \<Longrightarrow> take 8 (drop (8 * i) (ptr_bytes ps)) = enc (VPtr (ps ! i))"
proof (induction ps arbitrary: i)
  case (Cons p ps)
  then show ?case by (cases i) simp_all
qed simp

lemma runs_lib_alloc:
  "mem_ok s \<Longrightarrow> runs (lib_alloc bs) s (\<lambda>p s'. p = Ptr (Blk (next_blk s)) 0 \<and> heap_ext s s' \<and>
     next_blk s' = Suc (next_blk s) \<and> blocks s' = (blocks s)(Blk (next_blk s) \<mapsto> bs) \<and> requests s' = requests s)"
  using heap_only_same [where s = s and f = "(blocks s)(Blk (next_blk s) \<mapsto> bs)"
      and n = "Suc (next_blk s)" and k = "requests s"]
  by (simp add: runs_def lib_alloc_def heap_ext_def mem_ok_def)

text \<open>The heap with the objects of \<open>B\<close> freed.\<close>

definition clear_all :: "base set \<Rightarrow> (base \<Rightarrow> mval list option) \<Rightarrow> base \<Rightarrow> mval list option" where
  "clear_all B f b = (if b \<in> B then None else f b)"

lemma clear_all_simps [simp]:
  "clear_all {} f = f" "clear_all A (clear_all B f) = clear_all (A \<union> B) f"
  "(clear_all B f)(b := None) = clear_all (insert b B) f"
  by (auto simp: clear_all_def fun_eq_iff)

lemma clear_all_one: "f(b := None) = clear_all {b} f"
  by (auto simp: clear_all_def)

lemma clear_all_upd: "b \<notin> B \<Longrightarrow> clear_all B (f(b \<mapsto> v)) = (clear_all B f)(b \<mapsto> v)"
  by (auto simp: clear_all_def fun_eq_iff)

lemma heap_ext_clear: "mem_ok s \<Longrightarrow> heap_ext s (s\<lparr>blocks := clear_all B (blocks s)\<rparr>)"
  by (auto simp: heap_ext_def mem_ok_def clear_all_def)

lemma clear_restores:
  assumes "untouched B s s'" "\<forall>b\<in>B. blocks s b = None"
  shows "clear_all B (blocks s') = blocks s"
  using assms by (auto simp: untouched_def clear_all_def fun_eq_iff)

definition string_blk :: "'z proc_scheme \<Rightarrow> string \<Rightarrow> ptr \<Rightarrow> bool" where
  "string_blk s w p \<longleftrightarrow> (\<exists>n. p = Ptr (Blk n) 0 \<and> blocks s (Blk n) = Some (cstr w))"

lemma string_blks_live:
  "list_all2 (string_blk s) ws ps \<Longrightarrow> \<forall>p\<in>set ps. \<exists>n. p = Ptr (Blk n) 0 \<and> blocks s (Blk n) \<noteq> None"
  by (induction ws ps rule: list_all2_induct) (auto simp: string_blk_def)

lemma string_blks_cong:
  "list_all2 (string_blk s) ws ps \<Longrightarrow> \<forall>b\<in>pbase ` set ps. blocks s' b = blocks s b \<Longrightarrow>
   list_all2 (string_blk s') ws ps"
  by (induction ws ps rule: list_all2_induct) (auto simp: string_blk_def)

definition words_at :: "'z proc_scheme \<Rightarrow> mval list \<Rightarrow> string list \<Rightarrow> nat \<Rightarrow> ptr list \<Rightarrow> bool" where
  "words_at s w ws vb ps \<longleftrightarrow>
     w = wordexp_bytes (of_nat (length ws)) (Ptr (Blk vb) 0) \<and>
     blocks s (Blk vb) = Some (ptr_bytes (ps @ [null])) \<and>
     list_all2 (string_blk s) ws ps \<and> distinct (Blk vb # map pbase ps)"

definition word_bases :: "nat \<Rightarrow> ptr list \<Rightarrow> base set" where
  "word_bases vb ps = insert (Blk vb) (pbase ` set ps)"

lemma string_blk_str: "string_blk s w p \<Longrightarrow> c_string w \<Longrightarrow> str_of_ptr s p = Some w"
  by (auto simp: string_blk_def str_of_ptr_def)

lemma string_blk_cong: "blocks s' (pbase p) = blocks s (pbase p) \<Longrightarrow> string_blk s w p \<Longrightarrow> string_blk s' w p"
  by (auto simp: string_blk_def)

lemma words_at_cong:
  assumes "words_at s w ws vb ps" "\<forall>b\<in>word_bases vb ps. blocks s' b = blocks s b"
  shows "words_at s' w ws vb ps"
proof -
  have "list_all2 (string_blk s') ws ps"
    using assms unfolding words_at_def word_bases_def by (auto intro: string_blks_cong)
  with assms show ?thesis by (simp add: words_at_def word_bases_def)
qed

lemma length_wordexp_bytes [simp]: "length (wordexp_bytes n v) = 24"
  by (simp add: wordexp_bytes_def)

lemma wordexp_fields [simp]:
  "we_wordc (wordexp_bytes n v @ rest) = Some n" "we_wordv (wordexp_bytes n v @ rest) = Some v"
  "we_wordv (wordexp_bytes n v) = Some v"
  by (simp_all add: wordexp_bytes_def we_wordc_def we_wordv_def)

lemma runs_lib_alloc_all:
  "mem_ok s \<Longrightarrow> runs (lib_alloc_all ws) s (\<lambda>ps s'. heap_ext s s' \<and> list_all2 (string_blk s') ws ps \<and>
     distinct (map pbase ps) \<and> (\<forall>b\<in>pbase ` set ps. blocks s b = None) \<and> untouched (pbase ` set ps) s s' \<and>
     requests s' = requests s)"
proof (induction ws arbitrary: s)
  case Nil
  then show ?case by (simp add: runs_simps heap_ext_refl)
next
  case (Cons w ws)
  let ?b = "Blk (next_blk s)"
  have "runs (lib_alloc_all ws) s1 (\<lambda>ps s'. heap_ext s s' \<and> list_all2 (string_blk s') (w # ws) (Ptr ?b 0 # ps) \<and>
      distinct (map pbase (Ptr ?b 0 # ps)) \<and> (\<forall>b\<in>pbase ` set (Ptr ?b 0 # ps). blocks s b = None) \<and>
      untouched (pbase ` set (Ptr ?b 0 # ps)) s s' \<and> requests s' = requests s)"
    if s1: "heap_ext s s1" "blocks s1 = (blocks s)(?b \<mapsto> cstr w)" "requests s1 = requests s" for s1
  proof (rule runs_mono [OF Cons.IH [OF heap_ext_mem_ok [OF s1(1)]]])
    fix ps s'
    assume s': "heap_ext s1 s' \<and> list_all2 (string_blk s') ws ps \<and> distinct (map pbase ps) \<and>
      (\<forall>b\<in>pbase ` set ps. blocks s1 b = None) \<and> untouched (pbase ` set ps) s1 s' \<and> requests s' = requests s1"
    have new: "?b \<notin> pbase ` set ps"
      using s' s1(2) by auto
    then have "blocks s' ?b = Some (cstr w)"
      using s' s1(2) untouchedD [of "pbase ` set ps" s1 s' ?b] by simp
    then have "string_blk s' w (Ptr ?b 0)"
      by (simp add: string_blk_def)
    with s' s1 new Cons.prems show "heap_ext s s' \<and> list_all2 (string_blk s') (w # ws) (Ptr ?b 0 # ps) \<and>
      distinct (map pbase (Ptr ?b 0 # ps)) \<and> (\<forall>b\<in>pbase ` set (Ptr ?b 0 # ps). blocks s b = None) \<and>
      untouched (pbase ` set (Ptr ?b 0 # ps)) s s' \<and> requests s' = requests s"
      by (auto simp: untouched_def mem_okD intro: heap_ext_trans split: if_splits)
  qed
  then show ?case
    unfolding lib_alloc_all.simps runs_bind
    by (intro runs_mono [OF runs_lib_alloc [OF Cons.prems]]) (auto simp: runs_simps)
qed

lemma runs_wordexp:
  assumes "mem_ok s" "os_wordexp P (env s) path = Some ws"
  shows "runs (wordexp P path) s (\<lambda>r s'. \<exists>w vb ps. r = Some w \<and> words_at s' w ws vb ps \<and>
    heap_ext s s' \<and> (\<forall>b\<in>word_bases vb ps. blocks s b = None) \<and> untouched (word_bases vb ps) s s' \<and>
    requests s' = requests s)"
proof -
  have "runs (lib_alloc (ptr_bytes (ps @ [null]))) s1 (\<lambda>v s'. \<exists>w vb ps.
      Some (wordexp_bytes (of_nat (length ws)) v) = Some w \<and> words_at s' w ws vb ps \<and>
      heap_ext s s' \<and> (\<forall>b\<in>word_bases vb ps. blocks s b = None) \<and> untouched (word_bases vb ps) s s' \<and>
      requests s' = requests s)"
    if s1: "heap_ext s s1" "list_all2 (string_blk s1) ws ps" "distinct (map pbase ps)"
      "\<forall>b\<in>pbase ` set ps. blocks s b = None" "untouched (pbase ` set ps) s s1"
      "requests s1 = requests s" for ps s1
  proof (rule runs_mono [OF runs_lib_alloc [OF heap_ext_mem_ok [OF s1(1)]]])
    let ?vb = "next_blk s1"
    fix v s' assume s': "v = Ptr (Blk ?vb) 0 \<and> heap_ext s1 s' \<and> next_blk s' = Suc ?vb \<and>
      blocks s' = (blocks s1)(Blk ?vb \<mapsto> ptr_bytes (ps @ [null])) \<and> requests s' = requests s1"
    have live: "\<forall>p\<in>set ps. blocks s1 (pbase p) \<noteq> None"
      using string_blks_live [OF s1(2)] by auto
    have fresh: "blocks s1 (Blk ?vb) = None" "blocks s (Blk ?vb) = None"
      using heap_ext_mem_ok [OF s1(1)] assms(1) s1(1) by (auto simp: mem_okD heap_ext_def)
    have new: "Blk ?vb \<notin> pbase ` set ps"
      using live fresh(1) by auto
    have "list_all2 (string_blk s') ws ps"
      by (rule string_blks_cong [OF s1(2)]) (use s' new in \<open>metis fun_upd_other\<close>)
    then have "words_at s' (wordexp_bytes (of_nat (length ws)) v) ws ?vb ps"
      using s' s1(3) new by (simp add: words_at_def)
    moreover have "untouched (word_bases ?vb ps) s s'"
      using s' s1(5) by (simp add: untouched_def word_bases_def)
    moreover have "\<forall>b\<in>word_bases ?vb ps. blocks s b = None"
      using s1(4) fresh(2) by (simp add: word_bases_def)
    ultimately show "\<exists>w vb ps. Some (wordexp_bytes (of_nat (length ws)) v) = Some w \<and>
        words_at s' w ws vb ps \<and> heap_ext s s' \<and> (\<forall>b\<in>word_bases vb ps. blocks s b = None) \<and>
        untouched (word_bases vb ps) s s' \<and> requests s' = requests s"
      using s' s1(6) heap_ext_trans [OF s1(1)] by auto
  qed
  then show ?thesis
    by (simp add: wordexp_def runs_simps assms(2))
       (intro runs_mono [OF runs_lib_alloc_all [OF assms(1)]], auto)
qed

lemma runs_free_words:
  assumes "blocks s (Blk v) = Some (xs @ ptr_bytes ps @ zs)" "distinct (map pbase ps)"
    "Blk v \<notin> pbase ` set ps" "\<forall>p\<in>set ps. \<exists>n. p = Ptr (Blk n) 0 \<and> blocks s (Blk n) \<noteq> None"
  shows "runs (free_words (length ps) (Ptr (Blk v) (int (length xs)))) s
    (\<lambda>_ s'. s' = s\<lparr>blocks := clear_all (pbase ` set ps) (blocks s)\<rparr>)"
  using assms
proof (induction ps arbitrary: s xs)
  case Nil
  then show ?case by (simp add: runs_simps)
next
  case (Cons p ps)
  obtain n where p: "p = Ptr (Blk n) 0" "blocks s (Blk n) \<noteq> None"
    using Cons.prems(4) by auto
  have load: "peek s (Ptr (Blk v) (int (length xs))) 8 = Some (enc (VPtr p))"
    by (rule peek_seg [where xs = xs and zs = "ptr_bytes ps @ zs"]) (simp_all add: Cons.prems(1))
  let ?s1 = "s\<lparr>blocks := (blocks s)(Blk n := None)\<rparr>"
  have b1: "blocks ?s1 (Blk v) = Some ((xs @ enc (VPtr p)) @ ptr_bytes ps @ zs)"
    using Cons.prems(1,3) p(1) by auto
  have live: "\<forall>q\<in>set ps. \<exists>m. q = Ptr (Blk m) 0 \<and> blocks ?s1 (Blk m) \<noteq> None"
  proof
    fix q assume q: "q \<in> set ps"
    then obtain m where "q = Ptr (Blk m) 0" "blocks s (Blk m) \<noteq> None" using Cons.prems(4) by auto
    moreover have "m \<noteq> n" using Cons.prems(2) q p(1) calculation(1) by force
    ultimately show "\<exists>m. q = Ptr (Blk m) 0 \<and> blocks ?s1 (Blk m) \<noteq> None" by auto
  qed
  have "runs (free_words (length ps) (Ptr (Blk v) (int (length (xs @ enc (VPtr p)))))) ?s1
      (\<lambda>_ s'. s' = ?s1\<lparr>blocks := clear_all (pbase ` set ps) (blocks ?s1)\<rparr>)"
    by (rule Cons.IH [OF b1 _ _ live]) (use Cons.prems in simp_all)
  then have "runs (free_words (length ps) (Ptr (Blk v) (int (length xs) + 8))) ?s1
      (\<lambda>_ s'. s' = s\<lparr>blocks := clear_all (pbase ` set (p # ps)) (blocks s)\<rparr>)"
    using p(1) by (simp add: clear_all_one [of "blocks s"])
  with load p show ?case
    by (simp add: runs_simps)
qed

lemma runs_wordfree:
  assumes "words_at s w ws vb ps" "length ws < 2 ^ 64"
  shows "runs (wordfree (w @ rest)) s
    (\<lambda>_ s'. s' = s\<lparr>blocks := clear_all (word_bases vb ps) (blocks s)\<rparr>)"
proof -
  have w: "w = wordexp_bytes (of_nat (length ps)) (Ptr (Blk vb) 0)" "length ws = length ps"
    "blocks s (Blk vb) = Some ([] @ ptr_bytes ps @ enc (VPtr null))"
    "distinct (map pbase ps)" "Blk vb \<notin> pbase ` set ps"
    using assms by (auto simp: words_at_def dest: list_all2_lengthD)
  have "runs (free_words (length ps) (Ptr (Blk vb) (int (length ([] :: mval list))))) s
      (\<lambda>_ s'. s' = s\<lparr>blocks := clear_all (pbase ` set ps) (blocks s)\<rparr>)"
    by (rule runs_free_words [OF w(3,4,5)]) (use assms in \<open>auto simp: words_at_def dest: string_blks_live\<close>)
  then show ?thesis
    using w assms(2)
    by (auto simp: wordfree_def runs_simps word_bases_def unat_of_nat_small clear_all_def elim!: runs_mono)
qed

text \<open>Reading the first word.\<close>

lemma words_at_first:
  assumes "words_at s w (x # ws) vb ps"
  shows "peek s (Ptr (Blk vb) 0) 8 = Some (enc (VPtr (hd ps)))" "string_blk s x (hd ps)"
    "we_wordv w = Some (Ptr (Blk vb) 0)" "pbase (hd ps) \<in> word_bases vb ps"
proof -
  obtain p qs where ps: "ps = p # qs" "string_blk s x p"
    using assms by (auto simp: words_at_def list_all2_Cons1)
  have "blocks s (Blk vb) = Some ([] @ enc (VPtr p) @ ptr_bytes (qs @ [null]))"
    using assms ps by (simp add: words_at_def)
  from peek_seg [OF this, of 0 8] show "peek s (Ptr (Blk vb) 0) 8 = Some (enc (VPtr (hd ps)))"
    by (simp add: ps)
  show "string_blk s x (hd ps)" "we_wordv w = Some (Ptr (Blk vb) 0)" "pbase (hd ps) \<in> word_bases vb ps"
    using assms ps by (simp_all add: words_at_def word_bases_def)
qed

end
