(* ===== verification/Edf.thy ===== *)
theory Edf
  imports Posix
begin

text \<open>
  The rules for code that runs inside an \<open>edf\<close> function. \<open>inside s st dy s1\<close> is the state of such a
  body, entered from \<open>s\<close>: at \<open>s1\<close> its frame holds the static objects \<open>st\<close> and the deferred pointers
  \<open>dy\<close>, in the order they were deferred, and its callers' frames are untouched. \<open>unwinds\<close> is what is
  left to show at the end of the body: the deferred calls run, last first, and lead to the
  postcondition. A component proves its functions with these rules and never opens a frame.
\<close>

section \<open>The state inside a body\<close>

definition inside ::
  "('h, 'z) errm_state_scheme \<Rightarrow> ('h \<times> mval list) list \<Rightarrow> ('h \<times> ptr) list \<Rightarrow>
   ('h, 'z) errm_state_scheme \<Rightarrow> bool" where
  "inside s st dy s1 \<longleftrightarrow> stack_ok s \<and> curr s < 11 \<and> stack_ok s1 \<and> agree_below s s1 \<and>
     holds_objects (top s1) st \<and> dyns (top s1) = map (\<lambda>(h, p). (h, Passed p)) dy"

text \<open>\<open>restacked s s'\<close>: only the defer stack differs.\<close>

definition restacked :: "('h, 'z) errm_state_scheme \<Rightarrow> ('h, 'z) errm_state_scheme \<Rightarrow> bool" where
  "restacked s s' \<longleftrightarrow> (\<exists>F. s' = with_stack F (curr s) s)"

lemma restackedD:
  assumes "restacked s s'"
  shows "curr s' = curr s" "err_code s' = err_code s" "blocks s' = blocks s" "next_blk s' = next_blk s"
    "grants s' = grants s" "requests s' = requests s" "errno_of s' = errno_of s"
    "stdout_of s' = stdout_of s" "stderr_of s' = stderr_of s"
  using assms by (auto simp: restacked_def)

lemma restacked_world:
  fixes s s' :: "'e world"
  assumes "restacked s s'"
  shows "env s' = env s" "dirs s' = dirs s" "libs s' = libs s" "next_ext s' = next_ext s"
    "dl_error s' = dl_error s"
  using assms by (auto simp: restacked_def)

lemma restacked_set_frame [simp]: "restacked s (set_frame i fr s)"
  unfolding restacked_def set_frame_with_stack by blast

lemma insideD:
  assumes "inside s st dy s1"
  shows "stack_ok s1" "curr s1 = curr s + 1" "0 \<le> curr s1" "stack_ok s" "curr s < 11" "agree_below s s1"
  using assms stack_ok_ge [of s] by (auto simp: inside_def agree_below_def)

lemma inside_entered:
  assumes "stack_ok s" "curr s < 11"
  shows "inside s [] [] (entered s)"
proof -
  have "idle (top (entered s))"
    using assms by (rule idle_top_entered)
  then show ?thesis
    using assms stack_ok_entered [OF assms]
    by (simp add: inside_def holds_objects_idle agree_below_entered) (simp add: idle_def dyns_def)
qed

lemma inside_same_stack:
  assumes "inside s st dy s1" "frames s2 = frames s1" "curr s2 = curr s1"
  shows "inside s st dy s2"
  using assms(1) stack_cong [OF assms(2,3)] by (simp add: inside_def)

lemma inside_heap: "inside s st dy s1 \<Longrightarrow> heap_ext s1 s2 \<Longrightarrow> inside s st dy s2"
  by (auto simp: heap_ext_def heap_only_errm intro: inside_same_stack)

lemma inside_err: "inside s st dy s1 \<Longrightarrow> inside s st dy (s1\<lparr>err_code := e\<rparr>)"
  by (auto intro: inside_same_stack)

lemma inside_balanced:
  assumes "inside s st dy s1" "balanced s1 s2"
  shows "inside s st dy s2"
proof -
  note D = insideD [OF assms(1)]
  have "stack_ok s2" "agree_below s s2" "top s2 = top s1"
    using D assms(2) by (auto intro: balanced_stack_ok balanced_agree balanced_top)
  with assms(1) show ?thesis by (simp add: inside_def)
qed

lemma inside_set_top:
  assumes "inside s st dy s1" "frame_ok fr" "holds_objects fr st'"
    "dyns fr = map (\<lambda>(h, p). (h, Passed p)) dy'"
  shows "inside s st' dy' (set_frame (nat (curr s1)) fr s1)"
proof -
  note D = insideD [OF assms(1)]
  show ?thesis
    using assms(3,4) stack_ok_set_top [OF D(1,3) assms(2)] D(4,5)
      agree_below_set_top [OF D(1) stack_ok_ge [OF D(4)] D(6)] top_set_frame [OF D(1,3)]
    unfolding inside_def by simp
qed

lemma inside_defer:
  assumes "inside s st dy s1" "length dy < 12"
  shows "runs (defer_call h p) s1 (\<lambda>_ s2. inside s st (dy @ [(h, p)]) s2 \<and> restacked s1 s2)"
proof -
  note D = insideD [OF assms(1)]
  note idx = stack_ok_index [OF D(1,3)]
  have now: "holds_objects (top s1) st" "dyns (top s1) = map (\<lambda>(h, p). (h, Passed p)) dy"
    using assms(1) by (simp_all add: inside_def)
  have "length (dyns (top s1)) = length dy"
    by (simp add: now(2))
  then have room: "dyn_len (top s1) < MAX_DYN_DEFERS"
    using assms(2) by (simp add: dyns_def MAX_DYN_DEFERS_def)
  then have "inside s st (dy @ [(h, p)]) (set_frame (nat (curr s1)) (add_dyn h p (top s1)) s1)"
    using now idx by (intro inside_set_top [OF assms(1)])
      (simp_all add: frame_ok_add_dyn holds_objects_add_dyn dyns_add_dyn)
  then show ?thesis
    by (simp add: runs_defer_call [OF D(1,3) room])
qed

lemma inside_static:
  assumes "inside s st dy s1" "length st < 6" "sum_list (map (length \<circ> snd) st) + length obj \<le> 48"
    "unat n = length obj"
  shows "runs (static_defer h n obj) s1 (\<lambda>_ s2. inside s (st @ [(h, obj)]) dy s2 \<and> restacked s1 s2)"
proof -
  note D = insideD [OF assms(1)]
  note idx = stack_ok_index [OF D(1,3)]
  have now: "holds_objects (top s1) st" "dyns (top s1) = map (\<lambda>(h, p). (h, Passed p)) dy"
    using assms(1) by (simp_all add: inside_def)
  then have room: "static_room n (top s1)"
    using assms by (simp add: static_room_def holds_objects_def errm_consts)
  then have "inside s (st @ [(h, obj)]) dy (set_frame (nat (curr s1)) (add_static h n obj (top s1)) s1)"
    using now idx assms(4) by (intro inside_set_top [OF assms(1)])
      (simp_all add: frame_ok_add_static holds_objects_add dyns_add_static)
  then show ?thesis
    using assms(4) by (simp add: runs_static_defer [OF D(1,3) room])
qed

section \<open>Leaving a body\<close>

definition unwinds ::
  "('h, 'z) dispatch \<Rightarrow> ('h, 'z) errm_state_scheme \<Rightarrow> ('a \<Rightarrow> ('h, 'z) errm_state_scheme \<Rightarrow> bool) \<Rightarrow>
   'a \<Rightarrow> ('h, 'z) errm_state_scheme \<Rightarrow> bool" where
  "unwinds call s Q r s1 \<longleftrightarrow> (\<exists>st dy. inside s st dy s1 \<and>
     (\<forall>xs. list_all2 (\<lambda>(h, obj) (h', a). h' = h \<and> (\<exists>rest. a = Pooled (obj @ rest))) st xs \<longrightarrow>
        runs (call_all call (rev xs @ rev (map (\<lambda>(h, p). (h, Passed p)) dy))) s1
          (\<lambda>_ s2. \<forall>F. defers_ok s F \<longrightarrow> Q r (with_stack F (curr s) s2))))"

lemma unwinds_none:
  assumes "inside s [] [] s1" "\<And>F. defers_ok s F \<Longrightarrow> Q r (with_stack F (curr s) s1)"
  shows "unwinds call s Q r s1"
  unfolding unwinds_def using assms by (intro exI [of _ "[]"]) (simp add: runs_simps)

lemma unwinds_dyn:
  assumes "inside s [] [(h, p)] s1"
    and "runs (call h (Passed p)) s1 (\<lambda>_ s2. \<forall>F. defers_ok s F \<longrightarrow> Q r (with_stack F (curr s) s2))"
  shows "unwinds call s Q r s1"
  unfolding unwinds_def using assms
  by (intro exI [of _ "[]"] exI [of _ "[(h, p)]"]) (simp add: runs_simps)

lemma unwinds_static:
  assumes "inside s [(h, obj)] [] s1"
    and "\<And>rest. runs (call h (Pooled (obj @ rest))) s1
      (\<lambda>_ s2. \<forall>F. defers_ok s F \<longrightarrow> Q r (with_stack F (curr s) s2))"
  shows "unwinds call s Q r s1"
  unfolding unwinds_def using assms
  by (intro exI [of _ "[(h, obj)]"] exI [of _ "[]"]) (auto simp: runs_simps list_all2_Cons1)

text \<open>A body with undefined behaviour.\<close>

lemma edf_undefined:
  assumes "curr s < 11" "body (entered s) = Undefined"
  shows "edf call name loc body s = Undefined"
proof -
  have "errm_clear s = Done () (s\<lparr>err_code := No_Error\<rparr>)"
    by (simp add: errm_clear_def modify_def)
  moreover have "defer_push (s\<lparr>err_code := No_Error\<rparr>) = Done 1 (entered s)"
    using assms(1) by (simp add: defer_push_def prog_defs STACK_SIZE_def entered_def)
  ultimately show ?thesis
    using assms(2) by (simp add: edf_def seq_def bind_def)
qed

lemma bind_Done: "m s = Done a s1 \<Longrightarrow> bind m f s = f a s1"
  by (simp add: bind_def)

lemma seq_Done: "m s = Done a s1 \<Longrightarrow> seq m k s = k s1"
  by (simp add: seq_def bind_def)

lemma runs_bind_Done: "m s = Done a s1 \<Longrightarrow> runs (bind m f) s Q \<longleftrightarrow> runs (f a) s1 Q"
  by (simp add: runs_def bind_def)

lemma on_error_cases:
  "err_code s = No_Error \<Longrightarrow> on_error_return A k s = k s"
  "err_code s \<noteq> No_Error \<Longrightarrow> on_error_return A k s = Done A s"
  by (simp_all add: on_error_return_def errm_error_code_def gets_def bind_def ret_def)

lemma bind_undefined: "m s = Undefined \<Longrightarrow> bind m f s = Undefined"
  by (simp add: bind_def)

context defer_handlers
begin

lemma edf_rule:
  assumes "stack_ok s" "curr s < 11" "runs body (entered s) (unwinds call s Q)"
  shows "runs (edf call name loc body) s Q"
proof (rule runs_edf [OF assms(1,2) runs_mono [OF assms(3)]])
  fix r s1
  assume "unwinds call s Q r s1"
  then obtain st dy where st: "inside s st dy s1"
    and run: "\<forall>xs. list_all2 (\<lambda>(h, obj) (h', a). h' = h \<and> (\<exists>rest. a = Pooled (obj @ rest))) st xs \<longrightarrow>
        runs (call_all call (rev xs @ rev (map (\<lambda>(h, p). (h, Passed p)) dy))) s1
          (\<lambda>_ s2. \<forall>F. defers_ok s F \<longrightarrow> Q r (with_stack F (curr s) s2))"
    unfolding unwinds_def by blast
  have "list_all2 (\<lambda>(h, obj) (h', a). h' = h \<and> (\<exists>rest. a = Pooled (obj @ rest))) st (statics (top s1))"
    using st by (intro holds_objects_statics) (simp add: inside_def)
  then have "runs (call_all call (pending (top s1))) s1
      (\<lambda>_ s2. \<forall>F. defers_ok s F \<longrightarrow> Q r (with_stack F (curr s) s2))"
    using run st by (simp add: pending_def inside_def)
  then show "stack_ok s1 \<and> agree_below s s1 \<and> runs (call_all call (pending (top s1))) s1
      (\<lambda>_ s2. \<forall>F. defers_ok s F \<longrightarrow> Q r (with_stack F (curr s) s2))"
    using insideD [OF st] by simp
qed

end

section \<open>Steps of the process\<close>

text \<open>\<open>quiet s s'\<close>: a step that also leaves the directory streams alone.\<close>

definition quiet :: "'e world \<Rightarrow> 'e world \<Rightarrow> bool" where
  "quiet s s' \<longleftrightarrow> proc_step s s' \<and> dirs s' = dirs s \<and> next_ext s' = next_ext s"

lemma quiet_trans: "quiet s s1 \<Longrightarrow> quiet s1 s2 \<Longrightarrow> quiet s s2"
  by (auto simp: quiet_def intro: proc_step_trans)

lemma quiet_refl: "mem_ok s \<Longrightarrow> quiet s s"
  by (simp add: quiet_def proc_step_refl)

lemma quiet_heap: "heap_ext s s' \<Longrightarrow> quiet s s'"
  by (simp add: quiet_def proc_step_heap heap_ext_def heap_only_world)

lemma quiet_stack [simp]:
  "quiet s (with_stack F c s1) = quiet s s1" "quiet (with_stack F c s) s1 = quiet s s1"
  "quiet s (entered s1) = quiet s s1" "quiet (entered s) s1 = quiet s s1"
  "quiet s (s1\<lparr>err_code := e\<rparr>) = quiet s s1"
  by (simp_all add: quiet_def)

lemma quiet_restacked: "mem_ok s \<Longrightarrow> restacked s s' \<Longrightarrow> quiet s s'"
  by (auto simp: restacked_def quiet_refl)

lemma quiet_mem_ok: "quiet s s' \<Longrightarrow> mem_ok s'"
  by (simp add: quiet_def proc_step_def)

lemma quietD:
  assumes "quiet s s'"
  shows "proc_step s s'" "mem_ok s'" "dirs s' = dirs s" "env s' = env s" "libs s' = libs s"
    "next_ext s' = next_ext s" "next_blk s \<le> next_blk s'"
  using assms by (auto simp: quiet_def proc_step_def)

lemma quiet_never_oom: "never_oom s \<Longrightarrow> quiet s s' \<Longrightarrow> never_oom s'"
  by (auto simp: quiet_def proc_step_def never_oom_def)

lemma quiet_healthy: "healthy s \<Longrightarrow> quiet s s' \<Longrightarrow> healthy s'"
  by (auto simp: healthy_def intro: quiet_never_oom quiet_mem_ok)

lemma fresh_blk: "mem_ok s \<Longrightarrow> blocks s (Blk (next_blk s)) = None"
  by (simp add: mem_okD)

lemma dir_stream_cong: "dirs s' = dirs s \<Longrightarrow> dir_stream s' = dir_stream s"
  by (auto simp: dir_stream_def fun_eq_iff split: ptr.splits base.splits)

section \<open>A concrete process\<close>

text \<open>A thread at its start on a machine whose only directory is \<open>/m\<close>, with three entries; \<open>/full\<close>
  exists, but no more files can be opened.\<close>

definition start_globe :: global_state where
  "start_globe = \<lparr>g_vterm = null, g_vtscr = null, ws_row = 0, ws_col = 0, fd_master = 0, fd_slave = 0,
     pid_child = 0, got_sigwinch = False\<rparr>"

definition start_at :: "'e \<Rightarrow> 'e world" where
  "start_at e =
     \<lparr>blocks = (\<lambda>_. None), next_blk = 0, grants = (\<lambda>_. True), requests = 0, errno_of = 0,
      stdout_of = [], stderr_of = [], err_code = No_Error, frames = fresh_stack, curr = -1,
      env = e, dirs = (\<lambda>_. None), libs = (\<lambda>_. None), next_ext = 0, dl_error = None,
      last_syscall = - 1, globe = start_globe\<rparr>"

definition sample_world :: "unit world" where
  "sample_world = start_at ()"

definition set_read :: "module_cbs \<Rightarrow> module_cbs" where
  "set_read cbs = cbs\<lparr>cb_read_file := Some (Ptr (Sym 0 ''on_read'') 0)\<rparr>"

definition sample_so :: shared_object where
  "sample_so = [''name'' \<mapsto> Data ''notes'', ''desc'' \<mapsto> Data ''takes notes'', ''init'' \<mapsto> Func set_read]"

definition sample_posix :: "unit posix" where
  "sample_posix =
     \<lparr>os_wordexp = (\<lambda>_ p. if p = ''('' then None else if p = [] then Some [] else Some [p]),
      os_getcwd = (\<lambda>_. Inr ''/home''),
      os_opendir = (\<lambda>_ p. if p = ''/m'' then Inr [''.'', ''a.so'', ''b.so'']
        else if p = ''/full'' then Inl EMFILE else Inl ENOENT),
      os_dlopen = (\<lambda>_ p. if p = None \<or> p = Some ''/m/a.so'' then Inr sample_so else Inl ''not found''),
      os_nosym = (\<lambda>x. ''undefined symbol: '' @ x),
      os_symlink = (\<lambda>_ _ _. Inr ()),
      os_remove = (\<lambda>_ p. if p = ''/m/a.so'' then Inr () else Inl ENOENT)\<rparr>"

lemma start_at_ok:
  "stack_ok (start_at e)" "curr (start_at e) = -1" "healthy (start_at e)" "mem_ok (start_at e)"
  "never_oom (start_at e)" "blocks (start_at e) = (\<lambda>_. None)" "err_code (start_at e) = No_Error"
  "env (start_at e) = e" "last_syscall (start_at e) = - 1" "globe (start_at e) = start_globe"
  by (simp_all add: start_at_def stack_ok_fresh healthy_def mem_ok_def never_oom_def)

lemma sample_world_ok:
  "stack_ok sample_world" "curr sample_world = -1" "healthy sample_world" "mem_ok sample_world"
  "never_oom sample_world" "blocks sample_world = (\<lambda>_. None)" "err_code sample_world = No_Error"
  by (simp_all add: sample_world_def start_at_ok)

end
