(* ===== verification/Filesystem.thy ===== *)
theory Filesystem
  imports Edf
begin

text \<open>
  \<open>src/filesystem\<close>: path expansion (\<open>abs_path\<close>) and directory listing (\<open>dir_content\<close>), both written
  with \<open>edf\<close> and its deferred calls, and the dispatch of the program's deferred handlers, on which
  the contract \<open>defer_handlers\<close> of the error manager is interpreted.

  A path handed in as \<open>const char *\<close> is given by its string. An out parameter is an extra result:
  \<open>None\<close> where it is not written.
\<close>

section \<open>Releasing a listing\<close>

definition close_dir :: "ptr \<Rightarrow> (unit, 'e world) prog" where
  "close_dir dp = closedir dp"

text \<open>The loop of \<open>free_dir_content\<close>; the first argument is fuel. It reads the length before every
  element, as the code does.\<close>

fun free_elems :: "nat \<Rightarrow> ptr \<Rightarrow> u64 \<Rightarrow> (unit, 'z proc_scheme) prog" where
  "free_elems 0 content i = (\<lambda>s. OutOfFuel)"
| "free_elems (Suc k) content i =
     bind (dga_len content) (\<lambda>n.
       if i < n
       then bind (load_ptr (ptr_add content (int (8 * unat i)))) (\<lambda>p.
              seq (dga_free p) (free_elems k content (i + 1)))
       else ret ())"

text \<open>One unit of fuel for each element and one for the failing test.\<close>

definition free_dir_content :: "ptr \<Rightarrow> (unit, 'z proc_scheme) prog" where
  "free_dir_content content =
     bind (dga_len content) (\<lambda>n.
       seq (free_elems (Suc (unat n)) content 0) (dga_free content))"

definition free_mod_names :: "ptr \<Rightarrow> (unit, 'z proc_scheme) prog" where
  "free_mod_names names = free_dir_content names"

section \<open>The program's deferred handlers\<close>

fun prom_call :: "handler \<Rightarrow> defer_arg \<Rightarrow> (unit, 'e world) prog" where
  "prom_call H_free (Passed p) = free p"
| "prom_call H_wordfree (Pooled w) = wordfree w"
| "prom_call H_close_dir (Passed p) = close_dir p"
| "prom_call H_free_mod_names (Passed p) = free_mod_names p"
| "prom_call _ _ = undefined_prog"

lemma stackless_dga_len [stackless_intros]: "stackless (dga_len p)"
  by (simp add: dga_len_def stackless_intros)

lemma stackless_dga_free [stackless_intros]: "stackless (dga_free p)"
  by (simp add: dga_free_def stackless_intros)

lemma stackless_free_elems [stackless_intros]: "stackless (free_elems k p i)"
proof (induction k arbitrary: i)
  case 0
  then show ?case by (simp add: stackless_def)
next
  case (Suc k)
  then show ?case by (simp add: stackless_intros)
qed

lemma stackless_free_dir_content [stackless_intros]: "stackless (free_dir_content p)"
  by (simp add: free_dir_content_def stackless_intros)

lemma stackless_prom_call: "stackless (prom_call h a)"
  by (cases "(h, a)" rule: prom_call.cases)
    (simp_all add: close_dir_def free_mod_names_def stackless_intros)

interpretation prom: defer_handlers prom_call
  by unfold_locales (rule stacklessD [OF stackless_prom_call], erule stacklessD(2) [OF stackless_prom_call])

section \<open>Operations\<close>

definition emalloc :: "u64 \<Rightarrow> (ptr, 'e world) prog" where
  "emalloc n = edf prom_call ''emalloc'' ''filesystem/filesystem.c:22''
     (bind (malloc n) (\<lambda>p.
      seq (if p = null then errm_error NOT_ENOUGH_MEMORY else ret ())
     (ret p)))"

definition ereallloc :: "ptr \<Rightarrow> u64 \<Rightarrow> (ptr, 'e world) prog" where
  "ereallloc ptr n = edf prom_call ''ereallloc'' ''filesystem/filesystem.c:33''
     (bind (realloc ptr n) (\<lambda>p.
      seq (if p = null then errm_error NOT_ENOUGH_MEMORY else ret ())
     (ret p)))"

text \<open>\<open>w.we_wordv[0]\<close>.\<close>

definition first_word :: "mval list \<Rightarrow> (ptr, 'e world) prog" where
  "first_word w = bind (reads (\<lambda>s. we_wordv w)) load_ptr"

definition expand :: "'e posix \<Rightarrow> string \<Rightarrow> (ptr, 'e world) prog" where
  "expand P path = edf prom_call ''expand'' ''filesystem/filesystem.c:44''
     (bind (wordexp P path) (\<lambda>w.
      case w of
        None \<Rightarrow> seq (errm_error PARSING_ERROR) (ret null)
      | Some w \<Rightarrow>
          seq (static_defer H_wordfree sizeof_wordexp w)
         (bind (first_word w) (\<lambda>p.
          bind (load_str p) (\<lambda>x.
          bind (emalloc (strlen x + 1)) (\<lambda>result.
          on_error_return null
         (bind (first_word w) (\<lambda>p.
          bind (load_str p) (\<lambda>x.
          seq (strcpy result x)
         (ret result))))))))))"

text \<open>A character constant has type \<open>int\<close> in C: \<open>sizeof('/')\<close> and \<open>sizeof('\0')\<close> are 4.\<close>

definition sizeof_char_const :: u64 where
  "sizeof_char_const = 4"

definition abs_path_from_relative :: "'e posix \<Rightarrow> ptr \<Rightarrow> (ptr, 'e world) prog" where
  "abs_path_from_relative P relative_path =
     edf prom_call ''abs_path_from_relative'' ''filesystem/filesystem.c:62''
     (bind (getcwd P) (\<lambda>cwd.
      seq (defer_call H_free cwd)
     (bind (load_str relative_path) (\<lambda>r.
      bind (load_str cwd) (\<lambda>c.
      let abs_path_len = strlen r + sizeof_char_const + strlen c + sizeof_char_const in
      bind (emalloc abs_path_len) (\<lambda>abs_path.
      on_error_return null
     (bind (load_str cwd) (\<lambda>c.
      bind (load_str relative_path) (\<lambda>r.
      seq (snprintf abs_path abs_path_len (c @ ''/'' @ r))
     (ret abs_path))))))))))"

definition abs_path :: "'e posix \<Rightarrow> string \<Rightarrow> (ptr, 'e world) prog" where
  "abs_path P path = edf prom_call ''abs_path'' ''filesystem/filesystem.c:76''
     (bind (expand P path) (\<lambda>translated_path.
      on_error_return null
     (bind (load_str translated_path) (\<lambda>x.
        if take 1 x \<noteq> ''/''
        then seq (defer_call H_free translated_path) (abs_path_from_relative P translated_path)
        else ret translated_path))))"

definition open_dir :: "'e posix \<Rightarrow> string \<Rightarrow> (ptr, 'e world) prog" where
  "open_dir P path = edf prom_call ''open_dir'' ''filesystem/filesystem.c:91''
     (bind (expand P path) (\<lambda>expanded_path.
      on_error_return null
     (seq (defer_call H_free expanded_path)
     (bind (load_str expanded_path) (\<lambda>x.
      bind (opendir P x) (\<lambda>dp.
      seq (if dp = null then errm_error_from_errno else ret ())
     (ret dp)))))))"

text \<open>The label \<open>memfail\<close> of \<open>dir_content\<close>: the error, the release, and the NULL result.\<close>

definition dir_memfail :: "ptr \<Rightarrow> u64 \<Rightarrow> (ptr \<times> u64 option, 'e world) prog" where
  "dir_memfail names len =
     seq (errm_error NOT_ENOUGH_MEMORY)
    (seq (free_dir_content names)
    (ret (null, Some len)))"

text \<open>The loop over the entries, \<open>names\<close> and \<open>*len_ret\<close> being the loop's variables; the first
  argument is fuel.\<close>

fun dir_loop :: "nat \<Rightarrow> ptr \<Rightarrow> ptr \<Rightarrow> u64 \<Rightarrow> (ptr \<times> u64 option, 'e world) prog" where
  "dir_loop 0 dp names len = (\<lambda>s. OutOfFuel)"
| "dir_loop (Suc k) dp names len =
     bind (readdir dp) (\<lambda>ep.
     case ep of
       None \<Rightarrow> ret (names, Some len)
     | Some file_name \<Rightarrow>
         if take 1 file_name = ''.''
         then dir_loop k dp names len
         else dga_grow_or names 1 (dir_memfail names len) (\<lambda>names.
              bind (dga_new (strlen file_name + sizeof_char_const) 1) (\<lambda>name.
              if name = null then dir_memfail names len
              else seq (strcpy name file_name)
                  (seq (store_ptr (ptr_add names (int (8 * unat len))) name)
                  (dir_loop k dp names (len + 1))))))"

text \<open>Every turn of the loop takes an entry from the stream, or is the last.\<close>

definition entries_left :: "'e world \<Rightarrow> ptr \<Rightarrow> nat" where
  "entries_left s dp = (case dir_stream s dp of None \<Rightarrow> 0 | Some st \<Rightarrow> length (snd st))"

definition dir_content :: "'e posix \<Rightarrow> string \<Rightarrow> (ptr \<times> u64 option, 'e world) prog" where
  "dir_content P path = edf prom_call ''dir_content'' ''filesystem/filesystem.c:115''
     (bind (open_dir P path) (\<lambda>dp.
      on_error_return (null, None)
     (seq (defer_call H_close_dir dp)
     (bind (dga_new 0 8) (\<lambda>names.
      bind (gets (\<lambda>s. entries_left s dp)) (\<lambda>n.
        dir_loop (Suc n) dp names 0))))))"

section \<open>Rules of the path operations\<close>

text \<open>What a function that makes a string leaves behind: the error code tells whether \<open>p\<close> is a new
  object that starts with the string, or NULL with the heap as it was.\<close>

definition made_string :: "'e world \<Rightarrow> string \<Rightarrow> ptr \<Rightarrow> 'e world \<Rightarrow> bool" where
  "made_string s x p s' \<longleftrightarrow> (\<exists>n pad. p = Ptr (Blk n) 0 \<and> blocks s (Blk n) = None \<and>
     blocks s' = (blocks s)(Blk n \<mapsto> cstr x @ replicate pad Undef))"

definition string_result :: "'e world \<Rightarrow> string \<Rightarrow> ptr \<Rightarrow> 'e world \<Rightarrow> bool" where
  "string_result s x p s' \<longleftrightarrow>
     (if err_code s' = No_Error then made_string s x p s'
      else err_code s' = NOT_ENOUGH_MEMORY \<and> p = null \<and> blocks s' = blocks s)"

definition called :: "'e world \<Rightarrow> 'e world \<Rightarrow> bool" where
  "called s s' \<longleftrightarrow> balanced s s' \<and> quiet s s'"

lemma called_trans: "called s s1 \<Longrightarrow> called s1 s2 \<Longrightarrow> called s s2"
  by (auto simp: called_def intro: balanced_trans quiet_trans)

lemma called_with_stack: "defers_ok s F \<Longrightarrow> quiet s s' \<Longrightarrow> called s (with_stack F (curr s) s')"
  by (simp add: called_def balanced_with_stack)

lemma calledD:
  assumes "called s s'"
  shows "balanced s s'" "quiet s s'" "curr s' = curr s" "mem_ok s'"
  using assms by (auto simp: called_def balanced_def quiet_mem_ok)

lemma inside_called: "inside s st dy s1 \<Longrightarrow> called s1 s2 \<Longrightarrow> inside s st dy s2"
  by (auto simp: called_def intro: inside_balanced)

lemma made_string_str:
  assumes "made_string s x p s'" "c_string x"
  shows "str_of_ptr s' p = Some x" "p \<noteq> null"
  using assms by (auto simp: made_string_def str_of_ptr_def str_at_cstr)

lemma made_string_frees:
  assumes "made_string s x p s'"
  shows "runs (free p) s' (\<lambda>_ s2. s2 = s'\<lparr>blocks := blocks s\<rparr>)"
proof -
  obtain n pad where "p = Ptr (Blk n) 0" "blocks s (Blk n) = None"
      "blocks s' = (blocks s)(Blk n \<mapsto> cstr x @ replicate pad Undef)"
    using assms by (auto simp: made_string_def)
  moreover from this have "(blocks s')(Blk n := None) = blocks s"
    by (simp add: fun_upd_idem)
  ultimately show ?thesis by (simp add: runs_free)
qed

lemma runs_emalloc:
  assumes "stack_ok s" "curr s < 11" "mem_ok s"
  shows "runs (emalloc n) s (\<lambda>p s'. called s s' \<and> requests s' = Suc (requests s) \<and>
    (if grants s (requests s)
     then p = Ptr (Blk (next_blk s)) 0 \<and> err_code s' = No_Error \<and>
       blocks s' = (blocks s)(Blk (next_blk s) \<mapsto> replicate (unat n) Undef)
     else p = null \<and> err_code s' = NOT_ENOUGH_MEMORY \<and> blocks s' = blocks s))"
  unfolding emalloc_def
proof (rule prom.edf_rule [OF assms(1,2)])
  let ?Q = "\<lambda>p s'. called s s' \<and> requests s' = Suc (requests s) \<and> (if grants s (requests s)
     then p = Ptr (Blk (next_blk s)) 0 \<and> err_code s' = No_Error \<and>
       blocks s' = (blocks s)(Blk (next_blk s) \<mapsto> replicate (unat n) Undef)
     else p = null \<and> err_code s' = NOT_ENOUGH_MEMORY \<and> blocks s' = blocks s)"
  have here: "inside s [] [] s1" "quiet s s1" "err_code s1 = No_Error" if "heap_ext (entered s) s1" for s1
    using that inside_heap [OF inside_entered [OF assms(1,2)] that] quiet_heap [OF that]
    using heap_only_errm(3) [of "entered s" s1] that by (simp_all add: heap_ext_def)
  have mem: "mem_ok (entered s)" using assms(3) by simp
  show "runs (bind (malloc n) (\<lambda>p. seq (if p = null then errm_error NOT_ENOUGH_MEMORY else ret ()) (ret p)))
      (entered s) (unwinds prom_call s ?Q)"
    unfolding runs_bind
  proof (rule runs_malloc_any [OF mem])
    fix s1 assume s1: "heap_ext (entered s) s1" "grants (entered s) (requests (entered s))"
      "blocks s1 = (blocks (entered s))(Blk (next_blk (entered s)) \<mapsto> replicate (unat n) Undef)"
      "requests s1 = Suc (requests (entered s))"
    have "unwinds prom_call s ?Q (Ptr (Blk (next_blk s)) 0) s1"
      by (rule unwinds_none) (use s1 here [OF s1(1)] in \<open>simp_all add: called_with_stack\<close>)
    then show "runs (seq (if Ptr (Blk (next_blk (entered s))) 0 = null then errm_error NOT_ENOUGH_MEMORY
        else ret ()) (ret (Ptr (Blk (next_blk (entered s))) 0))) s1 (unwinds prom_call s ?Q)"
      by (simp add: runs_simps)
  next
    fix s1 assume s1: "heap_ext (entered s) s1" "blocks s1 = blocks (entered s)"
      "\<not> grants (entered s) (requests (entered s))" "requests s1 = Suc (requests (entered s))"
    have "unwinds prom_call s ?Q null (s1\<lparr>err_code := NOT_ENOUGH_MEMORY\<rparr>)"
      by (rule unwinds_none) (use s1 here [OF s1(1)] in \<open>simp_all add: called_with_stack inside_err\<close>)
    then show "runs (seq (if null = null then errm_error NOT_ENOUGH_MEMORY else ret ()) (ret null)) s1
        (unwinds prom_call s ?Q)"
      by (simp add: runs_simps errm_error_def)
  qed
qed

lemma runs_strcpy:
  assumes "blocks s b = Some bs" "length x < length bs"
  shows "runs (strcpy (Ptr b 0) x) s Q \<longleftrightarrow>
    Q () (s\<lparr>blocks := (blocks s)(b \<mapsto> cstr x @ drop (Suc (length x)) bs)\<rparr>)"
proof -
  have "bs = [] @ take (Suc (length x)) bs @ drop (Suc (length x)) bs" by simp
  with assms(1) have "blocks s b = Some ([] @ take (Suc (length x)) bs @ drop (Suc (length x)) bs)"
    by simp
  from poke_seg [OF this, of 0 "cstr x"] assms(2) show ?thesis
    by (simp add: strcpy_def runs_simps)
qed

text \<open>Filling a buffer \<open>emalloc\<close> just gave out.\<close>

lemma made_stringI:
  assumes "blocks s (Blk n) = None" "blocks s' = (blocks s)(Blk n \<mapsto> cstr x @ replicate k Undef)"
  shows "made_string s x (Ptr (Blk n) 0) s'"
  using assms unfolding made_string_def by blast

lemma runs_expand_error:
  assumes "stack_ok s" "curr s < 11" "mem_ok s" "os_wordexp P (env s) path = None"
  shows "runs (expand P path) s (\<lambda>p s'. called s s' \<and> p = null \<and> blocks s' = blocks s \<and>
    err_code s' = PARSING_ERROR)"
proof -
  let ?Q = "\<lambda>p s'. called s s' \<and> p = null \<and> blocks s' = blocks s \<and> err_code s' = PARSING_ERROR"
  have "unwinds prom_call s ?Q null ((entered s)\<lparr>err_code := PARSING_ERROR\<rparr>)"
    by (rule unwinds_none [OF inside_err [OF inside_entered [OF assms(1,2)]]])
      (use assms(3) in \<open>simp add: called_with_stack quiet_refl\<close>)
  then show ?thesis
    unfolding expand_def
    by (intro prom.edf_rule [OF assms(1,2)]) (simp add: wordexp_def runs_simps assms(4) errm_error_def)
qed

text \<open>The body of \<open>expand\<close> from the deferred \<open>wordfree\<close> on.\<close>

definition expand_rest :: "mval list \<Rightarrow> (ptr, 'e world) prog" where
  "expand_rest w =
     bind (first_word w) (\<lambda>p.
     bind (load_str p) (\<lambda>x.
     bind (emalloc (strlen x + 1)) (\<lambda>result.
     on_error_return null
    (bind (first_word w) (\<lambda>p.
     bind (load_str p) (\<lambda>x.
     seq (strcpy result x)
    (ret result)))))))"

lemma runs_first_word:
  assumes "words_at s w (x # ws) vb ps" "c_string x"
  shows "runs (bind (first_word w) (\<lambda>p. bind (load_str p) f)) s Q \<longleftrightarrow> runs (f x) s Q"
  using words_at_first [OF assms(1)] string_blk_str [OF words_at_first(2) [OF assms(1)] assms(2)]
  by (simp add: first_word_def runs_simps)

lemma runs_on_error [runs_simps]:
  "runs (on_error_return A k) s Q \<longleftrightarrow> (if err_code s = No_Error then runs k s Q else Q A s)"
  by (cases "err_code s") (simp_all add: on_error_return_def errm_error_code_def runs_simps)

lemma unat_strlen_inc: "Suc (length x) < 2 ^ 64 \<Longrightarrow> unat (strlen x + 1) = Suc (length x)"
proof -
  assume "Suc (length x) < 2 ^ 64"
  moreover have "strlen x + 1 = of_nat (Suc (length x))"
    by (simp add: strlen_def)
  ultimately show ?thesis
    by (simp only: unat_of_nat_small)
qed

lemma runs_expand_rest:
  assumes "inside s [(H_wordfree, w)] [] s2" "curr s < 10" "quiet s s2" "words_at s2 w (x # ws) vb ps"
    "\<forall>b\<in>word_bases vb ps. blocks s b = None" "untouched (word_bases vb ps) s s2"
    "c_string x" "Suc (length x) < 2 ^ 64" "length (x # ws) < 2 ^ 64" "requests s2 = requests s"
  shows "runs (expand_rest w) s2 (unwinds prom_call s (\<lambda>p s'. called s s' \<and> string_result s x p s' \<and>
    (err_code s' = No_Error \<longleftrightarrow> grants s (requests s)) \<and> requests s' = Suc (requests s)))"
proof -
  let ?Q = "\<lambda>p s'. called s s' \<and> string_result s x p s' \<and> (err_code s' = No_Error \<longleftrightarrow> grants s (requests s)) \<and> requests s' = Suc (requests s)"
  let ?b = "Blk (next_blk s2)"
  note D = insideD [OF assms(1)]
  have mem: "mem_ok s2" using assms(3) by (rule quiet_mem_ok)
  have restores: "clear_all (word_bases vb ps) (blocks s2) = blocks s"
    using clear_restores [OF assms(6,5)] .
  have new: "?b \<notin> word_bases vb ps" "blocks s ?b = None"
  proof -
    have "\<forall>b\<in>word_bases vb ps. blocks s2 b \<noteq> None"
      using assms(4) string_blks_live [of s2 "x # ws" ps] by (auto simp: words_at_def word_bases_def)
    then show "?b \<notin> word_bases vb ps"
      using fresh_blk [OF mem] by auto
    with assms(6) fresh_blk [OF mem] show "blocks s ?b = None"
      by (simp add: untouched_def)
  qed
  have unwind: "unwinds prom_call s ?Q p s4"
    if s4: "inside s [(H_wordfree, w)] [] s4" "words_at s4 w (x # ws) vb ps" "quiet s s4"
      and fin: "\<And>F. defers_ok s F \<Longrightarrow>
        ?Q p (with_stack F (curr s) (s4\<lparr>blocks := clear_all (word_bases vb ps) (blocks s4)\<rparr>))" for p s4
    by (rule unwinds_static [OF s4(1)], simp only: prom_call.simps,
        rule runs_mono [OF runs_wordfree [OF s4(2) assms(9)]], simp only:, use fin in blast)
  show ?thesis
    unfolding expand_rest_def runs_first_word [OF assms(4,7)] runs_bind [of "emalloc _"]
  proof (rule runs_mono [OF runs_emalloc [OF D(1) _ mem]])
    show "curr s2 < 11" using D(2) assms(2) by simp
  next
    fix p s3
    assume s3: "called s2 s3 \<and> requests s3 = Suc (requests s2) \<and>
      (if grants s2 (requests s2)
       then p = Ptr ?b 0 \<and> err_code s3 = No_Error \<and>
         blocks s3 = (blocks s2)(?b \<mapsto> replicate (unat (strlen x + 1)) Undef)
       else p = null \<and> err_code s3 = NOT_ENOUGH_MEMORY \<and> blocks s3 = blocks s2)"
    have in3: "inside s [(H_wordfree, w)] [] s3" and q3: "quiet s s3"
      using s3 inside_called [OF assms(1)] quiet_trans [OF assms(3)] by (auto simp: called_def)
    have granted: "grants s (requests s) \<longleftrightarrow> grants s2 (requests s2)" "requests s3 = Suc (requests s)"
      using assms(3,10) s3 by (simp_all add: quiet_def proc_step_def)
    show "runs (on_error_return null (bind (first_word w) (\<lambda>p'. bind (load_str p') (\<lambda>x.
        seq (strcpy p x) (ret p))))) s3 (unwinds prom_call s ?Q)"
    proof (cases "grants s2 (requests s2)")
      case True
      let ?s4 = "s3\<lparr>blocks := (blocks s3)(?b \<mapsto> cstr x)\<rparr>"
      have w3: "words_at s3 w (x # ws) vb ps"
        by (rule words_at_cong [OF assms(4)]) (use s3 True new in auto)
      have b3: "blocks s3 ?b = Some (replicate (Suc (length x)) Undef)"
        using s3 True unat_strlen_inc [OF assms(8)] by simp
      have ext: "heap_ext s3 ?s4"
        by (rule heap_ext_store [OF quiet_mem_ok [OF q3] b3]) simp
      have w4: "words_at ?s4 w (x # ws) vb ps"
        by (rule words_at_cong [OF w3]) (use new in auto)
      have final: "clear_all (word_bases vb ps) (blocks ?s4) = (blocks s)(?b \<mapsto> cstr x)"
        using s3 True new(1) by (simp add: clear_all_upd restores)
      have "unwinds prom_call s ?Q (Ptr ?b 0) ?s4"
      proof (rule unwind [OF inside_heap [OF in3 ext] w4 quiet_trans [OF q3 quiet_heap [OF ext]]])
        fix F assume F: "defers_ok s F"
        have made: "made_string s x (Ptr ?b 0) (with_stack F (curr s)
            (?s4\<lparr>blocks := clear_all (word_bases vb ps) (blocks ?s4)\<rparr>))"
          using final by (intro made_stringI [where k = 0, OF new(2)]) simp
        have "quiet s (?s4\<lparr>blocks := clear_all (word_bases vb ps) (blocks ?s4)\<rparr>)"
          by (rule quiet_trans [OF quiet_trans [OF q3 quiet_heap [OF ext]]
              quiet_heap [OF heap_ext_clear [OF heap_ext_mem_ok [OF ext]]]])
        with F made s3 True granted show "?Q (Ptr ?b 0) (with_stack F (curr s)
            (?s4\<lparr>blocks := clear_all (word_bases vb ps) (blocks ?s4)\<rparr>))"
          by (simp add: called_with_stack string_result_def)
      qed
      with True s3 b3 w3 show ?thesis
        by (simp add: runs_on_error runs_first_word [OF w3 assms(7)] runs_seq runs_ret
            runs_strcpy [OF b3])
    next
      case False
      have w3: "words_at s3 w (x # ws) vb ps"
        by (rule words_at_cong [OF assms(4)]) (use s3 False in auto)
      have "unwinds prom_call s ?Q null s3"
      proof (rule unwind [OF in3 w3 q3])
        fix F assume F: "defers_ok s F"
        have "quiet s (s3\<lparr>blocks := clear_all (word_bases vb ps) (blocks s3)\<rparr>)"
          by (rule quiet_trans [OF q3 quiet_heap [OF heap_ext_clear [OF quiet_mem_ok [OF q3]]]])
        with F s3 False granted restores show "?Q null (with_stack F (curr s)
            (s3\<lparr>blocks := clear_all (word_bases vb ps) (blocks s3)\<rparr>))"
          by (auto simp: called_with_stack string_result_def)
      qed
      with False s3 show ?thesis
        by (simp add: runs_on_error)
    qed
  qed
qed

lemma runs_expand:
  assumes "stack_ok s" "curr s < 10" "mem_ok s" "os_wordexp P (env s) path = Some (x # ws)"
    "c_string x" "Suc (length x) < 2 ^ 64" "length (x # ws) < 2 ^ 64"
  shows "runs (expand P path) s (\<lambda>p s'. called s s' \<and> string_result s x p s' \<and>
    (err_code s' = No_Error \<longleftrightarrow> grants s (requests s)) \<and> requests s' = Suc (requests s))"
proof -
  let ?Q = "\<lambda>p s'. called s s' \<and> string_result s x p s' \<and> (err_code s' = No_Error \<longleftrightarrow> grants s (requests s)) \<and> requests s' = Suc (requests s)"
  have room: "curr s < 11" using assms(2) by simp
  have "runs (wordexp P path) (entered s) (\<lambda>r s'. \<exists>w. r = Some w \<and>
    runs (seq (static_defer H_wordfree sizeof_wordexp w) (expand_rest w)) s' (unwinds prom_call s ?Q))"
  proof (rule runs_mono [OF runs_wordexp])
    show "mem_ok (entered s)" "os_wordexp P (env (entered s)) path = Some (x # ws)"
      using assms(3,4) by simp_all
  next
    fix r s1
    assume "\<exists>w vb ps. r = Some w \<and> words_at s1 w (x # ws) vb ps \<and> heap_ext (entered s) s1 \<and>
      (\<forall>b\<in>word_bases vb ps. blocks (entered s) b = None) \<and> untouched (word_bases vb ps) (entered s) s1 \<and>
      requests s1 = requests (entered s)"
    then obtain w vb ps where s1: "r = Some w" "words_at s1 w (x # ws) vb ps" "heap_ext (entered s) s1"
      "\<forall>b\<in>word_bases vb ps. blocks s b = None" "untouched (word_bases vb ps) s s1"
      "requests s1 = requests s"
      by (auto simp: untouched_def)
    have w24: "length w = 24"
      using s1(2) by (simp add: words_at_def)
    have "runs (static_defer H_wordfree sizeof_wordexp w) s1
        (\<lambda>_ s2. inside s ([] @ [(H_wordfree, w)]) [] s2 \<and> restacked s1 s2)"
      by (rule inside_static [OF inside_heap [OF inside_entered [OF assms(1) room] s1(3)]])
        (simp_all add: w24 sizeof_wordexp_def)
    then have "runs (static_defer H_wordfree sizeof_wordexp w) s1
        (\<lambda>_ s2. runs (expand_rest w) s2 (unwinds prom_call s ?Q))"
    proof (rule runs_mono, elim conjE)
      fix s2 assume s2: "inside s ([] @ [(H_wordfree, w)]) [] s2" "restacked s1 s2"
      have q1: "quiet s s1" using quiet_heap [OF s1(3)] by simp
      show "runs (expand_rest w) s2 (unwinds prom_call s ?Q)"
      proof (rule runs_expand_rest [OF _ assms(2) _ _ s1(4) _ assms(5,6,7)])
        show "inside s [(H_wordfree, w)] [] s2" using s2(1) by simp
        show "quiet s s2"
          by (rule quiet_trans [OF q1 quiet_restacked [OF quiet_mem_ok [OF q1] s2(2)]])
        show "words_at s2 w (x # ws) vb ps"
          by (rule words_at_cong [OF s1(2)]) (simp add: restackedD(3) [OF s2(2)])
        show "untouched (word_bases vb ps) s s2"
          using s1(5) by (simp add: untouched_def restackedD(3) [OF s2(2)])
        show "requests s2 = requests s" using s1(6) restackedD(6) [OF s2(2)] by simp
      qed
    qed
    with s1(1) show "\<exists>w. r = Some w \<and>
        runs (seq (static_defer H_wordfree sizeof_wordexp w) (expand_rest w)) s1 (unwinds prom_call s ?Q)"
      by (simp add: runs_seq)
  qed
  then show ?thesis
    unfolding expand_def runs_bind
    by (intro prom.edf_rule [OF assms(1) room])
       (auto simp: runs_bind [of "wordexp P path"] expand_rest_def [symmetric] elim!: runs_mono)
qed

text \<open>No word comes out of the expansion: the code reads through \<open>we_wordv[0]\<close>, which is NULL.\<close>

lemma expand_no_word:
  assumes "stack_ok s" "curr s < 11" "mem_ok s" "os_wordexp P (env s) path = Some []"
  shows "expand P path s = Undefined"
proof -
  let ?v = "Ptr (Blk (next_blk s)) 0"
  let ?w = "wordexp_bytes 0 ?v"
  let ?s1 = "(entered s)\<lparr>blocks := (blocks s)(Blk (next_blk s) \<mapsto> enc (VPtr null)), next_blk := Suc (next_blk s)\<rparr>"
  have "heap_ext (entered s) ?s1"
    using runs_lib_alloc [of "entered s" "enc (VPtr null)"] assms(3) by (simp add: lib_alloc_def runs_def)
  then have "inside s [] [] ?s1"
    by (rule inside_heap [OF inside_entered [OF assms(1,2)]])
  then have "runs (static_defer H_wordfree sizeof_wordexp ?w) ?s1
      (\<lambda>_ s2. inside s ([] @ [(H_wordfree, ?w)]) [] s2 \<and> restacked ?s1 s2)"
    by (rule inside_static) (simp_all add: sizeof_wordexp_def)
  then obtain s2 where deferred: "static_defer H_wordfree sizeof_wordexp ?w ?s1 = Done () s2"
      and s2: "restacked ?s1 s2"
    by (auto simp: runs_iff)
  have "peek s2 ?v 8 = Some (enc (VPtr null))"
    by (rule peek_seg [where xs = "[]" and zs = "[]"]) (simp_all add: restackedD(3) [OF s2])
  moreover have "str_of_ptr s2 null = None"
    using assms(3) by (simp add: str_of_ptr_def restackedD(3) [OF s2] mem_ok_def)
  moreover have "wordexp P path (entered s) = Done (Some ?w) ?s1"
    using assms(4) by (simp add: wordexp_def prog_defs lib_alloc_def)
  ultimately show ?thesis
    unfolding expand_def
    by (intro edf_undefined [OF assms(2)])
      (simp add: seq_def bind_def deferred first_word_def load_ptr_def load_str_def reads_def as_ptr_iff)
qed

text \<open>Leaving a body whose only deferred call frees an object.\<close>

lemma unwinds_free:
  assumes "inside s [] [(H_free, Ptr (Blk n) 0)] s1" "blocks s1 (Blk n) \<noteq> None" "quiet s s1"
    and "\<And>s2. called s s2 \<Longrightarrow> err_code s2 = err_code s1 \<Longrightarrow> blocks s2 = (blocks s1)(Blk n := None) \<Longrightarrow> Q r s2"
  shows "unwinds prom_call s Q r s1"
proof (rule unwinds_dyn [OF assms(1)])
  let ?s2 = "s1\<lparr>blocks := (blocks s1)(Blk n := None)\<rparr>"
  have "quiet s ?s2"
    by (rule quiet_trans [OF assms(3) quiet_heap [OF heap_ext_free [OF quiet_mem_ok [OF assms(3)]]]])
  then have "\<forall>F. defers_ok s F \<longrightarrow> Q r (with_stack F (curr s) ?s2)"
    by (auto intro!: assms(4) simp: called_with_stack)
  then show "runs (prom_call H_free (Passed (Ptr (Blk n) 0))) s1
      (\<lambda>_ s2. \<forall>F. defers_ok s F \<longrightarrow> Q r (with_stack F (curr s) s2))"
    using assms(2) by (simp add: runs_free)
qed

lemma runs_getcwd:
  assumes "mem_ok s" "os_getcwd P (env s) = Inr c" "grants s (requests s)" "Suc (length c) < 2 ^ 64"
  shows "runs (getcwd P) s (\<lambda>p s'. p = Ptr (Blk (next_blk s)) 0 \<and> heap_ext s s' \<and>
    blocks s' = (blocks s)(Blk (next_blk s) \<mapsto> cstr c))"
proof -
  let ?b = "Blk (next_blk s)"
  have "runs (malloc (strlen c + 1)) s (\<lambda>p s1. p = Ptr ?b 0 \<and> runs (strcpy p c) s1
      (\<lambda>_ s'. heap_ext s s' \<and> blocks s' = (blocks s)(?b \<mapsto> cstr c)))"
  proof (rule runs_malloc_any [OF assms(1)])
    fix s1 assume s1: "heap_ext s s1" "blocks s1 = (blocks s)(?b \<mapsto> replicate (unat (strlen c + 1)) Undef)"
    have b: "blocks s1 ?b = Some (replicate (Suc (length c)) Undef)"
      using s1(2) unat_strlen_inc [OF assms(4)] by simp
    have "heap_ext s (s1\<lparr>blocks := (blocks s1)(?b \<mapsto> cstr c)\<rparr>)"
      by (rule heap_ext_trans [OF s1(1) heap_ext_store [OF heap_ext_mem_ok [OF s1(1)] b]]) simp
    then show "Ptr ?b 0 = Ptr ?b 0 \<and> runs (strcpy (Ptr ?b 0) c) s1
        (\<lambda>_ s'. heap_ext s s' \<and> blocks s' = (blocks s)(?b \<mapsto> cstr c))"
      using s1(2) by (simp add: runs_strcpy [OF b])
  qed (use assms(3) in simp)
  then show ?thesis
    unfolding getcwd_def by (auto simp: runs_simps assms(2) elim!: runs_mono)
qed

lemma unat_joined_len:
  assumes "length r + length c + 8 < 2 ^ 64"
  shows "unat (strlen r + sizeof_char_const + strlen c + sizeof_char_const) = length r + length c + 8"
proof -
  have "strlen r + sizeof_char_const + strlen c + sizeof_char_const = of_nat (length r + length c + 8)"
    by (simp add: strlen_def sizeof_char_const_def)
  with assms show ?thesis by (simp only: unat_of_nat_small)
qed

lemma runs_snprintf:
  assumes "blocks s b = Some bs" "length x < length bs" "length bs = unat n"
  shows "runs (snprintf (Ptr b 0) n x) s Q \<longleftrightarrow> Q (int (length x))
    (s\<lparr>blocks := (blocks s)(b \<mapsto> cstr x @ drop (Suc (length x)) bs)\<rparr>)"
proof -
  have "n \<noteq> 0" using assms(2,3) by auto
  then show ?thesis
    using runs_strcpy [OF assms(1,2)] assms(2,3)
    by (simp add: snprintf_def strcpy_def runs_seq runs_ret)
qed

text \<open>The body of \<open>abs_path_from_relative\<close> from the allocation on; \<open>cwd\<close> is deferred to be freed.\<close>

definition join_rest :: "ptr \<Rightarrow> ptr \<Rightarrow> u64 \<Rightarrow> (ptr, 'e world) prog" where
  "join_rest cwd relative_path abs_path_len =
     bind (emalloc abs_path_len) (\<lambda>abs_path.
     on_error_return null
    (bind (load_str cwd) (\<lambda>c.
     bind (load_str relative_path) (\<lambda>r.
     seq (snprintf abs_path abs_path_len (c @ ''/'' @ r))
    (ret abs_path)))))"

definition joined :: "string \<Rightarrow> string \<Rightarrow> string" where
  "joined dir name = dir @ ''/'' @ name"

lemma str_of_ptr_other:
  assumes "str_of_ptr s p = Some x" "\<forall>b. blocks s b \<noteq> None \<longrightarrow> blocks s' b = blocks s b"
  shows "str_of_ptr s' p = Some x"
proof -
  have "blocks s (pbase p) \<noteq> None" using assms(1) by (auto simp: str_of_ptr_def split: option.splits)
  then have "blocks s' (pbase p) = blocks s (pbase p)" using assms(2) by blast
  then show ?thesis using assms(1) by (simp add: str_of_ptr_def)
qed

lemma runs_join_rest:
  assumes in2: "inside s [] [(H_free, Ptr (Blk cw) 0)] s2" and room: "curr s < 10" and q2: "quiet s s2"
    and b2: "blocks s2 = (blocks s)(Blk cw \<mapsto> cstr c)" "blocks s (Blk cw) = None"
    and strs: "str_of_ptr s rp = Some r" "c_string c" "length r + length c + 8 < 2 ^ 64"
    and L: "L = strlen r + sizeof_char_const + strlen c + sizeof_char_const"
  shows "runs (join_rest (Ptr (Blk cw) 0) rp L) s2 (unwinds prom_call s (\<lambda>p s'. called s s' \<and>
    string_result s (joined c r) p s' \<and> (never_oom s \<longrightarrow> err_code s' = No_Error)))"
proof -
  let ?Q = "\<lambda>p s'. called s s' \<and> string_result s (joined c r) p s' \<and> (never_oom s \<longrightarrow> err_code s' = No_Error)"
  let ?c = "Blk cw" and ?p = "Blk (next_blk s2)"
  note D = insideD [OF in2] and len = unat_joined_len [OF strs(3), folded L]
  have new: "?p \<noteq> ?c" "blocks s ?p = None"
    using fresh_blk [OF quiet_mem_ok [OF q2]] b2 by (auto split: if_splits)
  show ?thesis
    unfolding join_rest_def runs_bind [of "emalloc _"]
  proof (rule runs_mono [OF runs_emalloc [OF D(1) _ quiet_mem_ok [OF q2]]])
    show "curr s2 < 11" using D(2) room by simp
  next
    fix p s3
    assume s3: "called s2 s3 \<and> requests s3 = Suc (requests s2) \<and> (if grants s2 (requests s2)
       then p = Ptr ?p 0 \<and> err_code s3 = No_Error \<and>
         blocks s3 = (blocks s2)(?p \<mapsto> replicate (unat L) Undef)
       else p = null \<and> err_code s3 = NOT_ENOUGH_MEMORY \<and> blocks s3 = blocks s2)"
    have in3: "inside s [] [(H_free, Ptr ?c 0)] s3" and q3: "quiet s s3"
      using s3 inside_called [OF in2] quiet_trans [OF q2] by (auto simp: called_def)
    show "runs (on_error_return null (bind (load_str (Ptr ?c 0)) (\<lambda>c. bind (load_str rp) (\<lambda>r.
        seq (snprintf p L (c @ ''/'' @ r)) (ret p))))) s3 (unwinds prom_call s ?Q)"
    proof (cases "grants s2 (requests s2)")
      case True
      have b3: "blocks s3 ?p = Some (replicate (length r + length c + 8) Undef)"
        "blocks s3 = (blocks s)(?c \<mapsto> cstr c, ?p \<mapsto> replicate (length r + length c + 8) Undef)"
        using s3 True len b2(1) by simp_all
      have str3: "str_of_ptr s3 (Ptr ?c 0) = Some c"
        using b3 new strs(2) by (simp add: str_of_ptr_def)
      have str3': "str_of_ptr s3 rp = Some r"
        by (rule str_of_ptr_other [OF strs(1)]) (use b3(2) new(2) b2(2) in auto)
      let ?s4 = "s3\<lparr>blocks := (blocks s3)(?p \<mapsto> cstr (joined c r) @ replicate 6 Undef)\<rparr>"
      have ext: "heap_ext s3 ?s4"
        by (rule heap_ext_store [OF quiet_mem_ok [OF q3] b3(1)]) simp
      have "unwinds prom_call s ?Q (Ptr ?p 0) ?s4"
      proof (rule unwinds_free [OF inside_heap [OF in3 ext] _ quiet_trans [OF q3 quiet_heap [OF ext]]])
        fix s5 assume s5: "called s s5" "err_code s5 = err_code ?s4" "blocks s5 = (blocks ?s4)(?c := None)"
        have "blocks s5 = (blocks s)(?p \<mapsto> cstr (joined c r) @ replicate 6 Undef)"
          using s5(3) b3(2) new b2(2) by (auto simp: fun_eq_iff)
        then have "made_string s (joined c r) (Ptr ?p 0) s5"
          by (rule made_stringI [OF new(2)])
        then show "?Q (Ptr ?p 0) s5"
          using s5(1,2) s3 True by (simp add: string_result_def)
      qed (use b3(2) new in simp)
      then show ?thesis
        using s3 True str3 str3'
        by (simp add: runs_on_error runs_bind runs_load_str runs_seq runs_ret joined_def
            runs_snprintf [OF b3(1)] len)
    next
      case False
      have "unwinds prom_call s ?Q null s3"
      proof (rule unwinds_free [OF in3 _ q3])
        fix s5 assume s5: "called s s5" "err_code s5 = err_code s3" "blocks s5 = (blocks s3)(?c := None)"
        have "blocks s5 = blocks s" using s5(3) s3 False b2 by (simp add: fun_upd_idem)
        moreover have "\<not> never_oom s"
          using False quiet_never_oom [OF _ q2] never_oom_now by blast
        ultimately show "?Q null s5"
          using s5(1,2) s3 False by (simp add: string_result_def)
      qed (use s3 False b2 in simp)
      with s3 False show ?thesis by (simp add: runs_on_error)
    qed
  qed
qed

lemma runs_abs_path_from_relative:
  assumes "stack_ok s" "curr s < 10" "mem_ok s" "str_of_ptr s rp = Some r"
    and cwd: "os_getcwd P (env s) = Inr c" "grants s (requests s)" "c_string c"
      "length r + length c + 8 < 2 ^ 64"
  shows "runs (abs_path_from_relative P rp) s (\<lambda>p s'. called s s' \<and> string_result s (joined c r) p s' \<and>
    (never_oom s \<longrightarrow> err_code s' = No_Error))"
proof -
  let ?Q = "\<lambda>p s'. called s s' \<and> string_result s (joined c r) p s' \<and> (never_oom s \<longrightarrow> err_code s' = No_Error)"
  let ?c = "Blk (next_blk s)"
  have room: "curr s < 11" and mem: "mem_ok (entered s)" and fresh: "blocks s ?c = None"
    using assms(2,3) fresh_blk by simp_all
  have "runs (getcwd P) (entered s) (\<lambda>cwd s1. runs (defer_call H_free cwd) s1 (\<lambda>_ s2.
      str_of_ptr s2 rp = Some r \<and> str_of_ptr s2 cwd = Some c \<and>
      runs (join_rest cwd rp (strlen r + sizeof_char_const + strlen c + sizeof_char_const)) s2
        (unwinds prom_call s ?Q)))"
  proof (rule runs_mono [OF runs_getcwd [OF mem, of P c]])
    fix cw s1 assume s1: "cw = Ptr (Blk (next_blk (entered s))) 0 \<and> heap_ext (entered s) s1 \<and>
      blocks s1 = (blocks (entered s))(Blk (next_blk (entered s)) \<mapsto> cstr c)"
    have in1: "inside s [] [] s1" and q1: "quiet s s1"
      using inside_heap [OF inside_entered [OF assms(1) room]] quiet_heap [of "entered s"] s1 by simp_all
    show "runs (defer_call H_free cw) s1 (\<lambda>_ s2. str_of_ptr s2 rp = Some r \<and> str_of_ptr s2 cw = Some c \<and>
        runs (join_rest cw rp (strlen r + sizeof_char_const + strlen c + sizeof_char_const)) s2
          (unwinds prom_call s ?Q))"
    proof (rule runs_mono [OF inside_defer [OF in1]])
      fix u s2 assume s2: "inside s [] ([] @ [(H_free, cw)]) s2 \<and> restacked s1 s2"
      have in2: "inside s [] [(H_free, Ptr ?c 0)] s2" and q2: "quiet s s2"
        and b2: "blocks s2 = (blocks s)(?c \<mapsto> cstr c)"
        using s2 s1 quiet_trans [OF q1 quiet_restacked [OF quiet_mem_ok [OF q1]]]
          restackedD(3) [of s1 s2] by simp_all
      have "str_of_ptr s2 rp = Some r"
        by (rule str_of_ptr_other [OF assms(4)]) (simp add: b2 fresh)
      moreover have "str_of_ptr s2 cw = Some c"
        using b2 s1 cwd(3) by (simp add: str_of_ptr_def)
      ultimately show "str_of_ptr s2 rp = Some r \<and> str_of_ptr s2 cw = Some c \<and>
        runs (join_rest cw rp (strlen r + sizeof_char_const + strlen c + sizeof_char_const)) s2
          (unwinds prom_call s ?Q)"
        using runs_join_rest [OF in2 assms(2) q2 b2 fresh assms(4) cwd(3,4) refl] s1 by simp
    qed simp
  qed (use cwd in simp_all)
  then show ?thesis
    unfolding abs_path_from_relative_def
    by (intro prom.edf_rule [OF assms(1) room])
      (auto simp: runs_bind [of "getcwd P"] runs_seq [of "defer_call _ _"] runs_bind [of "load_str _"]
        runs_load_str join_rest_def Let_def elim!: runs_mono)
qed

text \<open>The path \<open>abs_path\<close> stands for: the first word of the expansion, read in the working directory
  \<open>c\<close> where it is relative.\<close>

definition is_absolute :: "string \<Rightarrow> bool" where
  "is_absolute x \<longleftrightarrow> take 1 x = ''/''"

definition resolved :: "string \<Rightarrow> string \<Rightarrow> string" where
  "resolved c x = (if is_absolute x then x else joined c x)"

lemma is_absolute_joined: "is_absolute c \<Longrightarrow> is_absolute (joined c x)"
  by (cases c) (simp_all add: is_absolute_def joined_def)

text \<open>The body from the check of the expanded path \<open>t\<close> on.\<close>

definition resolve_rest :: "'e posix \<Rightarrow> ptr \<Rightarrow> (ptr, 'e world) prog" where
  "resolve_rest P t = bind (load_str t) (\<lambda>x.
     if take 1 x \<noteq> ''/'' then seq (defer_call H_free t) (abs_path_from_relative P t) else ret t)"

lemma runs_resolve_rest:
  assumes in1: "inside s [] [] s1" and room: "curr s < 9" and q1: "quiet s s1" "err_code s1 = No_Error"
    and t: "made_string s x t s1" "c_string x"
    and rel: "is_absolute x \<or> never_oom s \<and> os_getcwd P (env s) = Inr c \<and> c_string c \<and>
      length x + length c + 8 < 2 ^ 64"
  shows "runs (resolve_rest P t) s1 (unwinds prom_call s (\<lambda>p s'. called s s' \<and>
    string_result s (resolved c x) p s' \<and> (never_oom s \<longrightarrow> err_code s' = No_Error)))"
proof -
  let ?Q = "\<lambda>p s'. called s s' \<and> string_result s (resolved c x) p s' \<and> (never_oom s \<longrightarrow> err_code s' = No_Error)"
  show ?thesis
  proof (cases "is_absolute x")
    case True
    have "unwinds prom_call s ?Q t s1"
      by (rule unwinds_none [OF in1])
        (use True q1 t in \<open>simp add: called_with_stack string_result_def resolved_def made_string_def\<close>)
    with True show ?thesis
      using made_string_str(1) [OF t]
      by (simp add: resolve_rest_def runs_bind runs_load_str is_absolute_def runs_ret)
  next
    case False
    with rel have cwd: "os_getcwd P (env s) = Inr c" "c_string c" "length x + length c + 8 < 2 ^ 64"
      and oom: "never_oom s" by simp_all
    obtain n pad where n: "t = Ptr (Blk n) 0" "blocks s (Blk n) = None"
      "blocks s1 = (blocks s)(Blk n \<mapsto> cstr x @ replicate pad Undef)"
      using t(1) by (auto simp: made_string_def)
    have "runs (defer_call H_free t) s1 (\<lambda>_ s2. runs (abs_path_from_relative P t) s2 (unwinds prom_call s ?Q))"
    proof (rule runs_mono [OF inside_defer [OF in1]])
      fix u s2 assume s2: "inside s [] ([] @ [(H_free, t)]) s2 \<and> restacked s1 s2"
      then have in2: "inside s [] [(H_free, Ptr (Blk n) 0)] s2" and b2: "blocks s2 = blocks s1"
        and q2: "quiet s s2"
        using n(1) restackedD(3) [of s1 s2] quiet_trans [OF q1(1) quiet_restacked [OF quiet_mem_ok [OF q1(1)]]]
        by simp_all
      note D = insideD [OF in2]
      have t2: "str_of_ptr s2 t = Some x"
        using made_string_str(1) [OF t] b2 by (simp add: str_of_ptr_def)
      show "runs (abs_path_from_relative P t) s2 (unwinds prom_call s ?Q)"
      proof (rule runs_mono [OF runs_abs_path_from_relative [OF D(1) _ quiet_mem_ok [OF q2] t2]])
        show "curr s2 < 10" using D(2) room by simp
        show "os_getcwd P (env s2) = Inr c" "c_string c" "length x + length c + 8 < 2 ^ 64"
          using cwd quietD(4) [OF q2] by simp_all
        show "grants s2 (requests s2)"
          by (rule never_oom_now [OF quiet_never_oom [OF oom q2]])
      next
        fix p s3 assume s3: "called s2 s3 \<and> string_result s2 (joined c x) p s3 \<and>
          (never_oom s2 \<longrightarrow> err_code s3 = No_Error)"
        have ok: "err_code s3 = No_Error"
          using s3 quiet_never_oom [OF oom q2] by blast
        then obtain m pad' where m: "p = Ptr (Blk m) 0" "blocks s2 (Blk m) = None"
          "blocks s3 = (blocks s2)(Blk m \<mapsto> cstr (joined c x) @ replicate pad' Undef)"
          using s3 by (auto simp: string_result_def made_string_def)
        have "m \<noteq> n" using m(2) b2 n(3) by auto
        show "unwinds prom_call s ?Q p s3"
        proof (rule unwinds_free)
          show "inside s [] [(H_free, Ptr (Blk n) 0)] s3" using inside_called [OF in2] s3 by blast
          show "quiet s s3" using s3 quiet_trans [OF q2] by (auto simp: called_def)
          show "blocks s3 (Blk n) \<noteq> None" using m(3) b2 n(3) by simp
        next
          fix s4 assume s4: "called s s4" "err_code s4 = err_code s3" "blocks s4 = (blocks s3)(Blk n := None)"
          have "blocks s4 = (blocks s)(Blk m \<mapsto> cstr (joined c x) @ replicate pad' Undef)"
            using s4(3) m(3) b2 n(2,3) \<open>m \<noteq> n\<close> by (auto simp: fun_eq_iff)
          moreover have "blocks s (Blk m) = None" using m(2) b2 n(3) \<open>m \<noteq> n\<close> by simp
          ultimately have "made_string s (joined c x) p s4"
            unfolding m(1) by (rule made_stringI [rotated])
          then show "?Q p s4"
            using s4(1,2) ok False by (simp add: string_result_def resolved_def)
        qed
      qed
    qed simp
    with False show ?thesis
      using made_string_str(1) [OF t]
      by (simp add: resolve_rest_def runs_bind [of "load_str _"] runs_load_str is_absolute_def runs_seq)
  qed
qed

lemma runs_abs_path:
  assumes "stack_ok s" "curr s < 9" "mem_ok s" "os_wordexp P (env s) path = Some (x # ws)"
    "c_string x" "Suc (length x) < 2 ^ 64" "length (x # ws) < 2 ^ 64"
    and rel: "is_absolute x \<or> never_oom s \<and> os_getcwd P (env s) = Inr c \<and> c_string c \<and>
      length x + length c + 8 < 2 ^ 64"
  shows "runs (abs_path P path) s (\<lambda>p s'. called s s' \<and> string_result s (resolved c x) p s' \<and>
    (never_oom s \<longrightarrow> err_code s' = No_Error))"
proof -
  let ?Q = "\<lambda>p s'. called s s' \<and> string_result s (resolved c x) p s' \<and> (never_oom s \<longrightarrow> err_code s' = No_Error)"
  have room: "curr s < 11" using assms(2) by simp
  have in0: "inside s [] [] (entered s)"
    by (rule inside_entered [OF assms(1) room])
  have "runs (expand P path) (entered s) (\<lambda>t s1.
      runs (on_error_return null (resolve_rest P t)) s1 (unwinds prom_call s ?Q))"
  proof (rule runs_mono [OF runs_expand [OF insideD(1) [OF in0], of P path x ws]])
    fix t s1 assume s1: "called (entered s) s1 \<and> string_result (entered s) x t s1 \<and>
      (err_code s1 = No_Error \<longleftrightarrow> grants (entered s) (requests (entered s))) \<and> requests s1 = Suc (requests (entered s))"
    have in1: "inside s [] [] s1" and q1: "quiet s s1"
      using inside_called [OF in0] s1 by (auto simp: called_def)
    show "runs (on_error_return null (resolve_rest P t)) s1 (unwinds prom_call s ?Q)"
    proof (cases "err_code s1 = No_Error")
      case True
      with s1 have "made_string s x t s1"
        by (simp add: string_result_def made_string_def)
      with True show ?thesis
        by (simp add: runs_on_error runs_resolve_rest [OF in1 assms(2) q1 _ _ assms(5) rel])
    next
      case False
      have "unwinds prom_call s ?Q null s1"
        by (rule unwinds_none [OF in1])
          (use False q1 s1 in \<open>auto simp: called_with_stack string_result_def never_oom_def\<close>)
      with False show ?thesis by (simp add: runs_on_error)
    qed
  qed (use assms in simp_all)
  then show ?thesis
    unfolding abs_path_def
    by (intro prom.edf_rule [OF assms(1) room])
      (simp add: runs_bind [of "expand P path"] resolve_rest_def)
qed

section \<open>Rules of the directory listing\<close>

lemma runs_expand_granted:
  assumes "stack_ok s" "curr s < 10" "mem_ok s" "grants s (requests s)" "os_wordexp P (env s) path = Some (x # ws)"
    "c_string x" "Suc (length x) < 2 ^ 64" "length (x # ws) < 2 ^ 64"
  shows "runs (expand P path) s (\<lambda>p s'. called s s' \<and> err_code s' = No_Error \<and> made_string s x p s' \<and>
    requests s' = Suc (requests s))"
  by (rule runs_mono [OF runs_expand [OF assms(1-3) assms(5-8)]]) (use assms(4) in \<open>auto simp: string_result_def\<close>)

text \<open>The error code \<open>errm_error_from_errno\<close> leaves in a cleared state.\<close>

definition errno_error :: "int \<Rightarrow> error_code" where
  "errno_error e =
     (if e = EACCES then NO_PERMISSIONS else if e = ENFILE then LIMIT_EXCEEDED
      else if e = ENOENT then DOES_NOT_EXIST else if e = ENOTDIR then NOT_THE_EXPECTED
      else if e = ENOMEM then NOT_ENOUGH_MEMORY else No_Error)"

lemma runs_from_errno:
  "err_code s = No_Error \<Longrightarrow> runs errm_error_from_errno s Q \<longleftrightarrow> Q () (s\<lparr>err_code := errno_error (errno_of s)\<rparr>)"
proof -
  assume "err_code s = No_Error"
  then have "s\<lparr>err_code := No_Error\<rparr> = s" by (metis errm_state.surjective errm_state.update_convs(1))
  then show ?thesis
    by (auto simp: errm_error_from_errno_def errm_error_def errno_error_def runs_simps)
qed

text \<open>What \<open>opendir\<close> and \<open>open_dir\<close> do on each answer of the operating system.\<close>

definition opened :: "'e world \<Rightarrow> int + string list \<Rightarrow> ptr \<Rightarrow> 'e world \<Rightarrow> bool" where
  "opened s r dp s' \<longleftrightarrow> proc_step s s' \<and> blocks s' = blocks s \<and> (case r of
       Inl e \<Rightarrow> dp = null \<and> dirs s' = dirs s \<and> next_ext s' = next_ext s
     | Inr names \<Rightarrow> dp = Ptr (Ext (next_ext s)) 0 \<and> dirs s' = (dirs s)(next_ext s \<mapsto> names) \<and>
         next_ext s' = Suc (next_ext s))"

lemma runs_opendir:
  assumes "mem_ok s"
  shows "runs (opendir P x) s (\<lambda>dp s'. opened s (os_opendir P (env s) x) dp s' \<and> frames s' = frames s \<and>
    curr s' = curr s \<and> err_code s' = err_code s \<and> requests s' = requests s \<and>
    (\<forall>e. os_opendir P (env s) x = Inl e \<longrightarrow> errno_of s' = e))"
proof (cases "os_opendir P (env s) x")
  case (Inl e)
  with assms show ?thesis
    by (simp add: opendir_def runs_simps set_errno_def opened_def proc_step_def mem_ok_def)
next
  case (Inr names)
  with assms show ?thesis
    by (simp add: opendir_def runs_bind runs_gets, simp add: runs_def opened_def proc_step_def mem_ok_def)
qed

lemma unwinds_opened:
  assumes "inside s [] [(H_free, Ptr (Blk n) 0)] s4" "proc_step s s4" "blocks s (Blk n) = None"
    "blocks s4 = (blocks s)(Blk n \<mapsto> bs)"
    "opened (s4\<lparr>blocks := blocks s, dirs := dirs s, next_ext := next_ext s\<rparr>) r dp (s4\<lparr>blocks := blocks s\<rparr>)"
  shows "unwinds prom_call s (\<lambda>dp s'. balanced s s' \<and> opened s r dp s' \<and> err_code s' = err_code s4 \<and>
    requests s' = requests s4) dp s4"
proof (rule unwinds_dyn [OF assms(1)])
  have bl: "(blocks s4)(Blk n := None) = blocks s"
    using assms(3,4) by (simp add: fun_upd_idem)
  have "proc_step s (s4\<lparr>blocks := blocks s\<rparr>)"
    using assms(2) heap_ext_free [OF proc_step_mem_ok [OF assms(2)], of "Blk n"]
    by (auto simp: bl proc_step_def heap_ext_def)
  then have "opened s r dp (with_stack F (curr s) (s4\<lparr>blocks := blocks s\<rparr>))" for F
    using assms(5) by (simp add: opened_def split: sum.splits)
  then show "runs (prom_call H_free (Passed (Ptr (Blk n) 0))) s4 (\<lambda>_ s2. \<forall>F. defers_ok s F \<longrightarrow>
      balanced s (with_stack F (curr s) s2) \<and> opened s r dp (with_stack F (curr s) s2) \<and>
      err_code (with_stack F (curr s) s2) = err_code s4 \<and> requests (with_stack F (curr s) s2) = requests s4)"
    using assms(4) bl by (simp add: runs_free balanced_with_stack)
qed

text \<open>The body of \<open>open_dir\<close> from the call of \<open>opendir\<close> on.\<close>

lemma runs_open_rest:
  assumes "inside s [] [(H_free, Ptr (Blk n) 0)] s2" "quiet s s2" "blocks s (Blk n) = None"
    "blocks s2 = (blocks s)(Blk n \<mapsto> bs)" "err_code s2 = No_Error"
  shows "runs (bind (opendir P x) (\<lambda>dp. seq (if dp = null then errm_error_from_errno else ret ()) (ret dp))) s2
    (unwinds prom_call s (\<lambda>dp s'. balanced s s' \<and> opened s (os_opendir P (env s) x) dp s' \<and>
      err_code s' = (case os_opendir P (env s) x of Inl e \<Rightarrow> errno_error e | Inr _ \<Rightarrow> No_Error) \<and>
      requests s' = requests s2))"
  unfolding runs_bind
proof (rule runs_mono [OF runs_opendir [OF quiet_mem_ok [OF assms(2)]]])
  let ?r = "os_opendir P (env s) x"
  note q = quietD [OF assms(2)]
  fix dp s3 assume s3: "opened s2 (os_opendir P (env s2) x) dp s3 \<and> frames s3 = frames s2 \<and>
    curr s3 = curr s2 \<and> err_code s3 = err_code s2 \<and> requests s3 = requests s2 \<and> (\<forall>e. os_opendir P (env s2) x = Inl e \<longrightarrow> errno_of s3 = e)"
  let ?s4 = "if dp = null then s3\<lparr>err_code := errno_error (errno_of s3)\<rparr> else s3"
  have in4: "inside s [] [(H_free, Ptr (Blk n) 0)] ?s4"
    using s3 by (intro inside_same_stack [OF assms(1)]) auto
  have step: "proc_step s s3"
    using s3 q(1) by (auto simp: opened_def intro: proc_step_trans)
  then have "mem_ok (s3\<lparr>blocks := blocks s\<rparr>)"
    using s3 assms(3,4) heap_ext_free [OF proc_step_mem_ok [OF step], of "Blk n"]
    by (simp add: opened_def heap_ext_def fun_upd_idem)
  then have op: "opened (?s4\<lparr>blocks := blocks s, dirs := dirs s, next_ext := next_ext s\<rparr>) ?r dp
      (?s4\<lparr>blocks := blocks s\<rparr>)"
    using s3 q by (auto simp: opened_def proc_step_def mem_ok_def split: sum.splits)
  have code: "err_code ?s4 = (case ?r of Inl e \<Rightarrow> errno_error e | Inr _ \<Rightarrow> No_Error)"
    using s3 q(4) assms(5) by (auto simp: opened_def split: sum.splits)
  have "unwinds prom_call s (\<lambda>dp s'. balanced s s' \<and> opened s ?r dp s' \<and> err_code s' = err_code ?s4 \<and>
      requests s' = requests ?s4) dp ?s4"
    by (rule unwinds_opened [OF in4 _ assms(3) _ op]) (use step s3 assms(4) in \<open>auto simp: opened_def\<close>)
  then show "runs (seq (if dp = null then errm_error_from_errno else ret ()) (ret dp)) s3
      (unwinds prom_call s (\<lambda>dp s'. balanced s s' \<and> opened s ?r dp s' \<and>
        err_code s' = (case ?r of Inl e \<Rightarrow> errno_error e | Inr _ \<Rightarrow> No_Error) \<and> requests s' = requests s2))"
    unfolding code using s3 assms(5) by (auto simp: runs_seq runs_ret runs_from_errno)
qed

lemma runs_open_dir:
  assumes "stack_ok s" "curr s < 9" "mem_ok s" "grants s (requests s)" "os_wordexp P (env s) path = Some (x # ws)"
    "c_string x" "Suc (length x) < 2 ^ 64" "length (x # ws) < 2 ^ 64"
  shows "runs (open_dir P path) s (\<lambda>dp s'. balanced s s' \<and> opened s (os_opendir P (env s) x) dp s' \<and>
    err_code s' = (case os_opendir P (env s) x of Inl e \<Rightarrow> errno_error e | Inr _ \<Rightarrow> No_Error) \<and>
    requests s' = Suc (requests s))"
proof -
  let ?Q = "\<lambda>dp s'. balanced s s' \<and> opened s (os_opendir P (env s) x) dp s' \<and>
    err_code s' = (case os_opendir P (env s) x of Inl e \<Rightarrow> errno_error e | Inr _ \<Rightarrow> No_Error) \<and>
    requests s' = Suc (requests s)"
  let ?rest = "bind (opendir P x) (\<lambda>dp. seq (if dp = null then errm_error_from_errno else ret ()) (ret dp))"
  have room: "curr s < 11" using assms(2) by simp
  have in0: "inside s [] [] (entered s)"
    by (rule inside_entered [OF assms(1) room])
  have "runs (expand P path) (entered s) (\<lambda>t s1. err_code s1 = No_Error \<and>
      runs (defer_call H_free t) s1 (\<lambda>_ s2. str_of_ptr s2 t = Some x \<and>
        runs ?rest s2 (unwinds prom_call s ?Q)))"
  proof (rule runs_mono [OF runs_expand_granted [OF insideD(1) [OF in0] _ _ _ _ assms(6,7,8)]])
    show "curr (entered s) < 10" "mem_ok (entered s)" "grants (entered s) (requests (entered s))" "os_wordexp P (env (entered s)) path = Some (x # ws)"
      using assms by simp_all
  next
    fix t s1 assume s1: "called (entered s) s1 \<and> err_code s1 = No_Error \<and> made_string (entered s) x t s1 \<and>
      requests s1 = Suc (requests (entered s))"
    have in1: "inside s [] [] s1" and q1: "quiet s s1"
      using inside_called [OF in0] s1 by (auto simp: called_def)
    obtain n pad where n: "t = Ptr (Blk n) 0" "blocks s (Blk n) = None"
      "blocks s1 = (blocks s)(Blk n \<mapsto> cstr x @ replicate pad Undef)"
      using s1 by (auto simp: made_string_def)
    have "runs (defer_call H_free t) s1 (\<lambda>_ s2. str_of_ptr s2 t = Some x \<and>
        runs ?rest s2 (unwinds prom_call s ?Q))"
    proof (rule runs_mono [OF inside_defer [OF in1]])
      fix u s2 assume s2: "inside s [] ([] @ [(H_free, t)]) s2 \<and> restacked s1 s2"
      then have in2: "inside s [] [(H_free, Ptr (Blk n) 0)] s2" and q2: "quiet s s2"
        and b2: "blocks s2 = (blocks s)(Blk n \<mapsto> cstr x @ replicate pad Undef)" and e2: "err_code s2 = No_Error"
        and r2: "requests s2 = Suc (requests s)"
        using restackedD(2,3,6) [of s1 s2] quiet_trans [OF q1 quiet_restacked [OF quiet_mem_ok [OF q1]]] s1 n
        by simp_all
      show "str_of_ptr s2 t = Some x \<and> runs ?rest s2 (unwinds prom_call s ?Q)"
        using runs_open_rest [OF in2 q2 n(2) b2 e2, of P x] n(1) b2 r2 assms(6)
        by (simp add: str_of_ptr_def str_at_cstr)
    qed simp
    with s1 show "err_code s1 = No_Error \<and> runs (defer_call H_free t) s1 (\<lambda>_ s2. str_of_ptr s2 t = Some x \<and>
        runs ?rest s2 (unwinds prom_call s ?Q))" by simp
  qed
  then show ?thesis
    unfolding open_dir_def
    by (intro prom.edf_rule [OF assms(1) room])
      (auto simp: runs_bind [of "expand _ _"] runs_bind [of "load_str _"] runs_seq [of "defer_call _ _"]
        runs_on_error runs_load_str elim!: runs_mono)
qed

text \<open>\<open>names_at s p ns ps\<close>: \<open>p\<close> is an array of the pointers \<open>ps\<close>, and \<open>ps\<close> are arrays of their own that
  hold the strings \<open>ns\<close>. \<open>name_room\<close> bounds what a directory can hold (\<open>d_name\<close> has 256 bytes).\<close>

definition name_at :: "'z proc_scheme \<Rightarrow> string \<Rightarrow> ptr \<Rightarrow> bool" where
  "name_at s x q \<longleftrightarrow> (\<exists>n t rest. dga_ok s q n t (cstr x @ rest))"

definition names_at :: "'z proc_scheme \<Rightarrow> ptr \<Rightarrow> string list \<Rightarrow> ptr list \<Rightarrow> bool" where
  "names_at s p ns ps \<longleftrightarrow> dga_ok s p (of_nat (length ns)) 8 (ptr_bytes ps) \<and>
     list_all2 (name_at s) ns ps \<and> distinct (map pbase (p # ps))"

definition name_room :: "string list \<Rightarrow> bool" where
  "name_room ns \<longleftrightarrow> length ns < 2 ^ 56 \<and> (\<forall>x\<in>set ns. c_string x \<and> length x < 256)"

definition name_bases :: "ptr \<Rightarrow> ptr list \<Rightarrow> base set" where
  "name_bases p ps = pbase ` set (p # ps)"

text \<open>\<open>s\<close> has the objects of \<open>s0\<close> and, beside them, at most \<open>B\<close>.\<close>

definition extends :: "'z proc_scheme \<Rightarrow> base set \<Rightarrow> 'z proc_scheme \<Rightarrow> bool" where
  "extends s0 B s \<longleftrightarrow> (\<forall>b\<in>B. blocks s0 b = None) \<and> untouched B s0 s"

lemma extends_restores: "extends s0 B s \<Longrightarrow> clear_all B (blocks s) = blocks s0"
  by (auto simp: extends_def intro: clear_restores)

lemma names_atD:
  assumes "names_at s p ns ps"
  shows "dga_ok s p (of_nat (length ns)) 8 (ptr_bytes ps)" "list_all2 (name_at s) ns ps"
    "distinct (map pbase (p # ps))" "length ps = length ns"
  using assms by (auto simp: names_at_def dest: list_all2_lengthD)

lemma name_at_live: "name_at s x q \<Longrightarrow> blocks s (pbase q) \<noteq> None"
  unfolding name_at_def using dga.rep_live by blast

lemma name_at_cong:
  "name_at s x q \<Longrightarrow> blocks s' (pbase q) = blocks s (pbase q) \<Longrightarrow> name_at s' x q" for s s' :: "'z proc_scheme"
  unfolding name_at_def using dga.rep_local by blast

lemma names_live: "list_all2 (name_at s) ns ps \<Longrightarrow> \<forall>q\<in>set ps. blocks s (pbase q) \<noteq> None"
  by (induction ns ps rule: list_all2_induct) (auto dest: name_at_live)

lemma names_cong:
  "list_all2 (name_at s) ns ps \<Longrightarrow> \<forall>q\<in>set ps. blocks s' (pbase q) = blocks s (pbase q) \<Longrightarrow>
   list_all2 (name_at s') ns ps" for s s' :: "'z proc_scheme"
  by (induction ns ps rule: list_all2_induct) (auto intro: name_at_cong)

lemma names_at_live: "names_at s p ns ps \<Longrightarrow> b \<in> name_bases p ps \<Longrightarrow> blocks s b \<noteq> None"
  using names_live [of s ns ps] dga.rep_live [of s p] by (auto simp: names_at_def name_bases_def)

lemma names_at_cong:
  fixes s s' :: "'z proc_scheme"
  assumes "names_at s p ns ps" "\<forall>b\<in>name_bases p ps. blocks s' b = blocks s b"
  shows "names_at s' p ns ps"
proof -
  have "dga_ok s' p (of_nat (length ns)) 8 (ptr_bytes ps)"
    by (rule dga.rep_local [OF names_atD(1) [OF assms(1)]]) (use assms(2) in \<open>simp add: name_bases_def\<close>)
  moreover have "list_all2 (name_at s') ns ps"
    by (rule names_cong [OF names_atD(2) [OF assms(1)]]) (use assms(2) in \<open>simp add: name_bases_def\<close>)
  ultimately show ?thesis using assms(1) by (simp add: names_at_def)
qed

lemma fits_names: "length ns < 2 ^ 56 \<Longrightarrow> fits (of_nat (length ns) + 1) 8 \<and>
   unat (of_nat (length ns) + 1 :: u64) = Suc (length ns) \<and> fits (of_nat (length ns)) 8 \<and>
   unat (of_nat (length ns) :: u64) = length ns"
proof -
  assume len: "length ns < 2 ^ 56"
  have "of_nat (length ns) + 1 = (of_nat (Suc (length ns)) :: u64)" by simp
  moreover have "Suc (length ns) < 2 ^ 64" using len by simp
  ultimately have "unat (of_nat (length ns) + 1 :: u64) = Suc (length ns)"
    by (simp only: unat_of_nat_small)
  then show ?thesis using len unat_of_nat_small [of "length ns"] by (simp add: fits_def)
qed

lemma unat_name_len:
  "length x < 256 \<Longrightarrow> unat (strlen x + sizeof_char_const) = length x + 4 \<and> fits (strlen x + sizeof_char_const) 1"
proof -
  assume len: "length x < 256"
  have "strlen x + sizeof_char_const = of_nat (length x + 4)"
    by (simp add: strlen_def sizeof_char_const_def)
  moreover have "length x + 4 < 2 ^ 64" using len by simp
  ultimately have "unat (strlen x + sizeof_char_const) = length x + 4"
    by (simp only: unat_of_nat_small)
  then show ?thesis using len by (simp add: fits_def)
qed

text \<open>Making the array for one name.\<close>

lemma ptr_add_zero [simp]: "ptr_add p 0 = p"
  by (cases p) simp

lemma runs_new_text:
  assumes "healthy s" "fits n t" "length x < unat n * unat t"
  shows "runs (dga_new n t) s (\<lambda>q s1. q \<noteq> null \<and> runs (strcpy q x) s1 (\<lambda>_ s'.
    heap_ext s s' \<and> name_at s' x q \<and> blocks s (pbase q) = None \<and> untouched {pbase q} s s'))"
proof (rule runs_mono [OF dga.make_spec [OF assms(1,2)]])
  let ?k = "unat n * unat t"
  fix q s1 assume s1: "q \<noteq> null \<and> heap_ext s s1 \<and> dga_ok s1 q n t (replicate ?k Undef) \<and>
    blocks s (pbase q) = None \<and> untouched {pbase q} s s1"
  have pay: "splice 0 (cstr x) (replicate ?k Undef) = cstr x @ replicate (?k - Suc (length x)) Undef"
    by (simp add: splice_def)
  have "runs (store_bytes (ptr_add q (int 0)) (cstr x)) s1 (\<lambda>_ s'. heap_ext s1 s' \<and>
      dga_ok s' q n t (splice 0 (cstr x) (replicate ?k Undef)) \<and> untouched {pbase q} s1 s')"
    by (rule dga.store_spec) (use s1 assms(3) heap_ext_healthy [OF assms(1)] in simp_all)
  then have "runs (strcpy q x) s1 (\<lambda>_ s'. heap_ext s s' \<and> name_at s' x q \<and> blocks s (pbase q) = None \<and>
      untouched {pbase q} s s')"
    unfolding strcpy_def pay using s1
    by (auto simp: name_at_def elim!: runs_mono intro: heap_ext_trans untouched_trans)
  with s1 show "q \<noteq> null \<and> runs (strcpy q x) s1 (\<lambda>_ s'. heap_ext s s' \<and> name_at s' x q \<and>
      blocks s (pbase q) = None \<and> untouched {pbase q} s s')" by simp
qed

lemma runs_new_name:
  assumes "healthy s" "length x < 256"
  shows "runs (dga_new (strlen x + sizeof_char_const) 1) s (\<lambda>q s1. q \<noteq> null \<and> runs (strcpy q x) s1 (\<lambda>_ s'.
    heap_ext s s' \<and> name_at s' x q \<and> blocks s (pbase q) = None \<and> untouched {pbase q} s s'))"
  by (rule runs_new_text [OF assms(1)]) (use unat_name_len [OF assms(2)] in simp_all)

text \<open>The listing after a turn of the loop: the old array is gone, \<open>p1\<close> holds one pointer more and \<open>q\<close>
  is an object of its own.\<close>

lemma extends_append:
  assumes "names_at s p ns ps" "extends s0 (name_bases p ps) s"
    and grow: "blocks s (pbase p1) = None" "blocks s1 (pbase p) = None" "untouched {pbase p, pbase p1} s s1"
      "blocks s1 (pbase p1) \<noteq> None"
    and new: "blocks s1 (pbase q) = None" "untouched {pbase p1, pbase q} s1 s4"
  shows "extends s0 (name_bases p1 (ps @ [q])) s4" "pbase q \<notin> name_bases p1 ps"
    "pbase p1 \<notin> pbase ` set ps" "\<forall>r\<in>set ps. blocks s4 (pbase r) = blocks s (pbase r)"
proof -
  have live: "blocks s (pbase r) \<noteq> None" if "r \<in> set ps" for r
    using names_at_live [OF assms(1), of "pbase r"] that by (simp add: name_bases_def)
  have neq: "pbase r \<noteq> pbase p" "pbase r \<noteq> pbase p1" if "r \<in> set ps" for r
  proof -
    show "pbase r \<noteq> pbase p"
      using names_atD(3) [OF assms(1)] that by (metis distinct.simps(2) image_eqI image_set list.map(2))
    show "pbase r \<noteq> pbase p1" using live [OF that] grow(1) by auto
  qed
  then show p1: "pbase p1 \<notin> pbase ` set ps" by fastforce
  have same: "blocks s1 (pbase r) = blocks s (pbase r)" if "r \<in> set ps" for r
    using grow(3) neq [OF that] by (simp add: untouched_def)
  show q: "pbase q \<notin> name_bases p1 ps"
  proof
    assume "pbase q \<in> name_bases p1 ps"
    then have "blocks s1 (pbase q) \<noteq> None"
      using grow(4) live same by (auto simp: name_bases_def)
    with new(1) show False by simp
  qed
  show "\<forall>r\<in>set ps. blocks s4 (pbase r) = blocks s (pbase r)"
  proof
    fix r assume r: "r \<in> set ps"
    then have "pbase r \<in> name_bases p1 ps" by (simp add: name_bases_def)
    then have "pbase r \<noteq> pbase q" using q by metis
    with neq [OF r] same [OF r] new(2) show "blocks s4 (pbase r) = blocks s (pbase r)"
      by (simp add: untouched_def)
  qed
  have old: "blocks s0 b = None" if "blocks s1 b = None" "b \<notin> name_bases p ps - {pbase p}" "b \<noteq> pbase p1" for b
    using assms(2) that grow(3) by (cases "b = pbase p") (auto simp: extends_def untouched_def name_bases_def)
  have "blocks s0 (pbase p1) = None"
    using assms(2) grow(1) by (cases "pbase p1 \<in> name_bases p ps") (simp_all add: extends_def untouched_def)
  moreover have "blocks s0 (pbase q) = None"
    by (rule old [OF new(1)]) (use q in \<open>auto simp: name_bases_def\<close>)
  moreover have "blocks s0 (pbase r) = None" if "r \<in> set ps" for r
    using assms(2) that by (simp add: extends_def name_bases_def)
  moreover have "blocks s4 b = blocks s0 b" if "b \<notin> name_bases p1 (ps @ [q])" for b
  proof (cases "b = pbase p")
    case True
    then show ?thesis
      using that new(2) grow(2) assms(2) by (simp add: untouched_def extends_def name_bases_def)
  next
    case False
    then show ?thesis
      using that new(2) grow(3) assms(2) by (simp add: untouched_def extends_def name_bases_def)
  qed
  ultimately show "extends s0 (name_bases p1 (ps @ [q])) s4"
    by (auto simp: extends_def untouched_def name_bases_def)
qed

lemma runs_append_name:
  assumes "healthy s" "names_at s p ns ps" "extends s0 (name_bases p ps) s" "name_room (ns @ [x])"
  shows "runs (dga_grow p 1) s (\<lambda>p1 s1. p1 \<noteq> null \<and>
    runs (dga_new (strlen x + sizeof_char_const) 1) s1 (\<lambda>q s2. q \<noteq> null \<and> runs (strcpy q x) s2 (\<lambda>_ s3.
    runs (store_ptr (ptr_add p1 (int (8 * unat (of_nat (length ns) :: u64)))) q) s3 (\<lambda>_ s4.
      heap_ext s s4 \<and> (\<exists>ps'. names_at s4 p1 (ns @ [x]) ps' \<and> extends s0 (name_bases p1 ps') s4)))))"
proof (rule runs_mono [OF dga.grow_one [OF assms(1) names_atD(1) [OF assms(2)]]])
  let ?n = "of_nat (length ns) :: u64"
  have len: "length ns < 2 ^ 56" and x: "c_string x" "length x < 256"
    using assms(4) by (simp_all add: name_room_def)
  note n = fits_names [OF len]
  show "fits (?n + 1) 8" "unat (?n + 1) = Suc (unat ?n)" using n by simp_all
  fix p1 s1 assume s1: "p1 \<noteq> null \<and> heap_ext s s1 \<and>
    dga_ok s1 p1 (?n + 1) 8 (ptr_bytes ps @ replicate (unat (8 :: u64)) Undef) \<and>
    blocks s (pbase p1) = None \<and> blocks s1 (pbase p) = None \<and> untouched {pbase p, pbase p1} s s1"
  have h1: "healthy s1" using heap_ext_healthy [OF assms(1)] s1 by blast
  have live1: "blocks s1 (pbase p1) \<noteq> None" using s1 dga.rep_live by blast
  have "runs (dga_new (strlen x + sizeof_char_const) 1) s1 (\<lambda>q s2. q \<noteq> null \<and> runs (strcpy q x) s2 (\<lambda>_ s3.
    runs (store_ptr (ptr_add p1 (int (8 * unat ?n))) q) s3 (\<lambda>_ s4.
      heap_ext s s4 \<and> (\<exists>ps'. names_at s4 p1 (ns @ [x]) ps' \<and> extends s0 (name_bases p1 ps') s4))))"
  proof (rule runs_mono [OF runs_new_name [OF h1 x(2)]], rule conjI, simp, elim conjE, erule runs_mono)
    fix q s2 u s3
    assume s3: "heap_ext s1 s3 \<and> name_at s3 x q \<and> blocks s1 (pbase q) = None \<and> untouched {pbase q} s1 s3"
    have qp: "pbase q \<noteq> pbase p1" using s3 live1 by auto
    have p13: "dga_ok s3 p1 (?n + 1) 8 (ptr_bytes ps @ replicate 8 Undef)"
      using s1 s3 qp by (auto intro: dga.rep_untouched [of s1])
    have idx: "length (ptr_bytes ps) = 8 * unat ?n"
      using n names_atD(4) [OF assms(2)] by simp
    have "runs (store_bytes (ptr_add p1 (int (length (ptr_bytes ps)))) (enc (VPtr q))) s3 (\<lambda>_ s4. heap_ext s3 s4 \<and>
        dga_ok s4 p1 (?n + 1) 8 (ptr_bytes ps @ enc (VPtr q)) \<and> untouched {pbase p1} s3 s4)"
      by (rule dga.set_last [OF _ p13]) (use s3 heap_ext_healthy [OF h1] in auto)
    then show "runs (store_ptr (ptr_add p1 (int (8 * unat ?n))) q) s3 (\<lambda>_ s4. heap_ext s s4 \<and>
        (\<exists>ps'. names_at s4 p1 (ns @ [x]) ps' \<and> extends s0 (name_bases p1 ps') s4))"
      unfolding store_ptr_def idx
    proof (rule runs_mono)
      fix v s4 assume s4: "heap_ext s3 s4 \<and> dga_ok s4 p1 (?n + 1) 8 (ptr_bytes ps @ enc (VPtr q)) \<and>
        untouched {pbase p1} s3 s4"
      have new: "untouched {pbase p1, pbase q} s1 s4"
        using s3 s4 by (simp add: untouched_def)
      have g: "blocks s (pbase p1) = None" "blocks s1 (pbase p) = None" "untouched {pbase p, pbase p1} s s1"
        "blocks s1 (pbase q) = None" using s1 s3 by simp_all
      note ext = extends_append [OF assms(2,3) g(1-3) live1 g(4) new]
      have "list_all2 (name_at s4) ns ps"
        by (rule names_cong [OF names_atD(2) [OF assms(2)]]) (rule ext(4))
      moreover have "name_at s4 x q"
        using s3 s4 qp by (auto intro: name_at_cong simp: untouched_def)
      moreover have "distinct (map pbase (p1 # ps @ [q]))"
        using names_atD(3) [OF assms(2)] ext(2,3) by (auto simp: name_bases_def)
      ultimately have "names_at s4 p1 (ns @ [x]) (ps @ [q])"
        using s4 by (simp add: names_at_def list_all2_appendI add.commute [of 1])
      moreover have "extends s0 (name_bases p1 (ps @ [q])) s4"
        by (rule ext(1))
      moreover have "heap_ext s s4"
        using s1 s3 s4 by (blast intro: heap_ext_trans)
      ultimately show "heap_ext s s4 \<and> (\<exists>ps'. names_at s4 p1 (ns @ [x]) ps' \<and> extends s0 (name_bases p1 ps') s4)"
        by blast
    qed
  qed
  with s1 show "p1 \<noteq> null \<and> runs (dga_new (strlen x + sizeof_char_const) 1) s1 (\<lambda>q s2. q \<noteq> null \<and>
    runs (strcpy q x) s2 (\<lambda>_ s3. runs (store_ptr (ptr_add p1 (int (8 * unat ?n))) q) s3 (\<lambda>_ s4.
      heap_ext s s4 \<and> (\<exists>ps'. names_at s4 p1 (ns @ [x]) ps' \<and> extends s0 (name_bases p1 ps') s4))))" by blast
qed

text \<open>The entries a listing keeps.\<close>

definition visible :: "string list \<Rightarrow> string list" where
  "visible names = filter (\<lambda>x. take 1 x \<noteq> ''.'') names"

lemma visible_simps [simp]:
  "visible [] = []" "visible (x # xs) = (if take 1 x = ''.'' then visible xs else x # visible xs)"
  by (simp_all add: visible_def)

text \<open>The loop reads the stream \<open>n\<close> and works on the heap.\<close>

definition loop_step :: "nat \<Rightarrow> 'e world \<Rightarrow> 'e world \<Rightarrow> bool" where
  "loop_step n s s' \<longleftrightarrow> proc_step s s' \<and> frames s' = frames s \<and> curr s' = curr s \<and>
     err_code s' = err_code s \<and> next_ext s' = next_ext s \<and> (\<forall>m. m \<noteq> n \<longrightarrow> dirs s' m = dirs s m)"

lemma loop_step_trans: "loop_step n s s1 \<Longrightarrow> loop_step n s1 s2 \<Longrightarrow> loop_step n s s2"
  unfolding loop_step_def by (metis proc_step_trans)

lemma loop_step_read: "mem_ok s \<Longrightarrow> loop_step n s (s\<lparr>dirs := (dirs s)(n \<mapsto> xs)\<rparr>)"
  by (simp add: loop_step_def proc_step_def mem_ok_def)

lemma loop_step_heap: "heap_ext s s' \<Longrightarrow> loop_step n s s'"
  using heap_only_errm [of s s'] heap_only_world [of s s']
  by (simp add: loop_step_def proc_step_heap heap_ext_def)

lemma loop_step_healthy: "healthy s \<Longrightarrow> loop_step n s s' \<Longrightarrow> healthy s'"
  by (auto simp: loop_step_def intro: proc_step_healthy)

definition listed ::
  "'e world \<Rightarrow> nat \<Rightarrow> 'e world \<Rightarrow> string list \<Rightarrow> ptr \<times> u64 option \<Rightarrow> 'e world \<Rightarrow> bool" where
  "listed s0 n s ns r s' \<longleftrightarrow> (\<exists>q ps. r = (q, Some (of_nat (length ns))) \<and> names_at s' q ns ps \<and>
     extends s0 (name_bases q ps) s') \<and> loop_step n s s' \<and> dirs s' n = Some []"

lemma listed_trans: "listed s0 n s1 ns r s' \<Longrightarrow> loop_step n s s1 \<Longrightarrow> listed s0 n s ns r s'"
  by (auto simp: listed_def intro: loop_step_trans)

lemma runs_readdir:
  "dirs s n = Some xs \<Longrightarrow> runs (readdir (Ptr (Ext n) 0)) s Q \<longleftrightarrow>
   (case xs of [] \<Rightarrow> Q None s | y # ys \<Rightarrow> Q (Some y) (s\<lparr>dirs := (dirs s)(n \<mapsto> ys)\<rparr>))"
  by (simp add: readdir_def dir_stream_def runs_simps split: list.split)

lemma runs_dir_loop:
  "healthy s \<Longrightarrow> names_at s p ns ps \<Longrightarrow> extends s0 (name_bases p ps) s \<Longrightarrow>
   name_room (ns @ visible xs) \<Longrightarrow> dirs s n = Some xs \<Longrightarrow> length xs < k \<Longrightarrow>
   runs (dir_loop k (Ptr (Ext n) 0) p (of_nat (length ns))) s (listed s0 n s (ns @ visible xs))"
proof (induction xs arbitrary: k s p ns ps)
  case Nil
  then obtain k' where "k = Suc k'" by (cases k) auto
  with Nil loop_step_heap [OF heap_ext_refl [OF healthy_mem_ok [OF Nil.prems(1)]]] show ?case
    by (auto simp: runs_bind runs_readdir [OF Nil.prems(5)] runs_ret listed_def)
next
  case (Cons x xs)
  then obtain k' where k: "k = Suc k'" "length xs < k'" by (cases k) auto
  let ?s1 = "s\<lparr>dirs := (dirs s)(n \<mapsto> xs)\<rparr>"
  have step1: "loop_step n s ?s1"
    by (rule loop_step_read [OF healthy_mem_ok [OF Cons.prems(1)]])
  have h1: "healthy ?s1" by (rule loop_step_healthy [OF Cons.prems(1) step1])
  have at1: "names_at ?s1 p ns ps" by (rule names_at_cong [OF Cons.prems(2)]) simp
  have ext1: "extends s0 (name_bases p ps) ?s1"
    using Cons.prems(3) by (simp add: extends_def untouched_def)
  show ?case
  proof (cases "take 1 x = ''.''")
    case True
    have "runs (dir_loop k' (Ptr (Ext n) 0) p (of_nat (length ns))) ?s1 (listed s0 n ?s1 (ns @ visible xs))"
      by (rule Cons.IH [OF h1 at1 ext1]) (use Cons.prems(4) True k in simp_all)
    with True show ?thesis
      by (auto simp: k runs_bind runs_readdir [OF Cons.prems(5)] elim!: runs_mono intro: listed_trans [OF _ step1])
  next
    case False
    have room: "name_room (ns @ [x])" using Cons.prems(4) False by (simp add: name_room_def)
    have turn: "runs (dir_loop k' (Ptr (Ext n) 0) p1 (of_nat (length ns) + 1)) s4 (listed s0 n s (ns @ visible (x # xs)))"
      if s4: "heap_ext ?s1 s4" "names_at s4 p1 (ns @ [x]) ps'" "extends s0 (name_bases p1 ps') s4" for p1 s4 ps'
    proof -
      have "runs (dir_loop k' (Ptr (Ext n) 0) p1 (of_nat (length (ns @ [x])))) s4
          (listed s0 n s4 ((ns @ [x]) @ visible xs))"
        by (rule Cons.IH [OF heap_ext_healthy [OF h1 s4(1)] s4(2,3)])
          (use Cons.prems(4) False k s4(1) heap_only_world(2) [of ?s1 s4] in \<open>simp_all add: heap_ext_def\<close>)
      then show ?thesis
        using False by (auto simp: add.commute [of 1] elim!: runs_mono
            intro: listed_trans [OF _ loop_step_trans [OF step1 loop_step_heap [OF s4(1)]]])
    qed
    have "runs (dga_grow p 1) ?s1 (\<lambda>p1 s1. p1 \<noteq> null \<and>
      runs (dga_new (strlen x + sizeof_char_const) 1) s1 (\<lambda>q s2. q \<noteq> null \<and> runs (strcpy q x) s2 (\<lambda>_ s3.
      runs (store_ptr (ptr_add p1 (int (8 * unat (of_nat (length ns) :: u64)))) q) s3 (\<lambda>_ s4.
        runs (dir_loop k' (Ptr (Ext n) 0) p1 (of_nat (length ns) + 1)) s4 (listed s0 n s (ns @ visible (x # xs)))))))"
      by (rule runs_mono [OF runs_append_name [OF h1 at1 ext1 room]])
        (auto simp del: visible_simps elim!: runs_mono intro: turn)
    then show ?thesis
      using False unfolding k dir_loop.simps
      by (auto simp: runs_bind runs_readdir [OF Cons.prems(5)] dga_grow_or_def runs_seq
          simp del: visible_simps elim!: runs_mono)
  qed
qed

section \<open>Rules of releasing a listing\<close>

lemma runs_load_elem:
  assumes "dga_ok s p (of_nat (length ps)) 8 (ptr_bytes ps)" "i < length ps"
  shows "runs (load_ptr (ptr_add p (int (8 * i)))) s Q \<longleftrightarrow> Q (ps ! i) s"
proof -
  have "8 * i + 8 \<le> length (ptr_bytes ps)" using assms(2) by simp
  from dga.load_spec [OF assms(1) this] show ?thesis
    using ptr_bytes_nth [OF assms(2)] by (simp add: runs_load_ptr)
qed

lemma runs_dga_len_ok: "dga_ok s p n t pl \<Longrightarrow> runs (dga_len p) s Q \<longleftrightarrow> Q n s"
  unfolding dga_ok_def using runs_dga_len by blast

lemma runs_dga_free_ok:
  "dga_ok s p n t pl \<Longrightarrow> runs (dga_free p) s Q \<longleftrightarrow> Q () (s\<lparr>blocks := (blocks s)(pbase p := None)\<rparr>)"
  unfolding dga_ok_def using runs_dga_free by blast

lemma runs_name_free:
  "name_at s x q \<Longrightarrow> runs (dga_free q) s Q \<longleftrightarrow> Q () (s\<lparr>blocks := (blocks s)(pbase q := None)\<rparr>)"
  using runs_dga_free_ok by (fastforce simp: name_at_def)

lemma runs_free_elems:
  "dga_ok s p (of_nat (length (ds @ qs))) 8 (ptr_bytes (ds @ qs)) \<Longrightarrow> list_all2 (name_at s) ns qs \<Longrightarrow>
   distinct (map pbase (p # qs)) \<Longrightarrow> length (ds @ qs) < 2 ^ 56 \<Longrightarrow> length qs < k \<Longrightarrow>
   runs (free_elems k p (of_nat (length ds))) s
     (\<lambda>_ s'. s' = s\<lparr>blocks := clear_all (pbase ` set qs) (blocks s)\<rparr>)"
proof (induction qs arbitrary: ds ns k s)
  case Nil
  then obtain k' where "k = Suc k'" by (cases k) auto
  with Nil show ?case by (simp add: runs_bind runs_dga_len_ok [OF Nil.prems(1)] runs_ret)
next
  case (Cons q qs)
  then obtain k' where k: "k = Suc k'" "length qs < k'" by (cases k) auto
  obtain x ns' where ns: "ns = x # ns'" "name_at s x q" "list_all2 (name_at s) ns' qs"
    using Cons.prems(2) by (auto simp: list_all2_Cons2)
  let ?s1 = "s\<lparr>blocks := (blocks s)(pbase q := None)\<rparr>"
  have len: "length ds < 2 ^ 56" "unat (of_nat (length ds) :: u64) = length ds"
    using Cons.prems(4) fits_names [of ds] by simp_all
  have less: "(of_nat (length ds) :: u64) < of_nat (length (ds @ q # qs))"
    using Cons.prems(4) len fits_names [of "ds @ q # qs"] by (simp only: word_less_nat_alt) simp
  have "runs (free_elems k' p (of_nat (length (ds @ [q])))) ?s1
      (\<lambda>_ s'. s' = ?s1\<lparr>blocks := clear_all (pbase ` set qs) (blocks ?s1)\<rparr>)"
  proof (rule Cons.IH [OF _ _ _ _ k(2)])
    show "dga_ok ?s1 p (of_nat (length ((ds @ [q]) @ qs))) 8 (ptr_bytes ((ds @ [q]) @ qs))"
      by (rule dga.rep_local [of s]) (use Cons.prems(1,3) in auto)
    show "list_all2 (name_at ?s1) ns' qs"
      by (rule names_cong [OF ns(3)]) (use Cons.prems(3) in \<open>auto simp: image_iff\<close>)
  qed (use Cons.prems(3,4) in simp_all)
  then have "runs (free_elems k' p (of_nat (length ds) + 1)) ?s1
      (\<lambda>_ s'. s' = s\<lparr>blocks := clear_all (pbase ` set (q # qs)) (blocks s)\<rparr>)"
    by (simp add: clear_all_one [of "blocks s"] add.commute)
  moreover have "runs (load_ptr (ptr_add p (int (8 * length ds)))) s Q \<longleftrightarrow> Q q s" for Q
    using runs_load_elem [OF Cons.prems(1), of "length ds" Q] by simp
  ultimately show ?case
    using less len(2) runs_name_free [OF ns(2)]
    by (simp add: k(1) runs_bind runs_seq runs_dga_len_ok [OF Cons.prems(1)])
qed

lemma runs_free_dir_content:
  assumes "names_at s p ns ps" "length ns < 2 ^ 56"
  shows "runs (free_dir_content p) s (\<lambda>_ s'. s' = s\<lparr>blocks := clear_all (name_bases p ps) (blocks s)\<rparr>)"
proof -
  note at = names_atD [OF assms(1)]
  let ?s1 = "s\<lparr>blocks := clear_all (pbase ` set ps) (blocks s)\<rparr>"
  have arr: "dga_ok s p (of_nat (length ([] @ ps))) 8 (ptr_bytes ([] @ ps))"
    using at(1,4) by simp
  have "runs (free_elems (Suc (length ns)) p (of_nat (length ([] :: ptr list)))) s (\<lambda>_ s'. s' = ?s1)"
    by (rule runs_free_elems [OF arr at(2,3)]) (use assms(2) at(4) in simp_all)
  moreover have "dga_ok ?s1 p (of_nat (length ns)) 8 (ptr_bytes ps)"
    by (rule dga.rep_local [OF at(1)]) (use at(3) in \<open>auto simp: clear_all_def\<close>)
  then have "runs (dga_free p) ?s1 (\<lambda>_ s'. s' = s\<lparr>blocks := clear_all (name_bases p ps) (blocks s)\<rparr>)"
    by (simp add: runs_dga_free_ok name_bases_def)
  ultimately show ?thesis
    unfolding free_dir_content_def
    by (auto simp: runs_bind runs_seq runs_dga_len_ok [OF at(1)] fits_names [OF assms(2)] elim!: runs_mono)
qed

text \<open>\<open>dir_content\<close> on a directory that can be opened.\<close>

definition listing :: "'e world \<Rightarrow> string list \<Rightarrow> ptr \<times> u64 option \<Rightarrow> 'e world \<Rightarrow> bool" where
  "listing s ns r s' \<longleftrightarrow> (\<exists>q ps. r = (q, Some (of_nat (length ns))) \<and> names_at s' q ns ps \<and>
     extends s (name_bases q ps) s') \<and>
     balanced s s' \<and> proc_step s s' \<and> err_code s' = No_Error \<and> dirs s' = (dirs s)(next_ext s := None)"

lemma runs_closedir:
  "dirs s n = Some xs \<Longrightarrow> runs (closedir (Ptr (Ext n) 0)) s Q \<longleftrightarrow> Q () (s\<lparr>dirs := (dirs s)(n := None)\<rparr>)"
  by (simp add: closedir_def dir_stream_def runs_simps)

lemma extends_same: "blocks s0 = blocks s \<Longrightarrow> extends s0 B s' = extends s B s'"
  by (simp add: extends_def untouched_def)

lemma unwinds_listing:
  assumes "inside s [] [(H_close_dir, Ptr (Ext (next_ext s)) 0)] s2" "blocks s0 = blocks s" "proc_step s s2"
    "dirs s2 = (dirs s)(next_ext s \<mapsto> names)" "err_code s2 = No_Error"
    "listed s0 (next_ext s) s2 ns r s4"
  shows "unwinds prom_call s (listing s ns) r s4"
proof (rule unwinds_dyn)
  let ?n = "next_ext s"
  obtain q ps where q: "r = (q, Some (of_nat (length ns)))" "names_at s4 q ns ps" "extends s0 (name_bases q ps) s4"
    and step: "loop_step ?n s2 s4" and read: "dirs s4 ?n = Some []"
    using assms(6) by (auto simp: listed_def)
  show "inside s [] [(H_close_dir, Ptr (Ext ?n) 0)] s4"
    using step by (intro inside_same_stack [OF assms(1)]) (simp_all add: loop_step_def)
  let ?s5 = "s4\<lparr>dirs := (dirs s4)(?n := None)\<rparr>"
  have "listing s ns r (with_stack F (curr s) ?s5)" if "defers_ok s F" for F
  proof -
    have "names_at (with_stack F (curr s) ?s5) q ns ps"
      by (rule names_at_cong [OF q(2)]) simp
    moreover have "extends s (name_bases q ps) (with_stack F (curr s) ?s5)"
      using q(3) assms(2) by (simp add: extends_def untouched_def)
    moreover have "proc_step s s4"
      using proc_step_trans [OF assms(3)] step by (simp add: loop_step_def)
    then have "proc_step s ?s5"
      by (simp add: proc_step_def mem_ok_def)
    moreover have "(dirs s4)(?n := None) = (dirs s)(?n := None)"
      using step assms(4) by (auto simp: loop_step_def)
    ultimately show ?thesis
      using q(1) that step assms(5) by (auto simp: listing_def balanced_with_stack loop_step_def)
  qed
  then show "runs (prom_call H_close_dir (Passed (Ptr (Ext ?n) 0))) s4
      (\<lambda>_ s2. \<forall>F. defers_ok s F \<longrightarrow> listing s ns r (with_stack F (curr s) s2))"
    using read by (simp add: close_dir_def runs_closedir)
qed

lemma listed_after_heap: "heap_ext s s1 \<Longrightarrow> listed s0 n s1 ns r s' \<Longrightarrow> listed s0 n s ns r s'"
  by (auto intro: listed_trans loop_step_heap)

lemma runs_list_entries:
  assumes "healthy s" "dirs s n = Some names" "name_room (visible names)"
  shows "runs (bind (dga_new 0 8) (\<lambda>p. bind (gets (\<lambda>s. entries_left s (Ptr (Ext n) 0)))
    (\<lambda>k. dir_loop (Suc k) (Ptr (Ext n) 0) p 0))) s (listed s n s (visible names))"
  unfolding runs_bind
proof (rule runs_mono [OF dga.make_spec [OF assms(1)]])
  show "fits 0 8" by (simp add: fits_def)
  fix p s1 assume s1: "p \<noteq> null \<and> heap_ext s s1 \<and> dga_ok s1 p 0 8 (replicate (unat (0 :: u64) * unat (8 :: u64)) Undef) \<and>
    blocks s (pbase p) = None \<and> untouched {pbase p} s s1"
  have d1: "dirs s1 n = Some names"
    using s1 assms(2) heap_only_world(2) [of s s1] by (simp add: heap_ext_def)
  have "names_at s1 p [] []" "extends s (name_bases p []) s1"
    using s1 by (simp_all add: names_at_def extends_def name_bases_def)
  then have "runs (dir_loop (Suc (length names)) (Ptr (Ext n) 0) p (of_nat (length ([] :: string list)))) s1
      (listed s n s1 ([] @ visible names))"
    by (rule runs_dir_loop [rotated]) (use s1 heap_ext_healthy [OF assms(1)] assms(3) d1 in simp_all)
  then have "runs (dir_loop (Suc (length names)) (Ptr (Ext n) 0) p 0) s1 (listed s n s (visible names))"
    using s1 by (auto elim!: runs_mono intro: listed_after_heap)
  then show "runs (gets (\<lambda>s. entries_left s (Ptr (Ext n) 0))) s1
      (\<lambda>k s'. runs (dir_loop (Suc k) (Ptr (Ext n) 0) p 0) s' (listed s n s (visible names)))"
    using d1 by (simp add: runs_gets entries_left_def dir_stream_def del: dir_loop.simps)
qed

lemma runs_dir_content:
  assumes "stack_ok s" "curr s < 8" "healthy s" "os_wordexp P (env s) path = Some (x # ws)"
    "c_string x" "Suc (length x) < 2 ^ 64" "length (x # ws) < 2 ^ 64"
    "os_opendir P (env s) x = Inr names" "name_room (visible names)"
  shows "runs (dir_content P path) s (listing s (visible names))"
proof -
  let ?n = "next_ext s"
  let ?rest = "\<lambda>dp. bind (dga_new 0 8) (\<lambda>p. bind (gets (\<lambda>s. entries_left s dp)) (\<lambda>k. dir_loop (Suc k) dp p 0))"
  have room: "curr s < 11" using assms(2) by simp
  have in0: "inside s [] [] (entered s)"
    by (rule inside_entered [OF assms(1) room])
  have "runs (open_dir P path) (entered s) (\<lambda>dp s1. err_code s1 = No_Error \<and>
      runs (defer_call H_close_dir dp) s1 (\<lambda>_ s2. runs (?rest dp) s2 (unwinds prom_call s (listing s (visible names)))))"
  proof (rule runs_mono [OF runs_open_dir [OF insideD(1) [OF in0] _ _ _ _ assms(5,6,7)]])
    show "curr (entered s) < 9" "mem_ok (entered s)" "grants (entered s) (requests (entered s))"
      "os_wordexp P (env (entered s)) path = Some (x # ws)"
      using assms by (simp_all add: healthy_def never_oom_def)
  next
    fix dp s1
    assume "balanced (entered s) s1 \<and> opened (entered s) (os_opendir P (env (entered s)) x) dp s1 \<and>
      err_code s1 = (case os_opendir P (env (entered s)) x of Inl e \<Rightarrow> errno_error e | Inr _ \<Rightarrow> No_Error) \<and>
      requests s1 = Suc (requests (entered s))"
    then have s1: "balanced (entered s) s1" "proc_step s s1" "blocks s1 = blocks s" "err_code s1 = No_Error"
      "dp = Ptr (Ext ?n) 0" "dirs s1 = (dirs s)(?n \<mapsto> names)"
      using assms(8) by (simp_all add: opened_def)
    have "runs (defer_call H_close_dir dp) s1
        (\<lambda>_ s2. runs (?rest dp) s2 (unwinds prom_call s (listing s (visible names))))"
    proof (rule runs_mono [OF inside_defer [OF inside_balanced [OF in0 s1(1)]]])
      fix u s2 assume s2: "inside s [] ([] @ [(H_close_dir, dp)]) s2 \<and> restacked s1 s2"
      have step2: "proc_step s s2"
        using s2 s1(2) by (auto simp: restacked_def)
      have "dirs s2 = (dirs s)(?n \<mapsto> names)" "err_code s2 = No_Error" "blocks s2 = blocks s"
        using s1 s2 restackedD [of s1 s2] restacked_world [of s1 s2] by simp_all
      then show "runs (?rest dp) s2 (unwinds prom_call s (listing s (visible names)))"
        unfolding s1(5) using s2 s1(5) step2
        by (intro runs_mono [OF runs_list_entries [OF proc_step_healthy [OF assms(3) step2] _ assms(9)]])
          (auto intro: unwinds_listing)
    qed simp
    with s1(4) show "err_code s1 = No_Error \<and> runs (defer_call H_close_dir dp) s1
        (\<lambda>_ s2. runs (?rest dp) s2 (unwinds prom_call s (listing s (visible names))))" by simp
  qed
  then show ?thesis
    unfolding dir_content_def
    by (intro prom.edf_rule [OF assms(1) room])
      (auto simp: runs_bind [of "open_dir _ _"] runs_seq [of "defer_call _ _"] runs_on_error elim!: runs_mono)
qed

section \<open>Properties\<close>

text \<open>C22: \<open>abs_path\<close> of a path that expands to some word gives a new string: the word itself where it is
  absolute, and the working directory, a slash and the word otherwise. Whatever the allocator
  answers for an absolute word, the call returns, NULL is returned exactly when the error code is
  \<open>NOT_ENOUGH_MEMORY\<close>, no other object is changed or leaked, and the defer stack is balanced.\<close>

theorem abs_path_resolves:
  assumes "stack_ok s" "curr s < 9" "mem_ok s" "os_wordexp P (env s) path = Some (x # ws)"
    and "c_string x" "Suc (length x) < 2 ^ 64" "length (x # ws) < 2 ^ 64"
    and "is_absolute x \<or> never_oom s \<and> os_getcwd P (env s) = Inr c \<and> c_string c \<and>
      length x + length c + 8 < 2 ^ 64"
  shows "runs (abs_path P path) s (\<lambda>p s'. balanced s s' \<and>
    (if err_code s' = No_Error then made_string s (resolved c x) p s'
     else err_code s' = NOT_ENOUGH_MEMORY \<and> p = null \<and> blocks s' = blocks s) \<and>
    (never_oom s \<longrightarrow> err_code s' = No_Error))"
  by (rule runs_mono [OF runs_abs_path [OF assms]]) (simp add: called_def string_result_def)

theorem abs_path_resolves_witness:
  "runs (abs_path sample_posix ''a'') sample_world (\<lambda>p s'. str_of_ptr s' p = Some ''/home/a'')"
proof (rule runs_mono [OF abs_path_resolves [of sample_world sample_posix "''a''" "''a''" "[]" "''/home''"]])
  fix p s'
  assume r: "balanced sample_world s' \<and>
    (if err_code s' = No_Error then made_string sample_world (resolved ''/home'' ''a'') p s'
     else err_code s' = NOT_ENOUGH_MEMORY \<and> p = null \<and> blocks s' = blocks sample_world) \<and>
    (never_oom sample_world \<longrightarrow> err_code s' = No_Error)"
  have "resolved ''/home'' ''a'' = ''/home/a''"
    by (simp add: resolved_def is_absolute_def joined_def)
  with r show "str_of_ptr s' p = Some ''/home/a''"
    using made_string_str(1) [of sample_world "''/home/a''" p s'] by (auto simp: sample_world_ok split: if_splits)
qed (simp_all add: sample_world_ok sample_posix_def)

text \<open>On a heap that does not run out, \<open>abs_path\<close> returns an object the caller owns: freeing it
  gives back the heap from before the call.\<close>

lemma abs_path_free:
  assumes "stack_ok s" "curr s < 9" "healthy s" "os_wordexp P (env s) path = Some (x # ws)"
    and "c_string x" "Suc (length x) < 2 ^ 64" "length (x # ws) < 2 ^ 64"
    and "os_getcwd P (env s) = Inr c" "c_string c" "length x + length c + 8 < 2 ^ 64"
  shows "runs (bind (abs_path P path) free) s (\<lambda>_ s'. blocks s' = blocks s \<and> curr s' = curr s)"
  unfolding runs_bind
proof (rule runs_mono [OF runs_abs_path [OF assms(1,2) _ assms(4-7)]])
  fix p s1 assume "called s s1 \<and> string_result s (resolved c x) p s1 \<and> (never_oom s \<longrightarrow> err_code s1 = No_Error)"
  with assms(3) have "made_string s (resolved c x) p s1" "curr s1 = curr s"
    by (simp_all add: healthy_def string_result_def called_def balanced_def)
  then show "runs (free p) s1 (\<lambda>_ s'. blocks s' = blocks s \<and> curr s' = curr s)"
    by (intro runs_mono [OF made_string_frees]) auto
qed (use assms in \<open>simp_all add: healthy_def\<close>)

text \<open>Where the expansion of a path fails, \<open>abs_path\<close> returns NULL with \<open>PARSING_ERROR\<close> and leaves
  the heap as it was; where it succeeds with no word, the code reads through the NULL that ends
  \<open>we_wordv\<close>: undefined behaviour.\<close>

lemma abs_path_bad_expansion:
  assumes "stack_ok s" "curr s < 9" "mem_ok s"
  shows "case os_wordexp P (env s) path of
      None \<Rightarrow> runs (abs_path P path) s (\<lambda>p s'. p = null \<and> err_code s' = PARSING_ERROR \<and> blocks s' = blocks s \<and>
        balanced s s' \<and> env s' = env s)
    | Some [] \<Rightarrow> abs_path P path s = Undefined
    | _ \<Rightarrow> True"
proof -
  let ?Q = "\<lambda>p s'. p = null \<and> err_code s' = PARSING_ERROR \<and> blocks s' = blocks s \<and> balanced s s' \<and> env s' = env s"
  have room: "curr s < 11" using assms(2) by simp
  have in0: "inside s [] [] (entered s)"
    by (rule inside_entered [OF assms(1) room])
  note in0D = insideD [OF in0]
  have "runs (abs_path P path) s ?Q" if fails: "os_wordexp P (env s) path = None"
  proof -
    have "runs (expand P path) (entered s) (\<lambda>t s1. err_code s1 \<noteq> No_Error \<and> unwinds prom_call s ?Q null s1)"
    proof (rule runs_mono [OF runs_expand_error [OF in0D(1)]])
      fix t s1 assume s1: "called (entered s) s1 \<and> t = null \<and> blocks s1 = blocks (entered s) \<and> err_code s1 = PARSING_ERROR"
      have "unwinds prom_call s ?Q null s1"
        by (rule unwinds_none [OF inside_called [OF in0]]) (use s1 in \<open>auto simp: balanced_with_stack called_def quiet_def proc_step_def\<close>)
      with s1 show "err_code s1 \<noteq> No_Error \<and> unwinds prom_call s ?Q null s1" by simp
    qed (use assms fails in simp_all)
    then show ?thesis
      unfolding abs_path_def
      by (intro prom.edf_rule [OF assms(1) room]) (auto simp: runs_bind runs_on_error elim!: runs_mono)
  qed
  moreover have "abs_path P path s = Undefined" if none: "os_wordexp P (env s) path = Some []"
  proof -
    have "expand P path (entered s) = Undefined"
      by (rule expand_no_word [OF in0D(1)]) (use assms none in simp_all)
    then show ?thesis
      unfolding abs_path_def by (intro edf_undefined [OF room] bind_undefined)
  qed
  ultimately show ?thesis
    by (simp split: option.split list.split)
qed

text \<open>C20: \<open>dir_content\<close> of a directory that can be opened gives the names that do not start with a dot,
  in the order the stream delivers them, as an array of arrays of their own, with their number;
  the directory is closed again, no other object is changed and the defer stack is balanced.\<close>

theorem dir_content_lists:
  assumes "stack_ok s" "curr s < 8" "healthy s" "os_wordexp P (env s) path = Some (x # ws)"
    and "c_string x" "Suc (length x) < 2 ^ 64" "length (x # ws) < 2 ^ 64"
    and "os_opendir P (env s) x = Inr names" "name_room (visible names)"
  shows "runs (dir_content P path) s (\<lambda>(p, len) s'. len = Some (of_nat (length (visible names))) \<and>
    (\<exists>ps. names_at s' p (visible names) ps \<and> extends s (name_bases p ps) s') \<and>
    balanced s s' \<and> err_code s' = No_Error \<and> dirs s' = (dirs s)(next_ext s := None))"
  by (rule runs_mono [OF runs_dir_content [OF assms]]) (auto simp: listing_def)

theorem dir_content_lists_witness:
  "runs (dir_content sample_posix ''/m'') sample_world (\<lambda>(p, len) s'. len = Some 2 \<and>
    (\<exists>ps. names_at s' p [''a.so'', ''b.so''] ps))"
  by (rule runs_mono [OF dir_content_lists [of sample_world sample_posix "''/m''" "''/m''" "[]"
        "[''.'', ''a.so'', ''b.so'']"]])
    (auto simp: sample_world_ok sample_posix_def name_room_def)

text \<open>Releasing a listing with \<open>free_dir_content\<close> gives back the heap from before \<open>dir_content\<close>: the
  array, every name and every intermediate array of the loop are freed, each once.\<close>

lemma dir_content_free:
  assumes "stack_ok s" "curr s < 8" "healthy s" "os_wordexp P (env s) path = Some (x # ws)"
    and "c_string x" "Suc (length x) < 2 ^ 64" "length (x # ws) < 2 ^ 64"
    and "os_opendir P (env s) x = Inr names" "name_room (visible names)"
  shows "runs (bind (dir_content P path) (\<lambda>(p, len). free_dir_content p)) s (\<lambda>_ s'. blocks s' = blocks s)"
  unfolding runs_bind
proof (rule runs_mono [OF runs_dir_content [OF assms]])
  fix r s1 assume "listing s (visible names) r s1"
  then obtain q ps where q: "r = (q, Some (of_nat (length (visible names))))"
    "names_at s1 q (visible names) ps" "extends s (name_bases q ps) s1"
    by (auto simp: listing_def)
  then show "runs (case r of (p, len) \<Rightarrow> free_dir_content p) s1 (\<lambda>_ s'. blocks s' = blocks s)"
    using runs_free_dir_content [OF q(2)] assms(9) extends_restores [OF q(3)]
    by (auto simp: name_room_def elim!: runs_mono)
qed

text \<open>C21: Where the directory cannot be opened, what \<open>dir_content\<close> does depends on \<open>errno\<close>: a value
  \<open>errm_error_from_errno\<close> knows gives NULL with the matching error code and the heap as it was; on any
  other, such as \<open>EMFILE\<close>, the code goes on to read from a NULL stream: undefined behaviour.\<close>

theorem dir_content_open_error:
  assumes "stack_ok s" "curr s < 8" "healthy s" "os_wordexp P (env s) path = Some (x # ws)"
    and "c_string x" "Suc (length x) < 2 ^ 64" "length (x # ws) < 2 ^ 64"
    and "os_opendir P (env s) x = Inl e"
  shows "if errno_error e \<noteq> No_Error
    then runs (dir_content P path) s (\<lambda>r s'. r = (null, None) \<and> err_code s' = errno_error e \<and>
      blocks s' = blocks s \<and> balanced s s')
    else dir_content P path s = Undefined"
proof -
  let ?Q = "\<lambda>r s'. r = (null, None) \<and> err_code s' = errno_error e \<and> blocks s' = blocks s \<and> balanced s s'"
  have room: "curr s < 11" using assms(2) by simp
  have in0: "inside s [] [] (entered s)"
    by (rule inside_entered [OF assms(1) room])
  have "runs (open_dir P path) (entered s) (\<lambda>dp s1. balanced (entered s) s1 \<and>
      opened (entered s) (os_opendir P (env (entered s)) x) dp s1 \<and>
      err_code s1 = (case os_opendir P (env (entered s)) x of Inl e \<Rightarrow> errno_error e | Inr _ \<Rightarrow> No_Error) \<and>
      requests s1 = Suc (requests (entered s)))"
    by (rule runs_open_dir [OF insideD(1) [OF in0] _ _ _ _ assms(5,6,7)])
      (use assms in \<open>simp_all add: healthy_def never_oom_def\<close>)
  then obtain s1 where s1: "open_dir P path (entered s) = Done null s1" "balanced (entered s) s1"
      "proc_step s s1" "blocks s1 = blocks s" "err_code s1 = errno_error e"
    using assms(8) by (auto simp: runs_iff opened_def)
  have in1: "inside s [] [] s1" by (rule inside_balanced [OF in0 s1(2)])
  show ?thesis
  proof (cases "errno_error e = No_Error")
    case False
    have "unwinds prom_call s ?Q (null, None) s1"
      by (rule unwinds_none [OF in1]) (use s1 in \<open>simp add: balanced_with_stack\<close>)
    with False s1(5) have "runs (dir_content P path) s ?Q"
      unfolding dir_content_def
      by (intro prom.edf_rule [OF assms(1) room])
        (simp add: runs_bind_Done [where m = "open_dir P path", OF s1(1)] runs_on_error)
    with False show ?thesis by simp
  next
    case True
    obtain s2 where s2: "defer_call H_close_dir null s1 = Done () s2" "restacked s1 s2"
      using inside_defer [OF in1, of H_close_dir null] by (auto simp: runs_iff)
    have h2: "healthy s2"
      using proc_step_healthy [OF assms(3) s1(3)] s2(2) by (auto simp: restacked_def healthy_def never_oom_def)
    obtain p s3 where s3: "dga_new 0 8 s2 = Done p s3"
      using dga.make_spec [OF h2, of 0 8] by (auto simp: runs_iff fits_def)
    have "readdir null s = Undefined" for s :: "'a world"
      by (simp add: readdir_def dir_stream_def null_def bind_def reads_def)
    then have "dir_loop (Suc k) null p 0 s3 = Undefined" for k
      by (simp add: bind_def)
    then have "bind (open_dir P path) (\<lambda>dp. on_error_return (null, None)
        (seq (defer_call H_close_dir dp) (bind (dga_new 0 8) (\<lambda>names.
         bind (gets (\<lambda>s. entries_left s dp)) (\<lambda>n. dir_loop (Suc n) dp names 0))))) (entered s) = Undefined"
      using True s1(5)
      by (simp add: bind_Done [where m = "open_dir P path", OF s1(1)] on_error_cases
          seq_Done [where m = "defer_call H_close_dir null", OF s2(1)] bind_Done [where m = "dga_new 0 8", OF s3]
          bind_Done [where m = "gets _", OF gets_def [THEN fun_cong]] del: dir_loop.simps)
    then have "dir_content P path s = Undefined"
      unfolding dir_content_def by (rule edf_undefined [OF room])
    with True show ?thesis by simp
  qed
qed

theorem dir_content_open_error_witness:
  "runs (dir_content sample_posix ''/x'') sample_world (\<lambda>r s'. r = (null, None) \<and> err_code s' = DOES_NOT_EXIST) \<and>
   dir_content sample_posix ''/full'' sample_world = Undefined"
  using dir_content_open_error [of sample_world sample_posix "''/x''" "''/x''" "[]" ENOENT]
    dir_content_open_error [of sample_world sample_posix "''/full''" "''/full''" "[]" EMFILE]
  by (auto simp: sample_world_ok sample_posix_def errno_error_def errno_consts elim!: runs_mono)

end
