(* ===== verification/Errm_Refine.thy ===== *)
theory Errm_Refine
  imports Filesystem
begin

text \<open>
  What the defer stack promises, without its arrays, indices and pool: a stack of the functions entered, each
  with the list of objects and the list of pointers whose release was deferred. The arrays of \<open>src/errm/errm.c\<close>
  are shown to simulate it step by step.
\<close>

section \<open>Simulation\<close>

text \<open>The steps of a system carry the operation they perform, so that a simulation has to match one operation by the
  same one.\<close>

inductive path :: "('s \<Rightarrow> 'l \<Rightarrow> 's \<Rightarrow> bool) \<Rightarrow> 's \<Rightarrow> 'l list \<Rightarrow> 's \<Rightarrow> bool" for step where
  here: "path step s [] s"
| further: "path step s ls s1 \<Longrightarrow> step s1 l s2 \<Longrightarrow> path step s (ls @ [l]) s2"

locale simulation =
  fixes starts :: "'s \<Rightarrow> bool" and steps :: "'s \<Rightarrow> 'l \<Rightarrow> 's \<Rightarrow> bool"
    and astarts :: "'a \<Rightarrow> bool" and asteps :: "'a \<Rightarrow> 'l \<Rightarrow> 'a \<Rightarrow> bool"
    and rel :: "'s \<Rightarrow> 'a \<Rightarrow> bool"
  assumes start_sim: "starts s \<Longrightarrow> \<exists>a. astarts a \<and> rel s a"
    and step_sim: "rel s a \<Longrightarrow> steps s l s' \<Longrightarrow> \<exists>a'. asteps a l a' \<and> rel s' a'"
begin

lemma run_sim: "path steps s ls s' \<Longrightarrow> rel s a \<Longrightarrow> \<exists>a'. path asteps a ls a' \<and> rel s' a'"
proof (induction rule: path.induct)
  case (here s)
  then show ?case by (blast intro: path.here)
next
  case (further s ls s1 l s2)
  then obtain a1 where a1: "path asteps a ls a1" "rel s1 a1" by blast
  from step_sim [OF a1(2) further.hyps(2)] obtain a2 where "asteps a1 l a2" "rel s2 a2" by blast
  with a1(1) show ?case by (blast intro: path.further)
qed

lemma reach_sim:
  assumes "starts s0" "path steps s0 ls s"
  shows "\<exists>a0 a. astarts a0 \<and> path asteps a0 ls a \<and> rel s a"
  using start_sim [OF assms(1)] run_sim [OF assms(2)] by blast

end

section \<open>The specification\<close>

record 'h calls =
  objects :: "('h \<times> mval list) list"
  pointers :: "('h \<times> ptr) list"

definition no_calls :: "'h calls" where
  "no_calls = \<lparr>objects = [], pointers = []\<rparr>"

definition pool_of :: "'h calls \<Rightarrow> nat" where
  "pool_of f = sum_list (map (length \<circ> snd) (objects f))"

text \<open>The operations of the defer stack, and what each of them is in the code: \<open>Enter\<close> and \<open>Leave\<close> are the two ends of an
  \<open>edf\<close> function, whose messages are left out.\<close>

datatype 'h stack_op = Enter | Defer 'h ptr | Copy 'h u64 "mval list" | Leave

fun stack_do :: "('h, 'z) dispatch \<Rightarrow> 'h stack_op \<Rightarrow> (unit, ('h, 'z) errm_state_scheme) prog" where
  "stack_do call Enter = bind defer_push (\<lambda>d. if d = 0 then abort_prog else ret ())"
| "stack_do call (Defer h p) = defer_call h p"
| "stack_do call (Copy h n obj) = static_defer h n obj"
| "stack_do call Leave = seq (run_defers defer_fuel call) (bind defer_pop (\<lambda>d. if d = 0 then abort_prog else ret ()))"

text \<open>The same operations on the lists, with their limits. The size of the pool is computed modulo \<open>2 ^ 64\<close>.\<close>

fun calls_do :: "'h stack_op \<Rightarrow> (unit, 'h calls list) prog" where
  "calls_do Enter A = (if length A < STACK_SIZE then Done () (no_calls # A) else Aborted A)"
| "calls_do op [] = Undefined"
| "calls_do (Defer h p) (f # A) =
     (if length (pointers f) < MAX_DYN_DEFERS then Done () (f\<lparr>pointers := pointers f @ [(h, p)]\<rparr> # A) else Aborted (f # A))"
| "calls_do (Copy h n obj) (f # A) =
     (if MAX_STATIC_DEFERS \<le> length (objects f) \<or> POOL_SIZE < (pool_of f + unat n) mod 2 ^ 64 then Aborted (f # A)
      else if length obj < unat n \<or> POOL_SIZE < pool_of f + unat n then Undefined
      else Done () (f\<lparr>objects := objects f @ [(h, take (unat n) obj)]\<rparr> # A))"
| "calls_do Leave (f # A) = Done () A"

text \<open>A thread performs operations; in between the rest of its state may change in any way.\<close>

definition stack_does :: "('h, 'z) dispatch \<Rightarrow> ('h, 'z) errm_state_scheme \<Rightarrow> 'h stack_op \<Rightarrow> ('h, 'z) errm_state_scheme \<Rightarrow> bool" where
  "stack_does call s op s' \<longleftrightarrow> (\<exists>s1. frames s1 = frames s \<and> curr s1 = curr s \<and> stack_do call op s1 = Done () s')"

definition calls_does :: "'h calls list \<Rightarrow> 'h stack_op \<Rightarrow> 'h calls list \<Rightarrow> bool" where
  "calls_does A op A' \<longleftrightarrow> calls_do op A = Done () A'"

lemma for_each_snoc: "for_each f (xs @ [x]) = seq (for_each f xs) (for_each f [x])"
  by (induction xs) (simp_all add: seq_def bind_def ret_def fun_eq_iff split: outcome.split)

lemma calls_run: "path calls_does A ops A' \<Longrightarrow> for_each calls_do ops A = Done () A'"
proof (induction rule: path.induct)
  case (further A ops A1 op A2)
  have "for_each calls_do (ops @ [op]) A = seq (for_each calls_do ops) (for_each calls_do [op]) A" by (simp add: for_each_snoc)
  with further show ?case by (simp add: calls_does_def seq_def bind_def ret_def)
qed (simp add: ret_def)

text \<open>What a frame of the arrays stands for, and a stack of them: the innermost function is the head of the list and
  the frame at index \<open>curr\<close>.\<close>

definition holds :: "'h frame \<Rightarrow> 'h calls \<Rightarrow> bool" where
  "holds fr f \<longleftrightarrow> holds_objects fr (objects f) \<and> dyns fr = map (\<lambda>(h, p). (h, Passed p)) (pointers f)"

fun holds_all :: "'h frame list \<Rightarrow> 'h calls list \<Rightarrow> bool" where
  "holds_all fs [] \<longleftrightarrow> True"
| "holds_all fs (f # A) \<longleftrightarrow> holds (fs ! length A) f \<and> holds_all fs A"

definition represents :: "('h, 'z) errm_state_scheme \<Rightarrow> 'h calls list \<Rightarrow> bool" where
  "represents s A \<longleftrightarrow> stack_ok s \<and> curr s = int (length A) - 1 \<and> holds_all (frames s) A"

lemma holds_all_cong: "holds_all fs A \<Longrightarrow> \<forall>j < length A. fs' ! j = fs ! j \<Longrightarrow> holds_all fs' A"
  by (induction A) auto

lemma holds_idle: "idle fr \<Longrightarrow> holds fr no_calls"
  by (simp add: holds_def no_calls_def holds_objects_idle) (simp add: idle_def dyns_def)

lemma represents_top:
  assumes "represents s (f # A)"
  shows "0 \<le> curr s" "nat (curr s) = length A" "stack_ok s" "frame_ok (top s)" "holds (top s) f"
    "length A < length (frames s)"
  using assms stack_ok_index [of s] by (auto simp: represents_def top_def)

lemma represents_entered: "represents s A \<Longrightarrow> 0 \<le> curr s \<Longrightarrow> \<exists>f B. A = f # B"
  by (cases A) (auto simp: represents_def)

text \<open>Storing a new frame at the top.\<close>

lemma represents_set_top:
  assumes "represents s (f # A)" "frame_ok fr" "holds fr g"
  shows "represents (set_frame (nat (curr s)) fr s) (g # A)"
proof -
  note top = represents_top [OF assms(1)]
  have "holds_all ((frames s)[length A := fr]) A"
    by (rule holds_all_cong [of "frames s"]) (use assms(1) in \<open>auto simp: represents_def\<close>)
  with assms top stack_ok_set_top [OF top(3,1) assms(2)] show ?thesis
    by (auto simp: represents_def)
qed

section \<open>The arrays simulate the specification\<close>

text \<open>Two outcomes that agree: both return, abort or are undefined, and the states stand for each other.\<close>

definition agrees :: "(unit, ('h, 'z) errm_state_scheme) outcome \<Rightarrow> (unit, 'h calls list) outcome \<Rightarrow> bool" where
  "agrees r a \<longleftrightarrow> (case a of Done u A' \<Rightarrow> (\<exists>s'. r = Done () s' \<and> represents s' A')
     | Aborted A' \<Rightarrow> (\<exists>s'. r = Aborted s' \<and> represents s' A') | Undefined \<Rightarrow> r = Undefined | _ \<Rightarrow> False)"

lemma represents_outside: "represents s A \<Longrightarrow> A = [] \<Longrightarrow> curr_index s = None"
  by (simp add: represents_def curr_index_def)

lemma agrees_enter:
  assumes "represents s A"
  shows "agrees (stack_do call Enter s) (calls_do Enter A)"
proof (cases "length A < STACK_SIZE")
  case True
  have c: "curr s = int (length A) - 1" "stack_ok s" using assms by (simp_all add: represents_def)
  then have push: "defer_push s = Done 1 (s\<lparr>curr := curr s + 1\<rparr>)" using True by (simp add: defer_push_def prog_defs)
  have "idle (frames s ! length A)" using c True by (auto simp: stack_ok_def)
  then have "represents (s\<lparr>curr := curr s + 1\<rparr>) (no_calls # A)"
    using assms c(1) stack_ok_push [OF c(2) push] by (auto simp: represents_def holds_idle)
  with push True show ?thesis by (simp add: agrees_def prog_defs)
next
  case False
  then have "defer_push s = Done 0 s" using assms by (simp add: represents_def defer_push_def prog_defs)
  with False assms show ?thesis by (simp add: agrees_def prog_defs)
qed

lemma agrees_defer:
  assumes "represents s A"
  shows "agrees (stack_do call (Defer h p) s) (calls_do (Defer h p) A)"
proof (cases A)
  case Nil
  with represents_outside [OF assms] show ?thesis by (simp add: agrees_def defer_call_def prog_defs)
next
  case (Cons f B)
  note top = represents_top [OF assms [unfolded Cons]]
  have idx: "curr_index s = Some (nat (curr s))" using stack_ok_index [OF top(3,1)] by simp
  have len: "length (pointers f) = dyn_len (top s)"
    using top(5) by (auto simp: holds_def dyns_def dest: arg_cong [of _ _ length])
  show ?thesis
  proof (cases "dyn_len (top s) < MAX_DYN_DEFERS")
    case True
    have "holds (add_dyn h p (top s)) (f\<lparr>pointers := pointers f @ [(h, p)]\<rparr>)"
      using top(4,5) True by (simp add: holds_def abs_simps holds_objects_add_dyn)
    from represents_set_top [OF assms [unfolded Cons] frame_ok_add_dyn [OF top(4) True] this] Cons True idx len show ?thesis
      by (simp add: agrees_def defer_call_def prog_defs top_def)
  next
    case False
    with Cons idx len assms show ?thesis by (simp add: agrees_def defer_call_def prog_defs top_def)
  qed
qed

lemma add_static_take: "add_static h n obj fr = add_static h n (take (unat n) obj) fr"
  by (simp add: add_static_def)

lemma agrees_copy:
  assumes "represents s A"
  shows "agrees (stack_do call (Copy h n obj) s) (calls_do (Copy h n obj) A)"
proof (cases A)
  case Nil
  with represents_outside [OF assms] show ?thesis by (simp add: agrees_def static_defer_def prog_defs)
next
  case (Cons f B)
  note top = represents_top [OF assms [unfolded Cons]]
  let ?obj = "take (unat n) obj" and ?fr = "add_static h n obj (top s)"
  have idx: "curr_index s = Some (nat (curr s))" using stack_ok_index [OF top(3,1)] by simp
  have held: "holds_objects (top s) (objects f)" using top(5) by (simp add: holds_def)
  then have len: "length (objects f) = static_len (top s)" "pool_of f = unat (pool_used (top s))"
    by (simp_all add: holds_objects_def pool_of_def)
  have "unat (of_nat POOL_SIZE :: u64) = POOL_SIZE" by (simp add: errm_consts)
  then have over: "of_nat POOL_SIZE < pool_used (top s) + n \<longleftrightarrow> POOL_SIZE < (pool_of f + unat n) mod 2 ^ 64"
    by (simp add: word_less_nat_alt unat_word_ariths len)
  show ?thesis
  proof (cases "static_room n (top s) \<and> unat n \<le> length obj")
    case True
    then have room: "static_room n (top s)" "unat n \<le> length obj" by simp_all
    have "holds_objects ?fr (objects f @ [(h, ?obj)])"
      unfolding add_static_take [of h n obj] by (rule holds_objects_add [OF top(4) held room(1)]) (use room(2) in simp)
    then have "holds ?fr (f\<lparr>objects := objects f @ [(h, ?obj)]\<rparr>)"
      using top(5) by (simp add: holds_def abs_simps)
    note rep = represents_set_top [OF assms [unfolded Cons] frame_ok_add_static [OF top(4) room] this]
    have small: "static_len (top s) < MAX_STATIC_DEFERS" "pool_of f + unat n \<le> POOL_SIZE"
      using room(1) len by (simp_all add: static_room_def)
    then have "(pool_of f + unat n) mod 2 ^ 64 = pool_of f + unat n" by (simp add: errm_consts)
    with rep small room(2) Cons idx len over show ?thesis
      by (simp add: agrees_def static_defer_def prog_defs top_def)
  next
    case False
    with Cons idx len over assms show ?thesis
      by (auto simp: agrees_def static_defer_def prog_defs top_def static_room_def)
  qed
qed

lemma agrees_op: "represents s A \<Longrightarrow> op \<noteq> Leave \<Longrightarrow> agrees (stack_do call op s) (calls_do op A)"
  by (cases op) (simp_all only: agrees_enter agrees_defer agrees_copy simp_thms)

text \<open>Leaving a function is calling what it deferred, on the state it left, and going back to its caller.\<close>

lemma leave_unfold:
  assumes "defer_handlers call" "represents s (f # A)"
  shows "runs (stack_do call Leave) s Q \<longleftrightarrow> runs (call_all call (pending (top s))) s
    (\<lambda>u s'. Q () (with_stack ((frames s)[length A := cleared (top s)]) (int (length A) - 1) s'))"
proof -
  note top = represents_top [OF assms(2)]
  have c: "curr s = int (length A)" using top(1,2) by simp
  have pop: "runs (bind defer_pop (\<lambda>d. if d = 0 then abort_prog else ret ())) (with_stack F (int (length A)) s') Q \<longleftrightarrow>
      Q () (with_stack F (int (length A) - 1) s')" for F and s' :: "('a, 'b) errm_state_scheme"
    by (simp add: runs_def bind_def defer_pop_def gets_def seq_def modify_def ret_def with_stack_def)
  show ?thesis
    by (simp only: stack_do.simps runs_seq defer_handlers.runs_run_defers [OF assms(1) top(3,1)] c nat_int pop)
qed

lemma represents_left:
  assumes "represents s (f # A)"
  shows "represents (with_stack ((frames s)[length A := cleared (top s)]) (int (length A) - 1) s') A"
proof -
  note top = represents_top [OF assms]
  have s: "length (frames s) = STACK_SIZE" "\<forall>j<STACK_SIZE. frame_ok (frames s ! j)"
    "\<forall>j<STACK_SIZE. curr s < int j \<longrightarrow> idle (frames s ! j)" "curr s = int (length A)" "holds_all (frames s) A"
    using assms by (simp_all add: represents_def stack_ok_def)
  have "holds_all ((frames s)[length A := cleared (top s)]) A"
    by (rule holds_all_cong [OF s(5)]) simp
  moreover have "stack_ok (with_stack ((frames s)[length A := cleared (top s)]) (int (length A) - 1) s')"
    using s(1-4) top(4,6) by (auto simp: stack_ok_def nth_list_update)
  ultimately show ?thesis by (simp add: represents_def)
qed

lemma step_refines:
  assumes "defer_handlers call" "represents s A" "stack_does call s op s'"
  shows "\<exists>A'. calls_does A op A' \<and> represents s' A'"
proof -
  obtain s1 where s1: "frames s1 = frames s" "curr s1 = curr s" "stack_do call op s1 = Done () s'"
    using assms(3) by (auto simp: stack_does_def)
  have rep: "represents s1 A" using assms(2) s1(1,2) by (simp add: represents_def stack_ok_def)
  show ?thesis
  proof (cases "op = Leave")
    case False
    with agrees_op [OF rep, of op call] s1(3) show ?thesis
      by (auto simp: agrees_def calls_does_def split: outcome.splits)
  next
    case True
    show ?thesis
    proof (cases A)
      case Nil
      with represents_outside [OF rep] s1(3) True show ?thesis by (simp add: run_defers_def prog_defs)
    next
      case (Cons f B)
      have "runs (stack_do call Leave) s1 (\<lambda>_ s2. s2 = s')" using s1(3) True by (simp add: runs_def)
      then obtain s2 where "s' = with_stack ((frames s1)[length B := cleared (top s1)]) (int (length B) - 1) s2"
        unfolding leave_unfold [OF assms(1) rep [unfolded Cons]] by (auto simp: runs_iff)
      with represents_left [OF rep [unfolded Cons]] Cons True show ?thesis by (simp add: calls_does_def)
    qed
  qed
qed

lemma can_do: "represents s A \<Longrightarrow> calls_do op A = Done () A' \<Longrightarrow> op \<noteq> Leave \<Longrightarrow>
    \<exists>s'. stack_does call s op s' \<and> represents s' A'"
  using agrees_op [of s A op call] by (auto simp: agrees_def stack_does_def)

interpretation defer_stack: simulation "\<lambda>s. frames s = fresh_stack \<and> curr s = -1" "stack_does prom_call"
  "\<lambda>A. A = []" calls_does represents
proof unfold_locales
  show "\<exists>a. a = [] \<and> represents s a" if "frames s = fresh_stack \<and> curr s = -1" for s :: "'a world"
    using that by (simp add: represents_def stack_ok_fresh)
qed (rule step_refines [OF prom.defer_handlers_axioms])

text \<open>A call of the arrays against one of the specification: an object is handed over with what the pool holds
  behind it.\<close>

fun call_matches :: "('h \<times> mval list) + ('h \<times> ptr) \<Rightarrow> 'h \<times> defer_arg \<Rightarrow> bool" where
  "call_matches (Inl (h, obj)) c \<longleftrightarrow> fst c = h \<and> (\<exists>rest. snd c = Pooled (obj @ rest))"
| "call_matches (Inr (h, p)) c \<longleftrightarrow> c = (h, Passed p)"

lemma holds_pending:
  assumes "holds fr f"
  shows "list_all2 call_matches (rev (map Inl (objects f)) @ rev (map Inr (pointers f))) (pending fr)"
proof -
  have "list_all2 call_matches (map Inl (objects f)) (statics fr)"
    using assms holds_objects_statics [of fr "objects f"]
    by (auto simp: holds_def list_all2_map1 case_prod_unfold elim!: list_all2_mono)
  moreover have "list_all2 call_matches (map Inr (pointers f)) (dyns fr)"
    using assms by (auto simp: holds_def list_all2_map1 list_all2_map2 intro!: list_all2_refl)
  ultimately show ?thesis
    by (simp add: pending_def list_all2_appendI list_all2_rev)
qed

section \<open>Property\<close>

text \<open>C3: Whatever operations a thread has performed on its defer stack, the arrays stand for the stack of lists on which
  the same operations were performed one by one: entering a function pushes an empty list, deferring adds just that handler
  with just that argument to the innermost function's, leaving drops it. What the innermost function will run is its list
  backwards, the objects first. The next operation returns, aborts at its limit or is undefined exactly where it does so
  on the lists; and leaving a function returns where the calls of its list do.\<close>

theorem defer_stack_refines:
  assumes "frames s0 = fresh_stack" "curr s0 = -1" "path (stack_does prom_call) s0 ops s"
  shows "\<exists>A. for_each calls_do ops [] = Done () A \<and> represents s A \<and> (\<forall>op. op \<noteq> Leave \<longrightarrow> agrees (stack_do prom_call op s) (calls_do op A)) \<and>
    (case A of [] \<Rightarrow> curr s = -1 \<and> stack_do prom_call Leave s = Undefined
     | f # B \<Rightarrow> list_all2 call_matches (rev (map Inl (objects f)) @ rev (map Inr (pointers f))) (pending (top s)) \<and>
         (\<forall>Q. runs (stack_do prom_call Leave) s Q \<longleftrightarrow> runs (call_all prom_call (pending (top s))) s
           (\<lambda>_ s'. Q () (with_stack ((frames s)[length B := cleared (top s)]) (int (length B) - 1) s'))))"
proof -
  obtain A where A: "for_each calls_do ops [] = Done () A" "represents s A"
    using defer_stack.reach_sim [OF conjI [OF assms(1,2)] assms(3)] calls_run by blast
  have "case A of [] \<Rightarrow> curr s = -1 \<and> stack_do prom_call Leave s = Undefined
     | f # B \<Rightarrow> list_all2 call_matches (rev (map Inl (objects f)) @ rev (map Inr (pointers f))) (pending (top s)) \<and>
         (\<forall>Q. runs (stack_do prom_call Leave) s Q \<longleftrightarrow> runs (call_all prom_call (pending (top s))) s
           (\<lambda>_ s'. Q () (with_stack ((frames s)[length B := cleared (top s)]) (int (length B) - 1) s')))"
  proof (cases A)
    case Nil
    with A(2) represents_outside [OF A(2)] show ?thesis by (simp add: represents_def run_defers_def prog_defs)
  next
    case (Cons f B)
    with holds_pending [OF represents_top(5) [OF A(2) [unfolded Cons]]] leave_unfold [OF prom.defer_handlers_axioms A(2) [unfolded Cons]] show ?thesis by simp
  qed
  with A agrees_op [OF A(2)] show ?thesis by blast
qed

text \<open>A function that defers the release of a pointer and of an object.\<close>

definition sample_ops :: "handler stack_op list" where
  "sample_ops = [Enter, Defer H_free (Ptr (Blk 3) 0), Copy H_close_dir 1 [Chr (CHR ''f'')]]"

theorem defer_stack_refines_witness:
  "\<exists>s rest. path (stack_does prom_call) sample_world sample_ops s \<and>
     pending (top s) = [(H_close_dir, Pooled (Chr (CHR ''f'') # rest)), (H_free, Passed (Ptr (Blk 3) 0))]"
proof -
  let ?f = "\<lparr>objects = [], pointers = [(H_free, Ptr (Blk 3) 0)]\<rparr>"
  let ?A = "[\<lparr>objects = [(H_close_dir, [Chr (CHR ''f'')])], pointers = [(H_free, Ptr (Blk 3) 0)]\<rparr>]"
  have start: "frames sample_world = fresh_stack" "curr sample_world = - 1"
    "represents sample_world []"
    by (simp_all add: sample_world_def start_at_def represents_def stack_ok_fresh)
  have ops: "calls_do Enter [] = Done () [no_calls :: handler calls]"
    "calls_do (Defer H_free (Ptr (Blk 3) 0)) [no_calls] = Done () [?f]"
    "calls_do (Copy H_close_dir 1 [Chr (CHR ''f'')]) [?f] = Done () ?A"
    by (simp_all add: errm_consts no_calls_def pool_of_def)
  obtain s1 where s1: "stack_does prom_call sample_world Enter s1" "represents s1 [no_calls]"
    using can_do [OF start(3) ops(1)] by blast
  obtain s2 where s2: "stack_does prom_call s1 (Defer H_free (Ptr (Blk 3) 0)) s2" "represents s2 [?f]"
    using can_do [OF s1(2) ops(2)] by blast
  obtain s where s: "stack_does prom_call s2 (Copy H_close_dir 1 [Chr (CHR ''f'')]) s"
    using can_do [OF s2(2) ops(3)] by blast
  have "path (stack_does prom_call) sample_world (([] @ [Enter]) @ [Defer H_free (Ptr (Blk 3) 0)] @ [Copy H_close_dir 1 [Chr (CHR ''f'')]]) s"
    unfolding append_assoc [symmetric] by (intro further, rule here) (rule s1(1) s2(1) s)+
  then have run: "path (stack_does prom_call) sample_world sample_ops s" by (simp add: sample_ops_def)
  have "for_each calls_do sample_ops [] = Done () ?A"
    by (simp only: sample_ops_def for_each.simps seq_def bind_def ops ret_def outcome.case)
  with defer_stack_refines [OF start(1,2) run]
  obtain rest where "pending (top s) = [(H_close_dir, Pooled ([Chr (CHR ''f'')] @ rest)), (H_free, Passed (Ptr (Blk 3) 0))]"
    by (auto simp: list_all2_Cons1)
  with run show ?thesis by auto
qed

end
