(* ===== verification/Errm_Tests.thy ===== *)
theory Errm_Tests
  imports Errm
begin

text \<open>
  \<open>src/errm/tests.c\<close>: the functions under test, with the counting allocator the tests give them. The tests run them with
  three numbers each; here they are settled for every number of deferred calls.
\<close>

section \<open>The functions under test\<close>

text \<open>\<open>p\<close> is the static pointer the mocked allocator moves. The only handlers deferred are \<open>mocked_free\<close> and
  \<open>foo_free\<close>; \<open>do_nothing\<close> defers itself and gets its own name as an argument.\<close>

record 'h test_state = "'h errm_state" +
  tp :: ptr

datatype test_handler = H_mocked_free | H_foo_free

definition mocked_malloc :: "nat \<Rightarrow> (ptr, 'h test_state) prog" where
  "mocked_malloc n = seq (modify (\<lambda>s. s\<lparr>tp := ptr_add (tp s) 1\<rparr>)) (gets tp)"

definition mocked_free :: "ptr \<Rightarrow> (unit, 'h test_state) prog" where
  "mocked_free q = modify (\<lambda>s. s\<lparr>tp := ptr_add (tp s) (- 1)\<rparr>)"

text \<open>\<open>struct foo\<close> is one pointer; \<open>foo_init\<close> gives the bytes of the struct.\<close>

definition foo_init :: "(mval list, 'h test_state) prog" where
  "foo_init = bind (mocked_malloc 10) (\<lambda>q. ret (enc (VPtr q)))"

definition foo_free :: "mval list \<Rightarrow> (unit, 'h test_state) prog" where
  "foo_free f = (case dec (take 8 f) of Some (VPtr q) \<Rightarrow> mocked_free q | _ \<Rightarrow> undefined_prog)"

definition test_call :: "test_handler \<Rightarrow> defer_arg \<Rightarrow> (unit, test_handler test_state) prog" where
  "test_call h a = (case (h, a) of
       (H_mocked_free, Passed q) \<Rightarrow> mocked_free q
     | (H_foo_free, Pooled f) \<Rightarrow> foo_free f
     | _ \<Rightarrow> undefined_prog)"

definition t_defer_frees :: "nat \<Rightarrow> (int, test_handler test_state) prog" where
  "t_defer_frees n = edf test_call ''t_defer_frees'' ''tests.c:41''
     (seq (for_each (\<lambda>i. bind (mocked_malloc i) (\<lambda>p. defer_call H_mocked_free p)) [0..<n]) (ret 0))"

definition t_defer_frees_two_args :: "nat \<Rightarrow> int \<Rightarrow> (int, test_handler test_state) prog" where
  "t_defer_frees_two_args n dummy = edf test_call ''t_defer_frees_two_args'' ''tests.c:49''
     (seq (for_each (\<lambda>i. bind (mocked_malloc i) (\<lambda>p. defer_call H_mocked_free p)) [0..<n]) (ret 0))"

definition t_static_defer_frees :: "nat \<Rightarrow> (int, test_handler test_state) prog" where
  "t_static_defer_frees n = edf test_call ''t_static_defer_frees'' ''tests.c:117''
     (seq (for_each (\<lambda>i. bind foo_init (\<lambda>f. static_defer H_foo_free 8 f)) [0..<n]) (ret 0))"

definition do_nothing :: "'h \<Rightarrow> (unit, 'h test_state) prog" where
  "do_nothing self = for_each (\<lambda>i. defer_call self null) [0..<STACK_SIZE + 2]"

section \<open>The tests\<close>

text \<open>\<open>assert_ptr_equal(p, 0)\<close> after a call in a fresh process, and a death test for \<open>SIGABRT\<close> of one.\<close>

definition leaves_p_zero :: "(int, 'h test_state) prog \<Rightarrow> 'h test_state \<Rightarrow> bool" where
  "leaves_p_zero m s = (case m s of Done r s' \<Rightarrow> tp s' = null | _ \<Rightarrow> False)"

definition dies_by_abort :: "('a, 'h test_state) prog \<Rightarrow> 'h test_state \<Rightarrow> bool" where
  "dies_by_abort m s = (case m s of Aborted s' \<Rightarrow> True | _ \<Rightarrow> False)"

definition test_edf_func1_defers_under_max :: "test_handler test_state \<Rightarrow> bool" where
  "test_edf_func1_defers_under_max = leaves_p_zero (t_defer_frees (MAX_DYN_DEFERS - 1))"

definition test_edf_func2_defers_under_max :: "test_handler test_state \<Rightarrow> bool" where
  "test_edf_func2_defers_under_max = leaves_p_zero (t_defer_frees_two_args (MAX_DYN_DEFERS - 1) 0)"

definition test_edf_func1_defers_over_max :: "test_handler test_state \<Rightarrow> bool" where
  "test_edf_func1_defers_over_max = dies_by_abort (t_defer_frees (MAX_DYN_DEFERS + 1))"

definition test_edf_func2_defers_over_max :: "test_handler test_state \<Rightarrow> bool" where
  "test_edf_func2_defers_over_max = dies_by_abort (t_defer_frees_two_args (MAX_DYN_DEFERS + 1) 0)"

definition test_edf_func1_defers_max :: "test_handler test_state \<Rightarrow> bool" where
  "test_edf_func1_defers_max = leaves_p_zero (t_defer_frees MAX_DYN_DEFERS)"

definition test_edf_func2_defers_max :: "test_handler test_state \<Rightarrow> bool" where
  "test_edf_func2_defers_max = leaves_p_zero (t_defer_frees_two_args MAX_DYN_DEFERS 0)"

definition test_defers_stack_max :: "'h \<Rightarrow> 'h test_state \<Rightarrow> bool" where
  "test_defers_stack_max self = dies_by_abort (do_nothing self)"

definition test_static_defers_under_max :: "test_handler test_state \<Rightarrow> bool" where
  "test_static_defers_under_max = leaves_p_zero (t_static_defer_frees (MAX_STATIC_DEFERS - 1))"

definition test_static_defers_max :: "test_handler test_state \<Rightarrow> bool" where
  "test_static_defers_max = leaves_p_zero (t_static_defer_frees MAX_STATIC_DEFERS)"

definition test_static_defers_over_max :: "test_handler test_state \<Rightarrow> bool" where
  "test_static_defers_over_max = dies_by_abort (t_static_defer_frees (MAX_STATIC_DEFERS + 1))"

text \<open>The tests \<open>main\<close> runs that have a result of the C language.\<close>

definition defined_tests :: "(test_handler test_state \<Rightarrow> bool) list" where
  "defined_tests = [test_edf_func1_defers_over_max, test_edf_func2_defers_over_max, test_edf_func1_defers_under_max,
     test_edf_func2_defers_under_max, test_edf_func1_defers_max, test_edf_func2_defers_max,
     test_static_defers_under_max, test_static_defers_over_max, test_static_defers_max]"

section \<open>The handlers\<close>

interpretation test: defer_handlers test_call
  by unfold_locales
    (auto simp: test_call_def mocked_free_def foo_free_def modify_def undefined_prog_def with_stack_def
      split: test_handler.splits defer_arg.splits option.splits val.splits)

lemma runs_moves_tp: "runs (bind (mocked_malloc i) f) s Q \<longleftrightarrow> runs (f (ptr_add (tp s) 1)) (s\<lparr>tp := ptr_add (tp s) 1\<rparr>) Q"
  by (simp add: mocked_malloc_def runs_simps)

text \<open>Running calls each of which gives back one step of \<open>p\<close>.\<close>

definition frees_one :: "test_handler \<times> defer_arg \<Rightarrow> bool" where
  "frees_one x \<longleftrightarrow> (\<exists>q. x = (H_mocked_free, Passed q)) \<or> (\<exists>q more. x = (H_foo_free, Pooled (enc (VPtr q) @ more)))"

lemma runs_frees:
  "\<forall>x\<in>set xs. frees_one x \<Longrightarrow> runs (call_all test_call xs) s Q \<longleftrightarrow> Q () (s\<lparr>tp := ptr_add (tp s) (- int (length xs))\<rparr>)"
proof (induction xs arbitrary: s)
  case Nil
  have "s\<lparr>tp := ptr_add (tp s) 0\<rparr> = s" by (simp add: ptr_add_def)
  then show ?case by (simp add: runs_ret)
next
  case (Cons x xs)
  then have "test_call (fst x) (snd x) = mocked_free q" if "frees_one x" for q
    using that by (auto simp: frees_one_def test_call_def foo_free_def mocked_free_def)
  with Cons show ?case
    by (simp add: runs_seq mocked_free_def runs_modify ptr_add_def algebra_simps)
qed


section \<open>The loops\<close>

lemma loop_counts:
  assumes "\<And>i j s. I j s \<Longrightarrow> j < M \<Longrightarrow> runs (m i) s (\<lambda>_. I (Suc j))"
  shows "I j s \<Longrightarrow> j + length xs \<le> M \<Longrightarrow> runs (for_each m xs) s (\<lambda>_. I (j + length xs))"
proof (induction xs arbitrary: j s)
  case Nil
  then show ?case by (simp add: runs_ret)
next
  case (Cons x xs)
  have "runs (m x) s (\<lambda>_ s1. runs (for_each m xs) s1 (\<lambda>_. I (Suc j + length xs)))"
    by (rule runs_mono [OF assms [OF Cons.prems(1)]]) (use Cons.IH [of "Suc j"] Cons.prems(2) in auto)
  then show ?case by (simp add: runs_seq)
qed

lemma loop_over:
  assumes "\<And>i j s. I j s \<Longrightarrow> j < M \<Longrightarrow> runs (m i) s (\<lambda>_. I (Suc j))" "\<And>i s. I M s \<Longrightarrow> \<exists>s'. m i s = Aborted s'"
  shows "I j s \<Longrightarrow> j \<le> M \<Longrightarrow> M < j + length xs \<Longrightarrow> \<exists>s'. for_each m xs s = Aborted s'"
proof (induction xs arbitrary: j s)
  case Nil
  then show ?case by simp
next
  case (Cons x xs)
  show ?case
  proof (cases "j = M")
    case True
    with assms(2) [of s x] Cons.prems(1) show ?thesis by (auto simp: seq_def bind_def)
  next
    case False
    with Cons.prems(2) obtain s1 where s1: "m x s = Done () s1" "I (Suc j) s1"
      using assms(1) [OF Cons.prems(1), of x] by (auto simp: runs_iff)
    then obtain s' where "for_each m xs s1 = Aborted s'"
      using Cons.IH [of "Suc j" s1] Cons.prems False by auto
    with s1(1) show ?thesis by (simp add: seq_def bind_def)
  qed
qed

text \<open>After \<open>j\<close> turns: \<open>j\<close> calls pending, each of which gives one step back, and \<open>p\<close> \<open>j\<close> steps on.\<close>

definition counted :: "test_handler test_state \<Rightarrow> nat \<Rightarrow> test_handler test_state \<Rightarrow> bool" where
  "counted s0 j s \<longleftrightarrow> stack_ok s \<and> agree_below s0 s \<and> tp s = ptr_add (tp s0) (int j) \<and>
     length (pending (top s)) = j \<and> (\<forall>x\<in>set (pending (top s)). frees_one x)"

definition dyn_counted :: "test_handler test_state \<Rightarrow> nat \<Rightarrow> test_handler test_state \<Rightarrow> bool" where
  "dyn_counted s0 j s \<longleftrightarrow> counted s0 j s \<and> dyn_len (top s) = j"

definition static_counted :: "test_handler test_state \<Rightarrow> nat \<Rightarrow> test_handler test_state \<Rightarrow> bool" where
  "static_counted s0 j s \<longleftrightarrow> stack_ok s \<and> agree_below s0 s \<and> tp s = ptr_add (tp s0) (int j) \<and> dyn_len (top s) = 0 \<and>
     (\<exists>qs. length qs = j \<and> holds_objects (top s) (map (\<lambda>q. (H_foo_free, enc (VPtr q))) qs))"

lemma static_counted_counted:
  assumes "static_counted s0 j s"
  shows "counted s0 j s"
proof -
  obtain qs where qs: "length qs = j" "holds_objects (top s) (map (\<lambda>q. (H_foo_free, enc (VPtr q))) qs)"
    using assms by (auto simp: static_counted_def)
  have P: "list_all2 (\<lambda>(h, obj) (h', a). h' = h \<and> (\<exists>rest. a = Pooled (obj @ rest))) (map (\<lambda>q. (H_foo_free, enc (VPtr q))) qs) (statics (top s))"
    by (rule holds_objects_statics [OF qs(2)])
  have "frees_one x" if "x \<in> set (statics (top s))" for x
    using P that by (auto simp: list_all2_conv_all_nth in_set_conv_nth frees_one_def)
  moreover have "length (statics (top s)) = j" using list_all2_lengthD [OF P] qs(1) by simp
  moreover have "dyns (top s) = []" using assms by (simp add: static_counted_def dyns_def)
  ultimately show ?thesis using assms by (auto simp: counted_def static_counted_def pending_def)
qed

lemma stack_ok_tp [simp]: "stack_ok (s\<lparr>tp := q\<rparr>) = stack_ok s" "top (s\<lparr>tp := q\<rparr>) = top s"
  "agree_below s0 (s\<lparr>tp := q\<rparr>) = agree_below s0 s"
  by (simp_all add: stack_ok_def top_def agree_below_def)

lemma tp_frames [simp]: "tp (set_frame i fr s) = tp s" "tp (with_stack F c s) = tp s" "tp (entered s) = tp s"
  by (simp_all add: set_frame_def with_stack_def entered_def)

lemma in_function_index: "stack_ok s0 \<Longrightarrow> agree_below s0 s \<Longrightarrow> 0 \<le> curr s"
  using stack_ok_ge [of s0] by (simp add: agree_below_def)

lemma dyn_turn:
  assumes s0: "stack_ok s0" and s: "dyn_counted s0 j s" "j < MAX_DYN_DEFERS"
  shows "runs (bind (mocked_malloc i) (\<lambda>p. defer_call H_mocked_free p)) s (\<lambda>_. dyn_counted s0 (Suc j))"
proof -
  let ?q = "ptr_add (tp s) 1"
  let ?s = "s\<lparr>tp := ?q\<rparr>" and ?fr = "add_dyn H_mocked_free ?q (top s)"
  have ok: "stack_ok s" "agree_below s0 s" "0 \<le> curr s" "dyn_len (top s) = j" "tp s = ptr_add (tp s0) (int j)"
    "length (pending (top s)) = j" "\<forall>x\<in>set (pending (top s)). frees_one x"
    using s(1) s0 in_function_index by (auto simp: dyn_counted_def counted_def)
  have fr: "frame_ok (top s)" by (rule stack_ok_index(2) [OF ok(1,3)])
  have "pending ?fr = rev (statics (top s)) @ (H_mocked_free, Passed ?q) # rev (dyns (top s))"
    by (rule pending_add_dyn [OF fr]) (use ok(4) s(2) in simp)
  then have "length (pending ?fr) = Suc j" "\<forall>x\<in>set (pending ?fr). frees_one x"
    using ok(6,7) by (auto simp: pending_def [of "top s"] frees_one_def [of "(H_mocked_free, _)"])
  moreover have "stack_ok (set_frame (nat (curr ?s)) ?fr ?s)"
    by (rule stack_ok_set_top) (use ok fr s(2) in \<open>simp_all add: frame_ok_add_dyn\<close>)
  moreover have "agree_below s0 (set_frame (nat (curr ?s)) ?fr ?s)"
    by (rule agree_below_set_top) (use ok s0 in \<open>simp_all add: stack_ok_ge\<close>)
  ultimately have "dyn_counted s0 (Suc j) (set_frame (nat (curr ?s)) ?fr ?s)"
    using ok(1,3-5) top_set_frame [of ?s] by (auto simp: dyn_counted_def counted_def ptr_add_def)
  then show ?thesis
    using ok s(2) by (simp add: runs_moves_tp runs_defer_call)
qed

lemma static_turn:
  assumes s0: "stack_ok s0" and s: "static_counted s0 j s" "j < MAX_STATIC_DEFERS"
  shows "runs (bind foo_init (\<lambda>f. static_defer H_foo_free 8 f)) s (\<lambda>_. static_counted s0 (Suc j))"
proof -
  let ?q = "ptr_add (tp s) 1"
  let ?s = "s\<lparr>tp := ?q\<rparr>" and ?fr = "add_static H_foo_free 8 (enc (VPtr ?q)) (top s)"
  have ok: "stack_ok s" "agree_below s0 s" "0 \<le> curr s" "dyn_len (top s) = 0" "tp s = ptr_add (tp s0) (int j)"
    using s(1) s0 in_function_index by (auto simp: static_counted_def)
  obtain qs where qs: "length qs = j" "holds_objects (top s) (map (\<lambda>q. (H_foo_free, enc (VPtr q))) qs)"
    using s(1) by (auto simp: static_counted_def)
  have fr: "frame_ok (top s)" by (rule stack_ok_index(2) [OF ok(1,3)])
  have "sum_list (map (length \<circ> snd) (map (\<lambda>q. (H_foo_free, enc (VPtr q))) qs)) = 8 * length qs"
    by (induction qs) simp_all
  then have room: "static_room 8 (top s)"
    using qs s(2) by (simp add: static_room_def holds_objects_def errm_consts)
  have "holds_objects ?fr (map (\<lambda>q. (H_foo_free, enc (VPtr q))) (qs @ [?q]))"
    using holds_objects_add [OF fr qs(2) room, of "enc (VPtr ?q)" H_foo_free] by simp
  moreover have "stack_ok (set_frame (nat (curr ?s)) ?fr ?s)"
    by (rule stack_ok_set_top) (use ok fr room in \<open>simp_all add: frame_ok_add_static\<close>)
  moreover have "agree_below s0 (set_frame (nat (curr ?s)) ?fr ?s)"
    by (rule agree_below_set_top) (use ok s0 in \<open>simp_all add: stack_ok_ge\<close>)
  moreover have "dyn_len ?fr = 0" using ok(4) by (simp add: add_static_def)
  ultimately have "static_counted s0 (Suc j) (set_frame (nat (curr ?s)) ?fr ?s)"
    using ok(1,3,5) qs(1) top_set_frame [of ?s] by (auto simp: static_counted_def ptr_add_def intro!: exI [of _ "qs @ [?q]"])
  then show ?thesis
    using ok room by (simp add: foo_init_def runs_moves_tp runs_bind [of "bind _ _"] runs_ret runs_static_defer)
qed


section \<open>The functions as a whole\<close>

lemma runs_counting:
  assumes s: "stack_ok s" "curr s < 11" and start: "I 0 (entered s)" and n: "n \<le> M"
    and turn: "\<And>i j s1. I j s1 \<Longrightarrow> j < M \<Longrightarrow> runs (m i) s1 (\<lambda>_. I (Suc j))"
    and count: "\<And>j s1. I j s1 \<Longrightarrow> counted s j s1"
  shows "runs (edf test_call name loc (seq (for_each m [0..<n]) (ret 0))) s (\<lambda>r s'. r = (0 :: int) \<and> tp s' = tp s \<and> balanced s s')"
proof (rule test.runs_edf [OF s])
  have "runs (for_each m [0..<n]) (entered s) (\<lambda>_. I (0 + length [0..<n]))"
    by (rule loop_counts [where M = M and m = m and I = I]) (use turn start n in auto)
  then have body: "runs (for_each m [0..<n]) (entered s) (\<lambda>_. I n)" by simp
  show "runs (seq (for_each m [0..<n]) (ret (0 :: int))) (entered s) (\<lambda>r s1. stack_ok s1 \<and> agree_below s s1 \<and>
      runs (call_all test_call (pending (top s1))) s1 (\<lambda>_ s2. \<forall>F. defers_ok s F \<longrightarrow>
        r = 0 \<and> tp (with_stack F (curr s) s2) = tp s \<and> balanced s (with_stack F (curr s) s2)))"
    unfolding runs_seq runs_ret
  proof (rule runs_mono [OF body])
    fix u and s1 :: "test_handler test_state" assume "I n s1"
    then have "counted s n s1" by (rule count)
    then show "stack_ok s1 \<and> agree_below s s1 \<and> runs (call_all test_call (pending (top s1))) s1 (\<lambda>_ s2. \<forall>F. defers_ok s F \<longrightarrow>
        (0 :: int) = 0 \<and> tp (with_stack F (curr s) s2) = tp s \<and> balanced s (with_stack F (curr s) s2))"
      by (simp add: counted_def runs_frees balanced_with_stack) (simp add: ptr_add_def)
  qed
qed

lemma counting_aborts:
  assumes s: "stack_ok s" "curr s < 11" and start: "I 0 (entered s)" and n: "M < n"
    and turn: "\<And>i j s1. I j s1 \<Longrightarrow> j < M \<Longrightarrow> runs (m i) s1 (\<lambda>_. I (Suc j))"
    and full: "\<And>i s1. I M s1 \<Longrightarrow> \<exists>s'. m i s1 = Aborted s'"
  shows "dies_by_abort (edf test_call name loc (seq (for_each m [0..<n]) (ret (0 :: int)))) s"
proof -
  have "\<exists>s'. for_each m [0..<n] (entered s) = Aborted s'"
    by (rule loop_over [where M = M and m = m and I = I and j = 0]) (use turn full start n in auto)
  moreover have "entered s = s\<lparr>err_code := No_Error, curr := curr s + 1\<rparr>" by (simp add: entered_def)
  ultimately show ?thesis
    using s(2) by (auto simp: dies_by_abort_def edf_def errm_clear_def defer_push_def STACK_SIZE_def seq_def bind_def modify_def gets_def ret_def)
qed

lemma start_counted:
  assumes "stack_ok s" "curr s < 11"
  shows "dyn_counted s 0 (entered s)" "static_counted s 0 (entered s)"
proof -
  have "idle (top (entered s))" by (rule idle_top_entered [OF assms])
  then show "dyn_counted s 0 (entered s)" "static_counted s 0 (entered s)"
    using stack_ok_entered [OF assms] holds_objects_idle
    by (simp_all add: dyn_counted_def static_counted_def counted_def pending_idle agree_below_entered idle_def ptr_add_def)
qed

lemma dyn_full:
  assumes "stack_ok s0" "dyn_counted s0 MAX_DYN_DEFERS s"
  shows "\<exists>s'. bind (mocked_malloc i) (\<lambda>p. defer_call H_mocked_free p) s = Aborted s'"
proof -
  let ?s = "s\<lparr>tp := ptr_add (tp s) 1\<rparr>"
  have "0 \<le> curr s" using assms in_function_index by (auto simp: dyn_counted_def counted_def)
  then have "defer_call H_mocked_free (ptr_add (tp s) 1) ?s = Aborted ?s"
    by (intro defer_call_full) (use assms(2) in \<open>simp_all add: dyn_counted_def counted_def\<close>)
  then show ?thesis by (simp add: mocked_malloc_def bind_def seq_def modify_def gets_def)
qed

lemma static_full:
  assumes "stack_ok s0" "static_counted s0 MAX_STATIC_DEFERS s"
  shows "\<exists>s'. bind foo_init (\<lambda>f. static_defer H_foo_free 8 f) s = Aborted s'"
proof -
  let ?s = "s\<lparr>tp := ptr_add (tp s) 1\<rparr>"
  have ok: "stack_ok ?s" "0 \<le> curr ?s" using assms in_function_index by (auto simp: static_counted_def)
  have "static_len (top ?s) = MAX_STATIC_DEFERS" using assms(2) by (auto simp: static_counted_def holds_objects_def)
  then have "static_defer H_foo_free 8 f ?s = Aborted ?s" for f
    using stack_ok_index [OF ok] by (simp add: static_defer_def prog_defs top_def)
  then show ?thesis by (simp add: foo_init_def mocked_malloc_def bind_def seq_def modify_def gets_def ret_def)
qed

section \<open>Property\<close>

lemma settled:
  assumes s: "stack_ok s" "curr s < 11"
  shows "n \<le> MAX_DYN_DEFERS \<Longrightarrow> runs (edf test_call name loc
      (seq (for_each (\<lambda>i. bind (mocked_malloc i) (\<lambda>p. defer_call H_mocked_free p)) [0..<n]) (ret 0))) s
      (\<lambda>r s'. r = (0 :: int) \<and> tp s' = tp s \<and> balanced s s')"
    "MAX_DYN_DEFERS < n \<Longrightarrow> dies_by_abort (edf test_call name loc
      (seq (for_each (\<lambda>i. bind (mocked_malloc i) (\<lambda>p. defer_call H_mocked_free p)) [0..<n]) (ret (0 :: int)))) s"
    "n \<le> MAX_STATIC_DEFERS \<Longrightarrow> runs (edf test_call name loc
      (seq (for_each (\<lambda>i. bind foo_init (\<lambda>f. static_defer H_foo_free 8 f)) [0..<n]) (ret 0))) s
      (\<lambda>r s'. r = (0 :: int) \<and> tp s' = tp s \<and> balanced s s')"
    "MAX_STATIC_DEFERS < n \<Longrightarrow> dies_by_abort (edf test_call name loc
      (seq (for_each (\<lambda>i. bind foo_init (\<lambda>f. static_defer H_foo_free 8 f)) [0..<n]) (ret (0 :: int)))) s"
proof -
  have count: "counted s j s1" if "dyn_counted s j s1" for j s1 using that by (simp add: dyn_counted_def)
  show "n \<le> MAX_DYN_DEFERS \<Longrightarrow> runs (edf test_call name loc
      (seq (for_each (\<lambda>i. bind (mocked_malloc i) (\<lambda>p. defer_call H_mocked_free p)) [0..<n]) (ret 0))) s
      (\<lambda>r s'. r = (0 :: int) \<and> tp s' = tp s \<and> balanced s s')"
    by (rule runs_counting [OF s start_counted(1) [OF s] _ dyn_turn [OF s(1)] count])
  show "MAX_DYN_DEFERS < n \<Longrightarrow> dies_by_abort (edf test_call name loc
      (seq (for_each (\<lambda>i. bind (mocked_malloc i) (\<lambda>p. defer_call H_mocked_free p)) [0..<n]) (ret (0 :: int)))) s"
    by (rule counting_aborts [OF s start_counted(1) [OF s] _ dyn_turn [OF s(1)] dyn_full [OF s(1)]])
  show "n \<le> MAX_STATIC_DEFERS \<Longrightarrow> runs (edf test_call name loc
      (seq (for_each (\<lambda>i. bind foo_init (\<lambda>f. static_defer H_foo_free 8 f)) [0..<n]) (ret 0))) s
      (\<lambda>r s'. r = (0 :: int) \<and> tp s' = tp s \<and> balanced s s')"
    by (rule runs_counting [OF s start_counted(2) [OF s] _ static_turn [OF s(1)] static_counted_counted])
  show "MAX_STATIC_DEFERS < n \<Longrightarrow> dies_by_abort (edf test_call name loc
      (seq (for_each (\<lambda>i. bind foo_init (\<lambda>f. static_defer H_foo_free 8 f)) [0..<n]) (ret (0 :: int)))) s"
    by (rule counting_aborts [OF s start_counted(2) [OF s] _ static_turn [OF s(1)] static_full [OF s(1)]])
qed

lemma do_nothing_undefined: "curr s = - 1 \<Longrightarrow> do_nothing self s = Undefined"
  by (simp add: do_nothing_def STACK_SIZE_def upt_rec seq_def bind_def defer_call_def reads_def curr_index_def)

text \<open>The tests in a fresh process.\<close>

lemma tests_pass:
  assumes "stack_ok s" "curr s < 11" "tp s = null"
  shows "\<forall>t\<in>set defined_tests. t s"
proof -
  have zero: "leaves_p_zero m s" if "runs m s (\<lambda>r s'. r = 0 \<and> tp s' = tp s \<and> balanced s s')" for m
    using that assms(3) by (auto simp: leaves_p_zero_def runs_iff)
  note P = zero [OF settled(1) [OF assms(1,2)]] settled(2) [OF assms(1,2)] zero [OF settled(3) [OF assms(1,2)]] settled(4) [OF assms(1,2)]
  show ?thesis
    unfolding defined_tests_def test_edf_func1_defers_over_max_def test_edf_func2_defers_over_max_def
      test_edf_func1_defers_under_max_def test_edf_func2_defers_under_max_def test_edf_func1_defers_max_def
      test_edf_func2_defers_max_def test_static_defers_under_max_def test_static_defers_over_max_def test_static_defers_max_def
      t_defer_frees_def t_defer_frees_two_args_def t_static_defer_frees_def
    by (simp add: P del: upt_Suc)
qed

text \<open>C37: What the tests of \<open>errm\<close> check with three numbers each holds of every number of calls: up to the limit all that a
  function has deferred is run when it returns, so that \<open>p\<close> is back where it was, and with one call more it
  aborts. The test of the stack's limit has no result: it defers outside any function, below the array of frames.\<close>

theorem errm_tests_settled:
  assumes "stack_ok s" "curr s < 11"
  shows "(if n \<le> MAX_DYN_DEFERS
      then runs (t_defer_frees n) s (\<lambda>r s'. r = 0 \<and> tp s' = tp s \<and> balanced s s') \<and>
        runs (t_defer_frees_two_args n d) s (\<lambda>r s'. r = 0 \<and> tp s' = tp s \<and> balanced s s')
      else dies_by_abort (t_defer_frees n) s \<and> dies_by_abort (t_defer_frees_two_args n d) s) \<and>
    (if n \<le> MAX_STATIC_DEFERS
      then runs (t_static_defer_frees n) s (\<lambda>r s'. r = 0 \<and> tp s' = tp s \<and> balanced s s')
      else dies_by_abort (t_static_defer_frees n) s) \<and>
    (curr s = - 1 \<longrightarrow> do_nothing self s = Undefined)"
  using settled [OF assms] do_nothing_undefined [of s]
  unfolding t_defer_frees_def t_defer_frees_two_args_def t_static_defer_frees_def by simp

definition test_start :: "test_handler test_state" where
  "test_start = \<lparr>blocks = (\<lambda>_. None), next_blk = 0, grants = (\<lambda>_. True), requests = 0, errno_of = 0, stdout_of = [],
     stderr_of = [], err_code = No_Error, frames = fresh_stack, curr = - 1, tp = null\<rparr>"

theorem errm_tests_settled_witness:
  "runs (t_defer_frees 12) test_start (\<lambda>r s'. tp s' = null) \<and> dies_by_abort (t_defer_frees 13) test_start \<and>
   dies_by_abort (t_static_defer_frees 7) test_start \<and> do_nothing H_foo_free test_start = Undefined"
proof -
  have s: "stack_ok test_start" "curr test_start < 11" "tp test_start = null" "curr test_start = - 1"
    by (simp_all add: test_start_def stack_ok_fresh)
  have zero: "runs m test_start (\<lambda>r s'. tp s' = null)" if "runs m test_start (\<lambda>r s'. r = 0 \<and> tp s' = null \<and> balanced test_start s')" for m :: "(int, test_handler test_state) prog"
    by (rule runs_mono [OF that]) simp
  show ?thesis
    using errm_tests_settled [OF s(1,2), of 12] errm_tests_settled [OF s(1,2), of 13] errm_tests_settled [OF s(1,2), of 7] s(3,4)
    by (simp add: MAX_DYN_DEFERS_def MAX_STATIC_DEFERS_def zero)
qed

end
