(* ===== verification/Dga_Example.thy ===== *)
theory Dga_Example
  imports Dga
begin

text \<open>
  \<open>src/dga/example.c\<close>: a program over the arrays of \<open>src/dga\<close> that fills and prints an array of structs, reads and
  draws two matrices and copies the rest of its input to its output. What its standard streams deliver and take is
  a parameter.
\<close>

section \<open>Streams\<close>

text \<open>\<open>fread\<close> of so many bytes and \<open>getchar\<close> go through the buffer of \<open>stdin\<close>; \<open>read\<close> and \<open>write\<close> go to the
  kernel and give \<open>errno\<close> or the bytes read and the number of bytes written.\<close>

record 'e stdio =
  in_items :: "'e \<Rightarrow> nat \<Rightarrow> string \<times> 'e"
  in_char :: "'e \<Rightarrow> 'e"
  in_bytes :: "'e \<Rightarrow> nat \<Rightarrow> (int + string) \<times> 'e"
  out_bytes :: "'e \<Rightarrow> string \<Rightarrow> (int + nat) \<times> 'e"
  error_text :: "int \<Rightarrow> string"

record 'e program = proc +
  host :: 'e

section \<open>Integers in memory\<close>

text \<open>An \<open>int\<close> is four bytes, the least significant one first.\<close>

definition int_bytes :: "u32 \<Rightarrow> mval list" where
  "int_bytes w = map (\<lambda>i. Chr (char_of (unat w div 256 ^ i mod 256))) [0..<4]"

definition dec_int :: "mval list \<Rightarrow> u32 option" where
  "dec_int bs = (case bs of
       [Chr a, Chr b, Chr c, Chr d] \<Rightarrow>
         Some (of_nat (of_char a + 256 * of_char b + 65536 * of_char c + 16777216 * of_char d))
     | _ \<Rightarrow> None)"

lemma length_int_bytes [simp]: "length (int_bytes w) = 4"
  by (simp add: int_bytes_def)

lemma bytes_of_nat:
  fixes n :: nat
  assumes "n < 4294967296"
  shows "n mod 256 + 256 * (n div 256 mod 256) + 65536 * (n div 65536 mod 256) + 16777216 * (n div 16777216 mod 256) = n"
proof -
  have q: "n div 65536 = n div 256 div 256" "n div 16777216 = n div 256 div 256 div 256"
    by (simp_all add: div_mult2_eq [symmetric])
  have "n div 256 div 256 div 256 < 256" using assms by (simp add: less_mult_imp_div_less)
  then have top: "n div 256 div 256 div 256 mod 256 = n div 256 div 256 div 256" by simp
  show ?thesis
    unfolding q top
    using mod_mult_div_eq [of n 256] mod_mult_div_eq [of "n div 256" 256] mod_mult_div_eq [of "n div 256 div 256" 256] by linarith
qed

lemma dec_int_bytes [simp]: "dec_int (int_bytes w) = Some w"
proof -
  have "unat w < 4294967296" using unsigned_less [of w] by simp
  note sum = bytes_of_nat [OF this]
  have "dec_int (int_bytes w) = Some (of_nat (unat w mod 256 + 256 * (unat w div 256 mod 256) +
      65536 * (unat w div 65536 mod 256) + 16777216 * (unat w div 16777216 mod 256)))"
    by (simp add: dec_int_def int_bytes_def upt_rec numeral_eq_Suc [of "num.One"] power3_eq_cube power2_eq_square
        del: of_nat_add of_nat_mult)
  then show ?thesis unfolding sum by simp
qed

definition load_int :: "ptr \<Rightarrow> (u32, 'z proc_scheme) prog" where
  "load_int p = reads (\<lambda>s. Option.bind (peek s p 4) dec_int)"

definition store_int :: "ptr \<Rightarrow> u32 \<Rightarrow> (unit, 'z proc_scheme) prog" where
  "store_int p w = store_bytes p (int_bytes w)"

text \<open>A \<open>char\<close> and \<open>n\<close> of them; reading a byte nothing was stored in is undefined.\<close>

definition dec_chars :: "mval list \<Rightarrow> string option" where
  "dec_chars bs = those (map (\<lambda>b. case b of Chr c \<Rightarrow> Some c | _ \<Rightarrow> None) bs)"

definition load_chars :: "ptr \<Rightarrow> nat \<Rightarrow> (string, 'z proc_scheme) prog" where
  "load_chars p n = reads (\<lambda>s. Option.bind (peek s p n) dec_chars)"

lemma dec_chars_Chr [simp]: "dec_chars (map Chr x) = Some x"
  by (induction x) (simp_all add: dec_chars_def)

section \<open>The array of structs\<close>

text \<open>\<open>struct foo\<close>: \<open>a\<close> at its start and \<open>b\<close> behind it; the compound literal stores both.\<close>

definition sizeof_foo :: u64 where "sizeof_foo = 8"

definition store_foo :: "ptr \<Rightarrow> u32 \<Rightarrow> u32 \<Rightarrow> (unit, 'z proc_scheme) prog" where
  "store_foo p a b = store_bytes p (int_bytes a @ int_bytes b)"

text \<open>The first argument of a loop is fuel.\<close>

fun fill_loop :: "nat \<Rightarrow> ptr \<Rightarrow> u64 \<Rightarrow> (unit, 'z proc_scheme) prog" where
  "fill_loop 0 foo_arr i = (\<lambda>s. OutOfFuel)"
| "fill_loop (Suc k) foo_arr i =
     bind (dga_len foo_arr) (\<lambda>n.
       if i < n
       then seq (store_foo (ptr_add foo_arr (8 * int (unat i))) (ucast i) (ucast (i * 2))) (fill_loop k foo_arr (i + 1))
       else ret ())"

fun print_loop :: "nat \<Rightarrow> ptr \<Rightarrow> ptr \<Rightarrow> (unit, 'z proc_scheme) prog" where
  "print_loop 0 foo_arr f = (\<lambda>s. OutOfFuel)"
| "print_loop (Suc k) foo_arr f =
     bind (dga_len foo_arr) (\<lambda>n.
       if poff f < poff (ptr_add foo_arr (8 * int (unat n)))
       then bind (load_int f) (\<lambda>a.
            bind (load_int (ptr_add f 4)) (\<lambda>b.
            seq (print_out (''a: '' @ show_int (sint a) @ '', b: '' @ show_int (sint b) @ nl))
                (print_loop k foo_arr (ptr_add f 8))))
       else ret ())"

definition struct_array :: "nat \<Rightarrow> (unit, 'z proc_scheme) prog" where
  "struct_array fuel =
     bind (dga_new 4 sizeof_foo) (\<lambda>foo_arr.
     seq (fill_loop fuel foo_arr 0)
    (seq (print_loop fuel foo_arr foo_arr)
    (dga_free foo_arr)))"

section \<open>The matrices\<close>

text \<open>\<open>matrix[i][k][j]\<close>; the text of a failed \<open>assert\<close> is left out.\<close>

definition draw_cell :: "ptr \<Rightarrow> nat \<Rightarrow> nat \<Rightarrow> nat \<Rightarrow> nat \<Rightarrow> nat \<Rightarrow> (unit, 'z proc_scheme) prog" where
  "draw_cell matrix h w i k j =
     bind (load_chars (ptr_add matrix (int (i * (h * w) + k * w + j))) 1) (\<lambda>c. print_out (c @ '' ''))"

definition draw_matrix :: "'e stdio \<Rightarrow> u64 \<Rightarrow> u64 \<Rightarrow> u64 \<Rightarrow> (unit, 'e program) prog" where
  "draw_matrix I len h w =
     (if \<not> (h * w > 0 \<and> len > 0) then abort_prog
      else bind (dga_new len (h * w)) (\<lambda>matrix.
           bind (gets (\<lambda>s. in_items I (host s) (unat (h * w) * unat len))) (\<lambda>(bytes, e').
           seq (modify (\<lambda>s. s\<lparr>host := e'\<rparr>))
          (seq (store_bytes matrix (map Chr bytes))
          (let er = of_nat (length bytes div unat (h * w)) :: u64 in
             if er \<noteq> len
             then seq (dga_free matrix)
                 (print_err (''error in fread, with '' @ show_int (sint er) @ '' elments read'' @ nl))
             else seq (modify (\<lambda>s. s\<lparr>host := in_char I (host s)\<rparr>))
                 (seq (for_each (\<lambda>i. for_each (\<lambda>j. seq (for_each (\<lambda>k.
                         draw_cell matrix (unat h) (unat w) i k j) [0..<unat h]) (print_out nl)) [0..<unat w]) [0..<unat len])
                 (dga_free matrix)))))))"

section \<open>The copy\<close>

definition perror :: "'e stdio \<Rightarrow> string \<Rightarrow> (unit, 'e program) prog" where
  "perror I what = bind (gets errno_of) (\<lambda>e. print_err (what @ '': '' @ error_text I e @ nl))"

text \<open>\<open>read\<close> into an array; \<open>br\<close> and \<open>bw\<close> are \<open>int\<close>s made from an \<open>ssize_t\<close>.\<close>

definition to_int :: "int \<Rightarrow> int" where
  "to_int n = sint (of_int n :: u32)"

definition read_into :: "'e stdio \<Rightarrow> ptr \<Rightarrow> u64 \<Rightarrow> (int, 'e program) prog" where
  "read_into I buf n =
     bind (gets (\<lambda>s. in_bytes I (host s) (unat n))) (\<lambda>(r, e').
     seq (modify (\<lambda>s. s\<lparr>host := e'\<rparr>))
    (case r of
       Inl e \<Rightarrow> seq (modify (\<lambda>s. s\<lparr>errno_of := e\<rparr>)) (ret (- 1))
     | Inr bytes \<Rightarrow> seq (store_bytes buf (map Chr bytes)) (ret (to_int (int (length bytes))))))"

definition write_from :: "'e stdio \<Rightarrow> ptr \<Rightarrow> nat \<Rightarrow> (int, 'e program) prog" where
  "write_from I buf n =
     bind (load_chars buf n) (\<lambda>bytes.
     bind (gets (\<lambda>s. out_bytes I (host s) bytes)) (\<lambda>(r, e').
     seq (modify (\<lambda>s. s\<lparr>host := e'\<rparr>))
    (case r of
       Inl e \<Rightarrow> seq (modify (\<lambda>s. s\<lparr>errno_of := e\<rparr>)) (ret (- 1))
     | Inr m \<Rightarrow> ret (to_int (int m)))))"

text \<open>The label \<open>fail\<close>.\<close>

definition copy_fail :: "ptr \<Rightarrow> (int, 'e program) prog" where
  "copy_fail buf = seq (dga_free buf) (ret 1)"

text \<open>The two ways the size of the buffer changes in a turn; \<open>None\<close> is the jump to \<open>fail\<close>.\<close>

definition grow_full :: "ptr \<Rightarrow> int \<Rightarrow> (ptr option, 'e program) prog" where
  "grow_full buf br =
     bind (dga_len buf) (\<lambda>n.
       if n = ucast (of_int br :: u32)
       then bind (dga_len buf) (\<lambda>n.
            bind (dga_grow buf (n * 2)) (\<lambda>tmp.
              if tmp = null then seq (print_err (''error growing array.'' @ nl)) (ret None) else ret (Some tmp)))
       else ret (Some buf))"

definition shrink_rest :: "ptr \<Rightarrow> int \<Rightarrow> (ptr option, 'e program) prog" where
  "shrink_rest buf br =
     bind (dga_len buf) (\<lambda>n.
       if n > ucast (of_int br :: u32)
       then bind (dga_resize buf (of_int br)) (\<lambda>tmp.
              if tmp = null then seq (print_err (''error shrinking array.'' @ nl)) (ret None) else ret (Some tmp))
       else ret (Some buf))"

fun copy_loop :: "nat \<Rightarrow> 'e stdio \<Rightarrow> ptr \<Rightarrow> (int, 'e program) prog" where
  "copy_loop 0 I buf = (\<lambda>s. OutOfFuel)"
| "copy_loop (Suc k) I buf =
     bind (dga_len buf) (\<lambda>n.
     bind (read_into I buf n) (\<lambda>br.
       if br = 0 then seq (dga_free buf) (seq (print_out (''exit..'' @ nl)) (ret 0))
       else if br < 0 then seq (perror I ''read'') (copy_fail buf)
       else bind (grow_full buf br) (\<lambda>r. case r of None \<Rightarrow> copy_fail buf | Some buf \<Rightarrow>
            bind (shrink_rest buf br) (\<lambda>r. case r of None \<Rightarrow> copy_fail buf | Some buf \<Rightarrow>
            bind (write_from I buf (nat br)) (\<lambda>bw.
              if bw = - 1 then seq (perror I ''write'') (copy_fail buf) else copy_loop k I buf)))))"

definition example_main :: "nat \<Rightarrow> 'e stdio \<Rightarrow> (int, 'e program) prog" where
  "example_main fuel I =
     seq (struct_array fuel)
    (seq (draw_matrix I 1 2 2)
    (seq (draw_matrix I 1 3 3)
    (bind (dga_new 2 1) (\<lambda>buf. copy_loop fuel I buf))))"

section \<open>The buffer of the copy\<close>

text \<open>\<open>has_buffer B p n x s\<close>: besides the objects \<open>B\<close> there is the array \<open>p\<close> of \<open>n\<close> characters, which starts with \<open>x\<close>.\<close>

definition has_buffer :: "(base \<Rightarrow> mval list option) \<Rightarrow> ptr \<Rightarrow> u64 \<Rightarrow> string \<Rightarrow> 'z proc_scheme \<Rightarrow> bool" where
  "has_buffer B p n x s \<longleftrightarrow> healthy s \<and> (\<exists>pl. dga_ok s p n 1 pl \<and> take (length x) pl = map Chr x) \<and>
     B (pbase p) = None \<and> (\<forall>b. b \<noteq> pbase p \<longrightarrow> blocks s b = B b)"

lemma has_bufferE:
  assumes "has_buffer B p n x s"
  obtains pl where "healthy s" "dga_ok s p n 1 pl" "length pl = unat n" "take (length x) pl = map Chr x"
    "length x \<le> unat n" "B (pbase p) = None" "\<And>b. b \<noteq> pbase p \<Longrightarrow> blocks s b = B b" "is_dga s p n 1 pl"
proof -
  from assms obtain pl where pl: "healthy s" "dga_ok s p n 1 pl" "take (length x) pl = map Chr x" "B (pbase p) = None"
    "\<And>b. b \<noteq> pbase p \<Longrightarrow> blocks s b = B b" by (auto simp: has_buffer_def)
  have len: "length pl = unat n" using dga.rep_length [OF pl(2)] by simp
  have "length x \<le> unat n" using arg_cong [OF pl(3), of length] len by simp
  with pl len show thesis by (auto intro!: that simp: dga_ok_def)
qed

definition same_io :: "'e program \<Rightarrow> 'e program \<Rightarrow> bool" where
  "same_io s s' \<longleftrightarrow> host s' = host s \<and> stdout_of s' = stdout_of s"

lemma same_io_refl [simp]: "same_io s s"
  by (simp add: same_io_def)

lemma same_io_trans: "same_io s s1 \<Longrightarrow> same_io s1 s2 \<Longrightarrow> same_io s s2"
  by (simp add: same_io_def)

lemma heap_only_program: "heap_only s s' \<Longrightarrow> same_io s s'"
  by (auto simp: heap_only_def same_io_def)

lemma runs_buffer_len:
  "has_buffer B p n x s \<Longrightarrow> runs (dga_len p) s Q \<longleftrightarrow> Q n s"
  by (auto elim!: has_bufferE simp: runs_dga_len)

lemma moved_buffer:
  assumes "has_buffer B p n x s" "heap_ext s s'" "dga_ok s' q m 1 pl" "take (length x) pl = map Chr x"
    and "blocks s (pbase q) = None" "blocks s' (pbase p) = None" "untouched {pbase p, pbase q} s s'"
  shows "has_buffer B q m x s'"
proof -
  obtain pl0 where s: "healthy s" "dga_ok s p n 1 pl0" "B (pbase p) = None" "\<And>b. b \<noteq> pbase p \<Longrightarrow> blocks s b = B b"
    using has_bufferE [OF assms(1)] by metis
  have "pbase q \<noteq> pbase p" using dga.rep_live [OF s(2)] assms(5) by auto
  then show ?thesis
    using heap_ext_healthy [OF s(1) assms(2)] assms(3-7) s(3,4) by (auto simp: has_buffer_def untouched_def) metis
qed

lemma small_int:
  assumes "m < 2 ^ 31"
  shows "to_int (int m) = int m" "unat (ucast (of_int (int m) :: u32) :: u64) = m" "unat (of_int (int m) :: u64) = m"
proof -
  show "to_int (int m) = int m"
    using assms by (simp add: to_int_def signed_of_nat signed_take_bit_int_eq_self)
  have "unat (of_nat m :: u32) = m" using assms by (simp add: unat_of_nat)
  then show "unat (ucast (of_int (int m) :: u32) :: u64) = m"
    using assms by (simp add: unsigned_ucast_eq take_bit_nat_eq_self)
  show "unat (of_int (int m) :: u64) = m" using assms by (simp add: unat_of_nat)
qed

lemma runs_grow_full:
  assumes "has_buffer B p n x s" "0 < length x" "unat n < 2 ^ 31"
  shows "runs (grow_full p (int (length x))) s (\<lambda>r s'. \<exists>q k. r = Some q \<and> has_buffer B q k x s' \<and> same_io s s')"
proof -
  obtain pl where pl: "healthy s" "dga_ok s p n 1 pl" "length pl = unat n" "take (length x) pl = map Chr x" "length x \<le> unat n"
    "is_dga s p n 1 pl"
    using has_bufferE [OF assms(1)] by metis
  note br = small_int [of "length x"]
  have two: "unat (n * 2) = unat n * 2" using assms(3) by (subst unat_mult_lem [THEN iffD1]) auto
  have sum: "unat (n + n * 2) = unat n + unat n * 2" using assms(3) two by (subst unat_add_lem [THEN iffD1]) auto
  then have "fits (n + n * 2) 1" using assms(3) by (simp add: fits_def)
  from dga.grow_spec [OF pl(1,2) this]
  have "runs (dga_grow p (n * 2)) s (\<lambda>tmp s'. runs (if tmp = null then seq (print_err (''error growing array.'' @ nl)) (ret None)
      else ret (Some tmp)) s' (\<lambda>r s'. \<exists>q k. r = Some q \<and> has_buffer B q k x s' \<and> same_io s s'))"
  proof (rule runs_mono)
    fix q s1
    assume q: "q \<noteq> null \<and> heap_ext s s1 \<and> dga_ok s1 q (n + n * 2) 1 (resized (unat (n + n * 2) * unat (1 :: u64)) pl) \<and>
      blocks s (pbase q) = None \<and> blocks s1 (pbase p) = None \<and> untouched {pbase p, pbase q} s s1"
    have "take (length x) (resized (unat (n + n * 2) * unat (1 :: u64)) pl) = map Chr x"
      using pl(3-5) unfolding sum resized_def by simp
    then have "has_buffer B q (n + n * 2) x s1"
      using moved_buffer [OF assms(1)] q by blast
    with q show "runs (if q = null then seq (print_err (''error growing array.'' @ nl)) (ret None) else ret (Some q)) s1
        (\<lambda>r s'. \<exists>q k. r = Some q \<and> has_buffer B q k x s' \<and> same_io s s')"
      by (auto simp: runs_ret heap_ext_def intro: heap_only_program)
  qed
  then show ?thesis
    using assms(1) by (auto simp: grow_full_def runs_bind runs_dga_len [OF pl(6)] runs_ret)
qed

lemma runs_shrink_rest:
  assumes "has_buffer B p n x s" "length x < 2 ^ 31"
  shows "runs (shrink_rest p (int (length x))) s (\<lambda>r s'. \<exists>q. r = Some q \<and> has_buffer B q (of_nat (length x)) x s' \<and> same_io s s')"
proof -
  obtain pl where pl: "healthy s" "dga_ok s p n 1 pl" "length pl = unat n" "take (length x) pl = map Chr x" "length x \<le> unat n"
    "is_dga s p n 1 pl"
    using has_bufferE [OF assms(1)] by metis
  note br = small_int [OF assms(2)]
  let ?m = "of_int (int (length x)) :: u64"
  have "fits ?m 1" using assms(2) by (simp add: fits_def br(3) del: of_int_of_nat_eq)
  from dga_cut.cut [OF pl(1,2) this]
  have "runs (dga_resize p ?m) s (\<lambda>tmp s'. runs (if tmp = null then seq (print_err (''error shrinking array.'' @ nl)) (ret None)
      else ret (Some tmp)) s' (\<lambda>r s'. \<exists>q. r = Some q \<and> has_buffer B q ?m x s' \<and> same_io s s'))"
  proof (rule runs_mono)
    fix q s1
    assume q: "q \<noteq> null \<and> heap_ext s s1 \<and> dga_ok s1 q ?m 1 (take (unat ?m * unat (1 :: u64)) pl) \<and>
      blocks s (pbase q) = None \<and> blocks s1 (pbase p) = None \<and> untouched {pbase p, pbase q} s s1"
    have "take (length x) (take (unat ?m * unat (1 :: u64)) pl) = map Chr x"
      using pl(4) by (simp add: br(3) del: of_int_of_nat_eq)
    then have "has_buffer B q ?m x s1"
      using moved_buffer [OF assms(1)] q by blast
    with q show "runs (if q = null then seq (print_err (''error shrinking array.'' @ nl)) (ret None) else ret (Some q)) s1
        (\<lambda>r s'. \<exists>q. r = Some q \<and> has_buffer B q ?m x s' \<and> same_io s s')"
      by (auto simp: runs_ret heap_ext_def intro: heap_only_program)
  qed (use pl(5) br(3) in simp)
  moreover have "n = ?m" if "\<not> n > ucast (of_int (int (length x)) :: u32)"
    using that pl(5) br(2,3) by (auto simp: word_less_nat_alt word_unat_eq_iff)
  ultimately show ?thesis
    using assms(1) by (auto simp: shrink_rest_def runs_bind runs_dga_len [OF pl(6)] runs_ret)
qed

section \<open>What the streams promise\<close>

text \<open>A view of the outside: the input that \<open>stdin\<close> has buffered and what is still to be read from the kernel, and what
  has been written. \<open>read\<close> fails or gives some of the rest, and nothing only at its end; \<open>write\<close> fails or takes as many of
  the bytes as it says; \<open>fread\<close> and \<open>getchar\<close> take from the buffer and the rest, and may buffer more.\<close>

record 'e pipe =
  ahead :: "'e \<Rightarrow> string"
  rest :: "'e \<Rightarrow> string"
  copied :: "'e \<Rightarrow> string"

definition kernel_laws :: "'e stdio \<Rightarrow> 'e pipe \<Rightarrow> bool" where
  "kernel_laws I V \<longleftrightarrow>
     (\<forall>e n. 0 < n \<longrightarrow> (case in_bytes I e n of (r, e') \<Rightarrow> copied V e' = copied V e \<and> (case r of
          Inl c \<Rightarrow> rest V e' = rest V e
        | Inr x \<Rightarrow> length x \<le> n \<and> (x = [] \<longrightarrow> rest V e = []) \<and> rest V e = x @ rest V e'))) \<and>
     (\<forall>e bs. case out_bytes I e bs of (r, e') \<Rightarrow> rest V e' = rest V e \<and> (case r of
          Inl c \<Rightarrow> copied V e' = copied V e
        | Inr m \<Rightarrow> m \<le> length bs \<and> copied V e' = copied V e @ take m bs))"

lemma kernel_lawsD:
  assumes "kernel_laws I V"
  shows "0 < n \<Longrightarrow> in_bytes I e n = (Inr x, e') \<Longrightarrow>
      length x \<le> n \<and> (x = [] \<longrightarrow> rest V e = []) \<and> rest V e = x @ rest V e' \<and> copied V e' = copied V e"
    "out_bytes I e bs = (Inr m, e') \<Longrightarrow> m \<le> length bs \<and> rest V e' = rest V e \<and> copied V e' = copied V e @ take m bs"
proof -
  note parts = assms [unfolded kernel_laws_def]
  show "length x \<le> n \<and> (x = [] \<longrightarrow> rest V e = []) \<and> rest V e = x @ rest V e' \<and> copied V e' = copied V e"
    if "0 < n" "in_bytes I e n = (Inr x, e')"
    using parts [THEN conjunct1, rule_format, OF that(1), of e] that(2) by auto
  show "m \<le> length bs \<and> rest V e' = rest V e \<and> copied V e' = copied V e @ take m bs" if "out_bytes I e bs = (Inr m, e')"
    using parts [THEN conjunct2, rule_format, of e bs] that by simp
qed

definition buffer_laws :: "'e stdio \<Rightarrow> 'e pipe \<Rightarrow> bool" where
  "buffer_laws I V \<longleftrightarrow>
     (\<forall>e n. fst (in_items I e n) = take n (ahead V e @ rest V e) \<and>
       ahead V (snd (in_items I e n)) @ rest V (snd (in_items I e n)) = drop n (ahead V e @ rest V e)) \<and>
     (\<forall>e. ahead V (in_char I e) @ rest V (in_char I e) = drop 1 (ahead V e @ rest V e))"

text \<open>What the copy does with the outside, without a buffer of its own: it reads as much as the last read gave, at first
  \<open>n\<close>, and hands every read to one \<open>write\<close>; what that does not take is dropped. The result is whether it came to the end
  of the input; \<open>None\<close> where it has not after \<open>k\<close> reads.\<close>

fun relay :: "nat \<Rightarrow> 'e stdio \<Rightarrow> nat \<Rightarrow> 'e \<Rightarrow> (bool \<times> 'e) option" where
  "relay 0 I n e = None"
| "relay (Suc k) I n e = (case in_bytes I e n of
       (Inl c, e1) \<Rightarrow> Some (False, e1)
     | (Inr x, e1) \<Rightarrow> if x = [] then Some (True, e1) else (case out_bytes I e1 x of
           (Inl c, e2) \<Rightarrow> Some (False, e2)
         | (Inr m, e2) \<Rightarrow> relay k I (length x) e2))"

lemma relay_ends:
  assumes L: "kernel_laws I V"
  shows "0 < n \<Longrightarrow> length (rest V e) < k \<Longrightarrow> \<exists>b e'. relay k I n e = Some (b, e')"
proof (induction k arbitrary: n e)
  case (Suc k)
  have "\<exists>b e'. relay k I (length x) e2 = Some (b, e')"
    if "in_bytes I e n = (Inr x, e1)" "x \<noteq> []" "out_bytes I e1 x = (Inr m, e2)" for x e1 m e2
    using kernel_lawsD(1) [OF L Suc.prems(1) that(1)] kernel_lawsD(2) [OF L that(3)] that(2) Suc.prems(2)
    by (intro Suc.IH) (auto simp: neq_Nil_conv)
  then show ?case by (auto split: prod.split sum.split)
qed simp

text \<open>Where nothing fails and no write falls short, all the rest is copied.\<close>

definition reliable :: "'e stdio \<Rightarrow> bool" where
  "reliable I \<longleftrightarrow> (\<forall>e n. \<exists>x. fst (in_bytes I e n) = Inr x) \<and> (\<forall>e bs. fst (out_bytes I e bs) = Inr (length bs))"

lemma relay_all:
  assumes L: "kernel_laws I V" and R: "reliable I"
  shows "0 < n \<Longrightarrow> relay k I n e = Some (b, e') \<Longrightarrow> b \<and> copied V e' = copied V e @ rest V e"
proof (induction k arbitrary: n e)
  case (Suc k)
  obtain x e1 where x: "in_bytes I e n = (Inr x, e1)" using R unfolding reliable_def by (metis prod.collapse)
  note D = kernel_lawsD(1) [OF L Suc.prems(1) x]
  show ?case
  proof (cases "x = []")
    case True
    with Suc.prems(2) x D show ?thesis by simp
  next
    case False
    obtain e2 where e2: "out_bytes I e1 x = (Inr (length x), e2)" using R unfolding reliable_def by (metis prod.collapse)
    have "b \<and> copied V e' = copied V e2 @ rest V e2"
      by (rule Suc.IH) (use False Suc.prems(2) x e2 in simp_all)
    with D kernel_lawsD(2) [OF L e2] show ?thesis by simp
  qed
qed simp

lemma has_buffer_host [simp]: "has_buffer B p n x (s\<lparr>host := e\<rparr>) = has_buffer B p n x s" for s :: "'e program"
proof -
  have "dga_ok (s\<lparr>host := e\<rparr>) p n 1 pl = dga_ok s p n 1 pl" for pl
    by (rule iffI; erule dga.rep_local; simp)
  then show ?thesis by (simp add: has_buffer_def healthy_def mem_ok_def never_oom_def)
qed

lemma has_buffer_errno [simp]: "has_buffer B p n x (s\<lparr>errno_of := c\<rparr>) = has_buffer B p n x s" for s :: "'e program"
proof -
  have "dga_ok (s\<lparr>errno_of := c\<rparr>) p n 1 pl = dga_ok s p n 1 pl" for pl
    by (rule iffI; erule dga.rep_local; simp)
  then show ?thesis by (simp add: has_buffer_def healthy_def mem_ok_def never_oom_def)
qed

lemma runs_read_fails:
  fixes s :: "'e program"
  assumes "in_bytes I (host s) (unat n) = (Inl c, e')"
  shows "runs (read_into I p n) s Q \<longleftrightarrow> Q (- 1) (s\<lparr>host := e', errno_of := c\<rparr>)"
  using assms by (simp add: read_into_def runs_simps)

lemma runs_read_into:
  assumes s: "has_buffer B p n [] s" and n: "unat n < 2 ^ 31"
    and x: "in_bytes I (host s) (unat n) = (Inr x, e')" "length x \<le> unat n"
  shows "runs (read_into I p n) s (\<lambda>br s'. br = int (length x) \<and> host s' = e' \<and> stdout_of s' = stdout_of s \<and> has_buffer B p n x s')"
    (is "runs _ s ?Q")
proof -
  obtain pl where pl: "healthy s" "dga_ok s p n 1 pl" "length pl = unat n" "B (pbase p) = None"
    "\<And>b. b \<noteq> pbase p \<Longrightarrow> blocks s b = B b"
    using has_bufferE [OF s] by metis
  let ?s = "s\<lparr>host := e'\<rparr>"
  have s1: "healthy ?s" "dga_ok ?s p n 1 pl"
    using pl(1) dga.rep_local [OF pl(2)] by (simp_all add: healthy_def mem_ok_def never_oom_def)
  have "runs (store_bytes (ptr_add p (int 0)) (map Chr x)) ?s (\<lambda>_ s'. heap_ext ?s s' \<and>
      dga_ok s' p n 1 (splice 0 (map Chr x) pl) \<and> untouched {pbase p} ?s s')"
    by (rule dga_store [OF s1]) (use x(2) pl(3) in simp)
  then have store: "runs (store_bytes p (map Chr x)) ?s (\<lambda>_ s'. heap_ext ?s s' \<and>
      dga_ok s' p n 1 (splice 0 (map Chr x) pl) \<and> untouched {pbase p} ?s s')"
    by (simp add: ptr_add_def)
  have "runs (store_bytes p (map Chr x)) ?s (\<lambda>_ s'. ?Q (int (length x)) s')"
  proof (rule runs_mono [OF store], elim conjE)
    fix s'
    assume s': "heap_ext ?s s'" "dga_ok s' p n 1 (splice 0 (map Chr x) pl)" "untouched {pbase p} ?s s'"
    have "take (length x) (splice 0 (map Chr x) pl) = map Chr x"
      by (simp add: splice_def)
    then have "has_buffer B p n x s'"
      using heap_ext_healthy [OF s1(1) s'(1)] s'(2,3) pl(4,5) by (auto simp: has_buffer_def untouched_def)
    moreover have "same_io ?s s'" using s'(1) by (simp add: heap_ext_def heap_only_program)
    ultimately show "?Q (int (length x)) s'" by (simp add: same_io_def)
  qed
  moreover have "to_int (int (length x)) = int (length x)" by (rule small_int(1)) (use x(2) n in linarith)
  ultimately show ?thesis
    using x(1) by (simp add: read_into_def runs_simps)
qed

lemma runs_write_from:
  assumes s: "has_buffer B p n x s" and o: "out_bytes I (host s) x = (w, e')"
  shows "runs (write_from I p (length x)) s Q \<longleftrightarrow> (case w of
    Inl c \<Rightarrow> Q (- 1) (s\<lparr>host := e', errno_of := c\<rparr>) | Inr m \<Rightarrow> Q (to_int (int m)) (s\<lparr>host := e'\<rparr>))"
proof -
  obtain pl where pl: "dga_ok s p n 1 pl" "length pl = unat n" "take (length x) pl = map Chr x" "length x \<le> unat n"
    using has_bufferE [OF s] by metis
  have "peek s p (length x) = Some (map Chr x)"
    using dga_load [OF pl(1), of 0 "length x"] pl(2-4) by (simp add: ptr_add_def)
  with o show ?thesis by (simp add: write_from_def load_chars_def runs_simps split: sum.split)
qed

lemma runs_copy_fail:
  fixes s :: "'e program"
  assumes "has_buffer B p n x s"
  shows "runs (seq (perror I what) (copy_fail p)) s (\<lambda>r s'. r = 1 \<and> host s' = host s \<and> stdout_of s' = stdout_of s \<and> blocks s' = B)"
proof -
  obtain pl where pl: "is_dga s p n 1 pl" "B (pbase p) = None" "\<And>b. b \<noteq> pbase p \<Longrightarrow> blocks s b = B b"
    using has_bufferE [OF assms] by metis
  have "(blocks s)(pbase p := None) = B" using pl(2,3) by auto
  moreover have "is_dga (s\<lparr>stderr_of := x\<rparr>) p n 1 pl" for x using pl(1) by (simp add: is_dga_def peek_def)
  note free = runs_dga_free [OF this]
  ultimately show ?thesis
    by (simp add: perror_def copy_fail_def print_err_def runs_simps free)
qed

section \<open>The copy as a whole\<close>

lemma runs_resize_buffer:
  assumes "has_buffer B p n x s" "0 < length x" "unat n < 2 ^ 31"
  shows "runs (bind (grow_full p (int (length x))) (\<lambda>r. case r of None \<Rightarrow> ret None | Some q \<Rightarrow> shrink_rest q (int (length x)))) s
    (\<lambda>r s'. \<exists>q. r = Some q \<and> has_buffer B q (of_nat (length x)) x s' \<and> same_io s s')"
proof -
  have len: "length x < 2 ^ 31"
    using has_bufferE [OF assms(1)] assms(3) by (metis le_less_trans)
  show ?thesis
    unfolding runs_bind
  proof (rule runs_mono [OF runs_grow_full [OF assms]], elim exE conjE)
    fix r s1 q k assume r: "r = Some q" "has_buffer B q k x s1" "same_io s s1"
    show "runs (case r of None \<Rightarrow> ret None | Some q \<Rightarrow> shrink_rest q (int (length x))) s1
        (\<lambda>r s'. \<exists>q. r = Some q \<and> has_buffer B q (of_nat (length x)) x s' \<and> same_io s s')"
      unfolding r(1) option.case by (rule runs_mono [OF runs_shrink_rest [OF r(2) len]]) (use same_io_trans [OF r(3)] in blast)
  qed
qed

lemma runs_copy_loop:
  fixes s :: "'e program"
  assumes L: "kernel_laws I V"
  shows "has_buffer B p n y s \<Longrightarrow> 0 < unat n \<Longrightarrow> unat n < 2 ^ 31 \<Longrightarrow> relay k I (unat n) (host s) = Some (b, e) \<Longrightarrow>
    runs (copy_loop k I p) s (\<lambda>r s'. r = (if b then 0 else 1) \<and> host s' = e \<and>
      stdout_of s' = stdout_of s @ (if b then ''exit..'' @ nl else []) \<and> blocks s' = B)"
proof (induction k arbitrary: p n y s)
  case 0
  then show ?case by simp
next
  case (Suc k)
  let ?Q = "\<lambda>r s'. r = (if b then 0 else 1) \<and> host s' = e \<and> stdout_of s' = stdout_of s @ (if b then ''exit..'' @ nl else []) \<and>
      blocks s' = B"
  let ?turn = "\<lambda>br. if br = 0 then seq (dga_free p) (seq (print_out (''exit..'' @ nl)) (ret 0))
       else if br < 0 then seq (perror I ''read'') (copy_fail p)
       else bind (grow_full p br) (\<lambda>r. case r of None \<Rightarrow> copy_fail p | Some buf \<Rightarrow>
            bind (shrink_rest buf br) (\<lambda>r. case r of None \<Rightarrow> copy_fail buf | Some buf \<Rightarrow>
            bind (write_from I buf (nat br)) (\<lambda>bw.
              if bw = - 1 then seq (perror I ''write'') (copy_fail buf) else copy_loop k I buf)))"
  have empty: "has_buffer B p n [] s" using Suc.prems(1) by (auto simp: has_buffer_def)
  obtain w e1 where w: "in_bytes I (host s) (unat n) = (w, e1)" by fastforce
  have "runs (read_into I p n) s (\<lambda>br s1. runs (?turn br) s1 ?Q)"
  proof (cases w)
    case (Inl c)
    have "has_buffer B p n [] (s\<lparr>host := e1, errno_of := c\<rparr>)" using empty by simp
    from runs_copy_fail [OF this, of I "''read''"] Inl w Suc.prems(4) show ?thesis
      by (auto simp: runs_read_fails elim!: runs_mono)
  next
    case (Inr x)
    note w = w [unfolded Inr]
    have len: "length x \<le> unat n" using kernel_lawsD(1) [OF L Suc.prems(2) w] by simp
    then have small: "length x < 2 ^ 31" using Suc.prems(3) by linarith
    show ?thesis
    proof (rule runs_mono [OF runs_read_into [OF empty Suc.prems(3) w len]], elim conjE)
      fix br and s1 :: "'e program"
      assume x: "br = int (length x)" "host s1 = e1" "stdout_of s1 = stdout_of s" "has_buffer B p n x s1"
      show "runs (?turn br) s1 ?Q"
      proof (cases "x = []")
        case True
        obtain pl where pl: "is_dga s1 p n 1 pl" "B (pbase p) = None" "\<And>b. b \<noteq> pbase p \<Longrightarrow> blocks s1 b = B b"
          using has_bufferE [OF x(4)] by metis
        have "(blocks s1)(pbase p := None) = B" using pl(2,3) by auto
        moreover have "b" "e = e1" using True Suc.prems(4) w by simp_all
        ultimately show ?thesis
          using True x by (simp add: runs_seq runs_dga_free [OF pl(1)] runs_print runs_ret)
      next
        case False
        then have pos: "0 < length x" by simp
        have turn: "runs (bind (write_from I q (nat br)) (\<lambda>bw. if bw = - 1 then seq (perror I ''write'') (copy_fail q) else copy_loop k I q)) s3 ?Q"
          if q: "has_buffer B q (of_nat (length x)) x s3" "same_io s1 s3" for q and s3 :: "'e program"
        proof -
          obtain v e2 where v: "out_bytes I (host s3) x = (v, e2)" by fastforce
          have same: "host s3 = e1" "stdout_of s3 = stdout_of s" using q(2) x(2,3) by (simp_all add: same_io_def)
          note put = runs_write_from [OF q(1) v]
          show ?thesis
          proof (cases v)
            case (Inl c)
            have "has_buffer B q (of_nat (length x)) x (s3\<lparr>host := e2, errno_of := c\<rparr>)" using q(1) by simp
            from runs_copy_fail [OF this, of I "''write''"]
            have "runs (seq (perror I ''write'') (copy_fail q)) (s3\<lparr>host := e2, errno_of := c\<rparr>) ?Q"
              by (rule runs_mono) (use Suc.prems(4) w False v same Inl in simp)
            then show ?thesis
              unfolding runs_bind x(1) nat_int put Inl sum.case by simp
          next
            case (Inr m)
            have m: "m \<le> length x" using kernel_lawsD(2) [OF L v [unfolded Inr]] by simp
            then have "to_int (int m) \<noteq> - 1" using small_int(1) [of m] small by simp
            moreover have n': "unat (of_nat (length x) :: u64) = length x" using small by (simp add: unat_of_nat)
            have "runs (copy_loop k I q) (s3\<lparr>host := e2\<rparr>) (\<lambda>r s'. r = (if b then 0 else 1) \<and> host s' = e \<and>
                stdout_of s' = stdout_of (s3\<lparr>host := e2\<rparr>) @ (if b then ''exit..'' @ nl else []) \<and> blocks s' = B)"
            proof (rule Suc.IH)
              show "has_buffer B q (of_nat (length x)) x (s3\<lparr>host := e2\<rparr>)" using q(1) by simp
              show "relay k I (unat (of_nat (length x) :: u64)) (host (s3\<lparr>host := e2\<rparr>)) = Some (b, e)"
                using Suc.prems(4) w False v same Inr n' by simp
            qed (use n' pos small in simp_all)
            ultimately show ?thesis
              unfolding runs_bind x(1) nat_int put Inr sum.case using same by simp
          qed
        qed
        have turns: "runs (bind (grow_full p br) (\<lambda>r. case r of None \<Rightarrow> copy_fail p | Some buf \<Rightarrow>
              bind (shrink_rest buf br) (\<lambda>r. case r of None \<Rightarrow> copy_fail buf | Some buf \<Rightarrow>
              bind (write_from I buf (nat br)) (\<lambda>bw.
                if bw = - 1 then seq (perror I ''write'') (copy_fail buf) else copy_loop k I buf)))) s1 ?Q"
          unfolding runs_bind [of "grow_full _ _"] x(1)
        proof (rule runs_mono [OF runs_grow_full [OF x(4) pos Suc.prems(3)]], elim exE conjE)
          fix r q j and s2 :: "'e program" assume r: "r = Some q" "has_buffer B q j x s2" "same_io s1 s2"
          show "runs (case r of None \<Rightarrow> copy_fail p | Some buf \<Rightarrow>
              bind (shrink_rest buf (int (length x))) (\<lambda>r. case r of None \<Rightarrow> copy_fail buf | Some buf \<Rightarrow>
              bind (write_from I buf (nat (int (length x)))) (\<lambda>bw.
                if bw = - 1 then seq (perror I ''write'') (copy_fail buf) else copy_loop k I buf))) s2 ?Q"
            unfolding r(1) option.case runs_bind [of "shrink_rest _ _"]
            by (rule runs_mono [OF runs_shrink_rest [OF r(2) small]])
              (use same_io_trans [OF r(3)] turn [unfolded x(1)] in auto)
        qed
        have "br \<noteq> 0" "\<not> br < 0" using pos x(1) by simp_all
        with turns show ?thesis by simp
      qed
    qed
  qed
  then show ?case
    using runs_buffer_len [OF Suc.prems(1)] by (simp add: runs_bind [of "dga_len _"] runs_bind [of "read_into _ _ _"])
qed


section \<open>The structs as a whole\<close>

text \<open>What the loops store for element \<open>i\<close> and print of it.\<close>

definition foo_a :: "nat \<Rightarrow> u32" where "foo_a i = ucast (of_nat i :: u64)"

definition foo_b :: "nat \<Rightarrow> u32" where "foo_b i = ucast (of_nat i * 2 :: u64)"

definition foo_bytes :: "nat \<Rightarrow> mval list" where "foo_bytes i = int_bytes (foo_a i) @ int_bytes (foo_b i)"

definition foo_line :: "nat \<Rightarrow> string" where
  "foo_line i = ''a: '' @ show_int (sint (foo_a i)) @ '', b: '' @ show_int (sint (foo_b i)) @ nl"

abbreviation foos :: "nat \<Rightarrow> mval list" where "foos n \<equiv> concat (map foo_bytes [0..<n])"

lemma length_foos [simp]: "length (foos n) = 8 * n"
  by (induction n) (simp_all add: foo_bytes_def)

lemma splice_foos:
  assumes "length pl = 8 * n" "take (8 * i) pl = foos i" "i < n"
  shows "take (8 * Suc i) (splice (8 * i) (foo_bytes i) pl) = foos (Suc i)"
  using assms by (simp add: splice_def foo_bytes_def)

lemma foos_nth:
  assumes "i < n"
  shows "take 4 (drop (8 * i) (foos n)) = int_bytes (foo_a i)" "take 4 (drop (8 * i + 4) (foos n)) = int_bytes (foo_b i)"
proof -
  have "[0..<n] = [0..<i] @ i # [Suc i..<n]" using assms upt_add_eq_append [of 0 i "n - i"] upt_conv_Cons [of i n] by simp
  then have "foos n = foos i @ foo_bytes i @ concat (map foo_bytes [Suc i..<n])" by simp
  then show "take 4 (drop (8 * i) (foos n)) = int_bytes (foo_a i)" "take 4 (drop (8 * i + 4) (foos n)) = int_bytes (foo_b i)"
    by (simp_all add: foo_bytes_def)
qed

lemma dga_ok_length: "dga_ok s p n t pl \<Longrightarrow> length pl = unat n * unat t"
  by (rule dga.rep_length)

lemma runs_fill_loop:
  fixes s :: "'z proc_scheme"
  shows "healthy s \<Longrightarrow> dga_ok s p n 8 pl \<Longrightarrow> take (8 * i) pl = foos i \<Longrightarrow> i \<le> unat n \<Longrightarrow> unat n - i < k \<Longrightarrow>
    runs (fill_loop k p (of_nat i)) s (\<lambda>_ s'. heap_ext s s' \<and> dga_ok s' p n 8 (foos (unat n)) \<and> untouched {pbase p} s s')"
proof (induction k arbitrary: i pl s)
  case 0
  then show ?case by simp
next
  case (Suc k)
  have len: "length pl = 8 * unat n" using dga_ok_length [OF Suc.prems(2)] by simp
  have n: "unat n < 2 ^ 64" using unsigned_less [of n] by simp
  have i: "unat (of_nat i :: u64) = i" using Suc.prems(4) n by (simp add: unat_of_nat)
  have dga: "is_dga s p n 8 pl" using Suc.prems(2) by (simp add: dga_ok_def)
  show ?case
  proof (cases "i < unat n")
    case False
    then have "foos (unat n) = pl" using Suc.prems(3,4) len by simp
    then show ?thesis
      using False Suc.prems(1,2) i by (simp add: runs_bind runs_dga_len [OF dga] word_less_nat_alt runs_ret heap_ext_refl healthy_mem_ok)
  next
    case True
    let ?pl = "splice (8 * i) (foo_bytes i) pl"
    have fb: "length (foo_bytes i) = 8" by (simp add: foo_bytes_def)
    have step: "runs (store_bytes (ptr_add p (int (8 * i))) (foo_bytes i)) s (\<lambda>_ s1.
        runs (fill_loop k p (of_nat (Suc i))) s1 (\<lambda>_ s'. heap_ext s s' \<and> dga_ok s' p n 8 (foos (unat n)) \<and> untouched {pbase p} s s'))"
    proof (rule runs_mono [OF dga_store [OF Suc.prems(1,2)]], use True len fb in simp, elim conjE)
      fix s1 :: "'z proc_scheme"
      assume s1: "heap_ext s s1" "dga_ok s1 p n 8 ?pl" "untouched {pbase p} s s1"
      have "runs (fill_loop k p (of_nat (Suc i))) s1 (\<lambda>_ s'. heap_ext s1 s' \<and> dga_ok s' p n 8 (foos (unat n)) \<and> untouched {pbase p} s1 s')"
        by (rule Suc.IH [OF heap_ext_healthy [OF Suc.prems(1) s1(1)] s1(2) splice_foos [OF len Suc.prems(3) True]])
          (use True Suc.prems(5) in simp_all)
      then show "runs (fill_loop k p (of_nat (Suc i))) s1 (\<lambda>_ s'. heap_ext s s' \<and> dga_ok s' p n 8 (foos (unat n)) \<and> untouched {pbase p} s s')"
        by (rule runs_mono) (use s1 in \<open>blast intro: heap_ext_trans untouched_trans\<close>)
    qed
    have "int_bytes (ucast (of_nat i :: u64)) @ int_bytes (ucast (of_nat i * 2 :: u64)) = foo_bytes i" "of_nat i + 1 = (of_nat (Suc i) :: u64)"
      by (simp_all add: foo_bytes_def foo_a_def foo_b_def)
    with step True i show ?thesis
      by (simp add: runs_bind runs_dga_len [OF dga] word_less_nat_alt runs_seq store_foo_def del: of_nat_Suc)
  qed
qed

lemma runs_print_loop:
  fixes s :: "'z proc_scheme"
  shows "dga_ok s p n 8 (foos (unat n)) \<Longrightarrow> i \<le> unat n \<Longrightarrow> unat n - i < k \<Longrightarrow>
    runs (print_loop k p (ptr_add p (int (8 * i)))) s Q \<longleftrightarrow> Q () (s\<lparr>stdout_of := stdout_of s @ concat (map foo_line [i..<unat n])\<rparr>)"
proof (induction k arbitrary: i s)
  case 0
  then show ?case by simp
next
  case (Suc k)
  have dga: "is_dga s p n 8 (foos (unat n))" using Suc.prems(1) by (simp add: dga_ok_def)
  let ?f = "ptr_add p (int (8 * i))"
  have next_f: "ptr_add ?f 8 = ptr_add p (int (8 * Suc i))" "ptr_add ?f 4 = ptr_add p (int (8 * i + 4))" by (simp_all add: ptr_add_def)
  have "poff ?f < poff (ptr_add p (8 * int (unat n))) \<longleftrightarrow> int i < int (unat n)" by (simp add: ptr_add_def)
  then have more: "poff ?f < poff (ptr_add p (8 * int (unat n))) \<longleftrightarrow> i < unat n" unfolding of_nat_less_iff .
  show ?case
  proof (cases "i < unat n")
    case False
    then show ?thesis
      by (simp only: print_loop.simps runs_bind runs_dga_len [OF dga] more if_False runs_ret) simp
  next
    case True
    let ?s = "s\<lparr>stdout_of := stdout_of s @ foo_line i\<rparr>"
    have a: "peek s ?f 4 = Some (int_bytes (foo_a i))" "peek s (ptr_add p (int (8 * i + 4))) 4 = Some (int_bytes (foo_b i))"
      using dga_load [OF Suc.prems(1), of "8 * i" 4] dga_load [OF Suc.prems(1), of "8 * i + 4" 4] True foos_nth [OF True] by simp_all
    have "dga_ok ?s p n 8 (foos (unat n))" using dga.rep_local [OF Suc.prems(1)] by simp
    from Suc.IH [OF this, of "Suc i"] True Suc.prems(3)
    have ih: "runs (print_loop k p (ptr_add p (int (8 * Suc i)))) ?s Q \<longleftrightarrow>
        Q () (s\<lparr>stdout_of := stdout_of s @ foo_line i @ concat (map foo_line [Suc i..<unat n])\<rparr>)" by simp
    have "runs (print_loop (Suc k) p ?f) s Q \<longleftrightarrow> runs (print_loop k p (ptr_add p (int (8 * Suc i)))) ?s Q"
      using True a
      by (simp only: print_loop.simps runs_bind runs_dga_len [OF dga] more if_True load_int_def runs_reads next_f
          runs_seq runs_print foo_line_def) (auto simp: runs_simps)
    then show ?thesis unfolding ih using True by (simp add: upt_conv_Cons)
  qed
qed

lemma healthy_host [simp]: "healthy (s\<lparr>host := e\<rparr>) = healthy s"
  by (simp add: healthy_def mem_ok_def never_oom_def)

lemma runs_struct_array:
  fixes s :: "'e program"
  assumes "healthy s" "4 < k"
  shows "runs (struct_array k) s (\<lambda>_ s'. healthy s' \<and> blocks s' = blocks s \<and> host s' = host s \<and>
    stdout_of s' = stdout_of s @ concat (map foo_line [0..<4]) \<and> stderr_of s' = stderr_of s)"
    (is "runs _ _ ?Q")
proof -
  have "runs (dga_new 4 8) s (\<lambda>p s1. runs (seq (fill_loop k p 0) (seq (print_loop k p p) (dga_free p))) s1 ?Q)"
  proof (rule runs_mono [OF dga.make_spec [OF assms(1)]], simp add: fits_def, elim conjE)
    fix p and s1 :: "'e program"
    assume p: "heap_ext s s1" "dga_ok s1 p 4 8 (replicate (unat (4 :: u64) * unat (8 :: u64)) Undef)"
      "blocks s (pbase p) = None" "untouched {pbase p} s s1"
    have h1: "healthy s1" by (rule heap_ext_healthy [OF assms(1) p(1)])
    have "runs (fill_loop k p (of_nat 0)) s1 (\<lambda>_ s2. runs (seq (print_loop k p p) (dga_free p)) s2 ?Q)"
    proof (rule runs_mono [OF runs_fill_loop [OF h1 p(2)]], simp, simp, use assms(2) in simp, elim conjE)
      fix s2 :: "'e program"
      assume s2: "heap_ext s1 s2" "dga_ok s2 p 4 8 (foos (unat (4 :: u64)))" "untouched {pbase p} s1 s2"
      let ?s = "s2\<lparr>stdout_of := stdout_of s2 @ concat (map foo_line [0..<4])\<rparr>"
      have "dga_ok ?s p 4 8 (foos (unat (4 :: u64)))" using dga.rep_local [OF s2(2)] by simp
      then have "is_dga ?s p 4 8 (foos (unat (4 :: u64)))" by (simp only: dga_ok_def)
      note free = runs_dga_free [OF this]
      have h2: "healthy s2" by (rule heap_ext_healthy [OF h1 s2(1)])
      have "same_io s s2" "stderr_of s2 = stderr_of s"
        using p(1) s2(1) heap_only_trans [of s s1 s2] by (auto simp: heap_ext_def heap_only_program, auto simp: heap_only_def)
      moreover have restored: "(blocks s2)(pbase p := None) = blocks s"
        by (rule free_again [OF p(3) untouched_trans [OF p(4) s2(3)]])
      ultimately have "?Q () (?s\<lparr>blocks := blocks s\<rparr>)"
        using healthy_free [of ?s "pbase p"] h2 by (auto simp: same_io_def)
      then have "runs (dga_free p) ?s ?Q" unfolding free using restored by auto
      moreover have "runs (print_loop k p (ptr_add p (int (8 * 0)))) s2 (\<lambda>_ s. runs (dga_free p) s ?Q) \<longleftrightarrow> runs (dga_free p) ?s ?Q"
        using runs_print_loop [OF s2(2), of 0 k] assms(2) by simp
      ultimately show "runs (seq (print_loop k p p) (dga_free p)) s2 ?Q"
        by (simp add: runs_seq ptr_add_def)
    qed
    then show "runs (seq (fill_loop k p 0) (seq (print_loop k p p) (dga_free p))) s1 ?Q"
      by (simp add: runs_seq)
  qed
  then show ?thesis by (simp add: struct_array_def sizeof_foo_def runs_bind)
qed

section \<open>The matrices as a whole\<close>

text \<open>A picture is printed line by line, each character with a blank behind it; \<open>grid h w cs\<close> are the \<open>h\<close> rows of \<open>w\<close>
  characters that the declared type \<open>char[h][w]\<close> makes of \<open>cs\<close>.\<close>

definition picture :: "string list \<Rightarrow> string" where
  "picture rows = concat (map (\<lambda>r. concat (map (\<lambda>c. [c, CHR '' '']) r) @ nl) rows)"

definition grid :: "nat \<Rightarrow> nat \<Rightarrow> string \<Rightarrow> string list" where
  "grid h w cs = map (\<lambda>k. take w (drop (k * w) cs)) [0..<h]"

definition matrices :: "nat \<Rightarrow> nat \<Rightarrow> nat \<Rightarrow> string \<Rightarrow> string list list" where
  "matrices n h w cs = map (\<lambda>i. grid h w (drop (i * (h * w)) cs)) [0..<n]"

lemma picture_transposed:
  assumes "h * w \<le> length cs" "0 < h"
  shows "picture (transpose (grid h w cs)) = concat (map (\<lambda>j. concat (map (\<lambda>k. [cs ! (k * w + j), CHR '' '']) [0..<h]) @ nl) [0..<w])"
proof -
  have row: "k * w + w \<le> length cs" if "k < h" for k
  proof -
    have "(k + 1) * w \<le> h * w" using that by (intro mult_le_mono1) simp
    with assms(1) show ?thesis by simp
  qed
  then have "length (grid h w cs ! k) = w" if "k < h" for k
    using that by (fastforce simp: grid_def)
  then have "transpose (grid h w cs) = map (\<lambda>j. map (\<lambda>k. grid h w cs ! k ! j) [0..<length (grid h w cs)]) [0..<w]"
    by (intro transpose_rectangle) (use assms(2) in \<open>auto simp: grid_def\<close>)
  also have "\<dots> = map (\<lambda>j. map (\<lambda>k. cs ! (k * w + j)) [0..<h]) [0..<w]"
    using add_leD1 [OF row] by (auto simp: grid_def)
  finally show ?thesis by (simp add: picture_def comp_def)
qed

definition drawn :: "nat \<Rightarrow> nat \<Rightarrow> nat \<Rightarrow> string \<Rightarrow> string" where
  "drawn n h w cs = concat (map (\<lambda>m. picture (transpose m)) (matrices n h w cs))"

lemma cell_in_range:
  fixes i k j :: nat
  assumes "i < n" "k < h" "j < w"
  shows "i * (h * w) + k * w + j < n * (h * w)"
proof -
  have "k * w + j < (k + 1) * w" using assms(3) by simp
  also have "\<dots> \<le> h * w" using assms(2) by (intro mult_le_mono1) simp
  finally have "i * (h * w) + k * w + j < (i + 1) * (h * w)" by simp
  also have "\<dots> \<le> n * (h * w)" using assms(1) by (intro mult_le_mono1) simp
  finally show ?thesis .
qed

text \<open>The loops print the transposes of the matrices.\<close>

lemma prints_matrices:
  fixes s :: "'z proc_scheme"
  assumes ok: "dga_ok s p len t (map Chr cs)" and cs: "length cs = n * (h * w)" and h: "0 < h"
  shows "prints (for_each (\<lambda>i. for_each (\<lambda>j. seq (for_each (\<lambda>k. draw_cell p h w i k j) [0..<h]) (print_out nl)) [0..<w]) [0..<n]
    :: (unit, 'z proc_scheme) prog) (blocks s) (drawn n h w cs)"
proof -
  have cell: "prints (draw_cell p h w i k j :: (unit, 'z proc_scheme) prog) (blocks s) [cs ! (i * (h * w) + k * w + j), CHR '' '']"
    if "i < n" "j < w" "k < h" for i j k
    unfolding prints_def
  proof (intro allI impI)
    fix s1 :: "'z proc_scheme" and Q assume "blocks s1 = blocks s"
    then have "dga_ok s1 p len t (map Chr cs)" by (intro dga.rep_local [OF ok]) simp
    from dga_load [OF this, of "i * (h * w) + k * w + j" 1] cell_in_range [OF that(1,3,2)] cs
    have "peek s1 (ptr_add p (int (i * (h * w) + k * w + j))) 1 = Some (map Chr [cs ! (i * (h * w) + k * w + j)])"
      by (simp add: take_Suc drop_map hd_map hd_drop_conv_nth)
    then show "runs (draw_cell p h w i k j) s1 Q \<longleftrightarrow> Q () (s1\<lparr>stdout_of := stdout_of s1 @ [cs ! (i * (h * w) + k * w + j), CHR '' '']\<rparr>)"
      by (simp add: draw_cell_def load_chars_def runs_simps dec_chars_Chr [of "[_]", simplified])
  qed
  have line: "prints (seq (for_each (\<lambda>k. draw_cell p h w i k j) [0..<h]) (print_out nl) :: (unit, 'z proc_scheme) prog) (blocks s)
      (concat (map (\<lambda>k. [cs ! (i * (h * w) + k * w + j), CHR '' '']) [0..<h]) @ nl)" if "i < n" "j < w" for i j
    by (intro prints_seq prints_each cell that) (simp_all add: prints_def runs_print)
  have "prints (for_each (\<lambda>j. seq (for_each (\<lambda>k. draw_cell p h w i k j) [0..<h]) (print_out nl)) [0..<w] :: (unit, 'z proc_scheme) prog)
      (blocks s) (picture (transpose (grid h w (drop (i * (h * w)) cs))))" if "i < n" for i
  proof -
    have room: "i * (h * w) + h * w \<le> length cs" unfolding cs using that by (metis Suc_leI mult_le_mono1 mult_Suc add.commute)
    then have "h * w \<le> length (drop (i * (h * w)) cs)" by simp
    moreover have "drop (i * (h * w)) cs ! (k * w + j) = cs ! (i * (h * w) + k * w + j)" for k j
      using add_leD1 [OF room] by (subst nth_drop) (simp_all add: add.assoc)
    ultimately have eq: "picture (transpose (grid h w (drop (i * (h * w)) cs))) =
        concat (map (\<lambda>j. concat (map (\<lambda>k. [cs ! (i * (h * w) + k * w + j), CHR '' '']) [0..<h]) @ nl) [0..<w])"
      by (simp add: picture_transposed h)
    show ?thesis unfolding eq by (rule prints_each) (use line that in simp)
  qed
  then show ?thesis
    unfolding drawn_def matrices_def map_map by (intro prints_each) simp
qed

lemma runs_draw_matrix:
  fixes s :: "'e program"
  assumes L: "buffer_laws I V" and s: "healthy s" "fits len (h * w)"
    and nw: "unat h * unat w < 2 ^ 64" and pos: "0 < len" "0 < h" "0 < w"
  defines "A \<equiv> ahead V (host s) @ rest V (host s)" and "N \<equiv> unat len * (unat h * unat w)"
  shows "runs (draw_matrix I len h w) s (\<lambda>_ s'. healthy s' \<and> blocks s' = blocks s \<and>
    host s' = (if N \<le> length A then in_char I (snd (in_items I (host s) N)) else snd (in_items I (host s) N)) \<and>
    (if N \<le> length A
     then stdout_of s' = stdout_of s @ drawn (unat len) (unat h) (unat w) (take N A) \<and> stderr_of s' = stderr_of s \<and>
       ahead V (host s') @ rest V (host s') = drop (N + 1) A
     else stdout_of s' = stdout_of s \<and> ahead V (host s') @ rest V (host s') = [] \<and>
       stderr_of s' = stderr_of s @ ''error in fread, with '' @ show_int (sint (of_nat (length A div (unat h * unat w)) :: u64)) @ '' elments read'' @ nl))"
    (is "runs _ _ ?Q")
proof -
  let ?hw = "unat h * unat w"
  have hw: "unat (h * w) = ?hw" using nw by (subst unat_mult_lem [THEN iffD1]) auto
  have hpos: "0 < unat h" "0 < unat w" "0 < unat len" using pos by (simp_all add: word_less_nat_alt)
  then have hw0: "0 < ?hw" by simp
  then have go: "h * w > 0" using hw by (simp add: word_less_nat_alt)
  have NN: "unat (h * w) * unat len = N" "unat len * unat (h * w) = N" by (simp_all add: N_def hw)
  obtain bytes e' where e': "in_items I (host s) N = (bytes, e')" "bytes = take N A" "ahead V e' @ rest V e' = drop N A"
    using L unfolding buffer_laws_def A_def by (metis prod.collapse)
  have "ahead V (in_char I e') @ rest V (in_char I e') = drop 1 (ahead V e' @ rest V e')"
    using L unfolding buffer_laws_def by blast
  then have char: "ahead V (in_char I e') @ rest V (in_char I e') = drop (N + 1) A"
    unfolding e'(3) drop_drop by (simp add: add.commute)
  let ?tail = "\<lambda>p. seq (store_bytes p (map Chr bytes))
      (let er = of_nat (length bytes div unat (h * w)) :: u64 in
         if er \<noteq> len
         then seq (dga_free p) (print_err (''error in fread, with '' @ show_int (sint er) @ '' elments read'' @ nl))
         else seq (modify (\<lambda>s. s\<lparr>host := in_char I (host s)\<rparr>))
             (seq (for_each (\<lambda>i. for_each (\<lambda>j. seq (for_each (\<lambda>k. draw_cell p (unat h) (unat w) i k j) [0..<unat h]) (print_out nl))
               [0..<unat w]) [0..<unat len]) (dga_free p)))"
  have step: "runs (dga_new len (h * w)) s (\<lambda>p s1. host s1 = host s \<and> runs (?tail p) (s1\<lparr>host := e'\<rparr>) ?Q)"
  proof (rule runs_mono [OF dga.make_spec [OF s]], elim conjE)
    fix p and s1 :: "'e program"
    assume p: "heap_ext s s1" "dga_ok s1 p len (h * w) (replicate (unat len * unat (h * w)) Undef)"
      "blocks s (pbase p) = None" "untouched {pbase p} s s1"
    let ?s1 = "s1\<lparr>host := e'\<rparr>"
    let ?draw = "for_each (\<lambda>i. for_each (\<lambda>j. seq (for_each (\<lambda>k. draw_cell p (unat h) (unat w) i k j) [0..<unat h]) (print_out nl))
        [0..<unat w]) [0..<unat len]"
    have io1: "stdout_of s1 = stdout_of s" "stderr_of s1 = stderr_of s" using p(1) by (auto simp: heap_ext_def heap_only_def)
    have h1: "healthy ?s1" using heap_ext_healthy [OF s(1) p(1)] by simp
    have ok1: "dga_ok ?s1 p len (h * w) (replicate N Undef)" using dga.rep_local [OF p(2), of ?s1] by (simp add: NN)
    have "runs (store_bytes (ptr_add p (int 0)) (map Chr bytes)) ?s1 (\<lambda>_ s2. runs (let er = of_nat (length bytes div unat (h * w)) :: u64 in
         if er \<noteq> len
         then seq (dga_free p) (print_err (''error in fread, with '' @ show_int (sint er) @ '' elments read'' @ nl))
         else seq (modify (\<lambda>s. s\<lparr>host := in_char I (host s)\<rparr>)) (seq ?draw (dga_free p))) s2 ?Q)"
    proof (rule runs_mono [OF dga_store [OF h1 ok1]], use e'(2) in simp, elim conjE)
      fix s2 :: "'e program"
      assume s2: "heap_ext ?s1 s2" "dga_ok s2 p len (h * w) (splice 0 (map Chr bytes) (replicate N Undef))" "untouched {pbase p} ?s1 s2"
      have io2: "stdout_of s2 = stdout_of s" "stderr_of s2 = stderr_of s" "host s2 = e'"
        using s2(1) io1 by (auto simp: heap_ext_def heap_only_def)
      have h2: "healthy s2" by (rule heap_ext_healthy [OF h1 s2(1)])
      have restored: "(blocks s2)(pbase p := None) = blocks s"
        by (rule free_again [OF p(3) untouched_trans [OF p(4)]]) (use s2(3) in \<open>simp add: untouched_def\<close>)
      show "runs (let er = of_nat (length bytes div unat (h * w)) :: u64 in
         if er \<noteq> len
         then seq (dga_free p) (print_err (''error in fread, with '' @ show_int (sint er) @ '' elments read'' @ nl))
         else seq (modify (\<lambda>s. s\<lparr>host := in_char I (host s)\<rparr>)) (seq ?draw (dga_free p))) s2 ?Q"
      proof (cases "N \<le> length A")
        case True
        then have bytes: "length bytes = N" using e'(2) by simp
        then have er: "of_nat (length bytes div unat (h * w)) = len" using hw0 by (simp add: N_def hw)
        let ?s3 = "s2\<lparr>host := in_char I e'\<rparr>"
        let ?s4 = "?s3\<lparr>stdout_of := stdout_of s @ drawn (unat len) (unat h) (unat w) bytes\<rparr>"
        have "dga_ok s2 p len (h * w) (map Chr bytes)" using s2(2) bytes by (simp add: splice_all)
        then have ok: "dga_ok ?s3 p len (h * w) (map Chr bytes)" "dga_ok ?s4 p len (h * w) (map Chr bytes)"
          by (auto elim!: dga.rep_local)
        have "is_dga ?s4 p len (h * w) (map Chr bytes)" using ok(2) by (simp only: dga_ok_def)
        note free = runs_dga_free [OF this]
        have "healthy (?s4\<lparr>blocks := blocks s\<rparr>)" using healthy_free [of ?s4 "pbase p"] h2 restored by simp
        then have "runs (dga_free p) ?s4 ?Q"
          unfolding free using restored True io2 char e' by simp
        moreover have "prints (?draw :: (unit, 'e program) prog) (blocks ?s3) (drawn (unat len) (unat h) (unat w) bytes)"
          by (rule prints_matrices [OF ok(1)]) (use bytes hpos in \<open>simp_all add: N_def\<close>)
        then have "runs (?draw :: (unit, 'e program) prog) ?s3 (\<lambda>_ s. runs (dga_free p) s ?Q) \<longleftrightarrow> runs (dga_free p) ?s4 ?Q"
          using io2(1) by (simp add: printsD)
        ultimately show ?thesis
          using er io2(3) by (simp add: runs_seq runs_modify)
      next
        case False
        then have bytes: "bytes = A" using e'(2) by simp
        have "length A < unat len * ?hw" using False by (simp add: N_def)
        then have less: "length A div ?hw < unat len" by (simp add: less_mult_imp_div_less)
        moreover have "unat len < 2 ^ 64" using unsigned_less [of len] by simp
        ultimately have "unat (of_nat (length A div ?hw) :: u64) = length A div ?hw"
          by (simp add: unat_of_nat)
        with less have er: "of_nat (length bytes div unat (h * w)) \<noteq> len" using bytes hw by auto
        have "is_dga s2 p len (h * w) (splice 0 (map Chr bytes) (replicate N Undef))" using s2(2) by (simp only: dga_ok_def)
        note free = runs_dga_free [OF this]
        have "healthy (s2\<lparr>blocks := blocks s\<rparr>)" using healthy_free [of s2 "pbase p"] h2 restored by simp
        then show ?thesis
          using er False io2 e' bytes restored hw by (simp add: runs_seq free runs_print)
      qed
    qed
    then have "runs (?tail p) ?s1 ?Q"
      by (simp add: runs_seq [of "store_bytes _ _"] ptr_add_def)
    moreover have "host s1 = host s" using p(1) by (auto simp: heap_ext_def heap_only_def)
    ultimately show "host s1 = host s \<and> runs (?tail p) ?s1 ?Q" by blast
  qed
  have cond: "(\<not> (h * w > 0 \<and> len > 0)) = False" using go pos(1) by simp
  show ?thesis
    unfolding draw_matrix_def cond if_False runs_bind NN runs_gets
  proof (rule runs_mono [OF step], elim conjE)
    fix p and s1 :: "'e program"
    assume "host s1 = host s" "runs (?tail p) (s1\<lparr>host := e'\<rparr>) ?Q"
    then show "runs (case in_items I (host s1) N of (bytes, e') \<Rightarrow> seq (modify (\<lambda>s. s\<lparr>host := e'\<rparr>))
        (seq (store_bytes p (map Chr bytes))
          (let er = of_nat (length bytes div unat (h * w)) :: u64 in
             if er \<noteq> len
             then seq (dga_free p) (print_err (''error in fread, with '' @ show_int (sint er) @ '' elments read'' @ nl))
             else seq (modify (\<lambda>s. s\<lparr>host := in_char I (host s)\<rparr>))
                 (seq (for_each (\<lambda>i. for_each (\<lambda>j. seq (for_each (\<lambda>k. draw_cell p (unat h) (unat w) i k j) [0..<unat h])
                   (print_out nl)) [0..<unat w]) [0..<unat len]) (dga_free p))))) s1 ?Q"
      by (simp only: e'(1) prod.case runs_seq [of "modify _"] runs_modify)
  qed
qed



section \<open>The program\<close>

lemma runs_draw_one:
  fixes s :: "'e program"
  assumes L: "buffer_laws I V" and s: "healthy s" "fits 1 (h * w)"
    and nw: "unat h * unat w < 2 ^ 64" and pos: "0 < h" "0 < w"
    and A: "ahead V (host s) @ rest V (host s) = A" and enough: "unat h * unat w \<le> length A"
  shows "runs (draw_matrix I 1 h w) s (\<lambda>_ s'. healthy s' \<and> blocks s' = blocks s \<and>
    host s' = in_char I (snd (in_items I (host s) (unat h * unat w))) \<and>
    stdout_of s' = stdout_of s @ drawn 1 (unat h) (unat w) (take (unat h * unat w) A) \<and>
    ahead V (host s') @ rest V (host s') = drop (unat h * unat w + 1) A)"
  by (rule runs_mono [OF runs_draw_matrix [OF L s nw _ pos]]) (use A enough in \<open>simp_all, metis\<close>)

text \<open>The outside when the copy starts: two times \<open>fread\<close> and \<open>getchar\<close> have been asked for.\<close>

definition after_matrices :: "'e stdio \<Rightarrow> 'e \<Rightarrow> 'e" where
  "after_matrices I e = in_char I (snd (in_items I (in_char I (snd (in_items I e 4))) 9))"

definition printed :: "string \<Rightarrow> string" where
  "printed A = concat (map foo_line [0..<4]) @ drawn 1 2 2 (take 4 A) @ drawn 1 3 3 (take 9 (drop 5 A))"

lemma runs_example_main:
  fixes s :: "'e program"
  assumes K: "kernel_laws I V" and L: "buffer_laws I V" and s: "healthy s"
    and A: "ahead V (host s) @ rest V (host s) = A" and len: "14 \<le> length A" and k: "length A < k"
    and e: "relay k I 2 (after_matrices I (host s)) = Some (b, e)"
  shows "runs (example_main k I) s (\<lambda>r s'. r = (if b then 0 else 1) \<and> host s' = e \<and> blocks s' = blocks s \<and>
    stdout_of s' = stdout_of s @ printed A @ (if b then ''exit..'' @ nl else []))"
    (is "runs _ _ ?Q")
proof -
  let ?m4 = "bind (dga_new 2 1) (\<lambda>buf. copy_loop k I buf) :: (int, 'e program) prog"
  let ?m3 = "seq (draw_matrix I 1 3 3) ?m4"
  let ?m2 = "seq (draw_matrix I 1 2 2) ?m3"
  have fits: "fits 1 (2 * 2)" "fits 1 (3 * 3)" "fits 2 1" by (simp_all add: fits_def)
  have "runs (struct_array k) s (\<lambda>_ s1. runs ?m2 s1 ?Q)"
  proof (rule runs_mono [OF runs_struct_array [OF s]], use len k in simp, elim conjE)
    fix s1 :: "'e program"
    assume s1: "healthy s1" "blocks s1 = blocks s" "host s1 = host s" "stdout_of s1 = stdout_of s @ concat (map foo_line [0..<4])"
    have A1: "ahead V (host s1) @ rest V (host s1) = A" using A s1(3) by simp
    have "runs (draw_matrix I 1 2 2) s1 (\<lambda>_ s2. runs ?m3 s2 ?Q)"
    proof (rule runs_mono [OF runs_draw_one [OF L s1(1) fits(1) _ _ _ A1]], simp, simp, simp, use len in simp, elim conjE)
      fix s2 :: "'e program"
      assume s2: "healthy s2" "blocks s2 = blocks s1" "host s2 = in_char I (snd (in_items I (host s1) (unat (2 :: u64) * unat (2 :: u64))))"
        "stdout_of s2 = stdout_of s1 @ drawn 1 (unat (2 :: u64)) (unat (2 :: u64)) (take (unat (2 :: u64) * unat (2 :: u64)) A)"
        "ahead V (host s2) @ rest V (host s2) = drop (unat (2 :: u64) * unat (2 :: u64) + 1) A"
      have A2: "ahead V (host s2) @ rest V (host s2) = drop 5 A" using s2(5) by simp
      have "runs (draw_matrix I 1 3 3) s2 (\<lambda>_ s3. runs ?m4 s3 ?Q)"
      proof (rule runs_mono [OF runs_draw_one [OF L s2(1) fits(2) _ _ _ A2]], simp, simp, simp, use len in simp, elim conjE)
        fix s3 :: "'e program"
        assume s3: "healthy s3" "blocks s3 = blocks s2" "host s3 = in_char I (snd (in_items I (host s2) (unat (3 :: u64) * unat (3 :: u64))))"
          "stdout_of s3 = stdout_of s2 @ drawn 1 (unat (3 :: u64)) (unat (3 :: u64)) (take (unat (3 :: u64) * unat (3 :: u64)) (drop 5 A))"
        have host: "host s3 = after_matrices I (host s)"
          using s3(3) s2(3) s1(3) by (simp add: after_matrices_def)
        show "runs ?m4 s3 ?Q"
          unfolding runs_bind
        proof (rule runs_mono [OF dga.make_spec [OF s3(1) fits(3)]], elim conjE)
          fix p and s4 :: "'e program"
          assume p: "heap_ext s3 s4" "dga_ok s4 p 2 1 (replicate (unat (2 :: u64) * unat (1 :: u64)) Undef)"
            "blocks s3 (pbase p) = None" "untouched {pbase p} s3 s4"
          have buf: "has_buffer (blocks s3) p 2 [] s4"
            using p heap_ext_healthy [OF s3(1) p(1)] by (auto simp: has_buffer_def untouched_def)
          have io: "same_io s3 s4" using p(1) by (simp add: heap_ext_def heap_only_program)
          have "relay k I (unat (2 :: u64)) (host s4) = Some (b, e)"
            using e host io by (simp add: same_io_def)
          from runs_copy_loop [OF K buf _ _ this]
          show "runs (copy_loop k I p) s4 ?Q"
            by (rule runs_mono) (use s1 s2 s3 io in \<open>auto simp: same_io_def printed_def\<close>)
        qed
      qed
      then show "runs ?m3 s2 ?Q" by (simp add: runs_seq [of "draw_matrix I 1 3 3"])
    qed
    then show "runs ?m2 s1 ?Q" by (simp add: runs_seq [of "draw_matrix I 1 2 2"])
  qed
  then show ?thesis by (simp add: example_main_def runs_seq [of "struct_array k"])
qed

lemma matrices_read:
  assumes "buffer_laws I V" "ahead V e @ rest V e = A"
  shows "ahead V (after_matrices I e) @ rest V (after_matrices I e) = drop 15 A"
proof -
  have two: "ahead V (in_char I (snd (in_items I e n))) @ rest V (in_char I (snd (in_items I e n))) = drop (n + 1) (ahead V e @ rest V e)" for n e
    using assms(1) unfolding buffer_laws_def by (simp add: add.commute del: drop_append take_append)
  show ?thesis
    unfolding after_matrices_def two assms(2) drop_drop by simp
qed

section \<open>Properties\<close>

text \<open>Streams over a string: \<open>fread\<close> and \<open>getchar\<close> buffer eight characters at a time.\<close>

type_synonym piped = "string \<times> string \<times> string"

definition filled :: "nat \<Rightarrow> piped \<Rightarrow> piped" where
  "filled n = (\<lambda>(a, r, c). if length a < n then (a @ take (n + 8) r, drop (n + 8) r, c) else (a, r, c))"

definition piped_io :: "piped stdio" where
  "piped_io = \<lparr>in_items = (\<lambda>e n. case filled n e of (a, r, c) \<Rightarrow> (take n a, drop n a, r, c)),
     in_char = (\<lambda>e. case filled 1 e of (a, r, c) \<Rightarrow> (drop 1 a, r, c)),
     in_bytes = (\<lambda>(a, r, c) n. (Inr (take n r), a, drop n r, c)),
     out_bytes = (\<lambda>(a, r, c) bs. (Inr (length bs), a, r, c @ bs)),
     error_text = (\<lambda>_. [])\<rparr>"

definition piped_view :: "piped pipe" where
  "piped_view = \<lparr>ahead = fst, rest = fst \<circ> snd, copied = snd \<circ> snd\<rparr>"

definition piped_program :: "string \<Rightarrow> piped program" where
  "piped_program x = \<lparr>blocks = (\<lambda>_. None), next_blk = 0, grants = (\<lambda>_. True), requests = 0,
     errno_of = 0, stdout_of = [], stderr_of = [], host = ([], x, [])\<rparr>"

lemma piped_laws: "kernel_laws piped_io piped_view" "buffer_laws piped_io piped_view" "reliable piped_io"
proof -
  show "kernel_laws piped_io piped_view" "reliable piped_io"
    by (auto simp: kernel_laws_def reliable_def piped_io_def piped_view_def split: prod.splits)
  have fill: "fst (filled n e) @ fst (snd (filled n e)) = fst e @ fst (snd e) \<and> (length (fst (filled n e)) < n \<longrightarrow> fst (snd (filled n e)) = [])" for n e
    by (cases e) (simp add: filled_def)
  have "take n (fst (filled n e)) = take n (fst e @ fst (snd e)) \<and>
      drop n (fst (filled n e)) @ fst (snd (filled n e)) = drop n (fst e @ fst (snd e))" for n e
  proof -
    have "take n (a @ r) = take n a \<and> drop n (a @ r) = drop n a @ r" if "length a < n \<longrightarrow> r = []" for a r :: string
      using that by (cases "length a < n") (simp_all add: not_less)
    from this [OF conjunct2 [OF fill]] show ?thesis unfolding conjunct1 [OF fill] by metis
  qed
  then show "buffer_laws piped_io piped_view"
    by (simp add: buffer_laws_def piped_io_def piped_view_def case_prod_unfold del: take_append drop_append)
qed

lemma healthy_piped: "healthy (piped_program x)"
  by (simp add: healthy_def mem_ok_def never_oom_def piped_program_def)

text \<open>C40: The example program prints the four structs and the two matrices transposed and frees every array. What it
  copies afterwards is what \<open>relay\<close> says of the outside: every read in turn is handed to one write, never more at a time
  than the read before gave. It returns 0 and says \<open>exit..\<close> at the end of the input, and 1 where a read or a write fails.
  Where none fails or falls short, it has copied what follows the matrices less what \<open>stdin\<close> has buffered of it.\<close>

theorem example_program:
  fixes s :: "'e program"
  assumes "kernel_laws I V" "buffer_laws I V" "healthy s" "ahead V (host s) @ rest V (host s) = A"
    and "14 \<le> length A" "length A < k"
  shows "\<exists>b e. relay k I 2 (after_matrices I (host s)) = Some (b, e) \<and>
    runs (example_main k I) s (\<lambda>r s'. r = (if b then 0 else 1) \<and> host s' = e \<and> blocks s' = blocks s \<and>
      stdout_of s' = stdout_of s @ concat (map foo_line [0..<4]) @ drawn 1 2 2 (take 4 A) @ drawn 1 3 3 (take 9 (drop 5 A)) @
        (if b then ''exit..'' @ nl else [])) \<and>
    drop 15 A = ahead V (after_matrices I (host s)) @ rest V (after_matrices I (host s)) \<and>
    (reliable I \<longrightarrow> b \<and> copied V e = copied V (after_matrices I (host s)) @ rest V (after_matrices I (host s)))"
proof -
  note parts = matrices_read [OF assms(2,4)]
  have less: "length (rest V (after_matrices I (host s))) < k" using arg_cong [OF parts, of length] assms(6) by simp
  obtain b e where e: "relay k I 2 (after_matrices I (host s)) = Some (b, e)" using relay_ends [OF assms(1) _ less, of 2] by auto
  from runs_example_main [OF assms e]
  have "runs (example_main k I) s (\<lambda>r s'. r = (if b then 0 else 1) \<and> host s' = e \<and> blocks s' = blocks s \<and>
      stdout_of s' = stdout_of s @ concat (map foo_line [0..<4]) @ drawn 1 2 2 (take 4 A) @ drawn 1 3 3 (take 9 (drop 5 A)) @
        (if b then ''exit..'' @ nl else []))"
    by (rule runs_mono) (simp add: printed_def)
  moreover have "reliable I \<longrightarrow> b \<and> copied V e = copied V (after_matrices I (host s)) @ rest V (after_matrices I (host s))"
    using relay_all [OF assms(1) _ _ e] by simp
  ultimately show ?thesis using e parts by auto
qed

theorem example_program_witness:
  "runs (example_main 40 piped_io) (piped_program (''abcd'' @ nl @ ''ABCDEFGHI'' @ nl @ ''hello, this is copied'')) (\<lambda>r s'. r = 0 \<and>
     stdout_of s' = ''a: 0, b: 0'' @ nl @ ''a: 1, b: 2'' @ nl @ ''a: 2, b: 4'' @ nl @ ''a: 3, b: 6'' @ nl @
       ''a c '' @ nl @ ''b d '' @ nl @ ''A D G '' @ nl @ ''B E H '' @ nl @ ''C F I '' @ nl @ ''exit..'' @ nl \<and>
     copied piped_view (host s') = '' copied'')"
proof -
  let ?A = "''abcd'' @ nl @ ''ABCDEFGHI'' @ nl @ ''hello, this is copied''"
  have "concat (map foo_line [0..<4]) = ''a: 0, b: 0'' @ nl @ ''a: 1, b: 2'' @ nl @ ''a: 2, b: 4'' @ nl @ ''a: 3, b: 6'' @ nl"
    by (simp add: foo_line_def foo_a_def foo_b_def upt_rec show_int_def) code_simp
  moreover have "drawn 1 2 2 (take 4 ?A) = ''a c '' @ nl @ ''b d '' @ nl"
    "drawn 1 3 3 (take 9 (drop 5 ?A)) = ''A D G '' @ nl @ ''B E H '' @ nl @ ''C F I '' @ nl"
    by (code_simp, code_simp)
  moreover have start: "ahead piped_view (host (piped_program ?A)) @ rest piped_view (host (piped_program ?A)) = ?A" "length ?A = 36"
    "stdout_of (piped_program ?A) = []"
    by (simp_all add: piped_program_def piped_view_def nl_def)
  moreover have "rest piped_view (after_matrices piped_io (host (piped_program ?A))) = '' copied''"
    "copied piped_view (after_matrices piped_io (host (piped_program ?A))) = []"
    by (simp_all add: piped_program_def piped_view_def after_matrices_def piped_io_def filled_def nl_def)
  moreover note example_program [OF piped_laws(1,2) healthy_piped start(1), of 40] piped_laws(3)
  ultimately show ?thesis by (auto elim!: runs_mono)
qed

text \<open>The buffer of the copy never grows: where a turn has read \<open>x\<close>, what its two steps make of the buffer is an
  array that is exactly \<open>x\<close>, so a doubling is undone at once and a short read makes the buffer small for good.\<close>

lemma buffer_never_grows:
  fixes s :: "'e program"
  assumes "healthy s" "dga_ok s p n 1 pl" "take (length x) pl = map Chr x" "0 < length x" "unat n < 2 ^ 31"
  shows "runs (bind (grow_full p (int (length x))) (\<lambda>r. case r of None \<Rightarrow> ret None | Some q \<Rightarrow> shrink_rest q (int (length x)))) s
    (\<lambda>r s'. \<exists>q m. r = Some q \<and> dga_ok s' q m 1 (map Chr x) \<and> unat m = length x \<and> m \<le> n \<and> stdout_of s' = stdout_of s)"
proof -
  have buf: "has_buffer ((blocks s)(pbase p := None)) p n x s" using assms(1-3) by (auto simp: has_buffer_def)
  then have "length x \<le> unat n" by (rule has_bufferE)
  then have m: "unat (of_nat (length x) :: u64) = length x" "of_nat (length x) \<le> n"
    using assms(5) by (simp_all add: unat_of_nat word_le_nat_alt)
  show ?thesis
  proof (rule runs_mono [OF runs_resize_buffer [OF buf assms(4,5)]], elim exE conjE)
    fix r q and s' :: "'e program"
    assume q: "r = Some q" "has_buffer ((blocks s)(pbase p := None)) q (of_nat (length x)) x s'" "same_io s s'"
    obtain pl' where pl': "dga_ok s' q (of_nat (length x)) 1 pl'" "length pl' = length x" "take (length x) pl' = map Chr x"
      using has_bufferE [OF q(2)] m(1) by metis
    then have "dga_ok s' q (of_nat (length x)) 1 (map Chr x)" by simp
    with q(1,3) m show "\<exists>q m. r = Some q \<and> dga_ok s' q m 1 (map Chr x) \<and> unat m = length x \<and> m \<le> n \<and> stdout_of s' = stdout_of s"
      by (auto simp: same_io_def)
  qed
qed

end
