(* ===== verification/Mods.thy ===== *)
theory Mods
  imports Filesystem
begin

text \<open>
  \<open>src/modules\<close>: loading and unloading a module (a shared object with the symbols \<open>name\<close>, \<open>desc\<close> and
  \<open>init\<close>), adding and removing its link in the modules directory, and the operations on all modules
  of that directory. A \<open>struct module\<close> is a record; in an array it is its bytes, seven pointers, where a
  field nothing was stored in is uninitialised.
\<close>

section \<open>Data\<close>

text \<open>\<open>mod->name\<close> and \<open>mod->desc\<close> point into the shared object.\<close>

record c_module =
  dlhandle :: "ptr option"
  mod_name :: "ptr option"
  mod_desc :: "ptr option"
  cbs :: module_cbs

definition no_cbs :: module_cbs where
  "no_cbs = \<lparr>cb_read_file = None, cb_write_file = None, cb_syscall = None, cb_cmd = None\<rparr>"

text \<open>A local \<open>struct module\<close> before anything is stored in it.\<close>

definition fresh_module :: c_module where
  "fresh_module = \<lparr>dlhandle = None, mod_name = None, mod_desc = None, cbs = no_cbs\<rparr>"

definition field_bytes :: "ptr option \<Rightarrow> mval list" where
  "field_bytes f = (case f of None \<Rightarrow> replicate 8 Undef | Some p \<Rightarrow> enc (VPtr p))"

definition module_bytes :: "c_module \<Rightarrow> mval list" where
  "module_bytes m = field_bytes (dlhandle m) @ field_bytes (mod_name m) @ field_bytes (mod_desc m) @
     field_bytes (cb_read_file (cbs m)) @ field_bytes (cb_write_file (cbs m)) @
     field_bytes (cb_syscall (cbs m)) @ field_bytes (cb_cmd (cbs m))"

definition sizeof_module :: u64 where
  "sizeof_module = 56"

section \<open>One module\<close>

definition get_mod_path :: "string \<Rightarrow> string \<Rightarrow> (ptr, 'e world) prog" where
  "get_mod_path modules_path name =
     seq errm_clear
    (let mod_path_len = strlen modules_path + strlen name + sizeof_char_const in
     bind (malloc mod_path_len) (\<lambda>mod_path.
       if mod_path = null then seq (errm_error NOT_ENOUGH_MEMORY) (ret null)
       else seq (snprintf mod_path mod_path_len (modules_path @ name)) (ret mod_path)))"

text \<open>A \<open>const char *\<close> argument that may be NULL.\<close>

definition load_str_opt :: "ptr \<Rightarrow> (string option, 'e world) prog" where
  "load_str_opt p = (if p = null then ret None else bind (load_str p) (\<lambda>x. ret (Some x)))"

text \<open>\<open>if (dlerr) { errm_error(DYN_SHARED_OBJ_ERROR); return dlerr; }\<close> after \<open>dlerr = dlerror()\<close>; the
  struct is handed back as it is so far.\<close>

definition dl_checked ::
  "c_module \<Rightarrow> (string option \<times> c_module, 'e world) prog \<Rightarrow> (string option \<times> c_module, 'e world) prog" where
  "dl_checked m k = bind dlerror (\<lambda>dlerr.
     if dlerr \<noteq> None then seq (errm_error DYN_SHARED_OBJ_ERROR) (ret (dlerr, m)) else k)"

definition load_module ::
  "'e posix \<Rightarrow> string \<Rightarrow> c_module \<Rightarrow> string \<Rightarrow> (string option \<times> c_module, 'e world) prog" where
  "load_module P name m modules_path =
     seq errm_clear
    (bind (get_mod_path modules_path name) (\<lambda>path.
     bind (load_str_opt path) (\<lambda>x.
     bind (dlopen P x) (\<lambda>h.
     let m = m\<lparr>dlhandle := Some h\<rparr> in
     seq (free path)
    (dl_checked m
    (bind (dlsym P h ''name'') (\<lambda>p.
     let m = m\<lparr>mod_name := Some p\<rparr> in
     dl_checked m
    (bind (dlsym P h ''desc'') (\<lambda>p.
     let m = m\<lparr>mod_desc := Some p\<rparr> in
     dl_checked m
    (bind (dlsym P h ''init'') (\<lambda>init.
     dl_checked m
    (bind (reads (\<lambda>s. func_of s init)) (\<lambda>f.
     ret (None, m\<lparr>cbs := f (cbs m)\<rparr>))))))))))))))"

definition unload_module :: "c_module \<Rightarrow> (string option, 'e world) prog" where
  "unload_module m = bind (reads (\<lambda>s. dlhandle m)) (\<lambda>h. seq (dlclose h) dlerror)"

definition add_module :: "'e posix \<Rightarrow> string \<Rightarrow> string \<Rightarrow> string \<Rightarrow> (int, 'e world) prog" where
  "add_module P path name modules_path =
     bind (get_mod_path modules_path name) (\<lambda>mod_path.
     bind (symlink P path mod_path) (\<lambda>r.
     seq (free mod_path)
    (ret (if r = -1 then -1 else 0))))"

definition rm_module :: "'e posix \<Rightarrow> string \<Rightarrow> string \<Rightarrow> (int, 'e world) prog" where
  "rm_module P name modules_path =
     bind (get_mod_path modules_path name) (\<lambda>mod_path.
     bind (remove_file P mod_path) (\<lambda>r.
     seq (free mod_path)
    (ret (if r = -1 then -1 else 0))))"

section \<open>All modules of the directory\<close>

definition mod_names :: "'e posix \<Rightarrow> string \<Rightarrow> (ptr \<times> u64 option, 'e world) prog" where
  "mod_names P modules_path = dir_content P modules_path"

text \<open>The label \<open>fail\<close> of \<open>installed_mods\<close>.\<close>

definition mods_fail :: "ptr \<Rightarrow> (ptr \<times> u64 option, 'e world) prog" where
  "mods_fail all_mods = seq (dga_free all_mods) (ret (null, None))"

text \<open>The loop of \<open>installed_mods\<close> and what follows it; the first argument is fuel.\<close>

fun mods_loop ::
  "nat \<Rightarrow> 'e posix \<Rightarrow> string \<Rightarrow> ptr \<Rightarrow> u64 \<Rightarrow> ptr \<Rightarrow> u64 \<Rightarrow> (ptr \<times> u64 option, 'e world) prog" where
  "mods_loop 0 P modules_path all_mod_names len_mod_names all_mods i = (\<lambda>s. OutOfFuel)"
| "mods_loop (Suc k) P modules_path all_mod_names len_mod_names all_mods i =
     (if i < len_mod_names
      then bind (load_ptr (ptr_add all_mod_names (int (8 * unat i)))) (\<lambda>mod_name.
           dga_grow_or all_mods 1 (seq (errm_error NOT_ENOUGH_MEMORY) (mods_fail all_mods)) (\<lambda>all_mods.
           bind (load_str mod_name) (\<lambda>name.
           bind (load_module P name fresh_module modules_path) (\<lambda>r.
           bind errm_error_code (\<lambda>c.
             if c \<noteq> 0 then mods_fail all_mods
             else bind (dga_len all_mods) (\<lambda>n.
                  seq (store_bytes (ptr_add all_mods (int (56 * unat (n - 1)))) (module_bytes (snd r)))
                  (mods_loop k P modules_path all_mod_names len_mod_names all_mods (i + 1))))))))
      else bind (dga_len all_mods) (\<lambda>n. ret (all_mods, Some n)))"

definition installed_mods :: "'e posix \<Rightarrow> string \<Rightarrow> (ptr \<times> u64 option, 'e world) prog" where
  "installed_mods P modules_path = edf prom_call ''installed_mods'' ''modules/mods.c:105''
     (bind (mod_names P modules_path) (\<lambda>names.
      on_error_return (null, None)
     (seq (defer_call H_free_mod_names (fst names))
     (bind (dga_new 0 sizeof_module) (\<lambda>all_mods.
        if all_mods = null then seq (errm_error NOT_ENOUGH_MEMORY) (ret (null, None))
        else bind (reads (\<lambda>s. snd names)) (\<lambda>len_mod_names.
             mods_loop (Suc (unat len_mod_names)) P modules_path (fst names) len_mod_names all_mods 0))))))"

definition free_installed_mods :: "ptr \<Rightarrow> (unit, 'e world) prog" where
  "free_installed_mods mods = dga_free mods"

text \<open>\<open>dga_foreach(name, names) { dga_free(*name); }\<close>; the first argument is fuel.\<close>

fun free_each :: "nat \<Rightarrow> ptr \<Rightarrow> ptr \<Rightarrow> (unit, 'z proc_scheme) prog" where
  "free_each 0 names name = (\<lambda>s. OutOfFuel)"
| "free_each (Suc k) names name =
     bind (dga_len names) (\<lambda>n.
       if name \<noteq> ptr_add names (int (8 * unat n))
       then bind (load_ptr name) (\<lambda>p. seq (dga_free p) (free_each k names (ptr_add name 8)))
       else ret ())"

definition free_ul_mod_names :: "ptr \<Rightarrow> (unit, 'z proc_scheme) prog" where
  "free_ul_mod_names names =
     bind (dga_len names) (\<lambda>n.
       seq (free_each (Suc (unat n)) names names) (dga_free names))"

text \<open>The label \<open>memfail\<close> of \<open>clean_ul_mod_names\<close>.\<close>

definition clean_memfail :: "ptr \<Rightarrow> ptr \<Rightarrow> (ptr \<times> u64 option, 'e world) prog" where
  "clean_memfail ul_names names =
     seq (free_ul_mod_names ul_names)
    (seq (free_mod_names names)
    (seq (errm_error NOT_ENOUGH_MEMORY)
    (ret (null, None))))"

text \<open>The loop of \<open>clean_ul_mod_names\<close> and what follows it. \<open>dga_new(strlen(name) + 1, 0)\<close> makes an array
  of \<open>sizeof(0)\<close>, that is \<open>int\<close>, elements.\<close>

fun clean_loop ::
  "nat \<Rightarrow> 'e posix \<Rightarrow> string \<Rightarrow> ptr \<Rightarrow> u64 \<Rightarrow> ptr \<Rightarrow> u64 \<Rightarrow> (ptr \<times> u64 option, 'e world) prog" where
  "clean_loop 0 P modules_path names len_names ul_names i = (\<lambda>s. OutOfFuel)"
| "clean_loop (Suc k) P modules_path names len_names ul_names i =
     (if i < len_names
      then bind (load_ptr (ptr_add names (int (8 * unat i)))) (\<lambda>p.
           bind (load_str p) (\<lambda>name.
           bind (load_module P name fresh_module modules_path) (\<lambda>r.
             if fst r = None then clean_loop k P modules_path names len_names ul_names (i + 1)
             else bind (dga_new (strlen name + 1) 4) (\<lambda>ul_mod_name.
               if ul_mod_name = null then clean_memfail ul_names names
               else seq (strcpy ul_mod_name name)
                 (dga_grow_or ul_names 1 (clean_memfail ul_names names) (\<lambda>ul_names.
                  bind (dga_len ul_names) (\<lambda>n.
                  seq (store_ptr (ptr_add ul_names (int (8 * unat (n - 1)))) ul_mod_name)
                 (seq (rm_module P name modules_path)
                 (clean_loop k P modules_path names len_names ul_names (i + 1))))))))))
      else seq (free_mod_names names)
          (bind (dga_len ul_names) (\<lambda>n. ret (ul_names, Some n))))"

definition clean_ul_mod_names :: "'e posix \<Rightarrow> string \<Rightarrow> (ptr \<times> u64 option, 'e world) prog" where
  "clean_ul_mod_names P modules_path =
     seq errm_clear
    (bind (mod_names P modules_path) (\<lambda>names.
     on_error_return (null, None)
    (bind (dga_new 0 8) (\<lambda>ul_names.
     seq (if ul_names = null then errm_error NOT_ENOUGH_MEMORY else ret ())
    (bind (reads (\<lambda>s. snd names)) (\<lambda>len_names.
     clean_loop (Suc (unat len_names)) P modules_path (fst names) len_names ul_names 0))))))"

section \<open>Rules for one module\<close>

lemma length_field_bytes [simp]: "length (field_bytes f) = 8"
  by (simp add: field_bytes_def split: option.split)

lemma length_module_bytes [simp]: "length (module_bytes m) = 56"
  by (simp add: module_bytes_def)

definition path_fits :: "string \<Rightarrow> string \<Rightarrow> bool" where
  "path_fits modules_path name \<longleftrightarrow> c_string modules_path \<and> c_string name \<and>
     length modules_path + length name + 4 < 2 ^ 64"

lemma unat_mod_path_len:
  "path_fits mp name \<Longrightarrow> unat (strlen mp + strlen name + sizeof_char_const) = length mp + length name + 4"
proof -
  assume "path_fits mp name"
  moreover have "strlen mp + strlen name + sizeof_char_const = of_nat (length mp + length name + 4)"
    by (simp add: strlen_def sizeof_char_const_def)
  ultimately show ?thesis
    by (simp only: path_fits_def unat_of_nat_small)
qed

text \<open>The path of a module: a new string, or NULL with \<open>NOT_ENOUGH_MEMORY\<close>.\<close>

lemma runs_get_mod_path:
  assumes "mem_ok s" "path_fits mp name"
    and "\<And>s'. heap_ext (s\<lparr>err_code := No_Error\<rparr>) s' \<Longrightarrow> grants s (requests s) \<Longrightarrow>
      blocks s' = (blocks s)(Blk (next_blk s) \<mapsto> cstr (mp @ name) @ replicate 3 Undef) \<Longrightarrow>
      Q (Ptr (Blk (next_blk s)) 0) s'"
    and "\<And>s'. heap_ext (s\<lparr>err_code := No_Error\<rparr>) s' \<Longrightarrow> \<not> grants s (requests s) \<Longrightarrow> blocks s' = blocks s \<Longrightarrow>
      Q null (s'\<lparr>err_code := NOT_ENOUGH_MEMORY\<rparr>)"
  shows "runs (get_mod_path mp name) s Q"
proof -
  let ?s0 = "s\<lparr>err_code := No_Error\<rparr>" and ?b = "Blk (next_blk s)"
  let ?L = "strlen mp + strlen name + sizeof_char_const"
  note len = unat_mod_path_len [OF assms(2)]
  have mem: "mem_ok ?s0" using assms(1) by simp
  have "runs (malloc ?L) ?s0 (\<lambda>p s1. if p = null then Q null (s1\<lparr>err_code := NOT_ENOUGH_MEMORY\<rparr>)
      else runs (snprintf p ?L (mp @ name)) s1 (\<lambda>_ s'. Q p s'))"
  proof (rule runs_malloc_any [OF mem])
    fix s1 assume s1: "heap_ext ?s0 s1" "grants ?s0 (requests ?s0)"
      "blocks s1 = (blocks ?s0)(Blk (next_blk ?s0) \<mapsto> replicate (unat ?L) Undef)"
    have b: "blocks s1 ?b = Some (replicate (length mp + length name + 4) Undef)"
      using s1(3) len by simp
    let ?s2 = "s1\<lparr>blocks := (blocks s1)(?b \<mapsto> cstr (mp @ name) @ replicate 3 Undef)\<rparr>"
    have "heap_ext ?s0 ?s2"
      by (rule heap_ext_trans [OF s1(1) heap_ext_store [OF heap_ext_mem_ok [OF s1(1)] b]]) simp
    then have "Q (Ptr ?b 0) ?s2"
      by (rule assms(3)) (use s1 in simp_all)
    then show "if Ptr (Blk (next_blk ?s0)) 0 = null then Q null (s1\<lparr>err_code := NOT_ENOUGH_MEMORY\<rparr>)
        else runs (snprintf (Ptr (Blk (next_blk ?s0)) 0) ?L (mp @ name)) s1
          (\<lambda>_ s'. Q (Ptr (Blk (next_blk ?s0)) 0) s')"
      by (simp add: runs_snprintf [OF b] len)
  next
    fix s1 assume "heap_ext ?s0 s1" "blocks s1 = blocks ?s0" "\<not> grants ?s0 (requests ?s0)"
    then show "if null = null then Q null (s1\<lparr>err_code := NOT_ENOUGH_MEMORY\<rparr>)
        else runs (snprintf null ?L (mp @ name)) s1 (\<lambda>_ s'. Q null s')"
      by (auto intro: assms(4))
  qed
  then show ?thesis
    by (auto simp: get_mod_path_def runs_simps errm_clear_def errm_error_def Let_def elim!: runs_mono split: if_splits)
qed

text \<open>What loading leaves of the rest of the process, and the object \<open>dlopen\<close> maps.\<close>

definition load_step :: "'e world \<Rightarrow> 'e world \<Rightarrow> bool" where
  "load_step s s' \<longleftrightarrow> mem_ok s' \<and> next_blk s \<le> next_blk s' \<and> requests s \<le> requests s' \<and> grants s' = grants s \<and>
     env s' = env s \<and> dirs s' = dirs s \<and> next_ext s \<le> next_ext s' \<and> frames s' = frames s \<and> curr s' = curr s \<and>
     stdout_of s' = stdout_of s \<and> stderr_of s' = stderr_of s"

definition mapped :: "'e world \<Rightarrow> shared_object \<Rightarrow> 'e world \<Rightarrow> bool" where
  "mapped s so s' \<longleftrightarrow> libs s' = (libs s)(next_ext s \<mapsto> so) \<and> next_ext s' = Suc (next_ext s) \<and>
     blocks s' = map_lib (next_ext s) so (blocks s)"

definition not_mapped :: "'e world \<Rightarrow> 'e world \<Rightarrow> bool" where
  "not_mapped s s' \<longleftrightarrow> libs s' = libs s \<and> next_ext s' = next_ext s \<and> blocks s' = blocks s"

lemma map_lib_blk [simp]: "map_lib k so f (Blk n) = f (Blk n)" "map_lib k so f NoBase = f NoBase"
  by (simp_all add: map_lib_def)

lemma map_lib_free: "(map_lib k so (f(Blk n \<mapsto> v)))(Blk n := None) = map_lib k so (f(Blk n := None))"
  by (auto simp: map_lib_def fun_eq_iff split: base.split)

lemma load_step_heap: "heap_ext s s' \<Longrightarrow> load_step s s'"
  using heap_only_errm [of s s'] heap_only_world [of s s'] heap_only_proc [of s s']
  by (simp add: load_step_def heap_ext_def)

lemma load_step_trans: "load_step s s1 \<Longrightarrow> load_step s1 s2 \<Longrightarrow> load_step s s2"
  by (auto simp: load_step_def)

lemma load_step_err [simp]:
  "load_step (s\<lparr>err_code := e\<rparr>) s' = load_step s s'" "load_step s (s'\<lparr>err_code := e\<rparr>) = load_step s s'"
  "load_step s (s'\<lparr>dl_error := m\<rparr>) = load_step s s'"
  by (simp_all add: load_step_def mem_ok_def)

lemma mapped_err [simp]:
  "mapped s so (s'\<lparr>err_code := e\<rparr>) = mapped s so s'" "mapped s so (s'\<lparr>dl_error := m\<rparr>) = mapped s so s'"
  "not_mapped s (s'\<lparr>err_code := e\<rparr>) = not_mapped s s'" "not_mapped s (s'\<lparr>dl_error := m\<rparr>) = not_mapped s s'"
  by (simp_all add: mapped_def not_mapped_def)

text \<open>The call of \<open>dlopen\<close> on the path, and the release of the path.\<close>

definition open_lib :: "'e posix \<Rightarrow> string \<Rightarrow> string \<Rightarrow> (ptr, 'e world) prog" where
  "open_lib P modules_path name =
     bind (get_mod_path modules_path name) (\<lambda>path.
     bind (load_str_opt path) (\<lambda>x.
     bind (dlopen P x) (\<lambda>h. seq (free path) (ret h))))"

lemma runs_load_str_opt [runs_simps]:
  "runs (load_str_opt p) s Q \<longleftrightarrow> (if p = null then Q None s else \<exists>x. str_of_ptr s p = Some x \<and> Q (Some x) s)"
  by (simp add: load_str_opt_def runs_simps)

definition opened_lib :: "'e world \<Rightarrow> string + shared_object \<Rightarrow> ptr \<Rightarrow> 'e world \<Rightarrow> bool" where
  "opened_lib s r h s' \<longleftrightarrow> load_step s s' \<and> (case r of
       Inl msg \<Rightarrow> h = null \<and> not_mapped s s' \<and> dl_error s' = Some msg
     | Inr so \<Rightarrow> h = Ptr (Ext (next_ext s)) 0 \<and> mapped s so s' \<and> dl_error s' = dl_error s)"

lemma runs_dlopen:
  "mem_ok s \<Longrightarrow> runs (dlopen P x) s (\<lambda>h s'. opened_lib s (os_dlopen P (env s) x) h s' \<and>
     err_code s' = err_code s \<and> next_blk s' = next_blk s)"
  by (cases "os_dlopen P (env s) x")
    (simp_all add: dlopen_def runs_simps opened_lib_def not_mapped_def load_step_def mem_ok_def,
     simp add: runs_def mapped_def)

lemma runs_open_lib:
  assumes "mem_ok s" "path_fits mp name"
  shows "runs (open_lib P mp name) s (\<lambda>h s'.
    if grants s (requests s)
    then opened_lib s (os_dlopen P (env s) (Some (mp @ name))) h s' \<and> err_code s' = No_Error
    else opened_lib s (os_dlopen P (env s) None) h s' \<and> err_code s' = NOT_ENOUGH_MEMORY)"
  unfolding open_lib_def runs_bind [of "get_mod_path _ _"]
proof (rule runs_get_mod_path [OF assms])
  let ?b = "Blk (next_blk s)"
  let ?Q = "\<lambda>h s'. if grants s (requests s)
    then opened_lib s (os_dlopen P (env s) (Some (mp @ name))) h s' \<and> err_code s' = No_Error
    else opened_lib s (os_dlopen P (env s) None) h s' \<and> err_code s' = NOT_ENOUGH_MEMORY"
  fix s1 assume s1: "heap_ext (s\<lparr>err_code := No_Error\<rparr>) s1" "grants s (requests s)"
    "blocks s1 = (blocks s)(?b \<mapsto> cstr (mp @ name) @ replicate 3 Undef)"
  note world1 = heap_only_world [of "s\<lparr>err_code := No_Error\<rparr>" s1] heap_only_errm [of "s\<lparr>err_code := No_Error\<rparr>" s1]
  have step1: "load_step s s1" using load_step_heap [OF s1(1)] by simp
  have str: "str_of_ptr s1 (Ptr ?b 0) = Some (mp @ name)"
    using s1(3) assms(2) str_at_cstr [of "mp @ name"] by (simp add: str_of_ptr_def path_fits_def)
  have "runs (bind (dlopen P (Some (mp @ name))) (\<lambda>h. seq (free (Ptr ?b 0)) (ret h))) s1 ?Q"
    unfolding runs_bind
  proof (rule runs_mono [OF runs_dlopen [OF heap_ext_mem_ok [OF s1(1)]]])
    fix h s2
    assume s2: "opened_lib s1 (os_dlopen P (env s1) (Some (mp @ name))) h s2 \<and>
      err_code s2 = err_code s1 \<and> next_blk s2 = next_blk s1"
    have env1: "env s1 = env s" "next_ext s1 = next_ext s" "libs s1 = libs s" "dl_error s1 = dl_error s"
      "err_code s1 = No_Error"
      using world1 s1(1) by (simp_all add: heap_ext_def)
    have fresh: "blocks s ?b = None" by (rule fresh_blk [OF assms(1)])
    let ?s3 = "s2\<lparr>blocks := (blocks s2)(?b := None)\<rparr>"
    have live: "blocks s2 ?b \<noteq> None"
      using s2 s1(3) by (auto simp: opened_lib_def not_mapped_def mapped_def split: sum.splits)
    have step2: "load_step s s2"
      using load_step_trans [OF step1] s2 by (simp add: opened_lib_def)
    then have "load_step s ?s3"
      by (simp add: load_step_def mem_ok_def)
    moreover have "case os_dlopen P (env s) (Some (mp @ name)) of
         Inl msg \<Rightarrow> h = null \<and> not_mapped s ?s3 \<and> dl_error ?s3 = Some msg
       | Inr so \<Rightarrow> h = Ptr (Ext (next_ext s)) 0 \<and> mapped s so ?s3 \<and> dl_error ?s3 = dl_error s"
      using s2 s1(3) env1 fresh
      by (auto simp: opened_lib_def not_mapped_def mapped_def map_lib_free fun_upd_idem split: sum.splits)
    ultimately have "?Q h ?s3"
      using s1(2) s2 env1 by (simp add: opened_lib_def)
    then show "runs (seq (free (Ptr ?b 0)) (ret h)) s2 ?Q"
      using live by (simp add: runs_seq runs_free runs_ret)
  qed
  with str show "runs (bind (load_str_opt (Ptr ?b 0)) (\<lambda>x. bind (dlopen P x) (\<lambda>h. seq (free (Ptr ?b 0)) (ret h)))) s1 ?Q"
    by (simp add: runs_bind [of "load_str_opt _"] runs_load_str_opt)
next
  let ?Q = "\<lambda>h s'. if grants s (requests s)
    then opened_lib s (os_dlopen P (env s) (Some (mp @ name))) h s' \<and> err_code s' = No_Error
    else opened_lib s (os_dlopen P (env s) None) h s' \<and> err_code s' = NOT_ENOUGH_MEMORY"
  fix s1 assume s1: "heap_ext (s\<lparr>err_code := No_Error\<rparr>) s1" "\<not> grants s (requests s)" "blocks s1 = blocks s"
  let ?s1 = "s1\<lparr>err_code := NOT_ENOUGH_MEMORY\<rparr>"
  have step1: "load_step s ?s1" using load_step_heap [OF s1(1)] by simp
  have env1: "env s1 = env s" "next_ext s1 = next_ext s" "libs s1 = libs s" "dl_error s1 = dl_error s"
    using heap_only_world [of "s\<lparr>err_code := No_Error\<rparr>" s1] s1(1) by (simp_all add: heap_ext_def)
  have "runs (dlopen P None) ?s1 ?Q"
  proof (rule runs_mono [OF runs_dlopen])
    show "mem_ok ?s1" using heap_ext_mem_ok [OF s1(1)] by simp
    fix h s2
    assume s2: "opened_lib ?s1 (os_dlopen P (env ?s1) None) h s2 \<and>
      err_code s2 = err_code ?s1 \<and> next_blk s2 = next_blk ?s1"
    have "load_step s s2"
      using load_step_trans [OF step1] s2 by (simp add: opened_lib_def)
    with s1(2,3) s2 env1 show "?Q h s2"
      by (simp add: opened_lib_def not_mapped_def mapped_def split: sum.splits)
  qed
  then show "runs (bind (load_str_opt null) (\<lambda>x. bind (dlopen P x) (\<lambda>h. seq (free null) (ret h)))) ?s1 ?Q"
    by (simp add: runs_bind runs_load_str_opt runs_seq runs_free_null runs_ret)
qed

text \<open>The symbol that makes a load fail, the entry point of an object that has all three, and the
  struct after loading object \<open>k\<close>.\<close>

definition missing :: "shared_object \<Rightarrow> string option" where
  "missing so = find (\<lambda>x. so x = None) [''name'', ''desc'', ''init'']"

definition entry :: "shared_object \<Rightarrow> (module_cbs \<Rightarrow> module_cbs) option" where
  "entry so = (case so ''init'' of Some (Func f) \<Rightarrow> Some f | _ \<Rightarrow> None)"

definition loaded_module :: "nat \<Rightarrow> shared_object \<Rightarrow> c_module \<Rightarrow> c_module" where
  "loaded_module k so m = m\<lparr>dlhandle := Some (Ptr (Ext k) 0), mod_name := Some (Ptr (Sym k ''name'') 0),
     mod_desc := Some (Ptr (Sym k ''desc'') 0), cbs := the (entry so) (cbs m)\<rparr>"

definition load_result ::
  "'e posix \<Rightarrow> c_module \<Rightarrow> error_code \<Rightarrow> 'e world \<Rightarrow> string + shared_object \<Rightarrow> string option \<times> c_module \<Rightarrow>
   'e world \<Rightarrow> bool" where
  "load_result P m code s r q s' \<longleftrightarrow> load_step s s' \<and> dl_error s' = None \<and> (case r of
       Inl msg \<Rightarrow> fst q = Some msg \<and> not_mapped s s' \<and> err_code s' = DYN_SHARED_OBJ_ERROR
     | Inr so \<Rightarrow> mapped s so s' \<and> (case missing so of
           Some x \<Rightarrow> fst q = Some (os_nosym P x) \<and> err_code s' = DYN_SHARED_OBJ_ERROR
         | None \<Rightarrow> fst q = None \<and> snd q = loaded_module (next_ext s) so m \<and> err_code s' = code))"

text \<open>What \<open>load_module\<close> does once \<open>dlopen\<close> has answered.\<close>

definition load_rest :: "'e posix \<Rightarrow> c_module \<Rightarrow> ptr \<Rightarrow> (string option \<times> c_module, 'e world) prog" where
  "load_rest P m0 h =
     (let m = m0\<lparr>dlhandle := Some h\<rparr> in
      dl_checked m
     (bind (dlsym P h ''name'') (\<lambda>p.
      let m = m\<lparr>mod_name := Some p\<rparr> in
      dl_checked m
     (bind (dlsym P h ''desc'') (\<lambda>p.
      let m = m\<lparr>mod_desc := Some p\<rparr> in
      dl_checked m
     (bind (dlsym P h ''init'') (\<lambda>init.
      dl_checked m
     (bind (reads (\<lambda>s. func_of s init)) (\<lambda>f.
      ret (None, m\<lparr>cbs := f (cbs m)\<rparr>))))))))))"

lemma runs_dl_checked [runs_simps]:
  "runs (dl_checked m k) s Q \<longleftrightarrow> (let s1 = s\<lparr>dl_error := None\<rparr> in
     if dl_error s = None then runs k s1 Q
     else Q (dl_error s, m) (s1\<lparr>err_code := DYN_SHARED_OBJ_ERROR\<rparr>))"
  by (simp add: dl_checked_def dlerror_def runs_simps Let_def errm_error_def)

lemma runs_dlsym:
  assumes "libs s k = Some so"
  shows "runs (dlsym P (Ptr (Ext k) 0) x) s Q \<longleftrightarrow>
    (if so x = None then Q null (s\<lparr>dl_error := Some (os_nosym P x)\<rparr>) else Q (Ptr (Sym k x) 0) s)"
  using assms by (simp add: dlsym_def lib_of_def runs_simps)

lemma load_step_upd:
  assumes "load_step s s1"
  shows "load_step s (s1\<lparr>dl_error := d, err_code := c\<rparr>)" "load_step s (s1\<lparr>dl_error := d\<rparr>)"
    "load_step s (s1\<lparr>err_code := c\<rparr>)"
  using assms by simp_all

lemma dl_error_None_upd: "dl_error s = None \<Longrightarrow> s\<lparr>dl_error := None\<rparr> = s" for s :: "'e world"
  by (metis world.surjective world.update_convs(5))

lemma runs_load_rest:
  assumes "opened_lib s r h s1" "err_code s1 = code" "dl_error s = None"
    and "\<And>so. r = Inr so \<Longrightarrow> missing so = None \<Longrightarrow> entry so \<noteq> None"
  shows "runs (load_rest P m h) s1 (load_result P m code s r)"
proof (cases r)
  case (Inl msg)
  with assms(1) show ?thesis
    by (simp add: load_rest_def Let_def runs_dl_checked opened_lib_def load_result_def)
next
  case (Inr so)
  have h: "h = Ptr (Ext (next_ext s)) 0" "load_step s s1" "mapped s so s1" "dl_error s1 = None"
    using assms(1,3) Inr by (simp_all add: opened_lib_def)
  note clear = dl_error_None_upd [OF h(4)]
  have lib: "libs s1 (next_ext s) = Some so"
    using h(3) by (simp add: mapped_def)
  have sym: "runs (dlsym P (Ptr (Ext (next_ext s)) 0) x) s1 Q \<longleftrightarrow>
      (if so x = None then Q null (s1\<lparr>dl_error := Some (os_nosym P x)\<rparr>) else Q (Ptr (Sym (next_ext s) x) 0) s1)" for x Q
    by (rule runs_dlsym [OF lib])
  have fails: "load_result P m code s r (Some (os_nosym P x), m') (s1\<lparr>dl_error := None, err_code := DYN_SHARED_OBJ_ERROR\<rparr>)"
    if "missing so = Some x" for x m'
    using h that Inr by (simp add: load_result_def)
  show ?thesis
  proof (cases "missing so")
    case (Some x)
    then show ?thesis
      using h fails
      by (auto simp: load_rest_def Let_def runs_dl_checked runs_bind sym clear missing_def split: if_splits)
  next
    case None
    obtain f where f: "so ''init'' = Some (Func f)"
      using assms(4) [OF Inr None] by (auto simp: entry_def split: option.splits symbol.splits)
    have here: "so ''name'' \<noteq> None" "so ''desc'' \<noteq> None"
      using None by (auto simp: missing_def split: if_splits)
    have call: "func_of s1 (Ptr (Sym (next_ext s) ''init'') 0) = Some f"
      using lib f by (simp add: func_of_def)
    have "load_result P m code s r (None, m\<lparr>dlhandle := Some h, mod_name := Some (Ptr (Sym (next_ext s) ''name'') 0),
        mod_desc := Some (Ptr (Sym (next_ext s) ''desc'') 0), cbs := f (cbs m)\<rparr>) s1"
      using h None Inr f assms(2) by (simp add: load_result_def loaded_module_def entry_def)
    then show ?thesis
      using here f call h(1,4)
      by (auto simp: load_rest_def Let_def runs_dl_checked runs_bind sym clear runs_reads runs_ret)
  qed
qed

lemma load_module_parts:
  "runs (load_module P name m mp) s Q \<longleftrightarrow>
   runs (open_lib P mp name) (s\<lparr>err_code := No_Error\<rparr>) (\<lambda>h s1. runs (load_rest P m h) s1 Q)"
  by (simp add: load_module_def open_lib_def load_rest_def Let_def runs_bind runs_seq runs_ret errm_clear_def runs_modify)

text \<open>The answer of \<open>dlopen\<close> a call of \<open>load_module\<close> sees: for the module's path or, without memory for the
  path, for the program itself.\<close>

definition lib_answer :: "'e posix \<Rightarrow> 'e world \<Rightarrow> string \<Rightarrow> string \<Rightarrow> string + shared_object" where
  "lib_answer P s mp name =
     os_dlopen P (env s) (if grants s (requests s) then Some (mp @ name) else None)"

lemma runs_load_module:
  assumes "mem_ok s" "path_fits mp name" "dl_error s = None"
    and "\<And>so. lib_answer P s mp name = Inr so \<Longrightarrow> missing so = None \<Longrightarrow> entry so \<noteq> None"
  shows "runs (load_module P name m mp) s
    (load_result P m (if grants s (requests s) then No_Error else NOT_ENOUGH_MEMORY) s (lib_answer P s mp name))"
  unfolding load_module_parts
proof (rule runs_mono [OF runs_open_lib])
  let ?s0 = "s\<lparr>err_code := No_Error\<rparr>" and ?r = "lib_answer P s mp name"
  let ?code = "if grants s (requests s) then No_Error else NOT_ENOUGH_MEMORY"
  show "mem_ok ?s0" "path_fits mp name" using assms(1,2) by simp_all
  fix h s1 assume s1: "if grants ?s0 (requests ?s0)
    then opened_lib ?s0 (os_dlopen P (env ?s0) (Some (mp @ name))) h s1 \<and> err_code s1 = No_Error
    else opened_lib ?s0 (os_dlopen P (env ?s0) None) h s1 \<and> err_code s1 = NOT_ENOUGH_MEMORY"
  then have "opened_lib s ?r h s1" "err_code s1 = ?code"
    by (auto simp: lib_answer_def opened_lib_def not_mapped_def mapped_def split: if_splits sum.splits)
  then show "runs (load_rest P m h) s1 (load_result P m ?code s ?r)"
    by (rule runs_load_rest [OF _ _ assms(3,4)])
qed

section \<open>Rules for the modules of the directory\<close>

text \<open>The objects of \<open>s0\<close>, those of shared objects aside, are there in \<open>s\<close>, and beside them at most
  \<open>B\<close>.\<close>

fun is_sym :: "base \<Rightarrow> bool" where
  "is_sym (Sym n x) = True"
| "is_sym _ = False"

definition extends_heap :: "'z proc_scheme \<Rightarrow> base set \<Rightarrow> 'z proc_scheme \<Rightarrow> bool" where
  "extends_heap s0 B s \<longleftrightarrow> (\<forall>b\<in>B. blocks s0 b = None) \<and>
     (\<forall>b. b \<notin> B \<and> \<not> is_sym b \<longrightarrow> blocks s b = blocks s0 b)"

text \<open>The data symbols of every object loaded hold the object's text.\<close>

definition syms_mapped :: "'e world \<Rightarrow> bool" where
  "syms_mapped s \<longleftrightarrow> (\<forall>k so x d. libs s k = Some so \<longrightarrow> so x = Some (Data d) \<longrightarrow> blocks s (Sym k x) = Some (cstr d))"

definition keeps_syms :: "'e world \<Rightarrow> 'e world \<Rightarrow> bool" where
  "keeps_syms s s' \<longleftrightarrow> (syms_mapped s \<longrightarrow> syms_mapped s')"

lemma keeps_syms_refl [simp]: "keeps_syms s s"
  by (simp add: keeps_syms_def)

lemma keeps_syms_trans: "keeps_syms s s1 \<Longrightarrow> keeps_syms s1 s2 \<Longrightarrow> keeps_syms s s2"
  by (simp add: keeps_syms_def)

lemma keeps_syms_same: "libs s' = libs s \<Longrightarrow> (\<And>k x. blocks s' (Sym k x) = blocks s (Sym k x)) \<Longrightarrow> keeps_syms s s'"
  by (simp add: keeps_syms_def syms_mapped_def)

lemma keeps_syms_untouched:
  assumes "untouched B s s'" "\<forall>b\<in>B. \<not> is_sym b" "libs s' = libs s"
  shows "keeps_syms s s'"
proof (rule keeps_syms_same [OF assms(3)])
  fix k x
  have "Sym k x \<notin> B" using assms(2) is_sym.simps(1) by blast
  with assms(1) show "blocks s' (Sym k x) = blocks s (Sym k x)" by (simp add: untouched_def)
qed

lemma dga_not_sym: "dga_ok s p n t pl \<Longrightarrow> \<not> is_sym (pbase p)"
  by (auto simp: dga_ok_def is_dga_def)

lemma map_lib_other [simp]: "\<not> is_sym b \<Longrightarrow> map_lib k so f b = f b"
  by (cases b) (simp_all add: map_lib_def)

lemma names_not_sym: "list_all2 (name_at s) ns ps \<Longrightarrow> \<forall>q\<in>set ps. \<not> is_sym (pbase q)"
  by (induction ns ps rule: list_all2_induct) (auto simp: name_at_def dest: dga_not_sym)

lemma name_bases_blk: "names_at s p ns ps \<Longrightarrow> b \<in> name_bases p ps \<Longrightarrow> \<not> is_sym b"
  using names_not_sym [of s ns ps] dga_not_sym [of s p] by (auto simp: names_at_def name_bases_def)

lemma names_at_extends:
  assumes "names_at s0 p ns ps" "extends_heap s0 B s"
  shows "names_at s p ns ps"
proof (rule names_at_cong [OF assms(1)], rule ballI)
  fix b assume b: "b \<in> name_bases p ps"
  have "b \<notin> B"
    using assms(2) names_at_live [OF assms(1) b] by (auto simp: extends_heap_def)
  then show "blocks s b = blocks s0 b"
    using assms(2) name_bases_blk [OF assms(1) b] by (simp add: extends_heap_def)
qed

lemma name_at_str:
  assumes "name_at s x q" "c_string x"
  shows "str_of_ptr s q = Some x"
proof -
  obtain b cap n t rest where q: "q = Ptr (Blk b) 24" "length cap = 8"
    "blocks s (Blk b) = Some (dga_bytes n cap t (cstr x @ rest))"
    using assms(1) by (auto simp: name_at_def dga_ok_def is_dga_def)
  have "blocks s (Blk b) = Some ((enc (VWord n) @ cap @ enc (VWord t)) @ cstr x @ rest)"
    using q(3) by (simp add: dga_bytes_def)
  from str_of_ptr_seg [OF this] show ?thesis
    using assms(2) q(1,2) by simp
qed

text \<open>Reading the \<open>i\<close>-th name.\<close>

lemma names_at_nth:
  assumes "names_at s p ns ps" "name_room ns" "i < length ns"
  shows "runs (load_ptr (ptr_add p (int (8 * i)))) s Q \<longleftrightarrow> Q (ps ! i) s"
    "name_at s (ns ! i) (ps ! i)" "c_string (ns ! i)"
proof -
  show "runs (load_ptr (ptr_add p (int (8 * i)))) s Q \<longleftrightarrow> Q (ps ! i) s"
    by (rule runs_load_elem) (use names_atD [OF assms(1)] assms(3) in simp_all)
  show "name_at s (ns ! i) (ps ! i)"
    using names_atD(2) [OF assms(1)] assms(3) by (simp add: list_all2_conv_all_nth)
  show "c_string (ns ! i)"
    using assms(2,3) by (simp add: name_room_def)
qed

definition mods_bytes :: "c_module list \<Rightarrow> mval list" where
  "mods_bytes ms = concat (map module_bytes ms)"

lemma mods_bytes_simps [simp]:
  "mods_bytes [] = []" "mods_bytes (ms @ [m]) = mods_bytes ms @ module_bytes m"
  "length (mods_bytes ms) = 56 * length ms"
  by (induction ms) (simp_all add: mods_bytes_def)

text \<open>The state of the loop of \<open>installed_mods\<close>: \<open>s0\<close> is the state before \<open>all_mods\<close> was made.\<close>

definition mods_inv :: "'e world \<Rightarrow> ptr \<Rightarrow> c_module list \<Rightarrow> 'e world \<Rightarrow> bool" where
  "mods_inv s0 am ms s \<longleftrightarrow> healthy s \<and> dl_error s = None \<and> err_code s = No_Error \<and> load_step s0 s \<and>
     dga_ok s am (of_nat (length ms)) sizeof_module (mods_bytes ms) \<and> extends_heap s0 {pbase am} s \<and> keeps_syms s0 s"

lemma load_step_healthy: "healthy s \<Longrightarrow> load_step s s' \<Longrightarrow> healthy s'"
  by (auto simp: healthy_def load_step_def never_oom_def)

lemma fits_mods: "length ms < 2 ^ 56 \<Longrightarrow> fits (of_nat (length ms) + 1) sizeof_module"
  using fits_names [of ms] by (simp add: fits_def sizeof_module_def)

lemma uint_len: "length xs < 2 ^ 56 \<Longrightarrow> uint (of_nat (length xs) :: u64) = int (length xs)"
  by (subst uint_nat) (simp only: fits_names [THEN conjunct2, THEN conjunct2, THEN conjunct2])

text \<open>Growing \<open>all_mods\<close> for a module.\<close>

lemma runs_grow_mods:
  assumes "mods_inv s0 am ms s" "length ms < 2 ^ 56"
  shows "runs (dga_grow am 1) s (\<lambda>am' s1. am' \<noteq> null \<and> heap_ext s s1 \<and> healthy s1 \<and> dl_error s1 = None \<and>
    load_step s0 s1 \<and> libs s1 = libs s \<and> next_ext s1 = next_ext s \<and>
    dga_ok s1 am' (of_nat (length ms) + 1) sizeof_module (mods_bytes ms @ replicate 56 Undef) \<and>
    extends_heap s0 {pbase am'} s1 \<and> keeps_syms s0 s1)"
proof -
  have inv: "healthy s" "dl_error s = None" "load_step s0 s" "extends_heap s0 {pbase am} s"
    "dga_ok s am (of_nat (length ms)) sizeof_module (mods_bytes ms)" "keeps_syms s0 s"
    using assms(1) by (simp_all add: mods_inv_def)
  note n = fits_names [OF assms(2)]
  show ?thesis
  proof (rule runs_mono [OF dga.grow_one [OF inv(1,5) fits_mods [OF assms(2)]]])
    show "unat (of_nat (length ms) + 1 :: u64) = Suc (unat (of_nat (length ms) :: u64))" using n by simp
    fix am' s1
    assume s1: "am' \<noteq> null \<and> heap_ext s s1 \<and>
      dga_ok s1 am' (of_nat (length ms) + 1) sizeof_module (mods_bytes ms @ replicate (unat sizeof_module) Undef) \<and>
      blocks s (pbase am') = None \<and> blocks s1 (pbase am) = None \<and> untouched {pbase am, pbase am'} s s1"
    have sym: "\<not> is_sym (pbase am)" "\<not> is_sym (pbase am')"
      using dga_not_sym [OF inv(5)] s1 dga_not_sym by blast+
    have "blocks s0 (pbase am') = None"
      using inv(4) s1 sym(2) by (cases "pbase am' = pbase am") (auto simp: extends_heap_def)
    moreover have "blocks s1 b = blocks s0 b" if "b \<noteq> pbase am'" "\<not> is_sym b" for b
      using inv(4) s1 that by (cases "b = pbase am") (auto simp: extends_heap_def untouched_def)
    ultimately have "extends_heap s0 {pbase am'} s1"
      by (simp add: extends_heap_def)
    moreover have "heap_only s s1" using s1 by (simp add: heap_ext_def)
    moreover have "load_step s0 s1"
      using load_step_trans [OF inv(3)] s1 load_step_heap by blast
    moreover have "keeps_syms s s1"
      by (rule keeps_syms_untouched [of "{pbase am, pbase am'}"])
        (use s1 sym heap_only_world [of s s1] in \<open>auto simp: heap_ext_def\<close>)
    ultimately show "am' \<noteq> null \<and> heap_ext s s1 \<and> healthy s1 \<and> dl_error s1 = None \<and>
        load_step s0 s1 \<and> libs s1 = libs s \<and> next_ext s1 = next_ext s \<and>
        dga_ok s1 am' (of_nat (length ms) + 1) sizeof_module (mods_bytes ms @ replicate 56 Undef) \<and>
        extends_heap s0 {pbase am'} s1 \<and> keeps_syms s0 s1"
      using s1 heap_ext_healthy [OF inv(1)] heap_only_world [of s s1] inv(2) keeps_syms_trans [OF inv(6)]
      by (simp add: sizeof_module_def)
  qed
qed

text \<open>The answers that load a module and those that fail to.\<close>

definition loads :: "string + shared_object \<Rightarrow> bool" where
  "loads r = (case r of Inl _ \<Rightarrow> False | Inr so \<Rightarrow> missing so = None \<and> entry so \<noteq> None)"

definition refused :: "string + shared_object \<Rightarrow> bool" where
  "refused r = (case r of Inl _ \<Rightarrow> True | Inr so \<Rightarrow> missing so \<noteq> None)"

lemma loads_obtain: "loads r \<Longrightarrow> (\<And>so. r = Inr so \<Longrightarrow> missing so = None \<Longrightarrow> entry so \<noteq> None \<Longrightarrow> thesis) \<Longrightarrow> thesis"
  by (auto simp: loads_def split: sum.splits)

lemma extends_heap_map:
  assumes "extends_heap s0 B s" "load_step s s'" "mapped s so s' \<or> not_mapped s s'"
  shows "extends_heap s0 B s'"
  using assms by (auto simp: extends_heap_def mapped_def not_mapped_def)

lemma dga_ok_map:
  assumes "dga_ok s p n t pl" "mapped s so s' \<or> not_mapped s s'"
  shows "dga_ok s' p n t pl"
  by (rule dga.rep_local [OF assms(1)])
    (use assms(2) dga_not_sym [OF assms(1)] in \<open>auto simp: mapped_def not_mapped_def\<close>)

lemma keeps_syms_map:
  assumes "mapped s so s' \<or> not_mapped s s'"
  shows "keeps_syms s s'"
  using assms by (auto simp: keeps_syms_def syms_mapped_def mapped_def not_mapped_def map_lib_def)

text \<open>The state after growing \<open>all_mods\<close>.\<close>

definition grown_inv :: "'e world \<Rightarrow> ptr \<Rightarrow> c_module list \<Rightarrow> 'e world \<Rightarrow> bool" where
  "grown_inv s0 am ms s1 \<longleftrightarrow> healthy s1 \<and> dl_error s1 = None \<and> load_step s0 s1 \<and>
     dga_ok s1 am (of_nat (length ms) + 1) sizeof_module (mods_bytes ms @ replicate 56 Undef) \<and>
     extends_heap s0 {pbase am} s1 \<and> keeps_syms s0 s1"

lemma runs_load_store:
  assumes inv: "grown_inv s0 am ms s1" and len: "length ms < 2 ^ 56" and path: "path_fits mp x"
    and so: "os_dlopen P (env s0) (Some (mp @ x)) = Inr so" "missing so = None" "entry so \<noteq> None"
  shows "runs (load_module P x fresh_module mp) s1 (\<lambda>r s2. err_code s2 = No_Error \<and>
    runs (dga_len am) s2 (\<lambda>n s3. runs (store_bytes (ptr_add am (int (56 * unat (n - 1)))) (module_bytes (snd r))) s3
      (\<lambda>_ s'. mods_inv s0 am (ms @ [loaded_module (next_ext s1) so fresh_module]) s' \<and>
        libs s' = (libs s1)(next_ext s1 \<mapsto> so) \<and> next_ext s' = Suc (next_ext s1))))"
proof -
  let ?m = "loaded_module (next_ext s1) so fresh_module"
  have h1: "healthy s1" "mem_ok s1" "dl_error s1 = None" "load_step s0 s1"
    "dga_ok s1 am (of_nat (length ms) + 1) sizeof_module (mods_bytes ms @ replicate 56 Undef)"
    using inv by (simp_all add: grown_inv_def healthy_def)
  have ans: "lib_answer P s1 mp x = Inr so" "grants s1 (requests s1)"
    using h1 so(1) never_oom_now [of s1] by (simp_all add: lib_answer_def healthy_def load_step_def)
  show ?thesis
  proof (rule runs_mono [OF runs_load_module [OF h1(2) path h1(3)]])
    show "\<And>so. lib_answer P s1 mp x = Inr so \<Longrightarrow> missing so = None \<Longrightarrow> entry so \<noteq> None"
      using ans so by simp
    fix r s2 assume "load_result P fresh_module (if grants s1 (requests s1) then No_Error else NOT_ENOUGH_MEMORY)
      s1 (lib_answer P s1 mp x) r s2"
    then have s2: "load_step s1 s2" "dl_error s2 = None" "mapped s1 so s2" "snd r = ?m" "err_code s2 = No_Error"
      using ans so by (simp_all add: load_result_def)
    have arr: "dga_ok s2 am (of_nat (length ms) + 1) sizeof_module (mods_bytes ms @ replicate 56 Undef)"
      using dga_ok_map [OF h1(5)] s2(3) by blast
    have h2: "healthy s2" by (rule load_step_healthy [OF h1(1) s2(1)])
    have "runs (store_bytes (ptr_add am (int (length (mods_bytes ms)))) (module_bytes ?m)) s2 (\<lambda>_ s'. heap_ext s2 s' \<and>
        dga_ok s' am (of_nat (length ms) + 1) sizeof_module (mods_bytes ms @ module_bytes ?m) \<and> untouched {pbase am} s2 s')"
      by (rule dga.set_last [OF h2 arr]) simp
    then have "runs (store_bytes (ptr_add am (int (56 * length ms))) (module_bytes (snd r))) s2
      (\<lambda>_ s'. mods_inv s0 am (ms @ [?m]) s' \<and> libs s' = (libs s1)(next_ext s1 \<mapsto> so) \<and> next_ext s' = Suc (next_ext s1))"
      unfolding s2(4) mods_bytes_simps(3)
    proof (rule runs_mono)
      fix u s' assume s': "heap_ext s2 s' \<and> dga_ok s' am (of_nat (length ms) + 1) sizeof_module
        (mods_bytes ms @ module_bytes ?m) \<and> untouched {pbase am} s2 s'"
      have ext2: "extends_heap s0 {pbase am} s2"
        using extends_heap_map [of s0 "{pbase am}" s1 s2 so] inv s2 by (simp add: grown_inv_def)
      then have "extends_heap s0 {pbase am} s'"
        using s' by (auto simp: extends_heap_def untouched_def)
      moreover have "load_step s0 s'"
        using load_step_trans [OF h1(4) load_step_trans [OF s2(1) load_step_heap]] s' by blast
      moreover have "keeps_syms s2 s'"
        by (rule keeps_syms_untouched [of "{pbase am}"])
          (use s' dga_not_sym [OF arr] heap_only_world [of s2 s'] in \<open>auto simp: heap_ext_def\<close>)
      then have "keeps_syms s0 s'"
        using inv keeps_syms_map [of s1 so s2] s2(3) by (auto simp: grown_inv_def keeps_syms_def)
      ultimately show "mods_inv s0 am (ms @ [?m]) s' \<and> libs s' = (libs s1)(next_ext s1 \<mapsto> so) \<and>
          next_ext s' = Suc (next_ext s1)"
        using s' s2 heap_ext_healthy [OF h2] heap_only_world [of s2 s'] heap_only_errm(3) [of s2 s']
        by (simp add: mods_inv_def mapped_def heap_ext_def add.commute)
    qed
    moreover have "uint (of_nat (length ms) + 1 - 1 :: u64) = int (length ms)"
      using uint_len [OF len] by simp
    ultimately show "err_code s2 = No_Error \<and> runs (dga_len am) s2 (\<lambda>n s3.
        runs (store_bytes (ptr_add am (int (56 * unat (n - 1)))) (module_bytes (snd r))) s3
        (\<lambda>_ s'. mods_inv s0 am (ms @ [?m]) s' \<and> libs s' = (libs s1)(next_ext s1 \<mapsto> so) \<and> next_ext s' = Suc (next_ext s1)))"
      using s2(5) by (simp add: runs_dga_len_ok [OF arr])
  qed
qed

lemma runs_load_fail:
  assumes inv: "grown_inv s0 am ms s1" and path: "path_fits mp x"
    and fails: "refused (os_dlopen P (env s0) (Some (mp @ x)))"
  shows "runs (load_module P x fresh_module mp) s1 (\<lambda>r s2. err_code s2 = DYN_SHARED_OBJ_ERROR \<and>
    runs (mods_fail am) s2 (\<lambda>r s'. r = (null, None) \<and> err_code s' = DYN_SHARED_OBJ_ERROR \<and> load_step s0 s' \<and>
      extends_heap s0 {} s' \<and> (\<forall>k < next_ext s1. libs s' k = libs s1 k)))"
proof -
  have h1: "mem_ok s1" "dl_error s1 = None" "load_step s0 s1"
    "dga_ok s1 am (of_nat (length ms) + 1) sizeof_module (mods_bytes ms @ replicate 56 Undef)"
    using inv by (simp_all add: grown_inv_def healthy_def)
  let ?r = "os_dlopen P (env s0) (Some (mp @ x))"
  have ans: "lib_answer P s1 mp x = ?r" "grants s1 (requests s1)"
    using inv never_oom_now [of s1] by (simp_all add: lib_answer_def healthy_def load_step_def grown_inv_def)
  show ?thesis
  proof (rule runs_mono [OF runs_load_module [OF h1(1) path h1(2)]])
    show "\<And>so. lib_answer P s1 mp x = Inr so \<Longrightarrow> missing so = None \<Longrightarrow> entry so \<noteq> None"
      using ans fails by (simp add: refused_def)
    fix r s2 assume "load_result P fresh_module (if grants s1 (requests s1) then No_Error else NOT_ENOUGH_MEMORY)
      s1 (lib_answer P s1 mp x) r s2"
    then have s2: "load_step s1 s2" "err_code s2 = DYN_SHARED_OBJ_ERROR" "\<exists>so. mapped s1 so s2 \<or> not_mapped s1 s2"
      using ans fails by (auto simp: load_result_def refused_def split: sum.splits option.splits)
    then obtain so where so: "mapped s1 so s2 \<or> not_mapped s1 s2" by blast
    have arr: "dga_ok s2 am (of_nat (length ms) + 1) sizeof_module (mods_bytes ms @ replicate 56 Undef)"
      by (rule dga_ok_map [OF h1(4) so])
    let ?s3 = "s2\<lparr>blocks := (blocks s2)(pbase am := None)\<rparr>"
    have ext2: "extends_heap s0 {pbase am} s2"
      using extends_heap_map [of s0 "{pbase am}" s1 s2 so] inv s2 so by (simp add: grown_inv_def)
    then have "extends_heap s0 {} ?s3"
      by (auto simp: extends_heap_def)
    moreover have "load_step s0 ?s3"
      using load_step_trans [OF h1(3) s2(1)] by (simp add: load_step_def mem_ok_def)
    moreover have "\<forall>k < next_ext s1. libs ?s3 k = libs s1 k"
      using so by (auto simp: mapped_def not_mapped_def)
    ultimately show "err_code s2 = DYN_SHARED_OBJ_ERROR \<and> runs (mods_fail am) s2 (\<lambda>r s'. r = (null, None) \<and>
        err_code s' = DYN_SHARED_OBJ_ERROR \<and> load_step s0 s' \<and> extends_heap s0 {} s' \<and>
        (\<forall>k < next_ext s1. libs s' k = libs s1 k))"
      using s2(2) by (simp add: mods_fail_def runs_seq runs_ret runs_dga_free_ok [OF arr])
  qed
qed

text \<open>The modules of a run that loads every name, and the objects it maps.\<close>

fun loaded_all :: "nat \<Rightarrow> shared_object list \<Rightarrow> c_module list" where
  "loaded_all k [] = []"
| "loaded_all k (so # sos) = loaded_module k so fresh_module # loaded_all (Suc k) sos"

fun add_libs :: "nat \<Rightarrow> shared_object list \<Rightarrow> (nat \<Rightarrow> shared_object option) \<Rightarrow> nat \<Rightarrow> shared_object option" where
  "add_libs k [] f = f"
| "add_libs k (so # sos) f = add_libs (Suc k) sos (f(k \<mapsto> so))"

lemma length_loaded_all [simp]: "length (loaded_all k sos) = length sos"
  by (induction sos arbitrary: k) simp_all

definition answers :: "'e posix \<Rightarrow> 'e \<Rightarrow> string \<Rightarrow> string list \<Rightarrow> shared_object list \<Rightarrow> bool" where
  "answers P e mp ns sos \<longleftrightarrow> list_all2 (\<lambda>x so. os_dlopen P e (Some (mp @ x)) = Inr so \<and> missing so = None \<and>
     entry so \<noteq> None) ns sos"

lemma grown_invI:
  assumes "mods_inv s0 am ms s" "length ms < 2 ^ 56"
  shows "runs (dga_grow am 1) s (\<lambda>am' s1. am' \<noteq> null \<and> grown_inv s0 am' ms s1 \<and> libs s1 = libs s \<and>
    next_ext s1 = next_ext s)"
  by (rule runs_mono [OF runs_grow_mods [OF assms]]) (simp add: grown_inv_def)

text \<open>A turn of the loop, up to the result of \<open>load_module\<close>.\<close>

lemma runs_turn:
  assumes "mods_inv s0 am ms s" "names_at s0 p ns ps" "name_room ns" "length ms < length ns"
    and "\<And>am' s1. grown_inv s0 am' ms s1 \<Longrightarrow> libs s1 = libs s \<Longrightarrow> next_ext s1 = next_ext s \<Longrightarrow>
      runs (load_module P (ns ! length ms) fresh_module mp) s1 (\<lambda>r s2.
        if err_code s2 = No_Error
        then runs (dga_len am') s2 (\<lambda>n s3. runs (store_bytes (ptr_add am' (int (56 * unat (n - 1)))) (module_bytes (snd r))) s3
          (\<lambda>_ s4. runs (mods_loop k P mp p (of_nat (length ns)) am' (of_nat (length ms) + 1)) s4 Q))
        else runs (mods_fail am') s2 Q)"
  shows "runs (mods_loop (Suc k) P mp p (of_nat (length ns)) am (of_nat (length ms))) s Q"
proof -
  have len: "length ms < 2 ^ 56" "length ns < 2 ^ 56"
    using assms(3,4) by (simp_all add: name_room_def)
  note i = fits_names [OF len(1)] and n = fits_names [OF len(2)]
  have less: "(of_nat (length ms) :: u64) < of_nat (length ns)"
    using assms(4) i n by (simp add: word_less_nat_alt)
  have at: "names_at s p ns ps"
    using names_at_extends [OF assms(2)] assms(1) by (auto simp: mods_inv_def)
  note nth = names_at_nth [OF at assms(3,4)]
  have str: "grown_inv s0 am' ms s1 \<Longrightarrow> str_of_ptr s1 (ps ! length ms) = Some (ns ! length ms)" for am' s1
  proof -
    assume "grown_inv s0 am' ms s1"
    then have "names_at s1 p ns ps"
      using names_at_extends [OF assms(2)] by (auto simp: grown_inv_def)
    from names_at_nth(2,3) [OF this assms(3,4)] show ?thesis by (rule name_at_str)
  qed
  have "runs (dga_grow am 1) s (\<lambda>am' s1. am' \<noteq> null \<and> grown_inv s0 am' ms s1 \<and> libs s1 = libs s \<and>
      next_ext s1 = next_ext s \<and> runs (load_module P (ns ! length ms) fresh_module mp) s1 (\<lambda>r s2.
        if err_code s2 = No_Error
        then runs (dga_len am') s2 (\<lambda>n s3. runs (store_bytes (ptr_add am' (int (56 * unat (n - 1)))) (module_bytes (snd r))) s3
          (\<lambda>_ s4. runs (mods_loop k P mp p (of_nat (length ns)) am' (of_nat (length ms) + 1)) s4 Q))
        else runs (mods_fail am') s2 Q))"
    by (rule runs_mono [OF grown_invI [OF assms(1) len(1)]], elim conjE, intro conjI assms(5); assumption)
  then have grow: "runs (dga_grow am 1) s (\<lambda>am' s1. am' \<noteq> null \<and> runs (bind (load_str (ps ! length ms)) (\<lambda>name.
      bind (load_module P name fresh_module mp) (\<lambda>r. bind errm_error_code (\<lambda>c.
        if c \<noteq> 0 then mods_fail am'
        else bind (dga_len am') (\<lambda>n. seq (store_bytes (ptr_add am' (int (56 * unat (n - 1)))) (module_bytes (snd r)))
          (mods_loop k P mp p (of_nat (length ns)) am' (of_nat (length ms) + 1))))))) s1 Q)"
  proof (rule runs_mono, elim conjE)
    fix am' s1 assume am': "am' \<noteq> null" "grown_inv s0 am' ms s1" and
      rest: "runs (load_module P (ns ! length ms) fresh_module mp) s1 (\<lambda>r s2.
        if err_code s2 = No_Error
        then runs (dga_len am') s2 (\<lambda>n s3. runs (store_bytes (ptr_add am' (int (56 * unat (n - 1)))) (module_bytes (snd r))) s3
          (\<lambda>_ s4. runs (mods_loop k P mp p (of_nat (length ns)) am' (of_nat (length ms) + 1)) s4 Q))
        else runs (mods_fail am') s2 Q)"
    have "runs (bind (load_module P (ns ! length ms) fresh_module mp) (\<lambda>r. bind errm_error_code (\<lambda>c.
        if c \<noteq> 0 then mods_fail am'
        else bind (dga_len am') (\<lambda>n. seq (store_bytes (ptr_add am' (int (56 * unat (n - 1)))) (module_bytes (snd r)))
          (mods_loop k P mp p (of_nat (length ns)) am' (of_nat (length ms) + 1)))))) s1 Q"
      unfolding runs_bind [of "load_module _ _ _ _"]
      by (rule runs_mono [OF rest]) (auto simp only: runs_bind runs_seq errm_error_code_def runs_gets code_of_zero split: if_splits)
    with am'(1) str [OF am'(2)] show "am' \<noteq> null \<and> runs (bind (load_str (ps ! length ms)) (\<lambda>name.
      bind (load_module P name fresh_module mp) (\<lambda>r. bind errm_error_code (\<lambda>c.
        if c \<noteq> 0 then mods_fail am'
        else bind (dga_len am') (\<lambda>n. seq (store_bytes (ptr_add am' (int (56 * unat (n - 1)))) (module_bytes (snd r)))
          (mods_loop k P mp p (of_nat (length ns)) am' (of_nat (length ms) + 1))))))) s1 Q"
      by (simp only: runs_bind [of "load_str _"] runs_load_str) blast
  qed
  show ?thesis
    unfolding mods_loop.simps if_P [OF less] runs_bind [of "load_ptr _"] conjunct2 [OF conjunct2 [OF conjunct2 [OF i]]]
      nth(1) dga_grow_or_def runs_bind [of "dga_grow _ _"]
    by (rule runs_mono [OF grow]) (simp only: if_False simp_thms)
qed

lemma runs_mods_loop_ok:
  "mods_inv s0 am ms s \<Longrightarrow> names_at s0 p ns ps \<Longrightarrow> name_room ns \<Longrightarrow> \<forall>x\<in>set ns. path_fits mp x \<Longrightarrow>
   length ms \<le> length ns \<Longrightarrow> answers P (env s0) mp (drop (length ms) ns) sos \<Longrightarrow> length sos < k \<Longrightarrow>
   runs (mods_loop k P mp p (of_nat (length ns)) am (of_nat (length ms))) s (\<lambda>r s'. \<exists>am'.
     r = (am', Some (of_nat (length ns))) \<and> mods_inv s0 am' (ms @ loaded_all (next_ext s) sos) s' \<and>
     libs s' = add_libs (next_ext s) sos (libs s))"
proof (induction sos arbitrary: k s am ms)
  case Nil
  then obtain k' where k: "k = Suc k'" by (cases k) auto
  have all: "length ms = length ns"
    using Nil.prems(5,6) by (simp add: answers_def)
  have arr: "dga_ok s am (of_nat (length ms)) sizeof_module (mods_bytes ms)"
    using Nil.prems(1) by (simp add: mods_inv_def)
  show ?case
    using Nil.prems(1) all by (simp add: k runs_bind runs_dga_len_ok [OF arr] runs_ret)
next
  case (Cons so sos)
  then obtain k' where k: "k = Suc k'" "length sos < k'" by (cases k) auto
  have lt: "length ms < length ns"
    using Cons.prems(5,6) by (auto simp: answers_def dest: list_all2_lengthD)
  then have drop: "drop (length ms) ns = ns ! length ms # drop (Suc (length ms)) ns"
    by (simp add: Cons_nth_drop_Suc)
  have so: "os_dlopen P (env s0) (Some (mp @ ns ! length ms)) = Inr so" "missing so = None" "entry so \<noteq> None"
    and rest: "answers P (env s0) mp (drop (Suc (length ms)) ns) sos"
    using Cons.prems(6) by (simp_all add: answers_def drop)
  have path: "path_fits mp (ns ! length ms)" using Cons.prems(4) lt by simp
  have len: "length ms < 2 ^ 56" using Cons.prems(3) lt by (simp add: name_room_def)
  let ?m = "loaded_module (next_ext s) so fresh_module"
  let ?Q = "\<lambda>r s'. \<exists>am'. r = (am', Some (of_nat (length ns))) \<and>
      mods_inv s0 am' (ms @ loaded_all (next_ext s) (so # sos)) s' \<and> libs s' = add_libs (next_ext s) (so # sos) (libs s)"
  have next_turn: "runs (mods_loop k' P mp p (of_nat (length ns)) am' (of_nat (length ms) + 1)) s4 ?Q"
    if s4: "mods_inv s0 am' (ms @ [?m]) s4" "libs s4 = (libs s)(next_ext s \<mapsto> so)" "next_ext s4 = Suc (next_ext s)" for am' s4
  proof -
    have "runs (mods_loop k' P mp p (of_nat (length ns)) am' (of_nat (length (ms @ [?m])))) s4 (\<lambda>r s'. \<exists>am'.
     r = (am', Some (of_nat (length ns))) \<and> mods_inv s0 am' ((ms @ [?m]) @ loaded_all (next_ext s4) sos) s' \<and>
     libs s' = add_libs (next_ext s4) sos (libs s4))"
      by (rule Cons.IH [OF s4(1) Cons.prems(2,3,4)]) (use lt rest k in simp_all)
    moreover have idx: "of_nat (length (ms @ [?m])) = (of_nat (length ms) + 1 :: u64)"
      by (simp add: add.commute)
    ultimately show ?thesis
      unfolding idx by (elim runs_mono) (use s4 in simp)
  qed
  show ?case
    unfolding k(1)
  proof (rule runs_turn [OF Cons.prems(1,2,3) lt])
    fix am' s1 assume s1: "grown_inv s0 am' ms s1" "libs s1 = libs s" "next_ext s1 = next_ext s"
    show "runs (load_module P (ns ! length ms) fresh_module mp) s1 (\<lambda>r s2.
        if err_code s2 = No_Error
        then runs (dga_len am') s2 (\<lambda>n s3. runs (store_bytes (ptr_add am' (int (56 * unat (n - 1)))) (module_bytes (snd r))) s3
          (\<lambda>_ s4. runs (mods_loop k' P mp p (of_nat (length ns)) am' (of_nat (length ms) + 1)) s4 ?Q))
        else runs (mods_fail am') s2 ?Q)"
    proof (rule runs_mono [OF runs_load_store [OF s1(1) len path so]], elim conjE)
      fix r s2 assume e: "err_code s2 = No_Error" and st: "runs (dga_len am') s2 (\<lambda>n s3. runs (store_bytes
        (ptr_add am' (int (56 * unat (n - 1)))) (module_bytes (snd r))) s3
        (\<lambda>_ s'. mods_inv s0 am' (ms @ [loaded_module (next_ext s1) so fresh_module]) s' \<and>
          libs s' = (libs s1)(next_ext s1 \<mapsto> so) \<and> next_ext s' = Suc (next_ext s1)))"
      have "runs (dga_len am') s2 (\<lambda>n s3. runs (store_bytes (ptr_add am' (int (56 * unat (n - 1)))) (module_bytes (snd r))) s3
          (\<lambda>_ s4. runs (mods_loop k' P mp p (of_nat (length ns)) am' (of_nat (length ms) + 1)) s4 ?Q))"
        by (rule runs_mono [OF st], erule runs_mono, rule next_turn) (use s1(2,3) in simp_all)
      with e show "if err_code s2 = No_Error
        then runs (dga_len am') s2 (\<lambda>n s3. runs (store_bytes (ptr_add am' (int (56 * unat (n - 1)))) (module_bytes (snd r))) s3
          (\<lambda>_ s4. runs (mods_loop k' P mp p (of_nat (length ns)) am' (of_nat (length ms) + 1)) s4 ?Q))
        else runs (mods_fail am') s2 ?Q" by simp
    qed
  qed
qed

text \<open>The first name that fails to load ends the loop; the modules loaded before it stay mapped.\<close>

definition stopped :: "'e world \<Rightarrow> 'e world \<Rightarrow> shared_object list \<Rightarrow> ptr \<times> u64 option \<Rightarrow> 'e world \<Rightarrow> bool" where
  "stopped s0 s sos r s' \<longleftrightarrow> r = (null, None) \<and> err_code s' = DYN_SHARED_OBJ_ERROR \<and> load_step s0 s' \<and>
     extends_heap s0 {} s' \<and> (\<forall>k < next_ext s + length sos. libs s' k = add_libs (next_ext s) sos (libs s) k)"

lemma runs_mods_loop_fail:
  "mods_inv s0 am ms s \<Longrightarrow> names_at s0 p ns ps \<Longrightarrow> name_room ns \<Longrightarrow> \<forall>x\<in>set ns. path_fits mp x \<Longrightarrow>
   drop (length ms) ns = pre @ x # post \<Longrightarrow> answers P (env s0) mp pre sos \<Longrightarrow>
   refused (os_dlopen P (env s0) (Some (mp @ x))) \<Longrightarrow> length sos < k \<Longrightarrow>
   runs (mods_loop k P mp p (of_nat (length ns)) am (of_nat (length ms))) s (stopped s0 s sos)"
proof (induction sos arbitrary: k s am ms pre)
  case Nil
  then obtain k' where k: "k = Suc k'" by (cases k) auto
  have drop: "drop (length ms) ns = x # post"
    using Nil.prems(5,6) by (simp add: answers_def)
  then have lt: "length ms < length ns" by (metis drop_all list.distinct(1) not_le_imp_less)
  with drop have x: "ns ! length ms = x" by (metis nth_via_drop)
  then have path: "path_fits mp (ns ! length ms)" using Nil.prems(4) lt by (metis nth_mem)
  show ?case
    unfolding k
  proof (rule runs_turn [OF Nil.prems(1,2,3) lt])
    fix am' s1 assume s1: "grown_inv s0 am' ms s1" "libs s1 = libs s" "next_ext s1 = next_ext s"
    have "refused (os_dlopen P (env s0) (Some (mp @ ns ! length ms)))" using Nil.prems(7) x by simp
    from runs_load_fail [OF s1(1) path this]
    show "runs (load_module P (ns ! length ms) fresh_module mp) s1 (\<lambda>r s2.
        if err_code s2 = No_Error
        then runs (dga_len am') s2 (\<lambda>n s3. runs (store_bytes (ptr_add am' (int (56 * unat (n - 1)))) (module_bytes (snd r))) s3
          (\<lambda>_ s4. runs (mods_loop k' P mp p (of_nat (length ns)) am' (of_nat (length ms) + 1)) s4 (stopped s0 s [])))
        else runs (mods_fail am') s2 (stopped s0 s []))"
      by (rule runs_mono) (use s1 in \<open>auto simp: stopped_def elim!: runs_mono\<close>)
  qed
next
  case (Cons so sos)
  then obtain k' where k: "k = Suc k'" "length sos < k'" by (cases k) auto
  obtain y pre' where pre: "pre = y # pre'" using Cons.prems(6) by (cases pre) (auto simp: answers_def)
  have lt: "length ms < length ns"
    using Cons.prems(5) pre by (metis drop_all append_Cons list.distinct(1) not_le_imp_less)
  have y: "ns ! length ms = y" using Cons.prems(5) pre by (metis append_Cons nth_via_drop)
  have drop: "drop (Suc (length ms)) ns = pre' @ x # post"
    using Cons.prems(5) pre by (metis append_Cons drop_Suc list.sel(3) tl_drop)
  have so: "os_dlopen P (env s0) (Some (mp @ ns ! length ms)) = Inr so" "missing so = None" "entry so \<noteq> None"
    and rest: "answers P (env s0) mp pre' sos"
    using Cons.prems(6) y by (simp_all add: answers_def pre)
  have path: "path_fits mp (ns ! length ms)" using Cons.prems(4) lt by simp
  have len: "length ms < 2 ^ 56" using Cons.prems(3) lt by (simp add: name_room_def)
  let ?m = "loaded_module (next_ext s) so fresh_module" and ?Q = "stopped s0 s (so # sos)"
  have next_turn: "runs (mods_loop k' P mp p (of_nat (length ns)) am' (of_nat (length ms) + 1)) s4 ?Q"
    if s4: "mods_inv s0 am' (ms @ [?m]) s4" "libs s4 = (libs s)(next_ext s \<mapsto> so)" "next_ext s4 = Suc (next_ext s)" for am' s4
  proof -
    have "runs (mods_loop k' P mp p (of_nat (length ns)) am' (of_nat (length (ms @ [?m])))) s4 (stopped s0 s4 sos)"
      by (rule Cons.IH [OF s4(1) Cons.prems(2,3,4) _ rest Cons.prems(7) k(2)]) (simp add: drop)
    moreover have idx: "of_nat (length (ms @ [?m])) = (of_nat (length ms) + 1 :: u64)"
      by (simp add: add.commute)
    ultimately show ?thesis
      unfolding idx by (elim runs_mono) (use s4 in \<open>simp add: stopped_def\<close>)
  qed
  show ?case
    unfolding k(1)
  proof (rule runs_turn [OF Cons.prems(1,2,3) lt])
    fix am' s1 assume s1: "grown_inv s0 am' ms s1" "libs s1 = libs s" "next_ext s1 = next_ext s"
    show "runs (load_module P (ns ! length ms) fresh_module mp) s1 (\<lambda>r s2.
        if err_code s2 = No_Error
        then runs (dga_len am') s2 (\<lambda>n s3. runs (store_bytes (ptr_add am' (int (56 * unat (n - 1)))) (module_bytes (snd r))) s3
          (\<lambda>_ s4. runs (mods_loop k' P mp p (of_nat (length ns)) am' (of_nat (length ms) + 1)) s4 ?Q))
        else runs (mods_fail am') s2 ?Q)"
    proof (rule runs_mono [OF runs_load_store [OF s1(1) len path so]], elim conjE)
      fix r s2 assume e: "err_code s2 = No_Error" and st: "runs (dga_len am') s2 (\<lambda>n s3. runs (store_bytes
        (ptr_add am' (int (56 * unat (n - 1)))) (module_bytes (snd r))) s3
        (\<lambda>_ s'. mods_inv s0 am' (ms @ [loaded_module (next_ext s1) so fresh_module]) s' \<and>
          libs s' = (libs s1)(next_ext s1 \<mapsto> so) \<and> next_ext s' = Suc (next_ext s1)))"
      have "runs (dga_len am') s2 (\<lambda>n s3. runs (store_bytes (ptr_add am' (int (56 * unat (n - 1)))) (module_bytes (snd r))) s3
          (\<lambda>_ s4. runs (mods_loop k' P mp p (of_nat (length ns)) am' (of_nat (length ms) + 1)) s4 ?Q))"
        by (rule runs_mono [OF st], erule runs_mono, rule next_turn) (use s1(2,3) in simp_all)
      with e show "if err_code s2 = No_Error
        then runs (dga_len am') s2 (\<lambda>n s3. runs (store_bytes (ptr_add am' (int (56 * unat (n - 1)))) (module_bytes (snd r))) s3
          (\<lambda>_ s4. runs (mods_loop k' P mp p (of_nat (length ns)) am' (of_nat (length ms) + 1)) s4 ?Q))
        else runs (mods_fail am') s2 ?Q" by simp
    qed
  qed
qed

text \<open>The whole of \<open>installed_mods\<close>. \<open>s\<close> is the state it is called in, \<open>ns\<close> the names of the modules.\<close>

definition mods_result :: "'e world \<Rightarrow> c_module list \<Rightarrow> ptr \<times> u64 option \<Rightarrow> 'e world \<Rightarrow> bool" where
  "mods_result s ms r s' \<longleftrightarrow> (\<exists>am. r = (am, Some (of_nat (length ms))) \<and>
     dga_ok s' am (of_nat (length ms)) sizeof_module (mods_bytes ms) \<and> extends_heap s {pbase am} s')"

text \<open>Leaving \<open>installed_mods\<close> frees the names, which lie in \<open>s0\<close> over the heap of \<open>s\<close>.\<close>

lemma extends_heap_clear:
  assumes "extends s B s0" "\<forall>b\<in>B. \<not> is_sym b \<and> blocks s0 b \<noteq> None" "extends_heap s0 A s1"
  shows "extends_heap s A (s1\<lparr>blocks := clear_all B (blocks s1)\<rparr>)"
proof -
  have "blocks s b = None" if "b \<in> A" for b
    using assms that by (cases "b \<in> B") (auto simp: extends_def extends_heap_def untouched_def)
  moreover have "clear_all B (blocks s1) b = blocks s b" if "b \<notin> A" "\<not> is_sym b" for b
    using assms that by (cases "b \<in> B") (auto simp: extends_def extends_heap_def untouched_def clear_all_def)
  ultimately show ?thesis by (simp add: extends_heap_def)
qed

lemma unwinds_names:
  assumes "inside s [] [(H_free_mod_names, p)] s2" "load_step s2 s4" "blocks s2 = blocks s0"
    "names_at s0 p ns ps" "length ns < 2 ^ 56" "extends s (name_bases p ps) s0" "extends_heap s0 A s4"
    and "\<And>s5 F. defers_ok s F \<Longrightarrow> balanced s (with_stack F (curr s) s5) \<Longrightarrow>
      s5 = s4\<lparr>blocks := clear_all (name_bases p ps) (blocks s4)\<rparr> \<Longrightarrow> extends_heap s A s5 \<Longrightarrow>
      Q r (with_stack F (curr s) s5)"
  shows "unwinds prom_call s Q r s4"
proof (rule unwinds_dyn)
  show "inside s [] [(H_free_mod_names, p)] s4"
    using assms(2) by (intro inside_same_stack [OF assms(1)]) (simp_all add: load_step_def)
  have at: "names_at s4 p ns ps" by (rule names_at_extends [OF assms(4,7)])
  have "extends_heap s A (s4\<lparr>blocks := clear_all (name_bases p ps) (blocks s4)\<rparr>)"
    by (rule extends_heap_clear [OF assms(6) _ assms(7)])
      (use names_at_live [OF assms(4)] name_bases_blk [OF assms(4)] in blast)
  then show "runs (prom_call H_free_mod_names (Passed p)) s4
      (\<lambda>_ s2. \<forall>F. defers_ok s F \<longrightarrow> Q r (with_stack F (curr s) s2))"
    unfolding prom_call.simps free_mod_names_def
    by (intro runs_mono [OF runs_free_dir_content [OF at assms(5)]]) (use assms(8) balanced_with_stack in blast)
qed

lemma runs_mods_start:
  assumes "healthy s2" "dl_error s2 = None" "err_code s2 = No_Error" "length ns < 2 ^ 56"
    and "\<And>am s3. mods_inv s2 am [] s3 \<Longrightarrow> libs s3 = libs s2 \<Longrightarrow> next_ext s3 = next_ext s2 \<Longrightarrow>
      runs (mods_loop (Suc (length ns)) P mp p (of_nat (length ns)) am (of_nat (length ([] :: c_module list)))) s3 Q"
  shows "runs (bind (dga_new 0 sizeof_module) (\<lambda>all_mods.
      if all_mods = null then seq (errm_error NOT_ENOUGH_MEMORY) (ret (null, None))
      else bind (reads (\<lambda>s. Some (of_nat (length ns)))) (\<lambda>len_mod_names.
           mods_loop (Suc (unat len_mod_names)) P mp p len_mod_names all_mods 0))) s2 Q"
  unfolding runs_bind [of "dga_new _ _"]
proof (rule runs_mono [OF dga.make_spec [OF assms(1)]])
  show "fits 0 sizeof_module" by (simp add: fits_def)
  fix am s3
  assume s3: "am \<noteq> null \<and> heap_ext s2 s3 \<and> dga_ok s3 am 0 sizeof_module (replicate (unat (0 :: u64) * unat sizeof_module) Undef) \<and>
    blocks s2 (pbase am) = None \<and> untouched {pbase am} s2 s3"
  then have heap: "heap_only s2 s3" by (simp add: heap_ext_def)
  have "keeps_syms s2 s3"
    by (rule keeps_syms_untouched [of "{pbase am}"]) (use s3 dga_not_sym [of s3 am] heap_only_world [OF heap] in auto)
  then have "mods_inv s2 am [] s3"
    using s3 assms(2,3) heap_ext_healthy [OF assms(1)] heap_only_world [OF heap] heap_only_errm(3) [OF heap]
    by (auto simp: mods_inv_def load_step_heap extends_heap_def untouched_def)
  from assms(5) [OF this] s3 show "runs (if am = null then seq (errm_error NOT_ENOUGH_MEMORY) (ret (null, None))
      else bind (reads (\<lambda>s. Some (of_nat (length ns)))) (\<lambda>len_mod_names.
           mods_loop (Suc (unat len_mod_names)) P mp p len_mod_names am 0)) s3 Q"
    using heap_only_world [OF heap] fits_names [OF assms(4)]
    by (simp add: runs_bind [of "reads _"] runs_reads del: mods_loop.simps)
qed

text \<open>The common part of the two outcomes: what holds when the loop starts.\<close>

lemma runs_installed_frame:
  assumes "stack_ok s" "curr s < 7" "healthy s" "dl_error s = None" "os_wordexp P (env s) mp = Some (x # ws)"
    and "c_string x" "Suc (length x) < 2 ^ 64" "length (x # ws) < 2 ^ 64"
    and "os_opendir P (env s) x = Inr names" "name_room (visible names)"
    and loop: "\<And>p ps s0 am s3. names_at s0 p (visible names) ps \<Longrightarrow> mods_inv s0 am [] s3 \<Longrightarrow>
      inside s [] [(H_free_mod_names, p)] s0 \<Longrightarrow> extends s (name_bases p ps) s0 \<Longrightarrow> env s0 = env s \<Longrightarrow>
      keeps_syms s s0 \<Longrightarrow> stdout_of s0 = stdout_of s \<Longrightarrow> libs s3 = libs s \<Longrightarrow> next_ext s \<le> next_ext s3 \<Longrightarrow>
      runs (mods_loop (Suc (length (visible names))) P mp p (of_nat (length (visible names))) am
        (of_nat (length ([] :: c_module list)))) s3 (unwinds prom_call s Q)"
  shows "runs (installed_mods P mp) s Q"
proof -
  let ?ns = "visible names"
  let ?rest = "\<lambda>names. seq (defer_call H_free_mod_names (fst names)) (bind (dga_new 0 sizeof_module) (\<lambda>all_mods.
        if all_mods = null then seq (errm_error NOT_ENOUGH_MEMORY) (ret (null, None))
        else bind (reads (\<lambda>s. snd names)) (\<lambda>len_mod_names.
             mods_loop (Suc (unat len_mod_names)) P mp (fst names) len_mod_names all_mods 0)))"
  have room: "curr s < 11" and len: "length ?ns < 2 ^ 56"
    using assms(2,10) by (simp_all add: name_room_def)
  have in0: "inside s [] [] (entered s)"
    by (rule inside_entered [OF assms(1) room])
  have "runs (dir_content P mp) (entered s) (\<lambda>r s1. err_code s1 = No_Error \<and> runs (?rest r) s1 (unwinds prom_call s Q))"
  proof (rule runs_mono [OF runs_dir_content [OF insideD(1) [OF in0] _ _ _ assms(6,7,8) _ assms(10)]])
    show "curr (entered s) < 8" "healthy (entered s)" "os_wordexp P (env (entered s)) mp = Some (x # ws)"
      "os_opendir P (env (entered s)) x = Inr names"
      using assms by (simp_all add: healthy_def never_oom_def)
  next
    fix r s1 assume "listing (entered s) ?ns r s1"
    then obtain p ps where r: "r = (p, Some (of_nat (length ?ns)))" and at: "names_at s1 p ?ns ps"
      and ext: "extends (entered s) (name_bases p ps) s1" and bal: "balanced (entered s) s1"
      and step: "proc_step s s1" and e1: "err_code s1 = No_Error"
      by (auto simp: listing_def)
    have in1: "inside s [] [] s1" by (rule inside_balanced [OF in0 bal])
    have "runs (?rest r) s1 (unwinds prom_call s Q)"
      unfolding runs_seq
    proof (rule runs_mono [OF inside_defer [OF in1]])
      fix u s2 assume "inside s [] ([] @ [(H_free_mod_names, fst r)]) s2 \<and> restacked s1 s2"
      then have s2: "inside s [] [(H_free_mod_names, p)] s2" "restacked s1 s2" using r by simp_all
      have step2: "proc_step s s2" using step s2(2) by (auto simp: restacked_def)
      note same = restackedD [OF s2(2)] restacked_world [OF s2(2)]
      have w2: "env s2 = env s" "libs s2 = libs s" "next_ext s \<le> next_ext s2" "dl_error s2 = None"
        using step2 assms(4) by (simp_all add: proc_step_def)
      have at2: "names_at s2 p ?ns ps" by (rule names_at_cong [OF at]) (simp add: same)
      have ext2: "extends s (name_bases p ps) s2" using ext same by (simp add: extends_def untouched_def)
      have syms: "keeps_syms s s2"
        by (rule keeps_syms_untouched [OF ext2 [unfolded extends_def, THEN conjunct2]])
          (use name_bases_blk [OF at2] w2(2) in auto)
      have out: "stdout_of s2 = stdout_of s" using step2 by (simp add: proc_step_def)
      show "runs (bind (dga_new 0 sizeof_module) (\<lambda>all_mods.
        if all_mods = null then seq (errm_error NOT_ENOUGH_MEMORY) (ret (null, None))
        else bind (reads (\<lambda>s. snd r)) (\<lambda>len_mod_names.
             mods_loop (Suc (unat len_mod_names)) P mp (fst r) len_mod_names all_mods 0))) s2 (unwinds prom_call s Q)"
        unfolding r fst_conv snd_conv
      proof (rule runs_mods_start [OF proc_step_healthy [OF assms(3) step2] w2(4) _ len])
        show "err_code s2 = No_Error" using e1 same by simp
        fix am s3 assume s3: "mods_inv s2 am [] s3" "libs s3 = libs s2" "next_ext s3 = next_ext s2"
        show "runs (mods_loop (Suc (length ?ns)) P mp p (of_nat (length ?ns)) am (of_nat (length ([] :: c_module list)))) s3
            (unwinds prom_call s Q)"
          by (rule loop [OF at2 s3(1) s2(1) ext2 w2(1) syms out]) (use s3(2,3) w2 in simp_all)
      qed
    qed simp
    with e1 show "err_code s1 = No_Error \<and> runs (?rest r) s1 (unwinds prom_call s Q)" by simp
  qed
  then show ?thesis
    unfolding installed_mods_def mod_names_def
    by (intro prom.edf_rule [OF assms(1) room])
      (auto simp: runs_bind [of "dir_content _ _"] runs_on_error elim!: runs_mono)
qed

lemma mods_inv_fields:
  assumes "mods_inv s0 am ms s"
  shows "load_step s0 s" "err_code s = No_Error" "extends_heap s0 {pbase am} s"
    "dga_ok s am (of_nat (length ms)) sizeof_module (mods_bytes ms)" "keeps_syms s0 s"
  using assms by (simp_all add: mods_inv_def)

lemma runs_installed_ok:
  assumes "stack_ok s" "curr s < 7" "healthy s" "dl_error s = None" "os_wordexp P (env s) mp = Some (x # ws)"
    and "c_string x" "Suc (length x) < 2 ^ 64" "length (x # ws) < 2 ^ 64"
    and "os_opendir P (env s) x = Inr names" "name_room (visible names)" "\<forall>n\<in>set (visible names). path_fits mp n"
    and "answers P (env s) mp (visible names) sos"
  shows "runs (installed_mods P mp) s (\<lambda>r s'. \<exists>k. next_ext s \<le> k \<and> mods_result s (loaded_all k sos) r s' \<and>
    libs s' = add_libs k sos (libs s) \<and> err_code s' = No_Error \<and> balanced s s' \<and> keeps_syms s s' \<and> stdout_of s' = stdout_of s \<and>
    env s' = env s)"
proof (rule runs_installed_frame [OF assms(1-10)])
  let ?ns = "visible names"
  let ?Q = "\<lambda>r s'. \<exists>k. next_ext s \<le> k \<and> mods_result s (loaded_all k sos) r s' \<and>
    libs s' = add_libs k sos (libs s) \<and> err_code s' = No_Error \<and> balanced s s' \<and> keeps_syms s s' \<and> stdout_of s' = stdout_of s \<and>
    env s' = env s"
  fix p ps s0 am s3
  assume at: "names_at s0 p ?ns ps" and inv: "mods_inv s0 am [] s3" and in0: "inside s [] [(H_free_mod_names, p)] s0"
    and ext: "extends s (name_bases p ps) s0" and env: "env s0 = env s"
    and syms: "keeps_syms s s0" and out: "stdout_of s0 = stdout_of s" and w: "libs s3 = libs s" "next_ext s \<le> next_ext s3"
  have len: "length ?ns < 2 ^ 56" "length sos = length ?ns"
    using assms(10,12) by (simp_all add: name_room_def answers_def list_all2_lengthD)
  have "runs (mods_loop (Suc (length ?ns)) P mp p (of_nat (length ?ns)) am (of_nat (length ([] :: c_module list)))) s3
    (\<lambda>r s'. \<exists>am'. r = (am', Some (of_nat (length ?ns))) \<and> mods_inv s0 am' ([] @ loaded_all (next_ext s3) sos) s' \<and>
     libs s' = add_libs (next_ext s3) sos (libs s3))"
    by (rule runs_mods_loop_ok [OF inv at assms(10,11)]) (use assms(12) env len(2) in simp_all)
  then show "runs (mods_loop (Suc (length ?ns)) P mp p (of_nat (length ?ns)) am (of_nat (length ([] :: c_module list)))) s3
      (unwinds prom_call s ?Q)"
  proof (rule runs_mono)
    fix r :: "ptr \<times> u64 option" and s4 assume "\<exists>am'. r = (am', Some (of_nat (length ?ns))) \<and>
      mods_inv s0 am' ([] @ loaded_all (next_ext s3) sos) s4 \<and> libs s4 = add_libs (next_ext s3) sos (libs s3)"
    then obtain am' where r: "r = (am', Some (of_nat (length ?ns)))" and inv': "mods_inv s0 am' (loaded_all (next_ext s3) sos) s4"
      and libs: "libs s4 = add_libs (next_ext s3) sos (libs s)" using w(1) by auto
    note f = mods_inv_fields [OF inv']
    show "unwinds prom_call s ?Q r s4"
    proof (rule unwinds_names [OF in0 f(1) refl at len(1) ext f(3)])
      fix s5 F assume s5: "defers_ok s F" "balanced s (with_stack F (curr s) s5)"
        "s5 = s4\<lparr>blocks := clear_all (name_bases p ps) (blocks s4)\<rparr>" "extends_heap s {pbase am'} s5"
      have "blocks (with_stack F (curr s) s5) (pbase am') = blocks s4 (pbase am')"
        using s5(3) names_at_live [OF at, of "pbase am'"] f(3) by (auto simp: clear_all_def extends_heap_def)
      then have "dga_ok (with_stack F (curr s) s5) am' (of_nat (length ?ns)) sizeof_module (mods_bytes (loaded_all (next_ext s3) sos))"
        using dga.rep_local [OF f(4)] len(2) by simp
      then have "mods_result s (loaded_all (next_ext s3) sos) r (with_stack F (curr s) s5)"
        using r s5(4) len(2) by (simp add: mods_result_def extends_heap_def)
      moreover have "Sym k x \<notin> name_bases p ps" for k x
        using name_bases_blk [OF at] is_sym.simps(1) by blast
      then have "keeps_syms s4 (with_stack F (curr s) s5)"
        by (intro keeps_syms_same) (use s5(3) in \<open>simp_all add: clear_all_def\<close>)
      then have "keeps_syms s (with_stack F (curr s) s5)"
        using syms f(5) by (auto simp: keeps_syms_def)
      ultimately show "?Q r (with_stack F (curr s) s5)"
        using w(2) libs f(1,2) s5(2,3) out env by (auto simp: load_step_def)
    qed
  qed
qed

lemma runs_installed_fail:
  assumes "stack_ok s" "curr s < 7" "healthy s" "dl_error s = None" "os_wordexp P (env s) mp = Some (x # ws)"
    and "c_string x" "Suc (length x) < 2 ^ 64" "length (x # ws) < 2 ^ 64"
    and "os_opendir P (env s) x = Inr names" "name_room (visible names)" "\<forall>n\<in>set (visible names). path_fits mp n"
    and "visible names = pre @ y # post" "answers P (env s) mp pre sos" "refused (os_dlopen P (env s) (Some (mp @ y)))"
  shows "runs (installed_mods P mp) s (\<lambda>r s'. r = (null, None) \<and> err_code s' = DYN_SHARED_OBJ_ERROR \<and>
    extends_heap s {} s' \<and> balanced s s' \<and> env s' = env s \<and> stdout_of s' = stdout_of s \<and>
    (\<exists>k. next_ext s \<le> k \<and> (\<forall>j < k + length sos. libs s' j = add_libs k sos (libs s) j)))"
proof (rule runs_installed_frame [OF assms(1-10)])
  let ?ns = "visible names"
  let ?Q = "\<lambda>r s'. r = (null, None) \<and> err_code s' = DYN_SHARED_OBJ_ERROR \<and> extends_heap s {} s' \<and> balanced s s' \<and>
    env s' = env s \<and> stdout_of s' = stdout_of s \<and> (\<exists>k. next_ext s \<le> k \<and> (\<forall>j < k + length sos. libs s' j = add_libs k sos (libs s) j))"
  fix p ps s0 am s3
  assume at: "names_at s0 p ?ns ps" and inv: "mods_inv s0 am [] s3" and in0: "inside s [] [(H_free_mod_names, p)] s0"
    and ext: "extends s (name_bases p ps) s0" and env: "env s0 = env s" and out: "stdout_of s0 = stdout_of s" and w: "libs s3 = libs s" "next_ext s \<le> next_ext s3"
  have len: "length ?ns < 2 ^ 56" "length sos < Suc (length ?ns)"
    using assms(10,13) list_all2_lengthD [OF assms(13) [unfolded answers_def]] arg_cong [OF assms(12), of length]
    by (simp_all add: name_room_def)
  have "runs (mods_loop (Suc (length ?ns)) P mp p (of_nat (length ?ns)) am (of_nat (length ([] :: c_module list)))) s3
      (stopped s0 s3 sos)"
    by (rule runs_mods_loop_fail [OF inv at assms(10,11)]) (use assms(12-14) env len(2) in simp_all)
  then show "runs (mods_loop (Suc (length ?ns)) P mp p (of_nat (length ?ns)) am (of_nat (length ([] :: c_module list)))) s3
      (unwinds prom_call s ?Q)"
  proof (rule runs_mono)
    fix r s4 assume s4: "stopped s0 s3 sos r s4"
    then have f: "load_step s0 s4" "extends_heap s0 {} s4" by (simp_all add: stopped_def)
    show "unwinds prom_call s ?Q r s4"
      by (rule unwinds_names [OF in0 f(1) refl at len(1) ext f(2)])
        (use s4 w env out in \<open>auto simp: stopped_def extends_heap_def load_step_def\<close>)
  qed
qed

section \<open>Links\<close>

text \<open>What stays of the process where the world outside may change.\<close>

definition outside_step :: "'e world \<Rightarrow> 'e world \<Rightarrow> bool" where
  "outside_step s s' \<longleftrightarrow> load_step (s\<lparr>env := env s'\<rparr>) s'"

lemma outside_step_load: "load_step s s' \<Longrightarrow> outside_step s s'"
  by (simp add: outside_step_def load_step_def)

lemma outside_step_trans: "outside_step s s1 \<Longrightarrow> outside_step s1 s2 \<Longrightarrow> outside_step s s2"
  by (auto simp: outside_step_def load_step_def)

lemma outside_step_healthy: "healthy s \<Longrightarrow> outside_step s s' \<Longrightarrow> healthy s'"
  by (auto simp: outside_step_def healthy_def load_step_def never_oom_def)

text \<open>\<open>add_module\<close> and \<open>rm_module\<close> differ only in the call \<open>f\<close> they make on the path.\<close>

definition link_result :: "('e \<Rightarrow> string \<Rightarrow> int + 'e) \<Rightarrow> string \<Rightarrow> string \<Rightarrow> 'e world \<Rightarrow> int \<Rightarrow> 'e world \<Rightarrow> bool" where
  "link_result f mp name s r s' \<longleftrightarrow> blocks s' = blocks s \<and> libs s' = libs s \<and> stderr_of s' = stderr_of s \<and>
     outside_step s s' \<and> dl_error s' = dl_error s \<and>
     err_code s' = (if grants s (requests s) then No_Error else NOT_ENOUGH_MEMORY) \<and>
     (case if grants s (requests s) then f (env s) (mp @ name) else Inl EFAULT of
        Inl e \<Rightarrow> r = - 1 \<and> errno_of s' = e \<and> env s' = env s
      | Inr e' \<Rightarrow> r = 0 \<and> env s' = e')"

lemma runs_link_op:
  assumes "mem_ok s" "path_fits mp name"
  shows "runs (bind (get_mod_path mp name) (\<lambda>p. bind (path_call p (\<lambda>l. bind (gets (\<lambda>s. f (env s) l)) os_result))
    (\<lambda>r. seq (free p) (ret (if r = - 1 then - 1 else 0))))) s (link_result f mp name s)"
  unfolding runs_bind [of "get_mod_path _ _"]
proof (rule runs_get_mod_path [OF assms])
  let ?b = "Blk (next_blk s)"
  fix s1 assume s1: "heap_ext (s\<lparr>err_code := No_Error\<rparr>) s1" "grants s (requests s)"
    "blocks s1 = (blocks s)(?b \<mapsto> cstr (mp @ name) @ replicate 3 Undef)"
  have heap: "heap_only (s\<lparr>err_code := No_Error\<rparr>) s1" using s1(1) by (simp add: heap_ext_def)
  have str: "str_of_ptr s1 (Ptr ?b 0) = Some (mp @ name)"
    using s1(3) assms(2) str_at_cstr [of "mp @ name"] by (simp add: str_of_ptr_def path_fits_def)
  have fresh: "(blocks s)(?b := None) = blocks s"
    using fresh_blk [OF assms(1)] by (simp add: fun_upd_idem)
  have step: "load_step s s1" using load_step_heap [OF s1(1)] by simp
  show "runs (bind (path_call (Ptr ?b 0) (\<lambda>l. bind (gets (\<lambda>s. f (env s) l)) os_result))
    (\<lambda>r. seq (free (Ptr ?b 0)) (ret (if r = - 1 then - 1 else 0)))) s1 (link_result f mp name s)"
    using s1(2,3) str fresh step assms(1) heap_only_world [OF heap] heap_only_errm [OF heap] heap_only_proc [OF heap]
    by (simp add: link_result_def path_call_def os_result_def set_errno_def runs_simps split: sum.split)
      (simp add: outside_step_def load_step_def mem_ok_def)
next
  fix s1 assume s1: "heap_ext (s\<lparr>err_code := No_Error\<rparr>) s1" "\<not> grants s (requests s)" "blocks s1 = blocks s"
  have heap: "heap_only (s\<lparr>err_code := No_Error\<rparr>) s1" using s1(1) by (simp add: heap_ext_def)
  have step: "load_step s s1" using load_step_heap [OF s1(1)] by simp
  show "runs (bind (path_call null (\<lambda>l. bind (gets (\<lambda>s. f (env s) l)) os_result))
    (\<lambda>r. seq (free null) (ret (if r = - 1 then - 1 else 0)))) (s1\<lparr>err_code := NOT_ENOUGH_MEMORY\<rparr>) (link_result f mp name s)"
    using s1(2,3) step heap_only_world [OF heap] heap_only_proc [OF heap]
    by (simp add: link_result_def path_call_def set_errno_def runs_simps) (simp add: outside_step_def load_step_def mem_ok_def)
qed

lemma runs_add_module:
  assumes "mem_ok s" "path_fits mp name"
  shows "runs (add_module P path name mp) s (link_result (\<lambda>e l. os_symlink P e path l) mp name s)"
  unfolding add_module_def symlink_def by (rule runs_link_op [OF assms])

lemma runs_rm_module:
  assumes "mem_ok s" "path_fits mp name"
  shows "runs (rm_module P name mp) s (link_result (os_remove P) mp name s)"
  unfolding rm_module_def remove_file_def by (rule runs_link_op [OF assms])

section \<open>Properties\<close>

lemma unmap_map:
  assumes "\<forall>x. f (Sym k x) = None"
  shows "unmap_lib k (map_lib k so f) = f"
  using assms by (auto simp: unmap_lib_def map_lib_def fun_eq_iff split: base.split)

lemma sample_mods:
  "missing sample_so = None" "entry sample_so = Some set_read" "dl_error sample_world = None"
  "env sample_world = ()" "next_ext sample_world = 0" "libs sample_world = (\<lambda>_. None)"
  "os_dlopen sample_posix () (Some ''/m/a.so'') = Inr sample_so"
  "os_dlopen sample_posix () (Some ''/m/b.so'') = Inl ''not found''"
  "path_fits ''/m/'' ''a.so''" "path_fits ''/m/'' ''b.so''" "grants sample_world k"
  by (simp_all add: missing_def entry_def sample_so_def sample_world_def start_at_def sample_posix_def path_fits_def)

text \<open>C23: \<open>load_module\<close> asks \<open>dlopen\<close> for the modules path followed by the name. It gives back the loader's
  message and reports \<open>DYN_SHARED_OBJ_ERROR\<close> where the object does not load or lacks one of \<open>name\<close>, \<open>desc\<close>
  and \<open>init\<close> (the first missing one; the object then stays mapped), and otherwise no message, no
  error and a struct with the handle, both strings and the callbacks \<open>init\<close> installed. The path is
  freed on every branch.\<close>

theorem load_module_result:
  assumes "healthy s" "path_fits mp name" "dl_error s = None" "r = os_dlopen P (env s) (Some (mp @ name))"
    and "loads r \<or> refused r"
  shows "runs (load_module P name m mp) s (\<lambda>(err, m') s'. dl_error s' = None \<and> (case r of
       Inl msg \<Rightarrow> err = Some msg \<and> not_mapped s s' \<and> err_code s' = DYN_SHARED_OBJ_ERROR
     | Inr so \<Rightarrow> mapped s so s' \<and> (case missing so of
           Some x \<Rightarrow> err = Some (os_nosym P x) \<and> err_code s' = DYN_SHARED_OBJ_ERROR
         | None \<Rightarrow> err = None \<and> m' = loaded_module (next_ext s) so m \<and> err_code s' = No_Error)))"
proof -
  have now: "grants s (requests s)" "lib_answer P s mp name = r"
    using assms(1,4) never_oom_now [of s] by (simp_all add: healthy_def lib_answer_def)
  show ?thesis
    by (rule runs_mono [OF runs_load_module [OF healthy_mem_ok [OF assms(1)] assms(2,3)]])
      (use assms(5) now in \<open>auto simp: load_result_def loads_def refused_def split: sum.splits option.splits\<close>)
qed

theorem load_module_result_witness:
  "runs (load_module sample_posix ''a.so'' fresh_module ''/m/'') sample_world (\<lambda>(err, m') s'. err = None \<and>
     m' = loaded_module 0 sample_so fresh_module \<and> err_code s' = No_Error)"
  by (rule runs_mono [OF load_module_result [OF sample_world_ok(3) sample_mods(9) sample_mods(3) refl]])
    (auto simp: sample_mods loads_def)

text \<open>Without memory for the path, \<open>load_module\<close> does not stop: it opens the program itself instead. The
  \<open>NOT_ENOUGH_MEMORY\<close> of \<open>get_mod_path\<close> is then replaced by \<open>DYN_SHARED_OBJ_ERROR\<close>, with the loader's
  message about a symbol of the program, and the program's handle is never closed.\<close>

lemma load_module_without_memory:
  assumes "mem_ok s" "\<not> grants s (requests s)" "path_fits mp name" "dl_error s = None"
    and "os_dlopen P (env s) None = Inr so" "missing so = Some x"
  shows "runs (load_module P name m mp) s (\<lambda>(err, m') s'. err = Some (os_nosym P x) \<and>
    err_code s' = DYN_SHARED_OBJ_ERROR \<and> mapped s so s')"
  by (rule runs_mono [OF runs_load_module [OF assms(1,3,4)]])
    (use assms(2,5,6) in \<open>auto simp: load_result_def lib_answer_def\<close>)

text \<open>Unloading a module just loaded gives back the memory and the loaded objects from before.\<close>

lemma load_unload_restores:
  assumes "healthy s" "path_fits mp name" "dl_error s = None" "loads (os_dlopen P (env s) (Some (mp @ name)))"
    and "libs s (next_ext s) = None" "\<forall>x. blocks s (Sym (next_ext s) x) = None"
  shows "runs (bind (load_module P name m mp) (\<lambda>r. unload_module (snd r))) s (\<lambda>e s'. e = None \<and>
    blocks s' = blocks s \<and> libs s' = libs s)"
  unfolding runs_bind
proof (rule runs_mono [OF runs_load_module [OF healthy_mem_ok [OF assms(1)] assms(2,3)]])
  obtain so where so: "os_dlopen P (env s) (Some (mp @ name)) = Inr so" "missing so = None" "entry so \<noteq> None"
    using assms(4) by (rule loads_obtain)
  have now: "grants s (requests s)" "lib_answer P s mp name = Inr so"
    using assms(1) so(1) never_oom_now [of s] by (simp_all add: healthy_def lib_answer_def)
  show "\<And>so. lib_answer P s mp name = Inr so \<Longrightarrow> missing so = None \<Longrightarrow> entry so \<noteq> None"
    using now so by simp
  fix r s1 assume "load_result P m (if grants s (requests s) then No_Error else NOT_ENOUGH_MEMORY) s
    (lib_answer P s mp name) r s1"
  then have s1: "dl_error s1 = None" "mapped s so s1" "snd r = loaded_module (next_ext s) so m"
    using now so by (simp_all add: load_result_def)
  have "lib_of s1 (Ptr (Ext (next_ext s)) 0) = Some (next_ext s, so)"
    using s1(2) by (simp add: lib_of_def mapped_def)
  moreover have "unmap_lib (next_ext s) (blocks s1) = blocks s" "(libs s1)(next_ext s := None) = libs s"
    using s1(2) assms(5,6) unmap_map [of "blocks s" "next_ext s" so] by (simp_all add: mapped_def fun_upd_idem)
  ultimately show "runs (unload_module (snd r)) s1 (\<lambda>e s'. e = None \<and> blocks s' = blocks s \<and> libs s' = libs s)"
    using s1 by (simp add: unload_module_def dlclose_def dlerror_def loaded_module_def runs_simps)
qed

text \<open>\<open>add_module\<close> makes a link at the modules path followed by the name and answers 0, or -1 with the
  \<open>errno\<close> of \<open>symlink\<close>; whatever the allocator answers, the path is freed and nothing else changes. Without
  memory for the path the answer is -1 with \<open>EFAULT\<close>, and the error code is \<open>NOT_ENOUGH_MEMORY\<close>.\<close>

lemma add_module_links:
  assumes "mem_ok s" "path_fits mp name"
  shows "runs (add_module P path name mp) s (\<lambda>r s'. blocks s' = blocks s \<and> libs s' = libs s \<and>
    err_code s' = (if grants s (requests s) then No_Error else NOT_ENOUGH_MEMORY) \<and>
    (case if grants s (requests s) then os_symlink P (env s) path (mp @ name) else Inl EFAULT of
       Inl e \<Rightarrow> r = - 1 \<and> errno_of s' = e \<and> env s' = env s
     | Inr e' \<Rightarrow> r = 0 \<and> env s' = e'))"
  by (rule runs_mono [OF runs_add_module [OF assms]]) (simp add: link_result_def)

text \<open>C25: The first name that does not load makes \<open>installed_mods\<close> give NULL with \<open>DYN_SHARED_OBJ_ERROR\<close>. The array
  and the names are freed, but the modules loaded before it are not closed: their objects stay
  mapped.\<close>

theorem installed_mods_failure:
  assumes "stack_ok s" "curr s < 7" "healthy s" "dl_error s = None" "os_wordexp P (env s) mp = Some (x # ws)"
    and "c_string x" "Suc (length x) < 2 ^ 64" "length (x # ws) < 2 ^ 64"
    and "os_opendir P (env s) x = Inr names" "name_room (visible names)" "\<forall>n\<in>set (visible names). path_fits mp n"
    and "visible names = pre @ y # post" "answers P (env s) mp pre sos" "refused (os_dlopen P (env s) (Some (mp @ y)))"
  shows "runs (installed_mods P mp) s (\<lambda>r s'. r = (null, None) \<and> err_code s' = DYN_SHARED_OBJ_ERROR \<and>
    extends_heap s {} s' \<and> balanced s s' \<and>
    (\<exists>k. next_ext s \<le> k \<and> (\<forall>j < k + length sos. libs s' j = add_libs k sos (libs s) j)))"
  by (rule runs_mono [OF runs_installed_fail [OF assms]]) simp

theorem installed_mods_failure_witness:
  "runs (installed_mods (sample_posix\<lparr>os_opendir := (\<lambda>_ _. Inr [''a.so'', ''b.so''])\<rparr>) ''/m/'') sample_world
     (\<lambda>r s'. r = (null, None) \<and> (\<exists>k. libs s' k = Some sample_so))"
proof (rule runs_mono [OF installed_mods_failure [where x = "''/m/''" and ws = "[]" and names = "[''a.so'', ''b.so'']"
        and pre = "[''a.so'']" and y = "''b.so''" and post = "[]" and sos = "[sample_so]"]])
  fix r s'
  assume "r = (null, None) \<and> err_code s' = DYN_SHARED_OBJ_ERROR \<and> extends_heap sample_world {} s' \<and>
    balanced sample_world s' \<and> (\<exists>k. next_ext sample_world \<le> k \<and>
      (\<forall>j < k + length [sample_so]. libs s' j = add_libs k [sample_so] (libs sample_world) j))"
  then obtain k where "r = (null, None)" "libs s' k = add_libs k [sample_so] (libs sample_world) k" by auto
  then show "r = (null, None) \<and> (\<exists>k. libs s' k = Some sample_so)" by auto
qed (auto simp: sample_world_ok sample_mods name_room_def answers_def sample_posix_def refused_def)

end
