(* ===== verification/Tracer.thy ===== *)
theory Tracer
  imports Filesystem
begin

text \<open>
  \<open>src/libtracer\<close>: a tracer that stops its tracees at every system call and asks callbacks before a
  file is opened. The kernel's side of \<open>ptrace\<close>, \<open>waitpid\<close> and the signals is the parameter record
  \<open>ptrace_os\<close>. A system call stops its caller twice, on entry and on exit; the code tells the two apart by
  the static variable \<open>last_syscall\<close> alone, whichever tracee stopped.
\<close>

unbundle bit_operations_syntax

section \<open>Data\<close>

text \<open>The registers the code uses; the other fields of \<open>struct user_regs_struct\<close> are \<open>other_regs\<close>.\<close>

record user_regs =
  orig_rax :: u64
  rax :: u64
  rdi :: u64
  rsi :: u64
  rdx :: u64
  other_regs :: "u64 list"

datatype wait_answer = NoChange | WaitFailed int | Changed int u32

text \<open>The answers of the kernel: \<open>Inl\<close> carries \<open>errno\<close>.\<close>

record 'e ptrace_os =
  os_raise :: "'e \<Rightarrow> int \<Rightarrow> int + 'e"
  os_wait_stopped :: "'e \<Rightarrow> int \<Rightarrow> 'e"
  os_wait_any :: "'e \<Rightarrow> wait_answer \<times> 'e"
  os_seize :: "'e \<Rightarrow> int \<Rightarrow> u32 \<Rightarrow> int + 'e"
  os_interrupt :: "'e \<Rightarrow> int \<Rightarrow> int + 'e"
  os_resume :: "'e \<Rightarrow> int \<Rightarrow> int \<Rightarrow> int + 'e"
  os_kill :: "'e \<Rightarrow> int \<Rightarrow> int \<Rightarrow> int + 'e"
  os_getregs :: "'e \<Rightarrow> int \<Rightarrow> int + user_regs"
  os_setregs :: "'e \<Rightarrow> int \<Rightarrow> user_regs \<Rightarrow> int + 'e"
  os_peek :: "'e \<Rightarrow> int \<Rightarrow> u64 \<Rightarrow> int + u64"

text \<open>\<open>struct tracer_callbacks\<close>: \<open>None\<close> is a NULL pointer. The callback for system calls changes the
  registers it is given.\<close>

record 'e tracer_callbacks =
  file_read :: "(ptr \<Rightarrow> (int, 'e world) prog) option"
  file_write :: "(ptr \<Rightarrow> (int, 'e world) prog) option"
  on_syscall :: "(user_regs \<Rightarrow> (user_regs, 'e world) prog) option"

record 'e tracer =
  t_cbs :: "'e tracer_callbacks"

definition SIGTRAP :: int where "SIGTRAP = 5"
definition SIGCONT :: int where "SIGCONT = 18"
definition SIGSTOP :: int where "SIGSTOP = 19"
definition SYS_openat :: u64 where "SYS_openat = 257"
definition O_RDONLY :: u32 where "O_RDONLY = 0"
definition O_WRONLY :: u32 where "O_WRONLY = 1"
definition O_RDWR :: u32 where "O_RDWR = 2"
definition O_ACCMODE :: u32 where "O_ACCMODE = 3"
definition PTRACE_O_TRACESYSGOOD :: u32 where "PTRACE_O_TRACESYSGOOD = 1"
definition PTRACE_O_TRACEFORK :: u32 where "PTRACE_O_TRACEFORK = 2"
definition PTRACE_O_TRACECLONE :: u32 where "PTRACE_O_TRACECLONE = 8"
definition PTRACE_O_TRACEEXIT :: u32 where "PTRACE_O_TRACEEXIT = 64"

lemmas tracer_consts = SIGTRAP_def SIGCONT_def SIGSTOP_def SYS_openat_def O_RDONLY_def O_WRONLY_def
  O_RDWR_def O_ACCMODE_def

section \<open>Calls of the kernel\<close>

definition pt_call :: "('e \<Rightarrow> int + 'e) \<Rightarrow> (int, 'e world) prog" where
  "pt_call f = bind (gets (\<lambda>s. f (env s))) os_result"

definition resume :: "'e ptrace_os \<Rightarrow> int \<Rightarrow> int \<Rightarrow> (int, 'e world) prog" where
  "resume T pid sig = pt_call (\<lambda>e. os_resume T e pid sig)"

definition getregs :: "'e ptrace_os \<Rightarrow> int \<Rightarrow> (user_regs option, 'e world) prog" where
  "getregs T pid = bind (gets (\<lambda>s. os_getregs T (env s) pid)) (\<lambda>r.
     case r of Inl e \<Rightarrow> seq (set_errno e) (ret None) | Inr regs \<Rightarrow> ret (Some regs))"

definition setregs :: "'e ptrace_os \<Rightarrow> int \<Rightarrow> user_regs \<Rightarrow> (int, 'e world) prog" where
  "setregs T pid regs = pt_call (\<lambda>e. os_setregs T e pid regs)"

definition peek_text :: "'e ptrace_os \<Rightarrow> int \<Rightarrow> u64 \<Rightarrow> (u64, 'e world) prog" where
  "peek_text T child a = bind (gets (\<lambda>s. os_peek T (env s) child a)) (\<lambda>r.
     case r of Inl e \<Rightarrow> seq (set_errno e) (ret (- 1)) | Inr w \<Rightarrow> ret w)"

section \<open>Reading a string of a tracee\<close>

text \<open>The eight bytes of a word in memory order.\<close>

definition word_chars :: "u64 \<Rightarrow> string" where
  "word_chars w = map (\<lambda>i. char_of (unat (take_bit 8 (drop_bit (8 * i) w)))) [0..<8]"

text \<open>The loop of \<open>read_string\<close>; the first argument is fuel. A turn reads the next word; the string ends with
  the first word that holds a NUL, or where the memory can no longer be read.\<close>

fun read_loop :: "nat \<Rightarrow> 'e ptrace_os \<Rightarrow> int \<Rightarrow> u64 \<Rightarrow> u64 \<Rightarrow> ptr \<Rightarrow> u64 \<Rightarrow> (ptr, 'e world) prog" where
  "read_loop 0 T child addr allocated val rd = (\<lambda>s. OutOfFuel)"
| "read_loop (Suc k) T child addr allocated val rd =
     (let next_word = (\<lambda>allocated val.
        seq (set_errno 0)
       (bind (peek_text T child (addr + rd)) (\<lambda>tmp.
        bind (gets errno_of) (\<lambda>e.
          if e \<noteq> 0 then seq (store_bytes (ptr_add val (int (unat rd))) [Chr (CHR 0x00)]) (ret val)
          else seq (store_bytes (ptr_add val (int (unat rd))) (map Chr (word_chars tmp)))
            (if CHR 0x00 \<in> set (word_chars tmp) then ret val
             else read_loop k T child addr allocated val (rd + 8))))))
      in if allocated < rd + 8
         then bind (realloc val (allocated * 2)) (\<lambda>temp_ptr.
              if temp_ptr = null then seq (free val) (ret null)
              else next_word (allocated * 2) temp_ptr)
         else next_word allocated val)"

definition read_string :: "nat \<Rightarrow> 'e ptrace_os \<Rightarrow> int \<Rightarrow> u64 \<Rightarrow> (ptr, 'e world) prog" where
  "read_string fuel T child addr =
     bind (malloc 4096) (\<lambda>val.
       if val = null then ret val
       else read_loop fuel T child addr 4096 val 0)"

section \<open>System calls\<close>

text \<open>The call of a callback for an access of the given modes; the result says whether to deny.\<close>

definition ask :: "(ptr \<Rightarrow> (int, 'e world) prog) option \<Rightarrow> bool \<Rightarrow> ptr \<Rightarrow> bool \<Rightarrow> (bool, 'e world) prog" where
  "ask cb applies path deny_perm =
     (case cb of
        Some f \<Rightarrow> if applies then bind (f path) (\<lambda>r. ret (if r = - 1 then True else deny_perm)) else ret deny_perm
      | None \<Rightarrow> ret deny_perm)"

definition syscall_openat :: "nat \<Rightarrow> 'e ptrace_os \<Rightarrow> 'e tracer \<Rightarrow> int \<Rightarrow> user_regs \<Rightarrow> (int, 'e world) prog" where
  "syscall_openat fuel T tracer pid_curr regs =
     bind (read_string fuel T pid_curr (rsi regs)) (\<lambda>path.
       if path = null then ret 0
       else let flags = (ucast (rdx regs) :: u32);
                acc_flag = flags AND O_ACCMODE in
         bind (ask (file_read (t_cbs tracer)) (acc_flag = O_RDONLY \<or> acc_flag = O_RDWR) path False) (\<lambda>deny_perm.
         bind (ask (file_write (t_cbs tracer)) (acc_flag = O_WRONLY \<or> acc_flag = O_RDWR) path deny_perm) (\<lambda>deny_perm.
         seq (free path)
        (ret (if deny_perm then - 1 else 0)))))"

definition handle_syscalls :: "nat \<Rightarrow> 'e ptrace_os \<Rightarrow> 'e tracer \<Rightarrow> int \<Rightarrow> (int, 'e world) prog" where
  "handle_syscalls fuel T tracer pid_curr =
     bind (getregs T pid_curr) (\<lambda>r.
     case r of
       None \<Rightarrow> bind (gets errno_of) (\<lambda>e. if e = ESRCH then ret (- 1) else resume T pid_curr 0)
     | Some regs \<Rightarrow>
         let syscall = orig_rax regs in
         seq (modify (\<lambda>s. s\<lparr>last_syscall := (if last_syscall s = syscall then - 1 else syscall)\<rparr>))
        (bind (gets last_syscall) (\<lambda>last.
         bind (case on_syscall (t_cbs tracer) of
                 Some f \<Rightarrow> if last \<noteq> - 1 then f regs else ret regs
               | None \<Rightarrow> ret regs) (\<lambda>regs.
         bind (if syscall = SYS_openat \<and> last \<noteq> - 1 then syscall_openat fuel T tracer pid_curr regs
               else ret 0) (\<lambda>perm.
         let regs = (if perm = - 1
                     then regs\<lparr>orig_rax := of_int (- EPERM), rax := of_int (- EPERM)\<rparr> else regs) in
         bind (setregs T pid_curr regs) (\<lambda>r.
           if r = - 1 then ret (- 1) else resume T pid_curr 0))))))"

section \<open>Stops\<close>

text \<open>Every event of the switch falls through to its default.\<close>

definition handle_sigtrap :: "'e ptrace_os \<Rightarrow> int \<Rightarrow> int \<Rightarrow> (int, 'e world) prog" where
  "handle_sigtrap T pid_curr event = resume T pid_curr 0"

definition handle_stopped ::
  "nat \<Rightarrow> 'e ptrace_os \<Rightarrow> 'e tracer \<Rightarrow> int \<Rightarrow> int \<Rightarrow> int \<Rightarrow> (int, 'e world) prog" where
  "handle_stopped fuel T tracer pid_curr event sig =
     (if sig = SIGTRAP then handle_sigtrap T pid_curr event
      else if sig = SIGTRAP + 128 then handle_syscalls fuel T tracer pid_curr
      else if sig = SIGCONT then resume T pid_curr 0
      else resume T pid_curr sig)"

text \<open>\<open>WIFSTOPPED\<close>, \<open>WSTOPSIG\<close> and the event, read from a wait status.\<close>

definition wif_stopped :: "u32 \<Rightarrow> bool" where
  "wif_stopped st \<longleftrightarrow> st AND 0xff = 0x7f"

definition wstop_sig :: "u32 \<Rightarrow> int" where
  "wstop_sig st = uint (drop_bit 8 (st AND 0xff00))"

definition stop_event :: "u32 \<Rightarrow> int" where
  "stop_event st = sint (signed_drop_bit 8 st)"

definition tracer_loop :: "nat \<Rightarrow> 'e ptrace_os \<Rightarrow> 'e tracer \<Rightarrow> (int, 'e world) prog" where
  "tracer_loop fuel T tracer =
     bind (gets (\<lambda>s. os_wait_any T (env s))) (\<lambda>(answer, e').
     seq (modify (\<lambda>s. s\<lparr>env := e'\<rparr>))
    (case answer of
       NoChange \<Rightarrow> ret 0
     | WaitFailed e \<Rightarrow> seq (set_errno e) (ret (- 1))
     | Changed pid_curr child_status \<Rightarrow>
         if wif_stopped child_status
         then handle_stopped fuel T tracer pid_curr (stop_event child_status) (wstop_sig child_status)
         else ret 0))"

definition tracee_init :: "'e ptrace_os \<Rightarrow> (int, 'e world) prog" where
  "tracee_init T = pt_call (\<lambda>e. os_raise T e SIGSTOP)"

text \<open>The struct is the out parameter \<open>tracer\<close>.\<close>

definition tracer_init :: "'e ptrace_os \<Rightarrow> 'e tracer_callbacks \<Rightarrow> int \<Rightarrow> ('e tracer \<times> int, 'e world) prog" where
  "tracer_init T cbs pid =
     (let tracer = \<lparr>t_cbs = cbs\<rparr>;
          ptrace_options = PTRACE_O_TRACEFORK OR PTRACE_O_TRACESYSGOOD OR PTRACE_O_TRACECLONE OR
            PTRACE_O_TRACEEXIT in
      seq (modify (\<lambda>s. s\<lparr>env := os_wait_stopped T (env s) pid\<rparr>))
     (bind (pt_call (\<lambda>e. os_seize T e pid ptrace_options)) (\<lambda>r. if r = - 1 then ret (tracer, - 1) else
      bind (pt_call (\<lambda>e. os_interrupt T e pid)) (\<lambda>r. if r = - 1 then ret (tracer, - 1) else
      bind (resume T pid 0) (\<lambda>r. if r = - 1 then ret (tracer, - 1) else
      bind (pt_call (\<lambda>e. os_kill T e pid SIGCONT)) (\<lambda>r. if r = - 1 then ret (tracer, - 1) else
      ret (tracer, 0)))))))"

section \<open>Rules for reading a string\<close>

text \<open>The string at an address of a tracee: the characters before the first NUL, or before the first word
  that cannot be read; \<open>None\<close> where neither comes within \<open>k\<close> words.\<close>

fun text_at :: "nat \<Rightarrow> 'e ptrace_os \<Rightarrow> 'e \<Rightarrow> int \<Rightarrow> u64 \<Rightarrow> string option" where
  "text_at 0 T e child a = None"
| "text_at (Suc k) T e child a = (case os_peek T e child a of
       Inl _ \<Rightarrow> Some []
     | Inr w \<Rightarrow> if CHR 0x00 \<in> set (word_chars w) then Some (takeWhile (\<lambda>c. c \<noteq> CHR 0x00) (word_chars w))
               else map_option ((@) (word_chars w)) (text_at k T e child (a + 8)))"

text \<open>The kernel sets \<open>errno\<close> to something other than 0 where a word cannot be read.\<close>

definition peek_reports :: "'e ptrace_os \<Rightarrow> bool" where
  "peek_reports T \<longleftrightarrow> (\<forall>e child a n. os_peek T e child a = Inl n \<longrightarrow> n \<noteq> 0)"

text \<open>\<open>io_ext s s'\<close>: only the heap and \<open>errno\<close> differ.\<close>

definition io_ext :: "'z proc_scheme \<Rightarrow> 'z proc_scheme \<Rightarrow> bool" where
  "io_ext s s' \<longleftrightarrow> (\<exists>e. heap_ext (s\<lparr>errno_of := e\<rparr>) s')"

lemma heap_ext_errno: "heap_ext s s' \<Longrightarrow> heap_ext (s\<lparr>errno_of := e\<rparr>) (s'\<lparr>errno_of := e\<rparr>)"
proof -
  assume ext: "heap_ext s s'"
  then obtain f n k where s': "s' = s\<lparr>blocks := f, next_blk := n, requests := k\<rparr>"
    by (auto simp: heap_ext_def heap_only_def)
  have "s'\<lparr>errno_of := e\<rparr> = s\<lparr>errno_of := e\<rparr>\<lparr>blocks := f, next_blk := n, requests := k\<rparr>"
    by (simp add: s')
  then have "heap_only (s\<lparr>errno_of := e\<rparr>) (s'\<lparr>errno_of := e\<rparr>)"
    unfolding heap_only_def by blast
  with ext show ?thesis by (simp add: heap_ext_def mem_ok_def)
qed

lemma io_ext_heap: "heap_ext s s' \<Longrightarrow> io_ext s s'"
proof -
  assume "heap_ext s s'"
  moreover have "s\<lparr>errno_of := errno_of s\<rparr> = s" by simp
  ultimately show ?thesis unfolding io_ext_def by metis
qed

lemma io_ext_trans: "io_ext s s1 \<Longrightarrow> io_ext s1 s2 \<Longrightarrow> io_ext s s2"
proof -
  assume "io_ext s s1" "io_ext s1 s2"
  then obtain e1 e2 where "heap_ext (s\<lparr>errno_of := e1\<rparr>) s1" "heap_ext (s1\<lparr>errno_of := e2\<rparr>) s2"
    by (auto simp: io_ext_def)
  then have "heap_ext (s\<lparr>errno_of := e2\<rparr>) s2"
    using heap_ext_errno [of "s\<lparr>errno_of := e1\<rparr>" s1 e2] by (auto intro: heap_ext_trans)
  then show ?thesis by (auto simp: io_ext_def)
qed

lemma io_ext_errno: "mem_ok s \<Longrightarrow> io_ext s (s\<lparr>errno_of := e\<rparr>)"
  by (auto simp: io_ext_def heap_ext_def mem_ok_def intro!: exI [of _ e])

lemma io_ext_mem_ok: "io_ext s s' \<Longrightarrow> mem_ok s'"
  by (auto simp: io_ext_def heap_ext_def)

lemma io_ext_world:
  fixes s s' :: "'e world"
  assumes "io_ext s s'"
  shows "env s' = env s" "dirs s' = dirs s" "libs s' = libs s" "last_syscall s' = last_syscall s"
    "frames s' = frames s" "curr s' = curr s" "err_code s' = err_code s" "grants s' = grants s"
    "requests s \<le> requests s'" "stdout_of s' = stdout_of s" "stderr_of s' = stderr_of s" "globe s' = globe s"
  using assms by (auto simp: io_ext_def heap_ext_def heap_only_def)

lemma io_ext_never_oom: "never_oom s \<Longrightarrow> io_ext s s' \<Longrightarrow> never_oom s'" for s s' :: "'e world"
  using io_ext_world(8,9) [of s s'] by (auto simp: never_oom_def)

lemma length_word_chars [simp]: "length (word_chars w) = 8"
  by (simp add: word_chars_def)

text \<open>The buffer of \<open>read_string\<close>: \<open>y\<close> has been read, the object has \<open>n\<close> bytes, and \<open>s0\<close> is the state
  before it was made.\<close>

definition reading :: "'e world \<Rightarrow> string \<Rightarrow> nat \<Rightarrow> ptr \<Rightarrow> 'e world \<Rightarrow> bool" where
  "reading s0 y n val s \<longleftrightarrow> io_ext s0 s \<and> c_string y \<and> (\<exists>b tail. val = Ptr (Blk b) 0 \<and> blocks s0 (Blk b) = None \<and>
     untouched {Blk b} s0 s \<and> blocks s (Blk b) = Some (map Chr y @ tail) \<and> length y + length tail = n)"

definition has_string :: "'e world \<Rightarrow> string \<Rightarrow> ptr \<Rightarrow> 'e world \<Rightarrow> bool" where
  "has_string s0 x p s \<longleftrightarrow> io_ext s0 s \<and> (if p = null then blocks s = blocks s0 \<and> \<not> never_oom s0
     else (\<exists>b. p = Ptr (Blk b) 0 \<and> blocks s0 (Blk b) = None \<and> untouched {Blk b} s0 s \<and>
       blocks s (Blk b) \<noteq> None) \<and> str_of_ptr s p = Some x)"

lemma reading_errno: "reading s0 y n val s \<Longrightarrow> reading s0 y n val (s\<lparr>errno_of := e\<rparr>)"
  using io_ext_trans [OF _ io_ext_errno [of s e]] io_ext_mem_ok [of s0 s]
  by (auto simp: reading_def untouched_def)

text \<open>Storing bytes behind what has been read.\<close>

lemma runs_store_read:
  assumes "reading s0 y n val s" "length y + length new \<le> n"
  shows "runs (store_bytes (ptr_add val (int (length y))) (map Chr new)) s (\<lambda>_ s'. \<exists>b tail. val = Ptr (Blk b) 0 \<and>
    blocks s0 (Blk b) = None \<and> untouched {Blk b} s0 s' \<and> io_ext s0 s' \<and> env s' = env s \<and>
    blocks s' (Blk b) = Some (map Chr (y @ new) @ tail) \<and> length y + length new + length tail = n)"
proof -
  obtain b tail where b: "val = Ptr (Blk b) 0" "blocks s0 (Blk b) = None" "untouched {Blk b} s0 s"
    "blocks s (Blk b) = Some (map Chr y @ tail)" "length y + length tail = n" and io: "io_ext s0 s"
    using assms(1) by (auto simp: reading_def)
  let ?t = "drop (length new) tail"
  have "tail = take (length new) tail @ ?t" by simp
  with b(4) have seg: "blocks s (Blk b) = Some (map Chr y @ take (length new) tail @ ?t)" by simp
  let ?s1 = "s\<lparr>blocks := (blocks s)(Blk b \<mapsto> map Chr y @ map Chr new @ ?t)\<rparr>"
  have "poke (Ptr (Blk b) (int (length y))) (map Chr new) s = Some ?s1"
    by (rule poke_seg [OF seg]) (use assms(2) b(5) in simp_all)
  moreover have "io_ext s0 ?s1"
    by (rule io_ext_trans [OF io io_ext_heap [OF heap_ext_store [OF io_ext_mem_ok [OF io] b(4)]]]) simp
  moreover have "untouched {Blk b} s0 ?s1" using b(3) by (simp add: untouched_def)
  ultimately show ?thesis
    using b assms(2) by (auto simp: runs_store_bytes)
qed

lemma str_at_nul: "c_string x \<Longrightarrow> str_at (map Chr x @ Chr (CHR 0x00) # bs) = Some x"
  using str_at_cstr [of x bs] by (simp add: cstr_def)

lemma takeWhile_split: "CHR 0x00 \<in> set cs \<Longrightarrow>
  \<exists>rest. cs = takeWhile (\<lambda>c. c \<noteq> CHR 0x00) cs @ CHR 0x00 # rest"
  by (induction cs) auto

lemma c_string_takeWhile [simp]: "c_string (takeWhile (\<lambda>c. c \<noteq> CHR 0x00) cs)"
  by (auto simp: c_string_def list_all_iff dest: set_takeWhileD)

lemma c_string_iff: "c_string x \<longleftrightarrow> CHR 0x00 \<notin> set x"
  by (auto simp: c_string_def list_all_iff)

text \<open>The last store of the loop leaves the whole string in the buffer.\<close>

lemma runs_store_last:
  assumes "reading s0 y n val s" "length y + length new \<le> n" "new = t @ CHR 0x00 # rest" "c_string t"
  shows "runs (store_bytes (ptr_add val (int (length y))) (map Chr new)) s (\<lambda>_ s'. has_string s0 (y @ t) val s')"
proof (rule runs_mono [OF runs_store_read [OF assms(1,2)]])
  have y: "c_string y" using assms(1) by (simp add: reading_def)
  fix u s' assume "\<exists>b tail. val = Ptr (Blk b) 0 \<and> blocks s0 (Blk b) = None \<and> untouched {Blk b} s0 s' \<and>
    io_ext s0 s' \<and> env s' = env s \<and> blocks s' (Blk b) = Some (map Chr (y @ new) @ tail) \<and>
    length y + length new + length tail = n"
  then obtain b tail where b: "val = Ptr (Blk b) 0" "blocks s0 (Blk b) = None" "untouched {Blk b} s0 s'" "io_ext s0 s'"
    "blocks s' (Blk b) = Some (map Chr (y @ new) @ tail)" by blast
  have "str_at (map Chr (y @ new) @ tail) = Some (y @ t)"
    using str_at_nul [of "y @ t" "map Chr rest @ tail"] y assms(3,4) by simp
  then have "str_of_ptr s' val = Some (y @ t)"
    using b by (simp add: str_of_ptr_def)
  with b show "has_string s0 (y @ t) val s'"
    by (auto simp: has_string_def)
qed

lemma runs_peek_text [runs_simps]:
  "runs (peek_text T child a) s Q \<longleftrightarrow> (case os_peek T (env s) child a of
     Inl e \<Rightarrow> Q (- 1) (s\<lparr>errno_of := e\<rparr>) | Inr w \<Rightarrow> Q w s)"
  by (simp add: peek_text_def set_errno_def runs_simps split: sum.split)

text \<open>One turn of the loop, with room for a word behind what has been read; \<open>again\<close> is the rest of the
  loop.\<close>

lemma runs_next_word:
  assumes T: "peek_reports T" and rd: "reading s0 y n val s" "length y = unat rd" "unat rd + 8 \<le> n"
    and x: "text_at (Suc k) T (env s0) child (addr + rd) = Some x"
    and again: "\<And>w x' s'. reading s0 (y @ word_chars w) n val s' \<Longrightarrow>
      text_at k T (env s0) child (addr + rd + 8) = Some x' \<Longrightarrow> x = word_chars w @ x' \<Longrightarrow>
      runs m s' (has_string s0 (y @ x))"
  shows "runs (seq (set_errno 0)
     (bind (peek_text T child (addr + rd)) (\<lambda>tmp.
      bind (gets errno_of) (\<lambda>e.
        if e \<noteq> 0 then seq (store_bytes (ptr_add val (int (unat rd))) [Chr (CHR 0x00)]) (ret val)
        else seq (store_bytes (ptr_add val (int (unat rd))) (map Chr (word_chars tmp)))
          (if CHR 0x00 \<in> set (word_chars tmp) then ret val else m))))) s (has_string s0 (y @ x))"
proof -
  have env: "env s = env s0"
    using rd(1) io_ext_world(1) by (auto simp: reading_def)
  show ?thesis
  proof (cases "os_peek T (env s0) child (addr + rd)")
    case (Inl e)
    have e: "e \<noteq> 0" "x = []"
      using T Inl x by (auto simp: peek_reports_def)
    have "runs (store_bytes (ptr_add val (int (length y))) (map Chr [CHR 0x00])) (s\<lparr>errno_of := 0\<rparr>\<lparr>errno_of := e\<rparr>)
        (\<lambda>_ s'. has_string s0 (y @ []) val s')"
      by (rule runs_store_last [OF reading_errno [OF reading_errno [OF rd(1)]], where rest = "[]"])
        (use rd(2,3) in simp_all)
    then show ?thesis
      using Inl env e by (simp add: set_errno_def runs_seq runs_modify runs_bind runs_peek_text runs_gets runs_ret rd(2))
  next
    case (Inr w)
    have r0: "reading s0 y n val (s\<lparr>errno_of := 0\<rparr>)" by (rule reading_errno [OF rd(1)])
    show ?thesis
    proof (cases "CHR 0x00 \<in> set (word_chars w)")
      case True
      obtain rest where "word_chars w = takeWhile (\<lambda>c. c \<noteq> CHR 0x00) (word_chars w) @ CHR 0x00 # rest"
        using takeWhile_split [OF True] by blast
      then have "runs (store_bytes (ptr_add val (int (length y))) (map Chr (word_chars w))) (s\<lparr>errno_of := 0\<rparr>)
          (\<lambda>_ s'. has_string s0 (y @ takeWhile (\<lambda>c. c \<noteq> CHR 0x00) (word_chars w)) val s')"
        by (rule runs_store_last [OF r0, rotated]) (use rd(2,3) in simp_all)
      then show ?thesis
        using Inr env x True
        by (simp add: set_errno_def runs_seq runs_modify runs_bind runs_peek_text runs_gets runs_ret rd(2))
    next
      case False
      obtain x' where x': "text_at k T (env s0) child (addr + rd + 8) = Some x'" "x = word_chars w @ x'"
        using x Inr False by auto
      have "runs (store_bytes (ptr_add val (int (length y))) (map Chr (word_chars w))) (s\<lparr>errno_of := 0\<rparr>)
          (\<lambda>_ s'. runs m s' (has_string s0 (y @ x)))"
      proof (rule runs_mono [OF runs_store_read [OF r0]])
        show "length y + length (word_chars w) \<le> n" using rd(2,3) by simp
        fix u s' assume "\<exists>b tail. val = Ptr (Blk b) 0 \<and> blocks s0 (Blk b) = None \<and> untouched {Blk b} s0 s' \<and>
          io_ext s0 s' \<and> env s' = env (s\<lparr>errno_of := 0\<rparr>) \<and>
          blocks s' (Blk b) = Some (map Chr (y @ word_chars w) @ tail) \<and>
          length y + length (word_chars w) + length tail = n"
        then have "reading s0 (y @ word_chars w) n val s'"
          using rd(1) False by (auto simp: reading_def c_string_iff)
        from again [OF this x'] show "runs m s' (has_string s0 (y @ x))" .
      qed
      then show ?thesis
        using Inr env False
        by (simp add: set_errno_def runs_seq runs_modify runs_bind runs_peek_text runs_gets runs_ret rd(2))
    qed
  qed
qed

lemma unat_plus8: "unat a + 8 < 2 ^ 64 \<Longrightarrow> unat (a + 8) = unat a + 8" for a :: u64
  using unat_add_lem [of a 8] by simp

lemma unat_double: "2 * unat a < 2 ^ 64 \<Longrightarrow> unat (a * 2) = 2 * unat a" for a :: u64
  using unat_mult_lem [of a 2] by simp

text \<open>Doubling the buffer.\<close>

lemma runs_double:
  assumes "reading s0 y (unat allocated) val s" "0 < unat allocated" "2 * unat allocated < 2 ^ 64"
    and "\<And>q s'. reading s0 y (unat (allocated * 2)) q s' \<Longrightarrow> q \<noteq> null \<Longrightarrow> Q q s'"
    and "\<And>s'. \<not> never_oom s0 \<Longrightarrow> runs (free val) s' (\<lambda>_ s''. has_string s0 x null s'') \<Longrightarrow> Q null s'"
  shows "runs (realloc val (allocated * 2)) s Q"
proof -
  obtain b tail where b: "val = Ptr (Blk b) 0" "blocks s0 (Blk b) = None" "untouched {Blk b} s0 s"
    "blocks s (Blk b) = Some (map Chr y @ tail)" "length y + length tail = unat allocated" and io: "io_ext s0 s"
    and y: "c_string y"
    using assms(1) by (auto simp: reading_def)
  have mem: "mem_ok s" by (rule io_ext_mem_ok [OF io])
  note dbl = unat_double [OF assms(3)]
  have nz: "allocated * 2 \<noteq> 0"
    using dbl assms(2) by (metis less_numeral_extra(3) mult_pos_pos unat_0 zero_less_numeral)
  show ?thesis
    unfolding b(1)
  proof (rule runs_realloc_any [OF mem b(4) nz])
    fix s' assume s': "heap_ext s s'" "blocks s' = (blocks s)(Blk b := None, Blk (next_blk s) \<mapsto>
      take (unat (allocated * 2)) (map Chr y @ tail) @ replicate (unat (allocated * 2) - length (map Chr y @ tail)) Undef)"
    let ?n = "next_blk s"
    have bytes: "take (unat (allocated * 2)) (map Chr y @ tail) @ replicate (unat (allocated * 2) - length (map Chr y @ tail)) Undef
        = map Chr y @ (tail @ replicate (unat allocated) Undef)"
      using b(5) dbl by simp
    have "b \<noteq> ?n" using mem_ok_fresh [OF mem b(4)] by simp
    moreover have "blocks s0 (Blk ?n) = None"
      using fresh_blk [OF mem] b(3) \<open>b \<noteq> ?n\<close> by (simp add: untouched_def)
    moreover have "untouched {Blk ?n} s0 s'"
      using s'(2) b(2,3) by (simp add: untouched_def)
    ultimately have "reading s0 y (unat (allocated * 2)) (Ptr (Blk ?n) 0) s'"
      using s'(2) b(5) dbl y io_ext_trans [OF io io_ext_heap [OF s'(1)]] unfolding bytes
      by (auto simp: reading_def)
    then show "Q (Ptr (Blk ?n) 0) s'" by (rule assms(4)) simp
  next
    fix s' assume s': "heap_ext s s'" "blocks s' = blocks s" "\<not> grants s (requests s)"
    have "\<not> never_oom s0"
      using s'(3) io_ext_never_oom [OF _ io] never_oom_now by blast
    moreover have "runs (free val) s' (\<lambda>_ s''. has_string s0 x null s'')"
    proof -
      have "(blocks s')(Blk b := None) = blocks s0"
        using s'(2) b(2,3) by (auto simp: untouched_def fun_eq_iff)
      moreover have "io_ext s0 (s'\<lparr>blocks := (blocks s')(Blk b := None)\<rparr>)"
        by (rule io_ext_trans [OF io_ext_trans [OF io io_ext_heap [OF s'(1)]]
            io_ext_heap [OF heap_ext_free [OF heap_ext_mem_ok [OF s'(1)]]]])
      ultimately show ?thesis
        using b(1,4) s'(2) \<open>\<not> never_oom s0\<close> by (simp add: runs_free has_string_def)
    qed
    ultimately show "Q null s'" by (rule assms(5))
  qed
qed

lemma runs_read_loop:
  "peek_reports T \<Longrightarrow> reading s0 y (unat allocated) val s \<Longrightarrow> length y = unat rd \<Longrightarrow> 4096 \<le> unat allocated \<Longrightarrow>
   unat rd \<le> unat allocated \<Longrightarrow> unat allocated \<le> 4096 + 2 * unat rd \<Longrightarrow> unat rd + 8 * k < 2 ^ 61 \<Longrightarrow>
   text_at k T (env s0) child (addr + rd) = Some x \<Longrightarrow>
   runs (read_loop k T child addr allocated val rd) s (has_string s0 (y @ x))"
proof (induction k arbitrary: y allocated val rd s x)
  case 0
  then show ?case by simp
next
  case (Suc k)
  note T = Suc.prems(1)
  have rd8: "unat (rd + 8) = unat rd + 8" using Suc.prems(7) by (intro unat_plus8) simp
  have guard: "allocated < rd + 8 \<longleftrightarrow> unat allocated < unat rd + 8"
    by (simp add: word_less_nat_alt rd8)
  let ?next = "\<lambda>allocated val. seq (set_errno 0)
       (bind (peek_text T child (addr + rd)) (\<lambda>tmp.
        bind (gets errno_of) (\<lambda>e.
          if e \<noteq> 0 then seq (store_bytes (ptr_add val (int (unat rd))) [Chr (CHR 0x00)]) (ret val)
          else seq (store_bytes (ptr_add val (int (unat rd))) (map Chr (word_chars tmp)))
            (if CHR 0x00 \<in> set (word_chars tmp) then ret val
             else read_loop k T child addr allocated val (rd + 8)))))"
  have turn: "runs (?next al v) s1 (has_string s0 (y @ x))"
    if s1: "reading s0 y (unat al) v s1" "unat rd + 8 \<le> unat al" "4096 \<le> unat al"
      "unat al \<le> 4096 + 2 * (unat rd + 8)" for al v s1
  proof (rule runs_next_word [OF T s1(1) Suc.prems(3) s1(2) Suc.prems(8)])
    fix w x' s' assume s': "reading s0 (y @ word_chars w) (unat al) v s'"
      "text_at k T (env s0) child (addr + rd + 8) = Some x'" "x = word_chars w @ x'"
    have "runs (read_loop k T child addr al v (rd + 8)) s' (has_string s0 ((y @ word_chars w) @ x'))"
      by (rule Suc.IH [OF T s'(1)]) (use Suc.prems(3,7) s1 s'(2) rd8 in \<open>simp_all add: add.assoc\<close>)
    with s'(3) show "runs (read_loop k T child addr al v (rd + 8)) s' (has_string s0 (y @ x))" by simp
  qed
  show ?case
  proof (cases "allocated < rd + 8")
    case True
    have small: "2 * unat allocated < 2 ^ 64" using Suc.prems(6,7) by simp
    have "runs (realloc val (allocated * 2)) s (\<lambda>t s1. runs (if t = null then seq (free val) (ret null)
        else ?next (allocated * 2) t) s1 (has_string s0 (y @ x)))"
    proof (rule runs_double [OF Suc.prems(2) _ small, where x = "y @ x"])
      show "0 < unat allocated" using Suc.prems(4) by simp
      fix q s' assume "reading s0 y (unat (allocated * 2)) q s'" "q \<noteq> null"
      then show "runs (if q = null then seq (free val) (ret null) else ?next (allocated * 2) q) s' (has_string s0 (y @ x))"
        using turn [of "allocated * 2" q s'] unat_double [OF small] True guard Suc.prems(4,5) by simp
    next
      fix s' assume "runs (free val) s' (\<lambda>_ s''. has_string s0 (y @ x) null s'')"
      then show "runs (if null = null then seq (free val) (ret null) else ?next (allocated * 2) null) s'
          (has_string s0 (y @ x))"
        by (simp add: runs_seq runs_ret)
    qed
    with True show ?thesis
      unfolding read_loop.simps Let_def by (simp add: runs_bind [of "realloc _ _"] del: read_loop.simps)
  next
    case False
    then have "runs (?next allocated val) s (has_string s0 (y @ x))"
      using turn [OF Suc.prems(2)] guard Suc.prems(4,6) by simp
    with False show ?thesis
      unfolding read_loop.simps Let_def by (simp del: read_loop.simps)
  qed
qed

lemma runs_read_string:
  assumes "peek_reports T" "mem_ok s" "text_at k T (env s) child addr = Some x" "8 * k < 2 ^ 61"
  shows "runs (read_string k T child addr) s (has_string s x)"
  unfolding read_string_def runs_bind
proof (rule runs_malloc_any [OF assms(2)])
  fix s1 assume s1: "heap_ext s s1" "blocks s1 = (blocks s)(Blk (next_blk s) \<mapsto> replicate (unat (4096 :: u64)) Undef)"
  let ?b = "Blk (next_blk s)"
  have "reading s [] (unat (4096 :: u64)) (Ptr ?b 0) s1"
    using s1 fresh_blk [OF assms(2)] by (auto simp: reading_def untouched_def io_ext_heap)
  from runs_read_loop [OF assms(1) this, of 0 k child addr x]
  have "runs (read_loop k T child addr 4096 (Ptr ?b 0) 0) s1 (has_string s x)"
    using assms(3,4) by simp
  then show "runs (if Ptr ?b 0 = null then ret (Ptr ?b 0) else read_loop k T child addr 4096 (Ptr ?b 0) 0) s1 (has_string s x)"
    by simp
next
  fix s1 assume "heap_ext s s1" "blocks s1 = blocks s" "\<not> grants s (requests s)"
  then have "has_string s x null s1"
    using never_oom_now [of s] by (auto simp: has_string_def io_ext_heap)
  then show "runs (if null = null then ret null else read_loop k T child addr 4096 null 0) s1 (has_string s x)"
    by (simp add: runs_ret)
qed

section \<open>The contract of the callbacks\<close>

text \<open>\<open>only_env s s'\<close>: only the operating system's state differs. A client of the tracer promises callbacks
  that leave the process alone and answer -1 exactly for the paths its policy forbids; a NULL callback
  forbids nothing. \<open>fine\<close> are the states of the operating system in which they work.\<close>

definition only_env :: "'e world \<Rightarrow> 'e world \<Rightarrow> bool" where
  "only_env s s' \<longleftrightarrow> (\<exists>e. s' = s\<lparr>env := e\<rparr>)"

definition denied :: "(string \<Rightarrow> bool) \<Rightarrow> (string \<Rightarrow> bool) \<Rightarrow> u32 \<Rightarrow> string \<Rightarrow> bool" where
  "denied may_read may_write acc x \<longleftrightarrow> (acc = O_RDONLY \<or> acc = O_RDWR) \<and> \<not> may_read x \<or>
     (acc = O_WRONLY \<or> acc = O_RDWR) \<and> \<not> may_write x"

definition access_mode :: "user_regs \<Rightarrow> u32" where
  "access_mode regs = ucast (rdx regs) AND O_ACCMODE"

lemma only_env_blocks:
  assumes "only_env s s'"
  shows "blocks s' = blocks s" "frames s' = frames s" "curr s' = curr s" "err_code s' = err_code s"
    "last_syscall s' = last_syscall s" "errno_of s' = errno_of s" "libs s' = libs s" "globe s' = globe s"
  using assms by (auto simp: only_env_def)

lemma only_env_str: "only_env s s' \<Longrightarrow> str_of_ptr s' p = str_of_ptr s p"
  by (simp add: str_of_ptr_def only_env_blocks)

lemma only_env_trans: "only_env s s1 \<Longrightarrow> only_env s1 s2 \<Longrightarrow> only_env s s2"
  by (auto simp: only_env_def)

lemma only_env_refl [simp]: "only_env s s"
  unfolding only_env_def by (metis world.surjective world.update_convs(1))

locale file_policy =
  fixes fine :: "'e \<Rightarrow> bool"
    and cbs :: "'e tracer_callbacks"
    and may_read :: "string \<Rightarrow> bool"
    and may_write :: "string \<Rightarrow> bool"
  assumes read_cb: "file_read cbs = Some f \<Longrightarrow> fine (env s) \<Longrightarrow> str_of_ptr s p = Some x \<Longrightarrow>
      runs (f p) s (\<lambda>r s'. (r = - 1 \<longleftrightarrow> \<not> may_read x) \<and> only_env s s' \<and> fine (env s'))"
    and write_cb: "file_write cbs = Some f \<Longrightarrow> fine (env s) \<Longrightarrow> str_of_ptr s p = Some x \<Longrightarrow>
      runs (f p) s (\<lambda>r s'. (r = - 1 \<longleftrightarrow> \<not> may_write x) \<and> only_env s s' \<and> fine (env s'))"
    and no_read_cb: "file_read cbs = None \<Longrightarrow> may_read x"
    and no_write_cb: "file_write cbs = None \<Longrightarrow> may_write x"
begin

lemma runs_ask_read:
  assumes "fine (env s)" "str_of_ptr s p = Some x"
  shows "runs (ask (file_read cbs) b p d) s (\<lambda>r s'. (r \<longleftrightarrow> d \<or> b \<and> \<not> may_read x) \<and> only_env s s' \<and> fine (env s'))"
proof (cases "file_read cbs")
  case None
  with no_read_cb [OF None] assms show ?thesis by (simp add: ask_def runs_ret)
next
  case (Some f)
  with assms read_cb [OF Some assms] show ?thesis
    by (auto simp: ask_def runs_ret runs_bind elim!: runs_mono)
qed

lemma runs_ask_write:
  assumes "fine (env s)" "str_of_ptr s p = Some x"
  shows "runs (ask (file_write cbs) b p d) s (\<lambda>r s'. (r \<longleftrightarrow> d \<or> b \<and> \<not> may_write x) \<and> only_env s s' \<and> fine (env s'))"
proof (cases "file_write cbs")
  case None
  with no_write_cb [OF None] assms show ?thesis by (simp add: ask_def runs_ret)
next
  case (Some f)
  with assms write_cb [OF Some assms] show ?thesis
    by (auto simp: ask_def runs_ret runs_bind elim!: runs_mono)
qed

text \<open>The decision on one \<open>openat\<close>: the buffer is freed again, and without memory for it the answer is to
  allow.\<close>

lemma runs_syscall_openat:
  assumes T: "peek_reports T" "mem_ok s" "text_at k T (env s) pid (rsi regs) = Some x" "8 * k < 2 ^ 61" "fine (env s)"
  shows "runs (syscall_openat k T \<lparr>t_cbs = cbs\<rparr> pid regs) s (\<lambda>r s'.
    blocks s' = blocks s \<and> last_syscall s' = last_syscall s \<and> fine (env s') \<and>
    (if never_oom s then r = (if denied may_read may_write (access_mode regs) x then - 1 else 0)
     else r = 0 \<or> r = - 1 \<and> denied may_read may_write (access_mode regs) x))"
  unfolding syscall_openat_def runs_bind [of "read_string _ _ _ _"]
proof (rule runs_mono [OF runs_read_string [OF T(1-4)]])
  let ?acc = "access_mode regs"
  fix path s1 assume s1: "has_string s x path s1"
  then have io: "io_ext s s1" by (simp add: has_string_def)
  note w1 = io_ext_world [OF io]
  let ?Q = "\<lambda>r s'. blocks s' = blocks s \<and> last_syscall s' = last_syscall s \<and> fine (env s') \<and>
    (if never_oom s then r = (if denied may_read may_write ?acc x then - 1 else 0)
     else r = 0 \<or> r = - 1 \<and> denied may_read may_write ?acc x)"
  show "runs (if path = null then ret 0
      else let flags = (ucast (rdx regs) :: u32); acc_flag = flags AND O_ACCMODE in
        bind (ask (file_read (t_cbs \<lparr>t_cbs = cbs\<rparr>)) (acc_flag = O_RDONLY \<or> acc_flag = O_RDWR) path False) (\<lambda>deny_perm.
        bind (ask (file_write (t_cbs \<lparr>t_cbs = cbs\<rparr>)) (acc_flag = O_WRONLY \<or> acc_flag = O_RDWR) path deny_perm) (\<lambda>deny_perm.
        seq (free path) (ret (if deny_perm then - 1 else 0))))) s1 ?Q"
  proof (cases "path = null")
    case True
    then show ?thesis
      using s1 w1 T(5) by (simp add: has_string_def runs_ret)
  next
    case False
    then obtain b where b: "path = Ptr (Blk b) 0" "blocks s (Blk b) = None" "untouched {Blk b} s s1"
      "blocks s1 (Blk b) \<noteq> None" "str_of_ptr s1 path = Some x"
      using s1 by (auto simp: has_string_def)
    have restored: "(blocks s1)(Blk b := None) = blocks s"
      using b(2,3) by (auto simp: untouched_def fun_eq_iff)
    have "runs (bind (ask (file_read cbs) (?acc = O_RDONLY \<or> ?acc = O_RDWR) path False) (\<lambda>deny_perm.
        bind (ask (file_write cbs) (?acc = O_WRONLY \<or> ?acc = O_RDWR) path deny_perm) (\<lambda>deny_perm.
        seq (free path) (ret (if deny_perm then - 1 else 0))))) s1 ?Q"
      unfolding runs_bind
    proof (rule runs_mono [OF runs_ask_read])
      show "fine (env s1)" "str_of_ptr s1 path = Some x" using T(5) w1 b(5) by simp_all
      fix d s2 assume s2: "(d \<longleftrightarrow> False \<or> (?acc = O_RDONLY \<or> ?acc = O_RDWR) \<and> \<not> may_read x) \<and> only_env s1 s2 \<and> fine (env s2)"
      show "runs (ask (file_write cbs) (?acc = O_WRONLY \<or> ?acc = O_RDWR) path d) s2
          (\<lambda>d s3. runs (seq (free path) (ret (if d then - 1 else 0))) s3 ?Q)"
      proof (rule runs_mono [OF runs_ask_write])
        show "fine (env s2)" "str_of_ptr s2 path = Some x" using s2 b(5) only_env_str [of s1 s2] by simp_all
        fix d' s3 assume s3: "(d' \<longleftrightarrow> d \<or> (?acc = O_WRONLY \<or> ?acc = O_RDWR) \<and> \<not> may_write x) \<and> only_env s2 s3 \<and> fine (env s3)"
        have o: "only_env s1 s3" using s2 s3 by (blast intro: only_env_trans)
        have "d' \<longleftrightarrow> denied may_read may_write ?acc x" using s2 s3 by (auto simp: denied_def)
        then show "runs (seq (free path) (ret (if d' then - 1 else 0))) s3 ?Q"
          using b(1,4) restored s3 only_env_blocks [OF o] w1 by (simp add: runs_seq runs_free runs_ret)
      qed
    qed
    with False show ?thesis by (simp add: access_mode_def Let_def)
  qed
qed

end

end
