(* ===== verification/Tracing.thy ===== *)
theory Tracing
  imports Tracer
begin

text \<open>
  What the tracer guarantees: the string it reads out of a tracee, its decision on an \<open>openat\<close>, the
  pairing of the entry and the exit of a system call by the one static variable, and what that pairing
  costs when a second tracee runs.
\<close>

section \<open>Steps that leave the static variable alone\<close>

definition steady :: "('a, 'e world) prog \<Rightarrow> bool" where
  "steady m \<longleftrightarrow> (\<forall>s a s'. m s = Done a s' \<longrightarrow> last_syscall s' = last_syscall s)"

named_theorems steady_intros \<open>steps that leave the static variable alone\<close>

lemma steadyD: "steady m \<Longrightarrow> m s = Done a s' \<Longrightarrow> last_syscall s' = last_syscall s"
  unfolding steady_def by blast

lemma steady_bind [steady_intros]: "steady m \<Longrightarrow> (\<And>a. steady (f a)) \<Longrightarrow> steady (bind m f)"
  by (fastforce simp: steady_def bind_def split: outcome.splits)

lemma steady_seq [steady_intros]: "steady m \<Longrightarrow> steady k \<Longrightarrow> steady (seq m k)"
  by (simp add: seq_def steady_bind)

lemma steady_basic [steady_intros]:
  "steady (ret a)" "steady undefined_prog" "steady (gets f)" "steady (reads g)" "steady (\<lambda>s. OutOfFuel)"
  "steady (set_errno e)"
  by (auto simp: steady_def prog_defs set_errno_def split: option.splits)

lemma steady_if [steady_intros]: "steady m \<Longrightarrow> steady k \<Longrightarrow> steady (if b then m else k)"
  by simp

lemma steady_os_result [steady_intros]: "steady (os_result r)"
  by (auto simp: os_result_def steady_def prog_defs set_errno_def split: sum.splits)

lemma steady_store_bytes [steady_intros]: "steady (store_bytes p bs)"
  by (auto simp: steady_def store_bytes_def writes_def poke_def Let_def split: option.splits if_splits)

lemma steady_heap_ops [steady_intros]: "steady (malloc n)" "steady (free p)" "steady (realloc p n)"
  by (auto simp: steady_def malloc_def free_def realloc_def bind_def modify_def undefined_prog_def ret_def Let_def
      split: outcome.splits option.splits if_splits ptr.splits base.splits)

lemma steady_pt_call [steady_intros]: "steady (pt_call f)"
  by (simp add: pt_call_def steady_intros)

lemma steady_peek_text [steady_intros]: "steady (peek_text T child a)"
  unfolding peek_text_def by (intro steady_intros) (auto split: sum.split intro: steady_intros)

lemma steady_read_loop [steady_intros]: "steady (read_loop k T child addr al v rd)"
proof (induction k arbitrary: al v rd)
  case 0
  show ?case by (simp add: steady_intros)
next
  case (Suc k)
  show ?case
    unfolding read_loop.simps Let_def by (intro steady_intros Suc.IH)
qed

definition steady_callbacks :: "'e tracer_callbacks \<Rightarrow> bool" where
  "steady_callbacks cbs \<longleftrightarrow> (\<forall>f p. file_read cbs = Some f \<longrightarrow> steady (f p)) \<and>
     (\<forall>f p. file_write cbs = Some f \<longrightarrow> steady (f p)) \<and> (\<forall>f r. on_syscall cbs = Some f \<longrightarrow> steady (f r))"

lemma steady_ask: "(\<And>f. cb = Some f \<Longrightarrow> steady (f p)) \<Longrightarrow> steady (ask cb b p d)"
  unfolding ask_def by (auto split: option.split intro: steady_intros)

lemma steady_syscall_openat:
  "steady_callbacks (t_cbs tr) \<Longrightarrow> steady (syscall_openat k T tr pid regs)"
  unfolding syscall_openat_def read_string_def Let_def
  by (intro steady_intros steady_ask) (auto simp: steady_callbacks_def)

section \<open>One stop\<close>

text \<open>What follows the update of the static variable.\<close>

definition write_back :: "'e ptrace_os \<Rightarrow> int \<Rightarrow> user_regs \<Rightarrow> (int, 'e world) prog" where
  "write_back T pid regs = bind (setregs T pid regs) (\<lambda>r. if r = - 1 then ret (- 1) else resume T pid 0)"

definition toggled :: "u64 \<Rightarrow> u64 \<Rightarrow> u64" where
  "toggled prev n = (if prev = n then - 1 else n)"

lemma bind_gets: "bind (gets f) g s = g (f s) s"
  by (simp add: bind_def gets_def)

lemma seq_modify: "seq (modify f) k s = k (f s)"
  by (simp add: seq_def bind_def modify_def)

lemma bind_ret: "bind (ret a) g s = g a s"
  by (simp add: bind_def ret_def)

lemma bind_assoc_gets: "bind (bind (gets f) g) h s = bind (g (f s)) h s"
  by (simp add: bind_def gets_def)

lemma handle_syscalls_regs:
  assumes "os_getregs T (env s) pid = Inr regs"
  shows "handle_syscalls k T tr pid s =
    (bind (case on_syscall (t_cbs tr) of
             Some f \<Rightarrow> if toggled (last_syscall s) (orig_rax regs) \<noteq> - 1 then f regs else ret regs
           | None \<Rightarrow> ret regs) (\<lambda>regs'.
     bind (if orig_rax regs = SYS_openat \<and> toggled (last_syscall s) (orig_rax regs) \<noteq> - 1
           then syscall_openat k T tr pid regs' else ret 0) (\<lambda>perm.
       write_back T pid (if perm = - 1 then regs'\<lparr>orig_rax := of_int (- EPERM), rax := of_int (- EPERM)\<rparr>
         else regs')))) (s\<lparr>last_syscall := toggled (last_syscall s) (orig_rax regs)\<rparr>)"
  by (simp add: handle_syscalls_def getregs_def write_back_def toggled_def [symmetric] bind_gets bind_assoc_gets seq_modify bind_ret Let_def assms
      split del: if_split cong: if_cong option.case_cong)

text \<open>A stop that matches the last entry asks nobody and writes the registers back as they are.\<close>

lemma matching_stop:
  assumes "os_getregs T (env s) pid = Inr regs" "toggled (last_syscall s) (orig_rax regs) = - 1"
  shows "handle_syscalls k T tr pid s = write_back T pid regs (s\<lparr>last_syscall := - 1\<rparr>)"
  unfolding handle_syscalls_regs [OF assms(1)] assms(2)
  by (simp add: bind_def ret_def split: option.split)

lemma handle_syscalls_toggles:
  assumes "os_getregs T (env s) pid = Inr regs" "steady_callbacks (t_cbs tr)" "handle_syscalls k T tr pid s = Done r s'"
  shows "last_syscall s' = toggled (last_syscall s) (orig_rax regs)"
proof -
  have "steady (case on_syscall (t_cbs tr) of
      Some f \<Rightarrow> if toggled (last_syscall s) (orig_rax regs) \<noteq> - 1 then f regs else ret regs
    | None \<Rightarrow> ret regs)"
    using assms(2) by (auto simp: steady_callbacks_def steady_basic split: option.split)
  then have "steady (bind (case on_syscall (t_cbs tr) of
             Some f \<Rightarrow> if toggled (last_syscall s) (orig_rax regs) \<noteq> - 1 then f regs else ret regs
           | None \<Rightarrow> ret regs) (\<lambda>regs'.
     bind (if orig_rax regs = SYS_openat \<and> toggled (last_syscall s) (orig_rax regs) \<noteq> - 1
           then syscall_openat k T tr pid regs' else ret 0) (\<lambda>perm.
       write_back T pid (if perm = - 1 then regs'\<lparr>orig_rax := of_int (- EPERM), rax := of_int (- EPERM)\<rparr>
         else regs'))))"
    unfolding write_back_def setregs_def resume_def
    by (intro steady_intros steady_syscall_openat [OF assms(2)])
  from steadyD [OF this assms(3) [unfolded handle_syscalls_regs [OF assms(1)]]] show ?thesis by simp
qed

section \<open>The policy decides\<close>

text \<open>What became of the registers written back in state \<open>e\<close> of the operating system.\<close>

definition written :: "'e ptrace_os \<Rightarrow> 'e \<Rightarrow> int \<Rightarrow> user_regs \<Rightarrow> int \<Rightarrow> 'e \<Rightarrow> bool" where
  "written T e pid regs r e' \<longleftrightarrow> (case os_setregs T e pid regs of
       Inl _ \<Rightarrow> r = - 1 \<and> e' = e
     | Inr e1 \<Rightarrow> (case os_resume T e1 pid 0 of Inl _ \<Rightarrow> r = - 1 \<and> e' = e1 | Inr e2 \<Rightarrow> r = 0 \<and> e' = e2))"

lemma runs_os_result [runs_simps]:
  "runs (os_result r) s Q \<longleftrightarrow> (case r of Inl e \<Rightarrow> Q (- 1) (s\<lparr>errno_of := e\<rparr>) | Inr e' \<Rightarrow> Q 0 (s\<lparr>env := e'\<rparr>))"
  by (simp add: os_result_def set_errno_def runs_seq runs_modify runs_ret split: sum.split)

lemma runs_pt_call [runs_simps]:
  "runs (pt_call f) s Q \<longleftrightarrow> (case f (env s) of Inl e \<Rightarrow> Q (- 1) (s\<lparr>errno_of := e\<rparr>) | Inr e' \<Rightarrow> Q 0 (s\<lparr>env := e'\<rparr>))"
  by (simp add: pt_call_def runs_bind runs_gets runs_os_result)

lemma runs_write_back:
  "runs (write_back T pid regs) s (\<lambda>r s'. written T (env s) pid regs r (env s') \<and> blocks s' = blocks s \<and>
     last_syscall s' = last_syscall s)"
  by (auto simp: write_back_def setregs_def resume_def written_def runs_bind runs_pt_call runs_ret split: sum.split)

definition after_denial :: "user_regs \<Rightarrow> user_regs" where
  "after_denial regs = regs\<lparr>orig_rax := of_int (- EPERM), rax := of_int (- EPERM)\<rparr>"

lemma after_denial_minus: "after_denial regs = regs\<lparr>orig_rax := - 1, rax := - 1\<rparr>"
  by (simp add: after_denial_def EPERM_def)

lemma runs_entry:
  assumes "file_policy fine cbs may_read may_write" "on_syscall cbs = None"
    and "peek_reports T" "mem_ok s" "text_at k T (env s) pid (rsi regs) = Some x" "8 * k < 2 ^ 61" "fine (env s)"
    and "os_getregs T (env s) pid = Inr regs" "orig_rax regs = SYS_openat" "last_syscall s \<noteq> SYS_openat"
    and "never_oom s"
  shows "runs (handle_syscalls k T \<lparr>t_cbs = cbs\<rparr> pid) s (\<lambda>r s'. (\<exists>e. fine e \<and>
     written T e pid (if denied may_read may_write (access_mode regs) x then after_denial regs else regs) r (env s')) \<and>
     blocks s' = blocks s \<and> last_syscall s' = SYS_openat)"
proof -
  let ?s = "s\<lparr>last_syscall := SYS_openat\<rparr>"
  have tog: "toggled (last_syscall s) (orig_rax regs) = SYS_openat" "SYS_openat \<noteq> - 1"
    using assms(9,10) by (simp_all add: toggled_def SYS_openat_def)
  have oom: "never_oom ?s" "mem_ok ?s" "text_at k T (env ?s) pid (rsi regs) = Some x" "fine (env ?s)"
    using assms(4,5,7,11) by (simp_all add: never_oom_def mem_ok_def)
  have eq: "handle_syscalls k T \<lparr>t_cbs = cbs\<rparr> pid s = bind (syscall_openat k T \<lparr>t_cbs = cbs\<rparr> pid regs)
      (\<lambda>perm. write_back T pid (if perm = - 1 then after_denial regs else regs)) ?s"
    unfolding handle_syscalls_regs [OF assms(8)] tog
    using assms(2,9) tog(2) by (simp add: bind_ret after_denial_def cong: if_cong)
  have "runs (bind (syscall_openat k T \<lparr>t_cbs = cbs\<rparr> pid regs)
      (\<lambda>perm. write_back T pid (if perm = - 1 then after_denial regs else regs))) ?s (\<lambda>r s'. (\<exists>e. fine e \<and>
     written T e pid (if denied may_read may_write (access_mode regs) x then after_denial regs else regs) r (env s')) \<and>
     blocks s' = blocks s \<and> last_syscall s' = SYS_openat)"
    unfolding runs_bind
  proof (rule runs_mono [OF file_policy.runs_syscall_openat [OF assms(1,3) oom(2,3) assms(6) oom(4)]])
    fix r :: int and s1 :: "'a world" assume "blocks s1 = blocks ?s \<and> last_syscall s1 = last_syscall ?s \<and> fine (env s1) \<and>
      (if never_oom ?s then r = (if denied may_read may_write (access_mode regs) x then - 1 else 0)
       else r = 0 \<or> r = - 1 \<and> denied may_read may_write (access_mode regs) x)"
    with oom(1) have s1: "blocks s1 = blocks s" "last_syscall s1 = SYS_openat" "fine (env s1)"
      "r = - 1 \<longleftrightarrow> denied may_read may_write (access_mode regs) x" by (auto split: if_splits)
    show "runs (write_back T pid (if r = - 1 then after_denial regs else regs)) s1 (\<lambda>r s'. (\<exists>e. fine e \<and>
       written T e pid (if denied may_read may_write (access_mode regs) x then after_denial regs else regs) r (env s')) \<and>
       blocks s' = blocks s \<and> last_syscall s' = SYS_openat)"
      by (rule runs_mono [OF runs_write_back]) (use s1 in auto)
  qed
  with eq show ?thesis by (simp add: runs_def)
qed

section \<open>The stops of one tracee\<close>

text \<open>\<open>reached k T tr pid (ph, s)\<close>: the tracer has handled some system call stops of the one tracee \<open>pid\<close>
  and is in state \<open>s\<close>; \<open>ph\<close> is \<open>Some n\<close> inside system call \<open>n\<close> and \<open>None\<close> outside. Between two stops anything
  but the static variable may change. On exit the kernel shows the number of the call, or -1 where the tracer
  replaced it by a call that does not exist.\<close>

inductive reached :: "nat \<Rightarrow> 'e ptrace_os \<Rightarrow> 'e tracer \<Rightarrow> int \<Rightarrow> u64 option \<times> 'e world \<Rightarrow> bool"
  for k T tr pid where
  start: "last_syscall s = - 1 \<Longrightarrow> reached k T tr pid (None, s)"
| elsewhere: "reached k T tr pid (ph, s) \<Longrightarrow> last_syscall s' = last_syscall s \<Longrightarrow> reached k T tr pid (ph, s')"
| entry: "reached k T tr pid (None, s) \<Longrightarrow> os_getregs T (env s) pid = Inr regs \<Longrightarrow> orig_rax regs \<noteq> - 1 \<Longrightarrow>
    handle_syscalls k T tr pid s = Done r s' \<Longrightarrow> reached k T tr pid (Some (orig_rax regs), s')"
| leave: "reached k T tr pid (Some n, s) \<Longrightarrow> os_getregs T (env s) pid = Inr regs \<Longrightarrow> orig_rax regs \<in> {n, - 1} \<Longrightarrow>
    handle_syscalls k T tr pid s = Done r s' \<Longrightarrow> reached k T tr pid (None, s')"

lemmas reached_induct = reached.induct [split_format (complete)]

lemma toggled_simps [simp]: "toggled (- 1) n = n" "toggled n n = - 1" "toggled n (- 1) = - 1"
  by (simp_all add: toggled_def)

lemma reached_last:
  assumes "steady_callbacks (t_cbs tr)" "reached k T tr pid (ph, s)"
  shows "last_syscall s = (case ph of None \<Rightarrow> - 1 | Some n \<Rightarrow> n)"
  using assms(2)
proof (induction rule: reached_induct)
  case (entry s regs r s')
  then show ?case using handle_syscalls_toggles [OF entry.hyps(2) assms(1) entry.hyps(4)] by simp
next
  case (leave n s regs r s')
  then show ?case using handle_syscalls_toggles [OF leave.hyps(2) assms(1) leave.hyps(4)] by auto
qed simp_all

section \<open>A small kernel\<close>

text \<open>Two tracees whose memory holds one string; the state of the kernel is their registers.\<close>

definition sample_kernel :: "(int \<Rightarrow> user_regs) ptrace_os" where
  "sample_kernel = \<lparr>os_raise = (\<lambda>e _. Inr e), os_wait_stopped = (\<lambda>e _. e), os_wait_any = (\<lambda>e. (NoChange, e)),
     os_seize = (\<lambda>e _ _. Inr e), os_interrupt = (\<lambda>e _. Inr e), os_resume = (\<lambda>e _ _. Inr e), os_kill = (\<lambda>e _ _. Inr e),
     os_getregs = (\<lambda>e pid. Inr (e pid)), os_setregs = (\<lambda>e pid regs. Inr (e(pid := regs))),
     os_peek = (\<lambda>e pid a. if a = 4096 then Inr 7018986666626147631 else if a = 4104 then Inr 7827300 else Inl 5)\<rparr>"

definition sample_regs :: user_regs where
  "sample_regs = \<lparr>orig_rax = 257, rax = 0, rdi = 0, rsi = 4096, rdx = 0, other_regs = []\<rparr>"

definition guard_shadow :: "'e tracer_callbacks" where
  "guard_shadow = \<lparr>file_read = Some (\<lambda>p. bind (load_str p) (\<lambda>x. ret (if x = ''/etc/shadow'' then - 1 else 0))),
     file_write = None, on_syscall = None\<rparr>"

lemma sample_text: "text_at 2 sample_kernel e pid 4096 = Some ''/etc/shadow''"
proof -
  have a: "word_chars 7018986666626147631 = ''/etc/sha''" "word_chars 7827300 = [CHR ''d'', CHR ''o'', CHR ''w'', CHR 0x00, CHR 0x00, CHR 0x00, CHR 0x00, CHR 0x00]"
    by code_simp+
  have "text_at (Suc (Suc 0)) sample_kernel e pid 4096 = Some ''/etc/shadow''"
    by (simp add: sample_kernel_def a)
  then show ?thesis by (simp only: numeral_2_eq_2)
qed

lemma sample_kernel_reports: "peek_reports sample_kernel"
  by (auto simp: peek_reports_def sample_kernel_def split: if_splits)

lemma guard_shadow_policy: "file_policy fine guard_shadow (\<lambda>x. x \<noteq> ''/etc/shadow'') (\<lambda>_. True)"
  by unfold_locales (auto simp: guard_shadow_def runs_bind runs_load_str runs_ret only_env_refl)

lemma guard_shadow_steady: "steady_callbacks guard_shadow"
  by (auto simp: steady_callbacks_def guard_shadow_def load_str_def intro!: steady_intros)

lemma sample_written: "written sample_kernel e pid regs r e' \<longleftrightarrow> r = 0 \<and> e' = e(pid := regs)"
  by (auto simp: written_def sample_kernel_def)

lemma sample_opens:
  "on_syscall guard_shadow = None" "os_getregs sample_kernel e pid = Inr (e pid)" "orig_rax sample_regs = SYS_openat"
  "- 1 \<noteq> SYS_openat" "SYS_openat \<noteq> - 1" "rsi sample_regs = 4096"
  by (simp_all add: guard_shadow_def sample_kernel_def sample_regs_def SYS_openat_def)

text \<open>The tracer after tracee 7 was denied; tracee 8 is at the entry of its own \<open>openat\<close>.\<close>

lemma sample_entered: "\<exists>s. reached 2 sample_kernel \<lparr>t_cbs = guard_shadow\<rparr> 7 (Some SYS_openat, s) \<and> orig_rax (env s 7) = - 1 \<and>
    env s 8 = sample_regs"
proof -
  let ?s = "start_at (\<lambda>_. sample_regs)"
  have d: "denied (\<lambda>x. x \<noteq> ''/etc/shadow'') (\<lambda>_. True) (access_mode sample_regs) ''/etc/shadow''"
    by (simp add: denied_def access_mode_def sample_regs_def O_RDONLY_def)
  have "runs (handle_syscalls 2 sample_kernel \<lparr>t_cbs = guard_shadow\<rparr> 7) ?s (\<lambda>r s'. (\<exists>e. e = (\<lambda>_. sample_regs) \<and>
     written sample_kernel e 7 (if denied (\<lambda>x. x \<noteq> ''/etc/shadow'') (\<lambda>_. True) (access_mode sample_regs) ''/etc/shadow''
       then after_denial sample_regs else sample_regs) r (env s')) \<and> blocks s' = blocks ?s \<and> last_syscall s' = SYS_openat)"
    using runs_entry [OF guard_shadow_policy [where fine = "\<lambda>e. e = (\<lambda>_ :: int. sample_regs)"] _ sample_kernel_reports,
          where x = "''/etc/shadow''" and regs = sample_regs and s = ?s and pid = 7 and k = 2]
    by (simp_all add: start_at_ok sample_opens sample_text)
  then obtain r s' where s': "handle_syscalls 2 sample_kernel \<lparr>t_cbs = guard_shadow\<rparr> 7 ?s = Done r s'"
    "env s' = (\<lambda>_. sample_regs)(7 := after_denial sample_regs)"
    unfolding runs_iff by (auto simp: sample_written d)
  have "reached 2 sample_kernel \<lparr>t_cbs = guard_shadow\<rparr> 7 (Some (orig_rax sample_regs), s')"
    by (rule reached.entry [OF reached.start _ _ s'(1)]) (simp_all add: start_at_ok sample_opens)
  with s'(2) show ?thesis by (auto simp: sample_opens after_denial_minus)
qed

section \<open>Properties\<close>

text \<open>C6: Whatever the allocator answers, \<open>read_string\<close> returns without leaving its buffer: the string of the
  tracee, up to its NUL or to the first word that cannot be read, in an object of its own, or NULL with
  the heap as it was, and NULL only where an allocation failed. The buffer doubles as often as the length asks;
  \<open>k\<close> turns of the loop are enough for a string that ends in the first \<open>k\<close> words.\<close>

theorem read_string_correct:
  assumes "peek_reports T" "mem_ok s" "text_at k T (env s) child addr = Some x" "8 * k < 2 ^ 61"
  shows "runs (read_string k T child addr) s (\<lambda>p s'. last_syscall s' = last_syscall s \<and> frames s' = frames s \<and>
    (if p = null then \<not> never_oom s \<and> blocks s' = blocks s
     else str_of_ptr s' p = Some x \<and> blocks s (pbase p) = None \<and> untouched {pbase p} s s'))"
  by (rule runs_mono [OF runs_read_string [OF assms]])
    (auto simp: has_string_def dest: io_ext_world)

theorem read_string_correct_witness:
  "runs (read_string 2 sample_kernel 7 4096) (start_at (\<lambda>_. sample_regs)) (\<lambda>p s'. str_of_ptr s' p = Some ''/etc/shadow'')"
  by (rule runs_mono [OF read_string_correct [OF sample_kernel_reports _ sample_text]])
    (auto simp: start_at_ok split: if_splits)

text \<open>C7: At the entry of an \<open>openat\<close> the tracer asks exactly the callbacks the access mode concerns and lets
  their policy decide: a denied call gets -1 (which is \<open>-EPERM\<close>) as its number and its result before the tracee
  is resumed, any other call goes on with its registers as they were. The copy of the path is freed.\<close>

theorem openat_entry_decided:
  assumes "file_policy fine cbs may_read may_write" "on_syscall cbs = None" "peek_reports T" "mem_ok s" "never_oom s"
    and "text_at k T (env s) pid (rsi regs) = Some x" "8 * k < 2 ^ 61" "fine (env s)"
    and "os_getregs T (env s) pid = Inr regs" "orig_rax regs = SYS_openat" "last_syscall s \<noteq> SYS_openat"
  shows "runs (handle_syscalls k T \<lparr>t_cbs = cbs\<rparr> pid) s (\<lambda>r s'. (\<exists>e. fine e \<and>
     written T e pid (if denied may_read may_write (access_mode regs) x
       then regs\<lparr>orig_rax := - 1, rax := - 1\<rparr> else regs) r (env s')) \<and>
     blocks s' = blocks s \<and> last_syscall s' = SYS_openat)"
  using runs_entry [OF assms(1-4,6-11,5)] unfolding after_denial_minus .

theorem openat_entry_decided_witness:
  "runs (handle_syscalls 2 sample_kernel \<lparr>t_cbs = guard_shadow\<rparr> 7) (start_at (\<lambda>_. sample_regs))
     (\<lambda>r s'. r = 0 \<and> orig_rax (env s' 7) = - 1)"
proof -
  have d: "denied (\<lambda>x. x \<noteq> ''/etc/shadow'') (\<lambda>_. True) (access_mode sample_regs) ''/etc/shadow''"
    by (simp add: denied_def access_mode_def sample_regs_def O_RDONLY_def)
  show ?thesis
    by (rule runs_mono [OF openat_entry_decided [OF guard_shadow_policy [where fine = "\<lambda>_. True"] _ sample_kernel_reports,
          where x = "''/etc/shadow''" and regs = sample_regs]])
      (auto simp: start_at_ok sample_text sample_written d sample_opens)
qed

text \<open>C8: The tracer fails open: where there is no memory for the path, no callback is asked and the \<open>openat\<close> goes on with
  its registers as they were, whatever the policy says and whatever the path is.\<close>

theorem openat_fails_open:
  assumes "\<not> grants s (requests s)" "on_syscall (t_cbs tr) = None"
    and "os_getregs T (env s) pid = Inr regs" "orig_rax regs = SYS_openat" "last_syscall s \<noteq> SYS_openat"
  shows "runs (handle_syscalls k T tr pid) s (\<lambda>r s'. written T (env s) pid regs r (env s') \<and> blocks s' = blocks s \<and>
    last_syscall s' = SYS_openat)"
proof -
  let ?s = "s\<lparr>last_syscall := SYS_openat\<rparr>" and ?s1 = "s\<lparr>last_syscall := SYS_openat, requests := Suc (requests s)\<rparr>"
  have tog: "toggled (last_syscall s) (orig_rax regs) = SYS_openat" "SYS_openat \<noteq> - 1"
    using assms(4,5) by (simp_all add: toggled_def SYS_openat_def)
  have "read_string k T pid (rsi regs) ?s = Done null ?s1"
    using assms(1) by (simp add: read_string_def malloc_def Let_def bind_def ret_def)
  then have "syscall_openat k T tr pid regs ?s = Done 0 ?s1"
    by (simp add: syscall_openat_def bind_def ret_def)
  then have "handle_syscalls k T tr pid s = write_back T pid regs ?s1"
    unfolding handle_syscalls_regs [OF assms(3)] tog using assms(2,4) tog(2) by (simp add: bind_ret) (simp add: bind_def)
  with runs_write_back [of T pid regs ?s1] show ?thesis by (simp add: runs_def)
qed

theorem openat_fails_open_witness:
  "runs (handle_syscalls 2 sample_kernel \<lparr>t_cbs = guard_shadow\<rparr> 7) ((start_at (\<lambda>_. sample_regs))\<lparr>grants := (\<lambda>_. False)\<rparr>)
     (\<lambda>r s'. r = 0 \<and> env s' 7 = sample_regs)"
  by (rule runs_mono [OF openat_fails_open [where regs = sample_regs]])
    (auto simp: start_at_ok sample_written sample_opens)

text \<open>C9: With a single tracee the static variable always tells the entry of a system call from its exit: it
  holds the number of the call the tracee is in, and -1 outside; and the stop at the exit asks no callback and
  writes the registers back as the kernel gave them.\<close>

theorem single_tracee_paired:
  assumes "steady_callbacks (t_cbs tr)" "reached k T tr pid (ph, s)"
  shows "last_syscall s = (case ph of None \<Rightarrow> - 1 | Some n \<Rightarrow> n) \<and>
    (\<forall>regs n. ph = Some n \<longrightarrow> os_getregs T (env s) pid = Inr regs \<longrightarrow> orig_rax regs \<in> {n, - 1} \<longrightarrow>
      runs (handle_syscalls k T tr pid) s (\<lambda>r s'. written T (env s) pid regs r (env s') \<and> blocks s' = blocks s \<and>
        last_syscall s' = - 1))"
proof -
  have last: "last_syscall s = (case ph of None \<Rightarrow> - 1 | Some n \<Rightarrow> n)" by (rule reached_last [OF assms])
  have "runs (handle_syscalls k T tr pid) s (\<lambda>r s'. written T (env s) pid regs r (env s') \<and> blocks s' = blocks s \<and>
        last_syscall s' = - 1)" if "ph = Some n" "os_getregs T (env s) pid = Inr regs" "orig_rax regs \<in> {n, - 1}" for regs n
  proof -
    have "toggled (last_syscall s) (orig_rax regs) = - 1" using last that(1,3) by auto
    then show ?thesis
      using runs_write_back [of T pid regs "s\<lparr>last_syscall := - 1\<rparr>"] matching_stop [OF that(2), of k tr]
      by (simp add: runs_def)
  qed
  with last show ?thesis by blast
qed

theorem single_tracee_paired_witness:
  "\<exists>s. last_syscall s = SYS_openat \<and>
     runs (handle_syscalls 2 sample_kernel \<lparr>t_cbs = guard_shadow\<rparr> 7) s (\<lambda>r s'. r = 0 \<and> last_syscall s' = - 1)"
proof -
  obtain s where s: "reached 2 sample_kernel \<lparr>t_cbs = guard_shadow\<rparr> 7 (Some SYS_openat, s)" "orig_rax (env s 7) = - 1"
    using sample_entered by blast
  have "steady_callbacks (t_cbs \<lparr>t_cbs = guard_shadow\<rparr>)" by (simp add: guard_shadow_steady)
  from single_tracee_paired [OF this s(1)]
  have last: "last_syscall s = SYS_openat" and run: "runs (handle_syscalls 2 sample_kernel \<lparr>t_cbs = guard_shadow\<rparr> 7) s
      (\<lambda>r s'. written sample_kernel (env s) 7 (env s 7) r (env s') \<and> blocks s' = blocks s \<and> last_syscall s' = - 1)"
    using s(2) by (simp_all add: sample_opens)
  have "runs (handle_syscalls 2 sample_kernel \<lparr>t_cbs = guard_shadow\<rparr> 7) s (\<lambda>r s'. r = 0 \<and> last_syscall s' = - 1)"
    by (rule runs_mono [OF run]) (simp add: sample_written)
  with last show ?thesis by blast
qed

text \<open>C10: The static variable is shared by all tracees: after one tracee has entered \<open>openat\<close>, the entry of a
  second one into \<open>openat\<close> is taken for an exit. No callback is asked, whatever the path, and the registers go
  back unchanged: the policy is bypassed.\<close>

theorem second_openat_unchecked:
  assumes "steady_callbacks (t_cbs tr)" "reached k T tr pid (Some SYS_openat, s)"
    and "os_getregs T (env s) other = Inr regs" "orig_rax regs = SYS_openat"
  shows "runs (handle_syscalls k T tr other) s (\<lambda>r s'. written T (env s) other regs r (env s') \<and> blocks s' = blocks s)"
proof -
  have "toggled (last_syscall s) (orig_rax regs) = - 1"
    using reached_last [OF assms(1,2)] assms(4) by simp
  then show ?thesis
    using runs_write_back [of T other regs "s\<lparr>last_syscall := - 1\<rparr>"] matching_stop [OF assms(3), of k tr]
    by (auto simp: runs_iff)
qed

theorem second_openat_unchecked_witness:
  "\<exists>s. orig_rax (env s 7) = - 1 \<and> runs (handle_syscalls 2 sample_kernel \<lparr>t_cbs = guard_shadow\<rparr> 8) s
     (\<lambda>r s'. r = 0 \<and> env s' 8 = sample_regs)"
proof -
  obtain s where s: "reached 2 sample_kernel \<lparr>t_cbs = guard_shadow\<rparr> 7 (Some SYS_openat, s)" "orig_rax (env s 7) = - 1"
    "env s 8 = sample_regs"
    using sample_entered by blast
  have "steady_callbacks (t_cbs \<lparr>t_cbs = guard_shadow\<rparr>)" by (simp add: guard_shadow_steady)
  note bypass = second_openat_unchecked [OF this s(1), of 8 sample_regs]
  have "runs (handle_syscalls 2 sample_kernel \<lparr>t_cbs = guard_shadow\<rparr> 8) s (\<lambda>r s'. r = 0 \<and> env s' 8 = sample_regs)"
    by (rule runs_mono [OF bypass]) (simp_all add: sample_opens sample_written s(3))
  with s(2) show ?thesis by blast
qed

end
