(* ===== verification/Stops.thy ===== *)
theory Stops
  imports Tracing
begin

text \<open>
  How \<open>tracer_loop\<close> of \<open>src/libtracer/tracer.c\<close> reacts to a stopped tracee, from the status word \<open>waitpid\<close> gives.
\<close>

section \<open>The status word\<close>

text \<open>The status of a tracee that stopped with signal \<open>n\<close>: \<open>0x7f\<close> in the low byte, the signal in the next, and
  the ptrace event above.\<close>

definition stop_status :: "nat \<Rightarrow> u32 \<Rightarrow> u32" where
  "stop_status n ev = push_bit 16 ev OR push_bit 8 (of_nat n) OR 0x7f"

lemma bit_7f: "bit (0x7f :: int) i \<longleftrightarrow> i < 7"
proof -
  have "(0x7f :: int) = mask 7" by (simp add: mask_eq_exp_minus_1)
  then show ?thesis by (simp only: bit_mask_iff) simp
qed

lemma bit_ff: "bit (0xff :: int) i \<longleftrightarrow> i < 8"
proof -
  have "(0xff :: int) = mask 8" by (simp add: mask_eq_exp_minus_1)
  then show ?thesis by (simp only: bit_mask_iff) simp
qed

lemma bit_ff00: "bit (0xff00 :: int) i \<longleftrightarrow> 8 \<le> i \<and> i < 16"
proof -
  have "(0xff00 :: int) = push_bit 8 (mask 8)" by (simp add: mask_eq_exp_minus_1 push_bit_eq_mult)
  then show ?thesis by (simp only: bit_push_bit_iff bit_mask_iff) auto
qed

lemma stop_status_stopped: "wif_stopped (stop_status n ev)"
proof -
  have "stop_status n ev AND 0xff = (0x7f :: u32)"
    by (rule bit_eqI) (auto simp: stop_status_def bit_and_iff bit_or_iff bit_push_bit_iff bit_7f bit_ff)
  then show ?thesis by (simp add: wif_stopped_def)
qed

lemma stop_status_sig:
  assumes "n < 256"
  shows "wstop_sig (stop_status n ev) = int n"
proof -
  have "bit (drop_bit 8 (stop_status n ev AND 0xff00)) i \<longleftrightarrow> bit (take_bit 8 (of_nat n :: u32)) i" for i
  proof (cases "i < 8")
    case True
    then show ?thesis
      by (auto simp: stop_status_def bit_ff00 bit_drop_bit_eq bit_and_iff bit_or_iff bit_push_bit_iff bit_7f bit_ff bit_take_bit_iff)
  next
    case False
    then show ?thesis
      by (simp add: bit_ff00 bit_drop_bit_eq bit_and_iff bit_push_bit_iff bit_ff bit_take_bit_iff)
  qed
  then have "drop_bit 8 (stop_status n ev AND 0xff00) = take_bit 8 (of_nat n :: u32)"
    by (intro bit_eqI) blast
  also have "\<dots> = of_nat n"
    using assms by (simp add: take_bit_of_nat take_bit_nat_eq_self)
  finally show ?thesis
    using assms by (simp add: wstop_sig_def) (simp add: uint_nat unat_of_nat)
qed

section \<open>Property\<close>

text \<open>C12: A tracee that stops with a signal is resumed once, with that signal, whatever event comes with the stop;
  SIGTRAP and SIGCONT are swallowed. Stops of system calls, which carry SIGTRAP with its high bit set, go to
  \<open>handle_syscalls\<close>.\<close>

theorem signals_passed_on:
  assumes "os_wait_any T (env s) = (Changed pid (stop_status n ev), e)" "n < 256"
  shows "tracer_loop k T tr s =
    (if n = 133 then handle_syscalls k T tr pid (s\<lparr>env := e\<rparr>)
     else case os_resume T e pid (if n = 5 \<or> n = 18 then 0 else int n) of
       Inl c \<Rightarrow> Done (- 1) (s\<lparr>env := e, errno_of := c\<rparr>)
     | Inr e' \<Rightarrow> Done 0 (s\<lparr>env := e'\<rparr>))"
  using assms stop_status_stopped stop_status_sig [OF assms(2)]
  by (auto simp: tracer_loop_def handle_stopped_def handle_sigtrap_def resume_def pt_call_def os_result_def set_errno_def
      bind_def gets_def seq_def modify_def ret_def tracer_consts split: sum.split)

theorem signals_passed_on_witness:
  "tracer_loop 1 (sample_kernel\<lparr>os_wait_any := (\<lambda>e. (Changed 7 (stop_status 15 0), e)), os_resume := (\<lambda>_ _ sig. Inl sig)\<rparr>)
     \<lparr>t_cbs = \<lparr>file_read = None, file_write = None, on_syscall = None\<rparr>\<rparr> (start_at (\<lambda>_. sample_regs)) =
   Done (- 1) ((start_at (\<lambda>_. sample_regs))\<lparr>errno_of := 15\<rparr>)"
  by (subst signals_passed_on [where pid = 7 and n = 15 and ev = 0 and e = "\<lambda>_. sample_regs"]) (simp_all add: start_at_def)

end
