(* ===== verification/Trace_Reads.thy ===== *)
theory Trace_Reads
  imports Tracing
begin

text \<open>
  \<open>src/libtracer/examples/trace_file_reads.c\<close>: a client of the tracer that runs a program and prints the path of
  every file it opens for reading. Its loop is compared with a description of a traced session that has no heap, no
  strings in memory and no callbacks.
\<close>

section \<open>The program\<close>

text \<open>\<open>fork\<close> gives \<open>errno\<close> or the child's number, which is 0 in the child; \<open>execlp\<close> gives \<open>errno\<close> where it returns.\<close>

record 'e spawner =
  os_fork :: "'e \<Rightarrow> (int + int) \<times> 'e"
  os_execlp :: "'e \<Rightarrow> string \<Rightarrow> int option \<times> 'e"
  os_strerror :: "int \<Rightarrow> string"

definition read_cb :: "ptr \<Rightarrow> (int, 'e world) prog" where
  "read_cb path = bind (load_str path) (\<lambda>x. seq (print_out (''READ_CB::'' @ x @ nl)) (ret 0))"

definition reading_cbs :: "'e tracer_callbacks" where
  "reading_cbs = \<lparr>file_read = Some read_cb, file_write = None, on_syscall = None\<rparr>"

definition say_errno :: "'e spawner \<Rightarrow> string \<Rightarrow> (unit, 'e world) prog" where
  "say_errno S what = bind (gets errno_of) (\<lambda>e. print_err (what @ '': '' @ os_strerror S e @ nl))"

text \<open>The loop of the parent; the first argument is fuel.\<close>

fun trace_forever :: "nat \<Rightarrow> nat \<Rightarrow> 'e ptrace_os \<Rightarrow> 'e tracer \<Rightarrow> (int, 'e world) prog" where
  "trace_forever 0 fuel T tracer = (\<lambda>s. OutOfFuel)"
| "trace_forever (Suc k) fuel T tracer =
     bind (tracer_loop fuel T tracer) (\<lambda>r. if r = - 1 then ret 0 else trace_forever k fuel T tracer)"

definition trace_child :: "'e ptrace_os \<Rightarrow> 'e spawner \<Rightarrow> string \<Rightarrow> (int, 'e world) prog" where
  "trace_child T S program =
     seq (tracee_init T)
    (bind (gets (\<lambda>s. os_execlp S (env s) program)) (\<lambda>(r, e').
     seq (modify (\<lambda>s. s\<lparr>env := e'\<rparr>))
    (case r of
       None \<Rightarrow> replaced_prog
     | Some e \<Rightarrow> seq (set_errno e) (seq (say_errno S ''execl()'') (ret (- 1))))))"

definition trace_parent :: "nat \<Rightarrow> nat \<Rightarrow> 'e ptrace_os \<Rightarrow> int \<Rightarrow> (int, 'e world) prog" where
  "trace_parent k fuel T pid =
     bind (tracer_init T reading_cbs pid) (\<lambda>(tracer, _). trace_forever k fuel T tracer)"

definition trace_reads_main :: "nat \<Rightarrow> nat \<Rightarrow> 'e ptrace_os \<Rightarrow> 'e spawner \<Rightarrow> string list \<Rightarrow> (int, 'e world) prog" where
  "trace_reads_main k fuel T S argv =
     (case argv of
        [] \<Rightarrow> undefined_prog
      | [self] \<Rightarrow> seq (print_err (''usage: '' @ self @ '' program.'' @ nl)) (ret 1)
      | _ # program # _ \<Rightarrow>
          bind (gets (\<lambda>s. os_fork S (env s))) (\<lambda>(r, e').
          seq (modify (\<lambda>s. s\<lparr>env := e'\<rparr>))
         (case r of
            Inl e \<Rightarrow> seq (set_errno e) (seq (say_errno S ''fork()'') (ret 1))
          | Inr pid \<Rightarrow>
              if pid = 0 then trace_child T S program else trace_parent k fuel T pid)))"

section \<open>A traced session\<close>

text \<open>What one stop comes to: the output, the result, the outside and the number remembered. A string is read within
  \<open>k\<close> words.\<close>

definition resumed :: "'e ptrace_os \<Rightarrow> int \<Rightarrow> int \<Rightarrow> 'e \<Rightarrow> int \<times> 'e" where
  "resumed T pid sig e = (case os_resume T e pid sig of Inl _ \<Rightarrow> (- 1, e) | Inr e' \<Rightarrow> (0, e'))"

definition put_back :: "'e ptrace_os \<Rightarrow> int \<Rightarrow> user_regs \<Rightarrow> 'e \<Rightarrow> int \<times> 'e" where
  "put_back T pid regs e = (case os_setregs T e pid regs of Inl _ \<Rightarrow> (- 1, e) | Inr e' \<Rightarrow> resumed T pid 0 e')"

definition opens_to_read :: "user_regs \<Rightarrow> bool" where
  "opens_to_read regs \<longleftrightarrow> access_mode regs = O_RDONLY \<or> access_mode regs = O_RDWR"

definition seen :: "nat \<Rightarrow> 'e ptrace_os \<Rightarrow> int \<Rightarrow> user_regs \<Rightarrow> 'e \<Rightarrow> string" where
  "seen k T pid regs e =
     (if opens_to_read regs then ''READ_CB::'' @ the (text_at k T e pid (rsi regs)) @ nl else [])"

type_synonym 'e observation = "string \<times> (int \<times> 'e) \<times> u64"

definition observe_syscall :: "nat \<Rightarrow> 'e ptrace_os \<Rightarrow> int \<Rightarrow> 'e \<Rightarrow> u64 \<Rightarrow> 'e observation" where
  "observe_syscall k T pid e prev = (case os_getregs T e pid of
       Inl c \<Rightarrow> ([], if c = ESRCH then (- 1, e) else resumed T pid 0 e, prev)
     | Inr regs \<Rightarrow>
         let now = toggled prev (orig_rax regs) in
         (if orig_rax regs = SYS_openat \<and> now \<noteq> - 1 then seen k T pid regs e else [], put_back T pid regs e, now))"

definition observe :: "nat \<Rightarrow> 'e ptrace_os \<Rightarrow> 'e \<Rightarrow> u64 \<Rightarrow> 'e observation" where
  "observe k T e prev = (case os_wait_any T e of
       (NoChange, e') \<Rightarrow> ([], (0, e'), prev)
     | (WaitFailed _, e') \<Rightarrow> ([], (- 1, e'), prev)
     | (Changed pid st, e') \<Rightarrow>
         if \<not> wif_stopped st then ([], (0, e'), prev)
         else if wstop_sig st = SIGTRAP + 128 then observe_syscall k T pid e' prev
         else ([], resumed T pid (if wstop_sig st \<in> {SIGTRAP, SIGCONT} then 0 else wstop_sig st) e', prev))"

text \<open>The output of a session up to the first stop that gives -1, if that is among the first \<open>n\<close>.\<close>

fun traced :: "nat \<Rightarrow> nat \<Rightarrow> 'e ptrace_os \<Rightarrow> 'e \<Rightarrow> u64 \<Rightarrow> string option" where
  "traced 0 k T e prev = None"
| "traced (Suc n) k T e prev = (case observe k T e prev of
     (out, (r, e'), prev') \<Rightarrow> if r = - 1 then Some out else map_option ((@) out) (traced n k T e' prev'))"

section \<open>The tracer's loop shows the session\<close>

definition observed :: "'e world \<Rightarrow> 'e observation \<Rightarrow> int \<Rightarrow> 'e world \<Rightarrow> bool" where
  "observed s ob r s' \<longleftrightarrow> healthy s' \<and> blocks s' = blocks s \<and> stdout_of s' = stdout_of s @ fst ob \<and> (r, env s') = fst (snd ob) \<and>
     last_syscall s' = snd (snd ob)"

lemma healthy_world [simp]:
  fixes s :: "'e world"
  shows "healthy (s\<lparr>env := e\<rparr>) = healthy s" "healthy (s\<lparr>last_syscall := n\<rparr>) = healthy s" "healthy (s\<lparr>errno_of := c\<rparr>) = healthy s"
  by (simp_all add: healthy_def mem_ok_def never_oom_def)

lemma runs_resume_observed:
  fixes s :: "'e world"
  assumes "healthy s" "stdout_of s = stdout_of s0 @ out" "blocks s = blocks s0" "env s = e" "last_syscall s = prev"
  shows "runs (resume T pid sig) s (observed s0 (out, resumed T pid sig e, prev))"
  using assms by (simp add: resume_def runs_pt_call resumed_def observed_def split: sum.split)

lemma runs_write_back_observed:
  fixes s :: "'e world"
  assumes "healthy s" "stdout_of s = stdout_of s0 @ out" "blocks s = blocks s0" "env s = e" "last_syscall s = prev"
  shows "runs (write_back T pid regs) s (observed s0 (out, put_back T pid regs e, prev))"
proof (cases "os_setregs T e pid regs")
  case (Inl c)
  with assms show ?thesis
    by (simp add: write_back_def setregs_def put_back_def runs_bind runs_pt_call runs_ret observed_def)
next
  case (Inr e')
  have "runs (resume T pid 0) (s\<lparr>env := e'\<rparr>) (observed s0 (out, resumed T pid 0 e', prev))"
    by (rule runs_resume_observed) (use assms in simp_all)
  with Inr assms show ?thesis
    by (simp add: write_back_def setregs_def put_back_def runs_bind runs_pt_call)
qed

lemma runs_reading_openat:
  fixes s :: "'e world"
  assumes T: "peek_reports T" "healthy s" "text_at k T (env s) pid (rsi regs) = Some x" "8 * k < 2 ^ 61"
  shows "runs (syscall_openat k T \<lparr>t_cbs = reading_cbs\<rparr> pid regs) s (\<lambda>r s'. r = 0 \<and> healthy s' \<and> blocks s' = blocks s \<and>
    env s' = env s \<and> last_syscall s' = last_syscall s \<and> stdout_of s' = stdout_of s @ seen k T pid regs (env s))"
  unfolding syscall_openat_def runs_bind [of "read_string _ _ _ _"]
proof (rule runs_mono [OF runs_read_string [OF T(1) healthy_mem_ok [OF T(2)] T(3,4)]])
  fix path and s1 :: "'e world" assume s1: "has_string s x path s1"
  have oom: "never_oom s" using T(2) by (simp add: healthy_def)
  have io: "io_ext s s1" using s1 by (simp add: has_string_def)
  note w1 = io_ext_world [OF io]
  have h1: "healthy s1" using io_ext_mem_ok [OF io] io_ext_never_oom [OF oom io] by (simp add: healthy_def)
  have "path \<noteq> null" using s1 oom by (auto simp: has_string_def)
  moreover from this obtain b where b: "path = Ptr (Blk b) 0" "blocks s (Blk b) = None" "untouched {Blk b} s s1"
    "blocks s1 (Blk b) \<noteq> None" "str_of_ptr s1 path = Some x" using s1 by (auto simp: has_string_def)
  moreover have "(blocks s1)(Blk b := None) = blocks s" by (rule free_again [OF b(2,3)])
  moreover have "healthy (s1\<lparr>stdout_of := y, blocks := blocks s\<rparr>)" for y
    using healthy_free [of "s1\<lparr>stdout_of := y\<rparr>" "Blk b"] h1 free_again [OF b(2,3)] by simp
  moreover have "healthy (s1\<lparr>blocks := blocks s\<rparr>)"
    using healthy_free [of s1 "Blk b"] h1 free_again [OF b(2,3)] by simp
  ultimately show "runs (if path = null then ret 0
      else let flags = (ucast (rdx regs) :: u32); acc_flag = flags AND O_ACCMODE in
        bind (ask (file_read (t_cbs \<lparr>t_cbs = reading_cbs\<rparr>)) (acc_flag = O_RDONLY \<or> acc_flag = O_RDWR) path False) (\<lambda>deny_perm.
        bind (ask (file_write (t_cbs \<lparr>t_cbs = reading_cbs\<rparr>)) (acc_flag = O_WRONLY \<or> acc_flag = O_RDWR) path deny_perm) (\<lambda>deny_perm.
        seq (free path) (ret (if deny_perm then - 1 else 0))))) s1 (\<lambda>r s'. r = 0 \<and> healthy s' \<and> blocks s' = blocks s \<and>
    env s' = env s \<and> last_syscall s' = last_syscall s \<and> stdout_of s' = stdout_of s @ seen k T pid regs (env s))"
    using T(3) w1 unfolding access_mode_def [symmetric] opens_to_read_def [symmetric] Let_def
    by (auto simp: reading_cbs_def read_cb_def ask_def runs_simps runs_load_str seen_def)
qed


text \<open>Every string the tracees pass ends within \<open>k\<close> words.\<close>

definition short_paths :: "nat \<Rightarrow> 'e ptrace_os \<Rightarrow> bool" where
  "short_paths k T \<longleftrightarrow> 8 * k < 2 ^ 61 \<and> (\<forall>e pid a. text_at k T e pid a \<noteq> None)"

lemma runs_observe_syscall:
  fixes s :: "'e world"
  assumes T: "peek_reports T" "short_paths k T" and s: "healthy s"
  shows "runs (handle_syscalls k T \<lparr>t_cbs = reading_cbs\<rparr> pid) s (observed s (observe_syscall k T pid (env s) (last_syscall s)))"
proof (cases "os_getregs T (env s) pid")
  case (Inl c)
  have "runs (resume T pid 0) (s\<lparr>errno_of := c\<rparr>) (observed s ([], resumed T pid 0 (env s), last_syscall s))"
    by (rule runs_resume_observed) (use s in simp_all)
  with Inl s show ?thesis
    by (simp add: handle_syscalls_def getregs_def set_errno_def runs_simps observe_syscall_def, simp add: observed_def)
next
  case (Inr regs)
  let ?now = "toggled (last_syscall s) (orig_rax regs)"
  let ?s = "s\<lparr>last_syscall := ?now\<rparr>"
  let ?ob = "(if orig_rax regs = SYS_openat \<and> ?now \<noteq> - 1 then seen k T pid regs (env s) else [], put_back T pid regs (env s), ?now)"
  have "runs (bind (if orig_rax regs = SYS_openat \<and> ?now \<noteq> - 1 then syscall_openat k T \<lparr>t_cbs = reading_cbs\<rparr> pid regs else ret 0)
      (\<lambda>perm. write_back T pid (if perm = - 1 then after_denial regs else regs))) ?s (observed s ?ob)"
  proof (cases "orig_rax regs = SYS_openat \<and> ?now \<noteq> - 1")
    case True
    obtain x where x: "text_at k T (env ?s) pid (rsi regs) = Some x" "8 * k < 2 ^ 61"
      using T(2) unfolding short_paths_def by blast
    show ?thesis
      unfolding runs_bind if_P [OF True]
    proof (rule runs_mono [OF runs_reading_openat [OF T(1) _ x]], use s in simp, elim conjE)
      fix r :: int and s1 :: "'e world"
      assume "r = 0" "healthy s1" "blocks s1 = blocks ?s" "env s1 = env ?s" "last_syscall s1 = last_syscall ?s"
        "stdout_of s1 = stdout_of ?s @ seen k T pid regs (env ?s)"
      then show "runs (write_back T pid (if r = - 1 then after_denial regs else regs)) s1
          (observed s (seen k T pid regs (env s), put_back T pid regs (env s), ?now))"
        by (simp, intro runs_write_back_observed) simp_all
    qed
  next
    case False
    have "runs (write_back T pid regs) ?s (observed s ([], put_back T pid regs (env s), ?now))"
      by (rule runs_write_back_observed) (use s in simp_all)
    then show ?thesis unfolding runs_bind if_not_P [OF False] runs_ret by simp
  qed
  moreover have "handle_syscalls k T \<lparr>t_cbs = reading_cbs\<rparr> pid s =
      bind (if orig_rax regs = SYS_openat \<and> ?now \<noteq> - 1 then syscall_openat k T \<lparr>t_cbs = reading_cbs\<rparr> pid regs else ret 0)
        (\<lambda>perm. write_back T pid (if perm = - 1 then after_denial regs else regs)) ?s"
    unfolding handle_syscalls_regs [OF Inr] by (simp add: reading_cbs_def after_denial_def bind_ret cong: if_cong)
  ultimately show ?thesis
    using Inr by (simp add: runs_def observe_syscall_def Let_def)
qed

lemma runs_observe:
  fixes s :: "'e world"
  assumes T: "peek_reports T" "short_paths k T" and s: "healthy s"
  shows "runs (tracer_loop k T \<lparr>t_cbs = reading_cbs\<rparr>) s (observed s (observe k T (env s) (last_syscall s)))"
proof -
  obtain w e' where w: "os_wait_any T (env s) = (w, e')" by fastforce
  let ?s = "s\<lparr>env := e'\<rparr>"
  have again: "observed ?s ob r s' = observed s ob r s'" for ob r s' by (simp add: observed_def)
  have sys: "runs (handle_syscalls k T \<lparr>t_cbs = reading_cbs\<rparr> pid) ?s (observed s (observe_syscall k T pid e' (last_syscall s)))" for pid
    using runs_observe_syscall [OF T, of ?s pid] s by (simp add: again [abs_def])
  have go: "runs (resume T pid sig) ?s (observed s ([], resumed T pid sig e', last_syscall s))" for pid sig
    by (rule runs_resume_observed) (use s in simp_all)
  have set: "runs (set_errno c) s' Q \<longleftrightarrow> Q () (s'\<lparr>errno_of := c\<rparr>)" for c s' and Q :: "unit \<Rightarrow> 'e world \<Rightarrow> bool"
    by (simp add: set_errno_def runs_modify)
  have trap: "SIGTRAP + 128 \<noteq> SIGTRAP" "SIGTRAP + 128 \<noteq> SIGCONT" by (simp_all add: tracer_consts)
  show ?thesis
  proof (cases w)
    case (Changed pid st)
    then show ?thesis
      using w s sys go trap
      by (auto simp: tracer_loop_def observe_def handle_stopped_def handle_sigtrap_def runs_simps, simp_all add: observed_def)
  qed (use w s set in \<open>simp_all add: tracer_loop_def observe_def runs_simps observed_def\<close>)
qed

lemma runs_traced:
  fixes s :: "'e world"
  assumes T: "peek_reports T" "short_paths k T"
  shows "healthy s \<Longrightarrow> traced n k T (env s) (last_syscall s) = Some out \<Longrightarrow>
    runs (trace_forever n k T \<lparr>t_cbs = reading_cbs\<rparr>) s (\<lambda>r s'. r = 0 \<and> blocks s' = blocks s \<and> stdout_of s' = stdout_of s @ out)"
proof (induction n arbitrary: s out)
  case 0
  then show ?case by simp
next
  case (Suc n)
  obtain o1 r1 e1 p1 where ob: "observe k T (env s) (last_syscall s) = (o1, (r1, e1), p1)" by (metis prod.collapse)
  show ?case
    unfolding trace_forever.simps runs_bind
  proof (rule runs_mono [OF runs_observe [OF T Suc.prems(1)]])
    fix r :: int and s1 :: "'e world" assume "observed s (observe k T (env s) (last_syscall s)) r s1"
    then have s1: "healthy s1" "blocks s1 = blocks s" "stdout_of s1 = stdout_of s @ o1" "r = r1" "env s1 = e1" "last_syscall s1 = p1"
      by (simp_all add: observed_def ob)
    show "runs (if r = - 1 then ret 0 else trace_forever n k T \<lparr>t_cbs = reading_cbs\<rparr>) s1
        (\<lambda>r s'. r = 0 \<and> blocks s' = blocks s \<and> stdout_of s' = stdout_of s @ out)"
    proof (cases "r = - 1")
      case True
      with s1 Suc.prems(2) ob show ?thesis by (simp add: runs_ret)
    next
      case False
      with s1 Suc.prems(2) ob obtain out' where "traced n k T (env s1) (last_syscall s1) = Some out'" "out = o1 @ out'" by auto
      from runs_mono [OF Suc.IH [OF s1(1) this(1)]] this(2) s1 False show ?thesis by simp
    qed
  qed
qed


section \<open>Attaching\<close>

text \<open>Calls in order up to the first that fails.\<close>

fun in_turn :: "('e \<Rightarrow> int + 'e) list \<Rightarrow> 'e \<Rightarrow> 'e" where
  "in_turn [] e = e"
| "in_turn (f # fs) e = (case f e of Inl _ \<Rightarrow> e | Inr e' \<Rightarrow> in_turn fs e')"

definition trace_options :: u32 where "trace_options = 75"

definition attached :: "'e ptrace_os \<Rightarrow> int \<Rightarrow> 'e \<Rightarrow> 'e" where
  "attached T pid e = in_turn [\<lambda>e. os_seize T e pid trace_options, \<lambda>e. os_interrupt T e pid, \<lambda>e. os_resume T e pid 0,
     \<lambda>e. os_kill T e pid SIGCONT] (os_wait_stopped T e pid)"

lemma runs_attach:
  fixes s :: "'e world"
  assumes "healthy s"
  shows "runs (tracer_init T cbs pid) s (\<lambda>r s'. fst r = \<lparr>t_cbs = cbs\<rparr> \<and> healthy s' \<and> env s' = attached T pid (env s) \<and>
    blocks s' = blocks s \<and> stdout_of s' = stdout_of s \<and> last_syscall s' = last_syscall s)"
proof -
  have "PTRACE_O_TRACEFORK OR PTRACE_O_TRACESYSGOOD OR PTRACE_O_TRACECLONE OR PTRACE_O_TRACEEXIT = trace_options"
    by (simp add: PTRACE_O_TRACEFORK_def PTRACE_O_TRACESYSGOOD_def PTRACE_O_TRACECLONE_def PTRACE_O_TRACEEXIT_def trace_options_def)
  with assms show ?thesis
    by (simp add: tracer_init_def Let_def resume_def attached_def runs_simps split: sum.split)
qed

text \<open>In the child the program takes over, or a message is left and the result is -1.\<close>

lemma trace_child_ends:
  fixes s :: "'e world"
  assumes "os_raise T (env s) SIGSTOP = Inr e" "os_execlp S e program = (x, e')"
  shows "trace_child T S program s = (case x of
      None \<Rightarrow> Replaced (s\<lparr>env := e'\<rparr>)
    | Some c \<Rightarrow> Done (- 1) (s\<lparr>env := e', errno_of := c, stderr_of := stderr_of s @ ''execl(): '' @ os_strerror S c @ nl\<rparr>))"
  using assms
  by (simp add: trace_child_def tracee_init_def pt_call_def os_result_def say_errno_def set_errno_def print_err_def seq_def bind_def
      gets_def modify_def ret_def replaced_prog_def split: option.split)

section \<open>Properties\<close>

text \<open>A kernel that plays a script: the stops still to come, each with the registers its tracee then has.\<close>

type_synonym script = "user_regs \<times> (wait_answer \<times> user_regs) list"

definition script_kernel :: "script ptrace_os" where
  "script_kernel = \<lparr>os_raise = (\<lambda>e _. Inr e), os_wait_stopped = (\<lambda>e _. e),
     os_wait_any = (\<lambda>(regs, todo). case todo of [] \<Rightarrow> (WaitFailed 10, regs, []) | (w, regs') # rest \<Rightarrow> (w, regs', rest)),
     os_seize = (\<lambda>e _ _. Inr e), os_interrupt = (\<lambda>e _. Inr e), os_resume = (\<lambda>e _ _. Inr e), os_kill = (\<lambda>e _ _. Inr e),
     os_getregs = (\<lambda>e pid. Inr (fst e)), os_setregs = (\<lambda>e pid regs. Inr (regs, snd e)),
     os_peek = (\<lambda>e pid a. os_peek sample_kernel (\<lambda>_. sample_regs) pid a)\<rparr>"

definition script_spawner :: "'e spawner" where
  "script_spawner = \<lparr>os_fork = (\<lambda>e. (Inr 7, e)), os_execlp = (\<lambda>e _. (None, e)), os_strerror = (\<lambda>_. [])\<rparr>"

lemma text_at_peeks: "(\<And>a. os_peek T e pid a = os_peek T' e' pid a) \<Longrightarrow> text_at k T e pid a = text_at k T' e' pid a"
  by (induction k arbitrary: a) (simp_all split: sum.split)

text \<open>C39: Where its session comes to an end, the example program prints exactly the paths of the files its tracees
  open with read access, as often as they do, one \<open>READ_CB::\<close> line each and in that order; then it returns 0 with
  the heap as it was.\<close>

theorem trace_reads_prints:
  fixes s :: "'e world"
  assumes "peek_reports T" "short_paths k T" "healthy s" "os_fork S (env s) = (Inr pid, e)" "pid \<noteq> 0"
    and "traced n k T (attached T pid e) (last_syscall s) = Some out"
  shows "runs (trace_reads_main n k T S (self # program # args)) s
    (\<lambda>r s'. r = 0 \<and> blocks s' = blocks s \<and> stdout_of s' = stdout_of s @ out)"
proof -
  let ?s = "s\<lparr>env := e\<rparr>"
  have "runs (trace_parent n k T pid) ?s (\<lambda>r s'. r = 0 \<and> blocks s' = blocks s \<and> stdout_of s' = stdout_of s @ out)"
    unfolding trace_parent_def runs_bind
  proof (rule runs_mono [OF runs_attach], use assms(3) in simp, elim conjE)
    fix r :: "'e tracer \<times> int" and s1 :: "'e world"
    assume s1: "fst r = \<lparr>t_cbs = reading_cbs\<rparr>" "healthy s1" "env s1 = attached T pid (env ?s)" "blocks s1 = blocks ?s"
      "stdout_of s1 = stdout_of ?s" "last_syscall s1 = last_syscall ?s"
    have "traced n k T (env s1) (last_syscall s1) = Some out" using s1 assms(6) by simp
    from runs_mono [OF runs_traced [OF assms(1,2) s1(2) this]]
    have "runs (trace_forever n k T \<lparr>t_cbs = reading_cbs\<rparr>) s1 (\<lambda>r s'. r = 0 \<and> blocks s' = blocks s \<and> stdout_of s' = stdout_of s @ out)"
      using s1 by simp
    then show "runs (case r of (tracer, _) \<Rightarrow> trace_forever n k T tracer) s1
        (\<lambda>r s'. r = 0 \<and> blocks s' = blocks s \<and> stdout_of s' = stdout_of s @ out)"
      using s1(1) by (cases r) simp
  qed
  with assms(4,5) show ?thesis by (simp add: trace_reads_main_def runs_simps)
qed

theorem trace_reads_prints_witness:
  "runs (trace_reads_main 6 2 script_kernel script_spawner [''trace'', ''ls''])
     (start_at (sample_regs, [(Changed 7 0x857f, sample_regs), (Changed 7 0x857f, sample_regs),
       (Changed 7 0x857f, sample_regs\<lparr>rdx := 1\<rparr>), (Changed 7 0x857f, sample_regs\<lparr>rdx := 1\<rparr>), (Changed 7 0, sample_regs)]))
     (\<lambda>r s'. r = 0 \<and> stdout_of s' = ''READ_CB::/etc/shadow'' @ nl)"
proof -
  let ?e = "(sample_regs, [(Changed 7 0x857f, sample_regs), (Changed 7 0x857f, sample_regs),
       (Changed 7 0x857f, sample_regs\<lparr>rdx := 1\<rparr>), (Changed 7 0x857f, sample_regs\<lparr>rdx := 1\<rparr>), (Changed 7 0, sample_regs)])"
  have peek: "text_at 2 script_kernel e pid a = text_at 2 sample_kernel (\<lambda>_. sample_regs) pid a" for e pid a
    by (rule text_at_peeks) (simp add: script_kernel_def)
  have short: "text_at 2 sample_kernel e pid a \<noteq> None" for e pid a
  proof -
    have w: "CHR 0x00 \<notin> set (word_chars 7018986666626147631)" "CHR 0x00 \<in> set (word_chars 7827300)" by code_simp+
    have "text_at (Suc (Suc 0)) sample_kernel e pid a \<noteq> None" by (auto simp: sample_kernel_def w)
    then show ?thesis unfolding numeral_2_eq_2 .
  qed
  have T: "peek_reports script_kernel" "short_paths 2 script_kernel"
    using sample_kernel_reports short by (simp_all add: peek_reports_def short_paths_def peek) (simp add: script_kernel_def)
  have s: "os_fork script_spawner (env (start_at ?e)) = (Inr 7, ?e)" "attached script_kernel 7 ?e = ?e"
    by (simp_all add: script_spawner_def start_at_ok attached_def script_kernel_def)
  have "traced 6 2 script_kernel ?e (- 1) = Some (''READ_CB::/etc/shadow'' @ nl)"
    by code_simp
  then have traced: "traced 6 2 script_kernel (attached script_kernel 7 ?e) (last_syscall (start_at ?e)) = Some (''READ_CB::/etc/shadow'' @ nl)"
    unfolding s(2) start_at_ok(9) .
  show ?thesis
    by (rule runs_mono [OF trace_reads_prints [OF T start_at_ok(3) s(1) _ traced]]) (simp_all add: start_at_def)
qed

end
