(* ===== verification/Terminal.thy ===== *)
theory Terminal
  imports Tracing
begin

text \<open>
  \<open>src/shell/terminal.c\<close>, \<open>src/shell/pty.c\<close> and \<open>src/utils/logger.h\<close>: the calls into curses, libvterm and
  the kernel's terminals. Those libraries are not code of the program: what they answer is the parameter
  record \<open>console\<close>, and each call the program makes of them is a value of \<open>action\<close> with its arguments.
\<close>

section \<open>Calls\<close>

datatype vterm_key = KEY_UP | KEY_DOWN | KEY_RIGHT | KEY_LEFT

datatype action =
    Initscr | Raw | Noecho | Nodelay bool | Keypad bool | Nonl | Meta bool | Refresh | Endwin
  | Move int int | Init_pair int int int | Attron int | Attroff int | Addstr string | Add_wch "u32 list" u32 int
  | Vt_free ptr | Vt_utf8 ptr int | Vt_altscreen ptr int | Vt_reset ptr int | Vt_callbacks ptr | Vt_flush ptr
  | Vt_size ptr u16 u16 | Vt_key ptr vterm_key | Vt_char ptr u32 | Vt_input ptr string
  | Write int string | Close int | Dup2 int int | Set_winsize int u16 u16 | Setsid | Set_ctty int int | Exec string
  | Openpt | Grantpt int | Unlockpt int | Open "string option" | Fork | Getfl int | Setfl int int
  | Sigaction | Setlocale

text \<open>\<open>VTermScreenCell\<close>: the characters, the width and the attributes, and the two colours as numbers; the code looks at
  neither the width nor the colours.\<close>

record screen_cell =
  cell_chars :: "u32 list"
  cell_width :: int
  blink :: bool
  bold :: bool
  italic :: bool
  reversed :: bool
  underline :: nat
  cell_fg :: u32
  cell_bg :: u32

datatype poll_answer = Poll_failed int | Poll_none | Poll_ready u16 u16

text \<open>\<open>act\<close> is the result of a call, or \<open>Inl\<close> and \<open>errno\<close> where it returns -1 (\<open>ERR\<close> of curses is -1 too);
  the other fields are the calls that answer with more than a number. \<open>winch\<close> says whether the kernel has sent a
  \<open>SIGWINCH\<close> since it was last asked. \<open>file_append\<close> opens a file for appending,
  writes and closes it; \<open>None\<close> is an \<open>fopen\<close> that returns NULL.\<close>

record 'e console =
  act :: "'e \<Rightarrow> action \<Rightarrow> (int + int) \<times> 'e"
  screen_rows :: "'e \<Rightarrow> int"
  screen_cols :: "'e \<Rightarrow> int"
  cursor :: "'e \<Rightarrow> int \<times> int"
  cchar_ok :: "u32 list \<Rightarrow> u32 \<Rightarrow> int \<Rightarrow> bool"
  get_key :: "'e \<Rightarrow> int \<times> 'e"
  vt_new :: "'e \<Rightarrow> u16 \<Rightarrow> u16 \<Rightarrow> ptr \<times> 'e"
  vt_screen :: "'e \<Rightarrow> ptr \<Rightarrow> ptr"
  vt_cell :: "'e \<Rightarrow> ptr \<Rightarrow> int \<Rightarrow> int \<Rightarrow> screen_cell"
  out_room :: "'e \<Rightarrow> ptr \<Rightarrow> u64"
  out_fill :: "'e \<Rightarrow> ptr \<Rightarrow> u64"
  out_read :: "'e \<Rightarrow> ptr \<Rightarrow> u64 \<Rightarrow> string \<times> 'e"
  fd_read :: "'e \<Rightarrow> int \<Rightarrow> u64 \<Rightarrow> (int + string) \<times> 'e"
  fd_poll :: "'e \<Rightarrow> int \<Rightarrow> int \<Rightarrow> poll_answer \<times> 'e"
  file_append :: "'e \<Rightarrow> string \<Rightarrow> string \<Rightarrow> 'e option"
  pts_name :: "'e \<Rightarrow> int \<Rightarrow> string option"
  winch :: "'e \<Rightarrow> bool \<times> 'e"
  str_error :: "int \<Rightarrow> string"

definition perform :: "'e console \<Rightarrow> action \<Rightarrow> (int, 'e world) prog" where
  "perform C a = bind (gets (\<lambda>s. act C (env s) a)) (\<lambda>(r, e').
     seq (modify (\<lambda>s. s\<lparr>env := e'\<rparr>))
    (case r of Inl e \<Rightarrow> seq (set_errno e) (ret (- 1)) | Inr v \<Rightarrow> ret v))"

definition getch :: "'e console \<Rightarrow> (int, 'e world) prog" where
  "getch C = bind (gets (\<lambda>s. get_key C (env s))) (\<lambda>(k, e'). seq (modify (\<lambda>s. s\<lparr>env := e'\<rparr>)) (ret k))"

definition set_globe :: "(global_state \<Rightarrow> global_state) \<Rightarrow> (unit, 'e world) prog" where
  "set_globe f = modify (\<lambda>s. s\<lparr>globe := f (globe s)\<rparr>)"

section \<open>Logging\<close>

datatype log_level = ERROR | WARN | INFO | DEBUG

definition log_lvl_to_msg :: "log_level \<Rightarrow> string" where
  "log_lvl_to_msg lvl = (if lvl = ERROR then ''Error'' else if lvl = WARN then ''Warning''
     else if lvl = INFO then ''Info'' else ''Debug'')"

text \<open>\<open>logf\<close> on \<open>stderr\<close>, and \<open>oflogf\<close>, which hands the stream on to \<open>fprintf\<close> whatever \<open>fopen\<close> gave. The last
  argument is the formatted message.\<close>

definition logf_err :: "log_level \<Rightarrow> string \<Rightarrow> (unit, 'e world) prog" where
  "logf_err lvl msg = seq (print_err (log_lvl_to_msg lvl @ '': '')) (print_err msg)"

definition oflogf :: "'e console \<Rightarrow> log_level \<Rightarrow> string \<Rightarrow> string \<Rightarrow> (unit, 'e world) prog" where
  "oflogf C lvl file msg =
     bind (gets (\<lambda>s. file_append C (env s) file (log_lvl_to_msg lvl @ '': '' @ msg))) (\<lambda>r.
       case r of None \<Rightarrow> undefined_prog | Some e' \<Rightarrow> modify (\<lambda>s. s\<lparr>env := e'\<rparr>))"

definition oflog :: "'e console \<Rightarrow> log_level \<Rightarrow> string \<Rightarrow> string \<Rightarrow> (unit, 'e world) prog" where
  "oflog C lvl file msg = oflogf C lvl file (msg @ ''.'' @ nl)"

definition log_err :: "log_level \<Rightarrow> string \<Rightarrow> (unit, 'e world) prog" where
  "log_err lvl msg = logf_err lvl (msg @ ''.'' @ nl)"

section \<open>Screen\<close>

text \<open>The size of the screen as two unsigned shorts.\<close>

definition maxyx :: "'e console \<Rightarrow> (unit, 'e world) prog" where
  "maxyx C = bind (gets (\<lambda>s. (screen_rows C (env s), screen_cols C (env s)))) (\<lambda>(y, x).
     set_globe (\<lambda>g. g\<lparr>ws_row := of_int y, ws_col := of_int x\<rparr>))"

definition A_NORMAL :: u32 where "A_NORMAL = 0"
definition A_UNDERLINE :: u32 where "A_UNDERLINE = 0x20000"
definition A_REVERSE :: u32 where "A_REVERSE = 0x40000"
definition A_BLINK :: u32 where "A_BLINK = 0x80000"
definition A_BOLD :: u32 where "A_BOLD = 0x200000"
definition A_ITALIC :: u32 where "A_ITALIC = 0x80000000"

text \<open>The wide string that starts with the first of the characters: up to the first 0. Where the array has none the read
  goes on past its end.\<close>

definition wide_str :: "u32 list \<Rightarrow> u32 list option" where
  "wide_str cs = (if 0 \<in> set cs then Some (takeWhile (\<lambda>c. c \<noteq> 0) cs) else None)"

text \<open>The colours of the cell have no part in it: the pair is always 0.\<close>

definition print_cell :: "'e console \<Rightarrow> screen_cell \<Rightarrow> int \<Rightarrow> int \<Rightarrow> (int, 'e world) prog" where
  "print_cell C cell row col =
     (case wide_str (cell_chars cell) of None \<Rightarrow> undefined_prog | Some str \<Rightarrow>
      let pair = 0;
          wch = (if str \<noteq> [] then str else [0x20]);
          attr = A_NORMAL;
          attr = (if blink cell then attr OR A_BLINK else attr);
          attr = (if bold cell then attr OR A_BOLD else attr);
          attr = (if italic cell then attr OR A_ITALIC else attr);
          attr = (if reversed cell then attr OR A_REVERSE else attr);
          attr = (if underline cell \<noteq> 0 then attr OR A_UNDERLINE else attr)
      in if \<not> cchar_ok C wch attr pair then ret (- 1)
         else bind (perform C (Move row col)) (\<lambda>r. if r = - 1 then ret (- 1) else
              bind (perform C (Add_wch wch attr pair)) (\<lambda>r. if r = - 1 then ret (- 1) else ret 0)))"

definition damage_callback :: "'e console \<Rightarrow> int \<Rightarrow> int \<Rightarrow> int \<Rightarrow> int \<Rightarrow> (int, 'e world) prog" where
  "damage_callback C start_row end_row start_col end_col =
     bind (gets (\<lambda>s. cursor C (env s))) (\<lambda>(y, x).
     seq (for_each (\<lambda>row. for_each (\<lambda>col.
            bind (gets (\<lambda>s. vt_cell C (env s) (vt_screen C (env s) (g_vterm (globe s))) row col)) (\<lambda>cell.
            seq (print_cell C cell row col) (ret ()))) [start_col..end_col - 1]) [start_row..end_row - 1])
    (seq (perform C (Move y x)) (ret 1)))"

definition movecursor_callback :: "'e console \<Rightarrow> int \<Rightarrow> int \<Rightarrow> (int, 'e world) prog" where
  "movecursor_callback C row col =
     bind (perform C (Move row col)) (\<lambda>r. if r = - 1 then ret 0 else ret 1)"

definition free_terminal :: "'e console \<Rightarrow> ptr \<Rightarrow> (unit, 'e world) prog" where
  "free_terminal C vterm = seq (perform C (Vt_free vterm)) (ret ())"

definition init_ncurses :: "'e console \<Rightarrow> (int, 'e world) prog" where
  "init_ncurses C =
     bind (perform C Initscr) (\<lambda>r. if r = - 1 then ret (- 1) else
     bind (perform C Raw) (\<lambda>r. if r = - 1 then ret (- 1) else
     bind (perform C Noecho) (\<lambda>r. if r = - 1 then ret (- 1) else
     bind (perform C (Nodelay True)) (\<lambda>r. if r = - 1 then ret (- 1) else
     bind (perform C (Keypad False)) (\<lambda>r. if r = - 1 then ret (- 1) else
     bind (perform C Nonl) (\<lambda>r. if r = - 1 then ret (- 1) else
     bind (perform C (Meta False)) (\<lambda>r. if r = - 1 then ret (- 1) else
     seq (perform C Refresh) (ret 0))))))))"

text \<open>The size the pseudo terminal and the vterm get is the global's, one row less than the screen.\<close>

definition window_resize :: "'e console \<Rightarrow> ptr \<Rightarrow> int \<Rightarrow> (unit, 'e world) prog" where
  "window_resize C vterm fd_term =
     bind (gets (\<lambda>s. vt_screen C (env s) vterm)) (\<lambda>scr.
     seq (perform C (Vt_flush scr))
    (seq (perform C Endwin)
    (seq (perform C Refresh)
    (seq (maxyx C)
    (seq (set_globe (\<lambda>g. g\<lparr>ws_row := ws_row g - 1\<rparr>))
    (bind (gets globe) (\<lambda>g.
     seq (perform C (Vt_size vterm (ws_row g) (ws_col g)))
    (bind (gets globe) (\<lambda>g. seq (perform C (Set_winsize fd_term (ws_row g) (ws_col g))) (ret ()))))))))))"

definition free_ncurses :: "'e console \<Rightarrow> (unit, 'e world) prog" where
  "free_ncurses C = seq (perform C Endwin) (ret ())"

definition init_vterm :: "'e console \<Rightarrow> u16 \<Rightarrow> u16 \<Rightarrow> (ptr, 'e world) prog" where
  "init_vterm C row col =
     bind (gets (\<lambda>s. vt_new C (env s) row col)) (\<lambda>(vterm, e').
     seq (modify (\<lambda>s. s\<lparr>env := e'\<rparr>))
    (seq (perform C (Vt_utf8 vterm 1))
    (bind (gets (\<lambda>s. vt_screen C (env s) vterm)) (\<lambda>vtscreen.
     seq (perform C (Vt_altscreen vtscreen 1))
    (seq (perform C (Vt_reset vtscreen 1))
    (seq (perform C (Vt_callbacks vtscreen))
    (ret vterm)))))))"

section \<open>Pseudo terminals\<close>

definition new_master_pty :: "'e console \<Rightarrow> (int, 'e world) prog" where
  "new_master_pty C =
     bind (perform C Openpt) (\<lambda>fd.
       if fd < 0 then ret (- 1)
       else bind (perform C (Grantpt fd)) (\<lambda>r. if r \<noteq> 0 then ret (- 1)
       else bind (perform C (Unlockpt fd)) (\<lambda>r. if r \<noteq> 0 then ret (- 1) else ret fd)))"

definition obtain_slave_pty :: "'e console \<Rightarrow> int \<Rightarrow> (int, 'e world) prog" where
  "obtain_slave_pty C fd =
     bind (gets (\<lambda>s. pts_name C (env s) fd)) (\<lambda>name. perform C (Open name))"

end
