(* ===== verification/Shell.thy ===== *)
theory Shell
  imports Terminal
begin

text \<open>
  \<open>src/shell/shell.c\<close>: the process that owns the virtual terminal, traces the shell it has forked and passes
  bytes between the keyboard, the pseudo terminal and the screen.
\<close>

section \<open>Keyboard and output\<close>

text \<open>The function of this name gives the larger of its arguments.\<close>

definition minimum :: "u64 \<Rightarrow> u64 \<Rightarrow> u64" where
  "minimum a b = (if a > b then a else b)"

definition ESC :: int where "ESC = 27"
definition KEY_RESIZE :: int where "KEY_RESIZE = 410"
definition BUFSZ :: u64 where "BUFSZ = 8192"
definition POLLIN :: u16 where "POLLIN = 1"
definition POLLHUP :: u16 where "POLLHUP = 16"
definition STDIN_FILENO :: int where "STDIN_FILENO = 0"
definition STDOUT_FILENO :: int where "STDOUT_FILENO = 1"
definition STDERR_FILENO :: int where "STDERR_FILENO = 2"
definition O_NONBLOCK :: int where "O_NONBLOCK = 2048"

definition vterm_key :: "'e console \<Rightarrow> vterm_key \<Rightarrow> (unit, 'e world) prog" where
  "vterm_key C k = bind (gets (\<lambda>s. g_vterm (globe s))) (\<lambda>v. seq (perform C (Vt_key v k)) (ret ()))"

definition vterm_unichar :: "'e console \<Rightarrow> int \<Rightarrow> (unit, 'e world) prog" where
  "vterm_unichar C ch = bind (gets (\<lambda>s. g_vterm (globe s))) (\<lambda>v. seq (perform C (Vt_char v (of_int ch))) (ret ()))"

definition handle_arrows :: "'e console \<Rightarrow> (unit, 'e world) prog" where
  "handle_arrows C =
     bind (getch C) (\<lambda>c1.
       if c1 = 91
       then bind (getch C) (\<lambda>c2.
              if c2 = 65 then vterm_key C KEY_UP
              else if c2 = 66 then vterm_key C KEY_DOWN
              else if c2 = 67 then vterm_key C KEY_RIGHT
              else if c2 = 68 then vterm_key C KEY_LEFT
              else for_each (vterm_unichar C) [ESC, c1, c2])
       else for_each (vterm_unichar C) [ESC, c1])"

text \<open>The inner loop of the input loop; the first argument of a loop is fuel.\<close>

fun skip_resize :: "nat \<Rightarrow> 'e console \<Rightarrow> int \<Rightarrow> (int, 'e world) prog" where
  "skip_resize 0 C ch = (\<lambda>s. OutOfFuel)"
| "skip_resize (Suc k) C ch =
     (if ch = KEY_RESIZE then bind (getch C) (\<lambda>ch. skip_resize k C ch) else ret ch)"

fun input_loop :: "nat \<Rightarrow> 'e console \<Rightarrow> (unit, 'e world) prog" where
  "input_loop 0 C = (\<lambda>s. OutOfFuel)"
| "input_loop (Suc k) C =
     bind (gets (\<lambda>s. out_room C (env s) (g_vterm (globe s)))) (\<lambda>room.
       if room > 0
       then bind (getch C) (\<lambda>ch.
            bind (skip_resize (Suc k) C ch) (\<lambda>ch.
              if ch = - 1 then ret ()
              else seq (if ch = ESC then handle_arrows C else vterm_unichar C ch) (input_loop k C)))
       else ret ())"

text \<open>\<open>buf\<close> has 8192 bytes; more than that written into it is undefined behaviour.\<close>

fun flush_loop :: "nat \<Rightarrow> 'e console \<Rightarrow> (unit, 'e world) prog" where
  "flush_loop 0 C = (\<lambda>s. OutOfFuel)"
| "flush_loop (Suc k) C =
     bind (gets (\<lambda>s. out_fill C (env s) (g_vterm (globe s)))) (\<lambda>buflen.
       if buflen > 0
       then bind (gets (\<lambda>s. out_read C (env s) (g_vterm (globe s)) (minimum buflen BUFSZ))) (\<lambda>(bytes, e').
            seq (modify (\<lambda>s. s\<lparr>env := e'\<rparr>))
           (if length bytes > unat BUFSZ then undefined_prog
            else bind (gets (\<lambda>s. fd_master (globe s))) (\<lambda>fd.
                 seq (perform C (Write fd bytes)) (flush_loop k C))))
       else ret ())"

definition handle_input :: "nat \<Rightarrow> 'e console \<Rightarrow> (int, 'e world) prog" where
  "handle_input fuel C = seq (input_loop fuel C) (seq (flush_loop fuel C) (ret 0))"

definition handle_output :: "'e console \<Rightarrow> (int, 'e world) prog" where
  "handle_output C =
     bind (gets (\<lambda>s. fd_read C (env s) (fd_master (globe s)) BUFSZ)) (\<lambda>(r, e').
     seq (modify (\<lambda>s. s\<lparr>env := e'\<rparr>))
    (seq (case r of Inl e \<Rightarrow> set_errno e | Inr _ \<Rightarrow> ret ())
    (let bytes = (case r of Inl _ \<Rightarrow> [] | Inr bs \<Rightarrow> bs) in
       if bytes = []
       then bind (gets errno_of) (\<lambda>e. if e = EAGAIN then ret 0 else ret (- 1))
       else bind (gets (\<lambda>s. g_vterm (globe s))) (\<lambda>v.
            seq (perform C (Vt_input v bytes)) (ret 0)))))"

section \<open>The child\<close>

definition slave_process :: "'e ptrace_os \<Rightarrow> 'e console \<Rightarrow> string \<Rightarrow> (int, 'e world) prog" where
  "slave_process T C shell =
     seq (tracee_init T)
    (bind (gets globe) (\<lambda>g.
     seq (perform C (Set_winsize (fd_slave g) (ws_row g) (ws_col g)))
    (seq (perform C (Close (fd_master g)))
    (seq (perform C (Dup2 (fd_slave g) STDIN_FILENO))
    (seq (perform C (Dup2 (fd_slave g) STDOUT_FILENO))
    (seq (perform C (Dup2 (fd_slave g) STDERR_FILENO))
    (seq (perform C (Close (fd_slave g)))
    (bind (perform C Setsid) (\<lambda>r. if r = - 1 then ret (- 1) else
     bind (perform C (Set_ctty STDIN_FILENO 1)) (\<lambda>r. if r = - 1 then ret (- 1) else
     bind (perform C (Exec shell)) (\<lambda>r. if r = - 1 then ret (- 1) else replaced_prog)))))))))))"

section \<open>The status bar\<close>

definition prom_status :: string where
  "prom_status = ''[prom]: prom is running...''"

text \<open>The loop that fills up with spaces; the first argument counts the turns left, \<open>len - s_len\<close> of them.\<close>

fun pad_loop :: "nat \<Rightarrow> ptr \<Rightarrow> nat \<Rightarrow> (unit, 'z proc_scheme) prog" where
  "pad_loop 0 status s_len = ret ()"
| "pad_loop (Suc k) status s_len =
     seq (store_bytes (ptr_add status (int s_len)) [Chr (CHR '' '')]) (pad_loop k status (Suc s_len))"

definition set_status_bar :: "ptr \<Rightarrow> u64 \<Rightarrow> (int, 'z proc_scheme) prog" where
  "set_status_bar status len =
     seq (store_bytes status (replicate (unat len) (Chr (CHR 0x00))))
    (bind (snprintf status len prom_status) (\<lambda>s_len.
       if s_len < 0 then ret (- 1)
       else seq (pad_loop (unat len - nat s_len) status (nat s_len))
           (seq (store_bytes (ptr_add status (int (unat len) - 1)) [Chr (CHR 0x00)]) (ret 0))))"

definition COLOR_WHITE :: int where "COLOR_WHITE = 7"
definition COLOR_MAGENTA :: int where "COLOR_MAGENTA = 5"

definition draw_status_bar :: "'e console \<Rightarrow> ptr \<Rightarrow> (unit, 'e world) prog" where
  "draw_status_bar C status =
     bind (gets (\<lambda>s. cursor C (env s))) (\<lambda>(y, x).
     bind (gets (\<lambda>s. screen_rows C (env s))) (\<lambda>maxy.
     seq (perform C (Move (maxy - 1) 0))
    (seq (perform C (Init_pair 1 COLOR_WHITE COLOR_MAGENTA))
    (seq (perform C (Attron 1))
    (bind (load_str status) (\<lambda>text.
     seq (perform C (Addstr text))
    (seq (perform C (Attroff 1))
    (seq (perform C (Move y x)) (ret ())))))))))"

section \<open>The callbacks of the tracer\<close>

definition callback_log :: string where "callback_log = ''prom_callbacks.log''"
definition trace_test_file :: string where "trace_test_file = ''trace_test.file''"

definition file_read_cb :: "'e console \<Rightarrow> ptr \<Rightarrow> (int, 'e world) prog" where
  "file_read_cb C path =
     bind (load_str path) (\<lambda>x.
     seq (oflogf C INFO callback_log (''CB::FILE_READ::'' @ x @ nl)) (ret 0))"

definition file_write_cb :: "'e console \<Rightarrow> ptr \<Rightarrow> (int, 'e world) prog" where
  "file_write_cb C path =
     bind (load_str path) (\<lambda>x.
     seq (oflogf C INFO callback_log (''CB::FILE_WRITE::'' @ x @ nl))
    (bind (load_str path) (\<lambda>x. if x = trace_test_file then ret (- 1) else ret 0)))"

definition shell_cbs :: "'e console \<Rightarrow> 'e tracer_callbacks" where
  "shell_cbs C = \<lparr>file_read = Some (file_read_cb C), file_write = Some (file_write_cb C), on_syscall = None\<rparr>"

section \<open>The parent\<close>

definition sigwinch_handler :: "(unit, 'e world) prog" where
  "sigwinch_handler = set_globe (\<lambda>g. g\<lparr>got_sigwinch := True\<rparr>)"

definition clear_sigwinch :: "(unit, 'e world) prog" where
  "clear_sigwinch = set_globe (\<lambda>g. g\<lparr>got_sigwinch := False\<rparr>)"

text \<open>The point at which a signal that has arrived takes effect. The flag is read once a turn and cleared once: signals
  anywhere else in the turn have the effect of one just before the read, or of one just before the clearing.\<close>

definition signals :: "'e console \<Rightarrow> (unit, 'e world) prog" where
  "signals C = bind (gets (\<lambda>s. winch C (env s))) (\<lambda>(arrived, e').
     seq (modify (\<lambda>s. s\<lparr>env := e'\<rparr>)) (if arrived then sigwinch_handler else ret ()))"

text \<open>The part of a turn of the master loop up to the status bar.\<close>

definition resize_if_asked :: "'e console \<Rightarrow> (unit, 'e world) prog" where
  "resize_if_asked C =
     seq (signals C)
    (bind (gets globe) (\<lambda>g.
       if got_sigwinch g
       then seq (window_resize C (g_vterm g) (fd_master g)) (seq (signals C) clear_sigwinch)
       else ret ()))"

definition INT_MAX :: int where "INT_MAX = 2 ^ 31 - 1"

definition status_bar :: "'e console \<Rightarrow> (unit, 'e world) prog" where
  "status_bar C =
     bind (gets (\<lambda>s. screen_cols C (env s))) (\<lambda>cols.
       if cols = INT_MAX then undefined_prog
       else let maxx = cols + 1 in
         if maxx > 0
         then bind (malloc (of_int maxx)) (\<lambda>bar.
              seq (set_status_bar bar (of_int maxx))
             (seq (draw_status_bar C bar) (free bar)))
         else ret ())"

datatype turn = Again | Leave int

definition poll_turn :: "nat \<Rightarrow> 'e console \<Rightarrow> (turn, 'e world) prog" where
  "poll_turn fuel C =
     bind (gets (\<lambda>s. fd_poll C (env s) (fd_master (globe s)) STDIN_FILENO)) (\<lambda>(answer, e').
     seq (modify (\<lambda>s. s\<lparr>env := e'\<rparr>))
    (case answer of
       Poll_failed e \<Rightarrow> seq (set_errno e) (if e = EINTR then ret Again else ret (Leave (- 1)))
     | Poll_none \<Rightarrow> ret Again
     | Poll_ready master_revents stdin_revents \<Rightarrow>
         bind (if master_revents AND POLLIN \<noteq> 0 then handle_output C else ret 0) (\<lambda>r.
           if r < 0 then ret (Leave 0)
           else if master_revents AND POLLHUP \<noteq> 0 then ret (Leave 0)
           else bind (if stdin_revents AND POLLIN \<noteq> 0 then handle_input fuel C else ret 0) (\<lambda>r.
             if r < 0 then ret (Leave 0) else seq (perform C Refresh) (ret Again)))))"

fun master_loop :: "nat \<Rightarrow> nat \<Rightarrow> 'e ptrace_os \<Rightarrow> 'e console \<Rightarrow> 'e tracer \<Rightarrow> (int, 'e world) prog" where
  "master_loop 0 fuel T C tr = (\<lambda>s. OutOfFuel)"
| "master_loop (Suc k) fuel T C tr =
     seq (tracer_loop fuel T tr)
    (seq (resize_if_asked C)
    (seq (status_bar C)
    (bind (poll_turn fuel C) (\<lambda>t. case t of Again \<Rightarrow> master_loop k fuel T C tr | Leave r \<Rightarrow> ret r))))"

definition master_process :: "nat \<Rightarrow> nat \<Rightarrow> 'e ptrace_os \<Rightarrow> 'e console \<Rightarrow> (int, 'e world) prog" where
  "master_process k fuel T C =
     bind (gets globe) (\<lambda>g.
     seq (perform C (Close (fd_slave g)))
    (bind (tracer_init T (shell_cbs C) (pid_child g)) (\<lambda>(tr, _). master_loop k fuel T C tr)))"

definition cleanup :: "'e console \<Rightarrow> (unit, 'e world) prog" where
  "cleanup C =
     bind (gets (\<lambda>s. g_vterm (globe s))) (\<lambda>v.
     seq (if v \<noteq> null then seq (perform C (Vt_free v)) (ret ()) else ret ())
    (seq (perform C Endwin) (ret ())))"

definition errord :: "string \<Rightarrow> ('a, 'e world) prog" where
  "errord msg = seq (logf_err ERROR msg) (exit_prog 1)"

definition errord_clean :: "'e console \<Rightarrow> string \<Rightarrow> ('a, 'e world) prog" where
  "errord_clean C msg = seq (cleanup C) (errord msg)"

text \<open>\<open>errord_clean\<close> with the text of \<open>errno\<close>: the message is formatted after the clean up.\<close>

definition errord_errno :: "'e console \<Rightarrow> string \<Rightarrow> ('a, 'e world) prog" where
  "errord_errno C what = seq (cleanup C)
     (bind (gets errno_of) (\<lambda>e. errord (what @ '': '' @ str_error C e @ ''.'' @ nl)))"

definition SHELL :: string where "SHELL = ''bash''"

definition parent_main :: "nat \<Rightarrow> nat \<Rightarrow> 'e ptrace_os \<Rightarrow> 'e console \<Rightarrow> (int, 'e world) prog" where
  "parent_main k fuel T C =
     bind (gets (\<lambda>s. fd_master (globe s))) (\<lambda>fd.
     bind (perform C (Getfl fd)) (\<lambda>fdm_stat. if fdm_stat = - 1 then errord_errno C ''fcntl(F_GETFL)'' else
     bind (perform C (Setfl fd (fdm_stat OR O_NONBLOCK))) (\<lambda>r. if r = - 1 then errord_errno C ''fcntl(F_SETFL)'' else
     bind (master_process k fuel T C) (\<lambda>r.
       if r < 0 then errord_clean C (''master process had a failure'' @ ''.'' @ nl)
       else seq (cleanup C) (ret 0)))))"

text \<open>The child's branch after the fork.\<close>

definition child_main :: "'e ptrace_os \<Rightarrow> 'e console \<Rightarrow> (int, 'e world) prog" where
  "child_main T C =
     bind (slave_process T C SHELL) (\<lambda>r.
       if r < 0 then bind (gets errno_of) (\<lambda>e. errord (str_error C e @ nl)) else ret 0)"

text \<open>What follows once the signal handler is set up.\<close>

definition run_shell :: "nat \<Rightarrow> nat \<Rightarrow> 'e ptrace_os \<Rightarrow> 'e console \<Rightarrow> (int, 'e world) prog" where
  "run_shell k fuel T C =
     seq (perform C Setlocale)
    (seq (init_ncurses C)
    (seq (maxyx C)
    (seq (set_globe (\<lambda>g. g\<lparr>ws_row := ws_row g - 1\<rparr>))
    (bind (gets globe) (\<lambda>g.
     bind (init_vterm C (ws_row g) (ws_col g)) (\<lambda>v.
     seq (set_globe (\<lambda>g. g\<lparr>g_vterm := v\<rparr>))
    (bind (new_master_pty C) (\<lambda>fdm.
     seq (set_globe (\<lambda>g. g\<lparr>fd_master := fdm\<rparr>))
    (if fdm = - 1 then errord_errno C ''new_master_pty()'' else
     bind (gets (\<lambda>s. pts_name C (env s) fdm)) (\<lambda>name.
     bind (perform C (Open name)) (\<lambda>fds.
     seq (set_globe (\<lambda>g. g\<lparr>fd_slave := fds\<rparr>))
    (if fds = - 1 then errord_errno C ''open()'' else
     bind (perform C Fork) (\<lambda>pid.
     seq (set_globe (\<lambda>g. g\<lparr>pid_child := pid\<rparr>))
    (if pid = - 1 then errord_errno C ''fork()''
     else if pid = 0 then child_main T C
     else parent_main k fuel T C))))))))))))))"

definition shell_main_entry :: "nat \<Rightarrow> nat \<Rightarrow> 'e ptrace_os \<Rightarrow> 'e console \<Rightarrow> (int, 'e world) prog" where
  "shell_main_entry k fuel T C =
     bind (perform C Sigaction) (\<lambda>r.
       if r = - 1 then errord (''could not set up signal handler'' @ ''.'' @ nl) else run_shell k fuel T C)"

end
