(* ===== verification/Shell_Facts.thy ===== *)
theory Shell_Facts
  imports Shell
begin

text \<open>
  What the shell guarantees: its callbacks are a policy for the tracer, the keyboard reaches the virtual
  terminal and its answers reach the pseudo terminal, the status bar is one exact line of text, and both
  terminals get the size of the screen.
\<close>

section \<open>Rules of the calls\<close>

definition did :: "'e console \<Rightarrow> action \<Rightarrow> 'e \<Rightarrow> 'e" where
  "did C a e = snd (act C e a)"

definition after :: "'e console \<Rightarrow> action list \<Rightarrow> 'e \<Rightarrow> 'e" where
  "after C as e = fold (did C) as e"

lemma after_simps [simp]: "after C [] e = e" "after C (a # as) e = after C as (did C a e)"
  by (simp_all add: after_def)

lemma after_append: "after C (as @ bs) e = after C bs (after C as e)"
  by (simp add: after_def)

lemma runs_set_errno [runs_simps]: "runs (set_errno e) s Q \<longleftrightarrow> Q () (s\<lparr>errno_of := e\<rparr>)"
  by (simp add: set_errno_def runs_modify)

lemma runs_set_globe [runs_simps]: "runs (set_globe f) s Q \<longleftrightarrow> Q () (s\<lparr>globe := f (globe s)\<rparr>)"
  by (simp add: set_globe_def runs_modify)

lemma runs_perform [runs_simps]:
  "runs (perform C a) s Q \<longleftrightarrow> (case fst (act C (env s) a) of
     Inl e \<Rightarrow> Q (- 1) (s\<lparr>env := did C a (env s), errno_of := e\<rparr>) | Inr v \<Rightarrow> Q v (s\<lparr>env := did C a (env s)\<rparr>))"
  by (simp add: perform_def did_def runs_simps split: prod.split sum.split)

text \<open>A call whose answer is dropped.\<close>

lemma runs_perform_drop:
  assumes "\<And>n. runs k (s\<lparr>env := did C a (env s), errno_of := n\<rparr>) Q"
  shows "runs (seq (perform C a) k) s Q"
proof -
  have "s\<lparr>env := did C a (env s), errno_of := errno_of s\<rparr> = s\<lparr>env := did C a (env s)\<rparr>" by simp
  with assms [of "errno_of s"] have "runs k (s\<lparr>env := did C a (env s)\<rparr>) Q" by simp
  with assms show ?thesis by (simp add: runs_seq runs_perform split: sum.split)
qed

text \<open>A run of calls whose answers are dropped.\<close>

primrec performs :: "'e console \<Rightarrow> action list \<Rightarrow> ('a, 'e world) prog \<Rightarrow> ('a, 'e world) prog" where
  "performs C [] k = k"
| "performs C (a # as) k = seq (perform C a) (performs C as k)"

lemma runs_performs:
  "(\<And>n. runs k (s\<lparr>env := after C as (env s), errno_of := n\<rparr>) Q) \<Longrightarrow> runs (performs C as k) s Q"
proof (induction as arbitrary: s)
  case Nil
  have "s\<lparr>env := env s, errno_of := errno_of s\<rparr> = s" by simp
  with Nil [of "errno_of s"] show ?case by simp
next
  case (Cons a as)
  have "runs (seq (perform C a) (performs C as k)) s Q"
  proof (rule runs_perform_drop)
    fix n show "runs (performs C as k) (s\<lparr>env := did C a (env s), errno_of := n\<rparr>) Q"
      by (rule Cons.IH) (use Cons.prems in simp)
  qed
  then show ?case by simp
qed

lemma runs_getch [runs_simps]:
  "runs (getch C) s Q \<longleftrightarrow> Q (fst (get_key C (env s))) (s\<lparr>env := snd (get_key C (env s))\<rparr>)"
  by (simp add: getch_def runs_simps split: prod.split)

section \<open>The callbacks are a policy\<close>

fun appends :: "'e console \<Rightarrow> string list \<Rightarrow> 'e \<Rightarrow> 'e option" where
  "appends C [] e = Some e"
| "appends C (m # ms) e = (case file_append C e callback_log m of None \<Rightarrow> None | Some e' \<Rightarrow> appends C ms e')"

text \<open>The log file can be opened now and after every message written to it.\<close>

definition log_ok :: "'e console \<Rightarrow> 'e \<Rightarrow> bool" where
  "log_ok C e \<longleftrightarrow> (\<forall>ms. appends C ms e \<noteq> None)"

lemma log_okD:
  assumes "log_ok C e"
  shows "\<exists>e'. file_append C e callback_log m = Some e' \<and> log_ok C e'"
proof -
  have a: "appends C (m # ms) e \<noteq> None" for ms using assms unfolding log_ok_def by blast
  obtain e' where e': "file_append C e callback_log m = Some e'"
    using a [of "[]"] by (auto split: option.splits)
  with a have "log_ok C e'" by (simp add: log_ok_def)
  with e' show ?thesis by blast
qed

lemma runs_oflogf:
  assumes "log_ok C (env s)" "\<And>s'. only_env s s' \<Longrightarrow> log_ok C (env s') \<Longrightarrow> Q () s'"
  shows "runs (oflogf C lvl callback_log m) s Q"
proof -
  obtain e' where e': "file_append C (env s) callback_log (log_lvl_to_msg lvl @ '': '' @ m) = Some e'" "log_ok C e'"
    using log_okD [OF assms(1)] by blast
  have "Q () (s\<lparr>env := e'\<rparr>)"
    by (rule assms(2)) (auto simp: only_env_def e'(2))
  with e'(1) show ?thesis by (simp add: oflogf_def runs_simps)
qed

lemma runs_file_read_cb:
  assumes "log_ok C (env s)" "str_of_ptr s p = Some x"
  shows "runs (file_read_cb C p) s (\<lambda>r s'. r = 0 \<and> only_env s s' \<and> log_ok C (env s'))"
  using assms(2) by (auto simp: file_read_cb_def runs_simps intro!: runs_oflogf [OF assms(1)])

lemma runs_file_write_cb:
  assumes "log_ok C (env s)" "str_of_ptr s p = Some x"
  shows "runs (file_write_cb C p) s (\<lambda>r s'. r = (if x = trace_test_file then - 1 else 0) \<and> only_env s s' \<and> log_ok C (env s'))"
proof -
  let ?Q = "\<lambda>r s'. r = (if x = trace_test_file then - 1 else 0) \<and> only_env s s' \<and> log_ok C (env s')"
  have "runs (oflogf C INFO callback_log (''CB::FILE_WRITE::'' @ x @ nl)) s
      (\<lambda>_ s'. runs (bind (load_str p) (\<lambda>x. if x = trace_test_file then ret (- 1) else ret 0)) s' ?Q)"
  proof (rule runs_oflogf [OF assms(1)])
    fix s' assume s': "only_env s s'" "log_ok C (env s')"
    then have "str_of_ptr s' p = Some x" using assms(2) by (simp add: only_env_str [OF s'(1)])
    then show "runs (bind (load_str p) (\<lambda>x. if x = trace_test_file then ret (- 1) else ret 0)) s' ?Q"
      using s' by (simp add: runs_bind runs_load_str runs_ret)
  qed
  with assms(2) show ?thesis by (simp add: file_write_cb_def runs_bind runs_seq runs_load_str)
qed

interpretation shell: file_policy "log_ok C" "shell_cbs C" "\<lambda>_. True" "\<lambda>x. x \<noteq> trace_test_file"
proof
  fix f and s :: "'a world" and p x
  assume ok: "log_ok C (env s)" "str_of_ptr s p = Some x"
  show "file_read (shell_cbs C) = Some f \<Longrightarrow> runs (f p) s (\<lambda>r s'. (r = - 1 \<longleftrightarrow> \<not> True) \<and> only_env s s' \<and> log_ok C (env s'))"
    using runs_file_read_cb [OF ok] by (auto simp: shell_cbs_def elim!: runs_mono)
  show "file_write (shell_cbs C) = Some f \<Longrightarrow>
      runs (f p) s (\<lambda>r s'. (r = - 1 \<longleftrightarrow> \<not> x \<noteq> trace_test_file) \<and> only_env s s' \<and> log_ok C (env s'))"
    using runs_file_write_cb [OF ok] by (auto simp: shell_cbs_def split: if_splits elim!: runs_mono)
qed (simp_all add: shell_cbs_def)

section \<open>The status bar\<close>

definition bar_text :: "nat \<Rightarrow> string" where
  "bar_text n = take n (prom_status @ replicate n (CHR '' ''))"

lemma length_bar_text [simp]: "length (bar_text n) = n"
  by (simp add: bar_text_def)

lemma prom_status_facts [simp]: "length prom_status = 26" "c_string prom_status"
  by (simp_all add: prom_status_def c_string_def)

lemma bar_short: "n \<le> 26 \<Longrightarrow> bar_text n = take n prom_status"
  by (simp add: bar_text_def)

lemma bar_long: "26 \<le> n \<Longrightarrow> bar_text n = prom_status @ replicate (n - 26) (CHR '' '')"
  by (simp add: bar_text_def)

lemma replicate_snoc: "0 < n \<Longrightarrow> replicate n x = replicate (n - 1) x @ [x]"
  by (cases n) (simp_all add: replicate_append_same)

lemma c_string_bar_text [simp]: "c_string (bar_text n)"
  using prom_status_facts(2) by (auto simp: bar_text_def c_string_iff dest!: in_set_takeD)

text \<open>The padding loop writes spaces to the end of the object.\<close>

lemma runs_pad_loop:
  assumes "blocks s b = Some bs" "length bs = i + k" "b \<noteq> NoBase"
    and "Q () (s\<lparr>blocks := (blocks s)(b \<mapsto> take i bs @ replicate k (Chr (CHR '' '')))\<rparr>)"
  shows "runs (pad_loop k (Ptr b 0) i) s Q"
  using assms
proof (induction k arbitrary: s bs i)
  case 0
  then show ?case by (simp add: runs_ret fun_upd_idem)
next
  case (Suc k)
  let ?c = "Chr (CHR '' '')"
  let ?bs = "take i bs @ [?c] @ drop (Suc i) bs"
  let ?s = "s\<lparr>blocks := (blocks s)(b \<mapsto> ?bs)\<rparr>"
  have bs: "bs = take i bs @ [bs ! i] @ drop (Suc i) bs"
    using Suc.prems(2) by (simp add: id_take_nth_drop [symmetric])
  then have seg: "blocks s b = Some (take i bs @ [bs ! i] @ drop (Suc i) bs)" using Suc.prems(1) by simp
  have "poke (Ptr b (int i)) [?c] s = Some ?s"
    by (rule poke_seg [OF seg]) (use Suc.prems(2,3) in simp_all)
  moreover have "runs (pad_loop k (Ptr b 0) (Suc i)) ?s Q"
  proof (rule Suc.IH)
    show "blocks ?s b = Some ?bs" by simp
    show "Q () (?s\<lparr>blocks := (blocks ?s)(b \<mapsto> take (Suc i) ?bs @ replicate k ?c)\<rparr>)"
    proof -
      have "take (Suc i) ?bs @ replicate k ?c = take i bs @ replicate (Suc k) ?c" using Suc.prems(2) by simp
      then have "?s\<lparr>blocks := (blocks ?s)(b \<mapsto> take (Suc i) ?bs @ replicate k ?c)\<rparr> =
          s\<lparr>blocks := (blocks s)(b \<mapsto> take i bs @ replicate (Suc k) ?c)\<rparr>"
        by (simp only:) simp
      with Suc.prems(4) show ?thesis by (simp only:)
    qed
  qed (use Suc.prems(2,3) in simp_all)
  ultimately show ?case by (simp add: runs_seq runs_store_bytes)
qed

text \<open>Whatever the length, the object holds the text, cut or filled up, and one NUL at its end.\<close>

lemma set_status_bar_Done:
  assumes "blocks s (Blk b) = Some bs" "length bs = unat len" "0 < len"
    and "Q 0 (s\<lparr>blocks := (blocks s)(Blk b \<mapsto> cstr (bar_text (unat len - 1)))\<rparr>)"
  shows "runs (set_status_bar (Ptr (Blk b) 0) len) s Q"
proof -
  let ?n = "unat len" and ?p = "Ptr (Blk b) 0" and ?z = "Chr (CHR 0x00)"
  have n: "0 < ?n" using assms(3) by (simp add: word_less_nat_alt)
  let ?t = "take (?n - 1) prom_status"
  let ?s1 = "s\<lparr>blocks := (blocks s)(Blk b \<mapsto> replicate ?n ?z)\<rparr>"
  let ?b2 = "cstr ?t @ replicate (?n - Suc (length ?t)) ?z"
  let ?s2 = "s\<lparr>blocks := (blocks s)(Blk b \<mapsto> ?b2)\<rparr>"
  have memset: "poke ?p (replicate ?n ?z) s = Some ?s1"
    using poke_seg [of s "Blk b" "[]" bs "[]" 0 "replicate ?n ?z"] assms(1,2) by simp
  have lt: "Suc (length ?t) \<le> ?n" using n by simp
  have seg: "blocks ?s1 (Blk b) = Some ([] @ replicate (Suc (length ?t)) ?z @ replicate (?n - Suc (length ?t)) ?z)"
    using lt by (simp flip: replicate_add replicate_Suc)
  have "poke ?p (cstr ?t) ?s1 = Some (?s1\<lparr>blocks := (blocks ?s1)(Blk b \<mapsto> [] @ ?b2)\<rparr>)"
    by (rule poke_seg [OF seg]) simp_all
  then have print: "poke ?p (cstr ?t) ?s1 = Some ?s2" by simp
  define b3 where "b3 = (if ?n \<le> 26 then ?b2 else map Chr prom_status @ replicate (?n - 26) (Chr (CHR '' '')))"
  let ?s3 = "s\<lparr>blocks := (blocks s)(Blk b \<mapsto> b3)\<rparr>"
  have pad: "runs (pad_loop (?n - 26) ?p 26) ?s2 R" if "R () ?s3" for R
  proof (cases "?n \<le> 26")
    case True
    with that show ?thesis by (simp add: b3_def runs_ret)
  next
    case False
    then have b2: "?b2 = map Chr prom_status @ ?z # replicate (?n - 27) ?z"
      by (simp add: cstr_def)
    have "take 26 ?b2 = map Chr prom_status" unfolding b2 by simp
    then have "?s2\<lparr>blocks := (blocks ?s2)(Blk b \<mapsto> take 26 ?b2 @ replicate (?n - 26) (Chr (CHR '' '')))\<rparr> = ?s3"
      using False by (simp add: b3_def)
    with that have "R () (?s2\<lparr>blocks := (blocks ?s2)(Blk b \<mapsto> take 26 ?b2 @ replicate (?n - 26) (Chr (CHR '' '')))\<rparr>)"
      by (simp only:)
    with False show ?thesis by (intro runs_pad_loop [where bs = ?b2]) simp_all
  qed
  have spaces: "26 < ?n \<Longrightarrow> replicate (?n - 26) (Chr (CHR '' '')) = replicate (?n - 27) (Chr (CHR '' '')) @ [Chr (CHR '' '')]"
    using replicate_snoc [of "?n - 26" "Chr (CHR '' '')"] by simp
  have b3: "b3 = map Chr (bar_text (?n - 1)) @ [last b3]" "b3 \<noteq> []"
    using n by (auto simp: b3_def bar_short bar_long cstr_def take_map not_le spaces)
  have last: "poke (Ptr (Blk b) (int ?n - 1)) [?z] ?s3 = Some (s\<lparr>blocks := (blocks s)(Blk b \<mapsto> cstr (bar_text (?n - 1)))\<rparr>)"
  proof -
    have "blocks ?s3 (Blk b) = Some (map Chr (bar_text (?n - 1)) @ [last b3] @ [])" using b3(1) by simp
    from poke_seg [OF this, of "int ?n - 1" "[?z]"] n show ?thesis by (simp add: cstr_def)
  qed
  have nz: "len \<noteq> 0" using assms(3) by auto
  have sn: "snprintf ?p len prom_status = seq (store_bytes ?p (cstr ?t)) (ret 26)"
    using nz by (simp add: snprintf_def)
  let ?rest = "\<lambda>s_len :: int. if s_len < 0 then ret (- 1)
      else seq (pad_loop (?n - nat s_len) ?p (nat s_len)) (seq (store_bytes (ptr_add ?p (int ?n - 1)) [?z]) (ret 0))"
  have "runs (seq (pad_loop (?n - 26) ?p 26) (seq (store_bytes (Ptr (Blk b) (int ?n - 1)) [?z]) (ret 0))) ?s2 Q"
    unfolding runs_seq by (rule pad) (use assms(4) in \<open>simp only: runs_store_bytes last runs_ret option.inject ex_simps simp_thms\<close>)
  then have "runs (?rest 26) ?s2 Q" by simp
  then have "runs (bind (snprintf ?p len prom_status) ?rest) ?s1 Q"
    unfolding sn runs_bind runs_seq runs_store_bytes print runs_ret by blast
  then show ?thesis
    unfolding set_status_bar_def runs_seq [of "store_bytes _ _"] runs_store_bytes memset by blast
qed

definition bar_actions :: "'e console \<Rightarrow> 'e \<Rightarrow> string \<Rightarrow> action list" where
  "bar_actions C e text = [Move (screen_rows C e - 1) 0, Init_pair 1 COLOR_WHITE COLOR_MAGENTA, Attron 1, Addstr text,
     Attroff 1, Move (fst (cursor C e)) (snd (cursor C e))]"

lemma str_of_ptr_env [simp]: "str_of_ptr (s\<lparr>env := e\<rparr>) p = str_of_ptr s p"
  "str_of_ptr (s\<lparr>errno_of := n\<rparr>) p = str_of_ptr s p"
  by (simp_all add: str_of_ptr_def)

lemma runs_draw_status_bar:
  assumes "str_of_ptr s p = Some x"
    and "\<And>n. Q () (s\<lparr>env := after C (bar_actions C (env s) x) (env s), errno_of := n\<rparr>)"
  shows "runs (draw_status_bar C p) s Q"
proof -
  obtain y x0 where c: "cursor C (env s) = (y, x0)" by force
  let ?first = "[Move (screen_rows C (env s) - 1) 0, Init_pair 1 COLOR_WHITE COLOR_MAGENTA, Attron 1]"
  let ?last = "[Addstr x, Attroff 1, Move y x0]"
  have "runs (performs C ?first (bind (load_str p) (\<lambda>text. performs C [Addstr text, Attroff 1, Move y x0] (ret ())))) s Q"
  proof (rule runs_performs)
    fix n
    let ?s = "s\<lparr>env := after C ?first (env s), errno_of := n\<rparr>"
    have "runs (performs C ?last (ret ())) ?s Q"
      by (rule runs_performs) (use assms(2) in \<open>simp add: runs_ret bar_actions_def c\<close>)
    then show "runs (bind (load_str p) (\<lambda>text. performs C [Addstr text, Attroff 1, Move y x0] (ret ()))) ?s Q"
      using assms(1) by (simp only: runs_bind runs_load_str str_of_ptr_env ex_simps) simp
  qed
  then show ?thesis
    by (simp add: draw_status_bar_def runs_bind [of "gets _"] runs_gets c)
qed

lemma unat_of_int_small: "0 \<le> i \<Longrightarrow> i < 2 ^ 64 \<Longrightarrow> unat (of_int i :: u64) = nat i"
  by (simp add: unat_eq_nat_uint uint_word_of_int_eq take_bit_int_eq_self)

text \<open>A turn draws exactly one line: the heap is as before, and without memory for it the code writes
  through NULL.\<close>

lemma runs_status_bar:
  assumes "mem_ok s" "grants s (requests s)" "0 \<le> screen_cols C (env s)" "screen_cols C (env s) < INT_MAX"
  shows "runs (status_bar C) s (\<lambda>_ s'. blocks s' = blocks s \<and> globe s' = globe s \<and> last_syscall s' = last_syscall s \<and>
    env s' = after C (bar_actions C (env s) (bar_text (nat (screen_cols C (env s))))) (env s))"
proof -
  let ?n = "screen_cols C (env s) + 1"
  let ?w = "of_int ?n :: u64" and ?x = "bar_text (nat (screen_cols C (env s)))" and ?b = "Blk (next_blk s)"
  let ?Q = "\<lambda>_ s'. blocks s' = blocks s \<and> globe s' = globe s \<and> last_syscall s' = last_syscall s \<and>
    env s' = after C (bar_actions C (env s) ?x) (env s)"
  have w: "unat ?w = nat ?n"
    using assms(3,4) by (simp add: INT_MAX_def unat_of_int_small del: of_int_add)
  have "runs (malloc ?w) s (\<lambda>bar s1. runs (seq (set_status_bar bar ?w) (seq (draw_status_bar C bar) (free bar))) s1 ?Q)"
  proof (rule runs_malloc_any [OF assms(1)])
    fix s1 assume s1: "heap_ext s s1" "blocks s1 = (blocks s)(?b \<mapsto> replicate (unat ?w) Undef)"
    then have "heap_only s s1" by (simp add: heap_ext_def)
    then have same: "env s1 = env s" "globe s1 = globe s" "last_syscall s1 = last_syscall s"
      by (auto simp: heap_only_def)
    let ?s2 = "s1\<lparr>blocks := (blocks s1)(?b \<mapsto> cstr (bar_text (unat ?w - 1)))\<rparr>"
    have "runs (seq (draw_status_bar C (Ptr ?b 0)) (free (Ptr ?b 0))) ?s2 ?Q"
      unfolding runs_seq
    proof (rule runs_draw_status_bar)
      show "str_of_ptr ?s2 (Ptr ?b 0) = Some (bar_text (unat ?w - 1))"
        by (simp add: str_of_ptr_def)
      fix n
      have "(blocks s1)(?b := None) = blocks s" using s1(2) fresh_blk [OF assms(1)] by auto
      moreover have "unat ?w - 1 = nat (screen_cols C (env s))" using w assms(3) by simp
      ultimately show "runs (free (Ptr ?b 0)) (?s2\<lparr>env := after C (bar_actions C (env ?s2) (bar_text (unat ?w - 1))) (env ?s2), errno_of := n\<rparr>) ?Q"
        using same by (simp add: runs_free)
    qed
    then show "runs (seq (set_status_bar (Ptr ?b 0) ?w) (seq (draw_status_bar C (Ptr ?b 0)) (free (Ptr ?b 0)))) s1 ?Q"
      unfolding runs_seq [of "set_status_bar _ _"]
      by (intro set_status_bar_Done [where bs = "replicate (unat ?w) Undef"]) (use s1(2) w assms(3) in \<open>simp_all add: word_less_nat_alt\<close>)
  qed (use assms(2) in simp)
  with assms(3,4) show ?thesis
    by (simp add: status_bar_def Let_def runs_bind runs_gets del: of_int_add)
qed

lemma status_bar_without_memory:
  assumes "mem_ok s" "\<not> grants s (requests s)" "0 \<le> screen_cols C (env s)" "screen_cols C (env s) < INT_MAX"
  shows "status_bar C s = Undefined"
proof -
  let ?n = "screen_cols C (env s) + 1"
  let ?w = "of_int ?n :: u64" and ?s1 = "s\<lparr>requests := Suc (requests s)\<rparr>"
  have w: "unat ?w = nat ?n"
    using assms(3,4) by (simp add: INT_MAX_def unat_of_int_small del: of_int_add)
  have "poke null (replicate (unat ?w) (Chr (CHR 0x00))) ?s1 = None"
    by (rule poke_no_object) (use assms(1) in \<open>simp add: mem_ok_def null_def\<close>)
  then have "set_status_bar null ?w ?s1 = Undefined"
    by (simp add: set_status_bar_def seq_def bind_def store_bytes_def writes_def del: of_int_add)
  moreover have "malloc ?w s = Done null ?s1" using assms(2) by (simp add: malloc_def)
  ultimately have "bind (malloc ?w) (\<lambda>bar. seq (set_status_bar bar ?w) (seq (draw_status_bar C bar) (free bar))) s = Undefined"
    by (simp add: bind_def seq_def)
  with assms(3,4) show ?thesis by (simp add: status_bar_def Let_def bind_gets del: of_int_add)
qed

section \<open>The keyboard\<close>

text \<open>A view of the libraries: the states in which the virtual terminal lives, the keys typed and not yet read, the calls that
  fed the virtual terminal, its output buffer and the bytes the pseudo terminal took; \<open>push e a b\<close> is what the buffer
  becomes when it is fed \<open>a\<close>, which depends on the modes the terminal is in and on the room there is.\<close>

record 'e view =
  live :: "'e \<Rightarrow> bool"
  keys :: "'e \<Rightarrow> int list"
  fed :: "'e \<Rightarrow> action list"
  out :: "'e \<Rightarrow> string"
  sent :: "'e \<Rightarrow> string"
  push :: "'e \<Rightarrow> action \<Rightarrow> string \<Rightarrow> string"

definition first_key :: "int list \<Rightarrow> int" where
  "first_key ks = (case ks of [] \<Rightarrow> - 1 | k # _ \<Rightarrow> k)"

text \<open>A read without a key gives -1, and a read leaves the virtual terminal alone; a key given to the virtual terminal goes
  to its buffer, and changes neither the keys that wait nor the modes.\<close>

definition key_laws :: "'e console \<Rightarrow> 'e view \<Rightarrow> ptr \<Rightarrow> bool" where
  "key_laws C V v \<longleftrightarrow> (\<forall>e. live V e \<longrightarrow> (case get_key C e of (ch, e') \<Rightarrow> ch = first_key (keys V e) \<and> live V e' \<and>
       keys V e' = tl (keys V e) \<and> fed V e' = fed V e \<and> out V e' = out V e \<and> sent V e' = sent V e \<and> push V e' = push V e)) \<and>
     (\<forall>e a. live V e \<longrightarrow> (\<exists>k. a = Vt_key v k) \<or> (\<exists>c. a = Vt_char v c) \<longrightarrow> live V (did C a e) \<and>
       keys V (did C a e) = keys V e \<and> fed V (did C a e) = fed V e @ [a] \<and> out V (did C a e) = push V e a (out V e) \<and>
       sent V (did C a e) = sent V e \<and> push V (did C a e) = push V e)"

text \<open>The bytes that a \<open>write\<close> takes: as many as it answers, and none when it fails.\<close>

definition taken :: "int + int \<Rightarrow> string \<Rightarrow> string" where
  "taken r bs = (case r of Inl e \<Rightarrow> [] | Inr n \<Rightarrow> take (nat n) bs)"

text \<open>The buffer holds up to \<open>cap\<close> bytes, the virtual terminal tells how many it holds and how many more fit, and gives
  them in order. What \<open>write\<close> takes may be less than it is given, or nothing.\<close>

definition output_laws :: "'e console \<Rightarrow> 'e view \<Rightarrow> ptr \<Rightarrow> int \<Rightarrow> nat \<Rightarrow> bool" where
  "output_laws C V v fd cap \<longleftrightarrow> (\<forall>e. live V e \<longrightarrow> length (out V e) \<le> cap \<and> out_room C e v = of_nat (cap - length (out V e)) \<and>
       out_fill C e v = of_nat (length (out V e))) \<and>
     (\<forall>e n. live V e \<longrightarrow> (case out_read C e v n of (bs, e') \<Rightarrow> bs = take (unat n) (out V e) \<and> live V e' \<and>
       out V e' = drop (unat n) (out V e) \<and> keys V e' = keys V e \<and> fed V e' = fed V e \<and> sent V e' = sent V e)) \<and>
     (\<forall>e bs. live V e \<longrightarrow> (case act C e (Write fd bs) of (r, e') \<Rightarrow> live V e' \<and> sent V e' = sent V e @ taken r bs \<and>
       keys V e' = keys V e \<and> fed V e' = fed V e \<and> out V e' = out V e))"

text \<open>What the keys mean: an arrow is ESC, \<open>[\<close> and a letter; any other ESC is passed on with the one or two
  reads that followed it, whether or not they gave a key; a change of the window size is dropped.\<close>

definition arrow_key :: "int \<Rightarrow> vterm_key option" where
  "arrow_key c = (if c = 65 then Some KEY_UP else if c = 66 then Some KEY_DOWN else if c = 67 then Some KEY_RIGHT
     else if c = 68 then Some KEY_LEFT else None)"

definition chars :: "ptr \<Rightarrow> int list \<Rightarrow> action list" where
  "chars v = map (\<lambda>c. Vt_char v (of_int c))"

definition arrow_step :: "ptr \<Rightarrow> int list \<Rightarrow> action list \<times> int list" where
  "arrow_step v ks = (let c1 = first_key ks in
     if c1 = 91
     then let c2 = first_key (tl ks) in
       ((case arrow_key c2 of Some k \<Rightarrow> [Vt_key v k] | None \<Rightarrow> chars v [ESC, c1, c2]), tl (tl ks))
     else (chars v [ESC, c1], tl ks))"

text \<open>What one key that is not a change of the size leads to, and the keys left behind it.\<close>

definition key_step :: "ptr \<Rightarrow> int \<Rightarrow> int list \<Rightarrow> action list \<times> int list" where
  "key_step v k ks = (if k = ESC then arrow_step v ks else ([Vt_char v (of_int k)], ks))"

lemma key_step_shorter: "length (snd (key_step v k ks)) \<le> length ks"
  by (simp add: key_step_def arrow_step_def Let_def)

function translate :: "ptr \<Rightarrow> int list \<Rightarrow> action list" where
  "translate v [] = []"
| "translate v (k # ks) =
     (if k = KEY_RESIZE then translate v ks else fst (key_step v k ks) @ translate v (snd (key_step v k ks)))"
  by pat_completeness auto
termination by (relation "measure (\<lambda>(v, ks). length ks)") (auto simp: key_step_shorter less_Suc_eq_le)

text \<open>The same as long as the buffer has room: what is passed on, the keys that keep waiting, and the buffer.\<close>

function pass_on :: "(action \<Rightarrow> string \<Rightarrow> string) \<Rightarrow> nat \<Rightarrow> ptr \<Rightarrow> int list \<Rightarrow> string \<Rightarrow> action list \<times> int list \<times> string" where
  "pass_on f cap v [] b = ([], [], b)"
| "pass_on f cap v (k # ks) b =
     (if cap \<le> length b then ([], k # ks, b)
      else if k = KEY_RESIZE then pass_on f cap v ks b
      else let p = key_step v k ks; q = pass_on f cap v (snd p) (fold f (fst p) b) in (fst p @ fst q, snd q))"
  by pat_completeness auto
termination by (relation "measure (\<lambda>(f, cap, v, ks, b). length ks)") (auto simp: key_step_shorter less_Suc_eq_le)

lemma pass_on_full [simp]: "cap \<le> length b \<Longrightarrow> pass_on f cap v ks b = ([], ks, b)"
  by (cases ks) simp_all

lemma pass_on_translate:
  "fst (pass_on f cap v ks b) @ translate v (fst (snd (pass_on f cap v ks b))) = translate v ks \<and>
   (fst (snd (pass_on f cap v ks b)) = [] \<or> cap \<le> length (snd (snd (pass_on f cap v ks b)))) \<and>
   snd (snd (pass_on f cap v ks b)) = fold f (fst (pass_on f cap v ks b)) b"
proof (induction f cap v ks b rule: pass_on.induct)
  case (2 f cap v k ks b)
  show ?case
  proof (cases "cap \<le> length b \<or> k = KEY_RESIZE")
    case True
    then show ?thesis using 2(1) by auto
  next
    case False
    obtain e r c where q: "pass_on f cap v (snd (key_step v k ks)) (fold f (fst (key_step v k ks)) b) = (e, r, c)"
      by (metis surj_pair)
    with False 2(2) [OF _ _ refl] show ?thesis by (auto simp: Let_def)
  qed
qed simp

lemma pass_on_step:
  "length b < cap \<Longrightarrow> pass_on f cap v (KEY_RESIZE # ks) b = pass_on f cap v ks b"
  "length b < cap \<Longrightarrow> k \<noteq> KEY_RESIZE \<Longrightarrow> pass_on f cap v (k # ks) b =
     (fst (key_step v k ks) @ fst (pass_on f cap v (snd (key_step v k ks)) (fold f (fst (key_step v k ks)) b)),
      snd (pass_on f cap v (snd (key_step v k ks)) (fold f (fst (key_step v k ks)) b)))"
  by (simp_all add: Let_def)

text \<open>\<open>moved V s ks evs s'\<close>: a step after which \<open>ks\<close> are left to read and \<open>evs\<close> have been passed on.\<close>

definition moved :: "'e view \<Rightarrow> 'e world \<Rightarrow> int list \<Rightarrow> action list \<Rightarrow> 'e world \<Rightarrow> bool" where
  "moved V s ks evs s' \<longleftrightarrow> live V (env s') \<and> keys V (env s') = ks \<and> fed V (env s') = fed V (env s) @ evs \<and>
     out V (env s') = fold (push V (env s)) evs (out V (env s)) \<and> push V (env s') = push V (env s) \<and>
     sent V (env s') = sent V (env s) \<and> globe s' = globe s \<and> blocks s' = blocks s"

lemma moved_trans: "moved V s ks evs s1 \<Longrightarrow> moved V s1 ks' evs' s2 \<Longrightarrow> moved V s ks' (evs @ evs') s2"
  by (simp add: moved_def)

lemma runs_getch_keys:
  "key_laws C V v \<Longrightarrow> live V (env s) \<Longrightarrow>
   (\<And>s'. moved V s (tl (keys V (env s))) [] s' \<Longrightarrow> Q (first_key (keys V (env s))) s') \<Longrightarrow> runs (getch C) s Q"
  by (force simp: runs_getch key_laws_def moved_def case_prod_unfold)

lemma runs_feed:
  assumes "key_laws C V v" "live V (env s)" "(\<exists>k. a = Vt_key v k) \<or> (\<exists>c. a = Vt_char v c)"
  shows "runs (seq (perform C a) (ret ())) s (\<lambda>_ s'. moved V s (keys V (env s)) [a] s')"
  by (rule runs_perform_drop) (use assms in \<open>auto simp: runs_ret moved_def key_laws_def\<close>)

lemma runs_vterm_key:
  "key_laws C V v \<Longrightarrow> live V (env s) \<Longrightarrow> g_vterm (globe s) = v \<Longrightarrow>
   runs (vterm_key C k) s (\<lambda>_ s'. moved V s (keys V (env s)) [Vt_key v k] s')"
  by (simp add: vterm_key_def runs_bind runs_gets runs_feed)

lemma runs_vterm_unichar:
  "key_laws C V v \<Longrightarrow> live V (env s) \<Longrightarrow> g_vterm (globe s) = v \<Longrightarrow>
   runs (vterm_unichar C c) s (\<lambda>_ s'. moved V s (keys V (env s)) (chars v [c]) s')"
  by (simp add: vterm_unichar_def runs_bind runs_gets runs_feed chars_def)

lemma chars_simps [simp]: "chars v [] = []" "chars v (c # cs) = Vt_char v (of_int c) # chars v cs"
  by (simp_all add: chars_def)

lemma runs_unichars:
  "key_laws C V v \<Longrightarrow> live V (env s) \<Longrightarrow> g_vterm (globe s) = v \<Longrightarrow>
   runs (for_each (vterm_unichar C) cs) s (\<lambda>_ s'. moved V s (keys V (env s)) (chars v cs) s')"
proof (induction cs arbitrary: s)
  case Nil
  then show ?case by (simp add: runs_ret moved_def)
next
  case (Cons c cs)
  have "runs (vterm_unichar C c) s (\<lambda>_ s1. runs (for_each (vterm_unichar C) cs) s1
      (\<lambda>_ s'. moved V s (keys V (env s)) (chars v (c # cs)) s'))"
  proof (rule runs_mono [OF runs_vterm_unichar [OF Cons.prems]])
    fix u s1 assume s1: "moved V s (keys V (env s)) (chars v [c]) s1"
    then have "live V (env s1)" "g_vterm (globe s1) = v" "keys V (env s1) = keys V (env s)"
      using Cons.prems(3) by (simp_all add: moved_def)
    with Cons.IH [OF Cons.prems(1) this(1,2)]
    show "runs (for_each (vterm_unichar C) cs) s1 (\<lambda>_ s'. moved V s (keys V (env s)) (chars v (c # cs)) s')"
      using moved_trans [OF s1] by (auto elim!: runs_mono)
  qed
  then show ?case by (simp add: runs_seq)
qed

lemma runs_handle_arrows:
  assumes L: "key_laws C V v" and live: "live V (env s)" and v: "g_vterm (globe s) = v"
  shows "runs (handle_arrows C) s (\<lambda>_ s'. moved V s (snd (arrow_step v (keys V (env s)))) (fst (arrow_step v (keys V (env s)))) s')"
  unfolding handle_arrows_def runs_bind [of "getch C"]
proof (rule runs_getch_keys [OF L live])
  fix s1 assume s1: "moved V s (tl (keys V (env s))) [] s1"
  let ?ks = "keys V (env s)" and ?c1 = "first_key (keys V (env s))"
  let ?Q = "\<lambda>_ s'. moved V s (snd (arrow_step v ?ks)) (fst (arrow_step v ?ks)) s'"
  have v1: "g_vterm (globe s1) = v" "keys V (env s1) = tl ?ks" "live V (env s1)" using s1 v by (simp_all add: moved_def)
  show "runs (if ?c1 = 91 then bind (getch C) (\<lambda>c2. if c2 = 65 then vterm_key C KEY_UP else if c2 = 66 then vterm_key C KEY_DOWN
        else if c2 = 67 then vterm_key C KEY_RIGHT else if c2 = 68 then vterm_key C KEY_LEFT
        else for_each (vterm_unichar C) [ESC, ?c1, c2])
      else for_each (vterm_unichar C) [ESC, ?c1]) s1 ?Q"
  proof (cases "?c1 = 91")
    case False
    have "runs (for_each (vterm_unichar C) [ESC, ?c1]) s1 ?Q"
      by (rule runs_mono [OF runs_unichars [OF L v1(3,1)]])
        (use moved_trans [OF s1] v1(2) False in \<open>auto simp: arrow_step_def Let_def\<close>)
    with False show ?thesis by simp
  next
    case True
    have "runs (bind (getch C) (\<lambda>c2. if c2 = 65 then vterm_key C KEY_UP else if c2 = 66 then vterm_key C KEY_DOWN
        else if c2 = 67 then vterm_key C KEY_RIGHT else if c2 = 68 then vterm_key C KEY_LEFT
        else for_each (vterm_unichar C) [ESC, ?c1, c2])) s1 ?Q"
      unfolding runs_bind
    proof (rule runs_getch_keys [OF L v1(3)])
      fix s2 assume s2: "moved V s1 (tl (keys V (env s1))) [] s2"
      let ?c2 = "first_key (keys V (env s1))"
      have v2: "g_vterm (globe s2) = v" "keys V (env s2) = tl (tl ?ks)" "?c2 = first_key (tl ?ks)" "live V (env s2)"
        using s2 v1 by (simp_all add: moved_def)
      have done2: "moved V s (snd (arrow_step v ?ks)) (fst (arrow_step v ?ks)) s3"
        if "moved V s2 (keys V (env s2)) (case arrow_key ?c2 of Some k \<Rightarrow> [Vt_key v k] | None \<Rightarrow> chars v [ESC, ?c1, ?c2]) s3" for s3
        using moved_trans [OF s1 moved_trans [OF s2 that]] True v2 by (simp add: arrow_step_def Let_def cong: option.case_cong)
      have select: "(if ?c2 = 65 then vterm_key C KEY_UP else if ?c2 = 66 then vterm_key C KEY_DOWN
        else if ?c2 = 67 then vterm_key C KEY_RIGHT else if ?c2 = 68 then vterm_key C KEY_LEFT
        else for_each (vterm_unichar C) [ESC, ?c1, ?c2]) =
        (case arrow_key ?c2 of Some k \<Rightarrow> vterm_key C k | None \<Rightarrow> for_each (vterm_unichar C) [ESC, ?c1, ?c2])"
        by (simp add: arrow_key_def)
      show "runs (if ?c2 = 65 then vterm_key C KEY_UP else if ?c2 = 66 then vterm_key C KEY_DOWN
        else if ?c2 = 67 then vterm_key C KEY_RIGHT else if ?c2 = 68 then vterm_key C KEY_LEFT
        else for_each (vterm_unichar C) [ESC, ?c1, ?c2]) s2 ?Q"
        unfolding select
      proof (cases "arrow_key ?c2")
        case None
        then show "runs (case arrow_key ?c2 of Some k \<Rightarrow> vterm_key C k | None \<Rightarrow> for_each (vterm_unichar C) [ESC, ?c1, ?c2]) s2 ?Q"
          using runs_unichars [OF L v2(4,1), of "[ESC, ?c1, ?c2]"] done2
          by (simp only: option.case) (rule runs_mono, assumption, blast)
      next
        case (Some k)
        then show "runs (case arrow_key ?c2 of Some k \<Rightarrow> vterm_key C k | None \<Rightarrow> for_each (vterm_unichar C) [ESC, ?c1, ?c2]) s2 ?Q"
          using runs_vterm_key [OF L v2(4,1), of k] done2
          by (simp only: option.case) (rule runs_mono, assumption, blast)
      qed
    qed
    with True show ?thesis by simp
  qed
qed

text \<open>The key a turn of the loop goes on with, and the keys left.\<close>

fun drop_resize :: "int \<Rightarrow> int list \<Rightarrow> int \<times> int list" where
  "drop_resize ch [] = (if ch = KEY_RESIZE then (- 1, []) else (ch, []))"
| "drop_resize ch (k # ks) = (if ch = KEY_RESIZE then drop_resize k ks else (ch, k # ks))"

lemma runs_skip_resize:
  assumes L: "key_laws C V v"
  shows "live V (env s) \<Longrightarrow> length (keys V (env s)) < k \<Longrightarrow> runs (skip_resize (Suc k) C ch) s (\<lambda>r s'.
    r = fst (drop_resize ch (keys V (env s))) \<and> moved V s (snd (drop_resize ch (keys V (env s)))) [] s')"
proof (induction k arbitrary: ch s)
  case 0
  then show ?case by simp
next
  case (Suc k)
  let ?ks = "keys V (env s)"
  let ?Q = "\<lambda>r s'. r = fst (drop_resize ch ?ks) \<and> moved V s (snd (drop_resize ch ?ks)) [] s'"
  show ?case
  proof (cases "ch = KEY_RESIZE")
    case False
    then show ?thesis using Suc.prems(1) by (cases ?ks) (simp_all add: runs_ret moved_def)
  next
    case True
    have "runs (bind (getch C) (skip_resize (Suc k) C)) s ?Q"
      unfolding runs_bind
    proof (rule runs_getch_keys [OF L Suc.prems(1)])
      fix s1 assume s1: "moved V s (tl ?ks) [] s1"
      then have k1: "keys V (env s1) = tl ?ks" "live V (env s1)" by (simp_all add: moved_def)
      show "runs (skip_resize (Suc k) C (first_key ?ks)) s1 ?Q"
      proof (cases ?ks)
        case Nil
        with s1 True show ?thesis by (simp add: first_key_def KEY_RESIZE_def runs_ret)
      next
        case (Cons c cs)
        have "runs (skip_resize (Suc k) C c) s1 (\<lambda>r s'. r = fst (drop_resize c (keys V (env s1))) \<and>
            moved V s1 (snd (drop_resize c (keys V (env s1)))) [] s')"
          by (rule Suc.IH) (use Suc.prems k1 Cons in simp_all)
        with k1 Cons True show ?thesis
          using moved_trans [OF s1] by (auto simp: first_key_def simp del: skip_resize.simps elim!: runs_mono)
      qed
    qed
    with True show ?thesis by (simp add: skip_resize.simps(2) [of "Suc k"] del: skip_resize.simps)
  qed
qed

lemma drop_resize_keys:
  assumes "- 1 \<notin> set (k # ks)" "drop_resize k ks = (ch, ks')"
  shows "- 1 \<notin> set ks' \<and> length ks' \<le> length ks \<and> (ch = - 1 \<longrightarrow> ks' = []) \<and> (ch = - 1 \<or> ch \<noteq> KEY_RESIZE)"
  using assms
proof (induction k ks rule: drop_resize.induct)
  case (2 ch0 k ks)
  then show ?case by (cases "ch0 = KEY_RESIZE") auto
qed (auto simp: KEY_RESIZE_def split: if_splits)

lemma drop_resize_pass_on:
  assumes "- 1 \<notin> set (k # ks)" "drop_resize k ks = (ch, ks')" "length b < cap"
  shows "pass_on f cap v (k # ks) b = (if ch = - 1 then ([], [], b)
    else (fst (key_step v ch ks') @ fst (pass_on f cap v (snd (key_step v ch ks')) (fold f (fst (key_step v ch ks')) b)),
      snd (pass_on f cap v (snd (key_step v ch ks')) (fold f (fst (key_step v ch ks')) b))))"
  using assms
proof (induction k ks rule: drop_resize.induct)
  case (2 ch0 k ks)
  then show ?case by (cases "ch0 = KEY_RESIZE") (auto simp: pass_on_step simp del: pass_on.simps)
qed (auto simp: pass_on_step split: if_splits simp del: pass_on.simps(2))

lemma key_step_keys: "- 1 \<notin> set ks \<Longrightarrow> - 1 \<notin> set (snd (key_step v k ks))"
proof -
  have "x \<notin> set xs \<Longrightarrow> x \<notin> set (tl xs)" for x :: int and xs by (cases xs) auto
  then show "- 1 \<notin> set ks \<Longrightarrow> - 1 \<notin> set (snd (key_step v k ks))" by (simp add: key_step_def arrow_step_def Let_def)
qed

text \<open>One key of the input loop that is not a change of the size.\<close>

lemma runs_pass_on:
  assumes "key_laws C V v" "live V (env s)" "g_vterm (globe s) = v"
  shows "runs (if ch = ESC then handle_arrows C else vterm_unichar C ch) s
    (\<lambda>_ s'. moved V s (snd (key_step v ch (keys V (env s)))) (fst (key_step v ch (keys V (env s)))) s')"
  using runs_handle_arrows [OF assms] runs_vterm_unichar [OF assms, of ch] by (simp add: key_step_def)

lemma room_left:
  assumes "output_laws C V v fd cap" "cap \<le> 8192" "live V e"
  shows "0 < out_room C e v \<longleftrightarrow> length (out V e) < cap"
proof -
  have "out_room C e v = of_nat (cap - length (out V e))" using assms(1,3) by (simp add: output_laws_def)
  moreover have "unat (of_nat (cap - length (out V e)) :: u64) = cap - length (out V e)"
    by (rule unat_of_nat_small) (use assms(2) in simp)
  ultimately show ?thesis by (simp add: word_less_nat_alt)
qed

lemma runs_input_loop:
  assumes L: "key_laws C V v" and O: "output_laws C V v fd cap" "cap \<le> 8192"
  shows "live V (env s) \<Longrightarrow> g_vterm (globe s) = v \<Longrightarrow> - 1 \<notin> set (keys V (env s)) \<Longrightarrow> length (keys V (env s)) < k \<Longrightarrow>
    pass_on (push V (env s)) cap v (keys V (env s)) (out V (env s)) = (evs, rest, b) \<Longrightarrow>
    runs (input_loop k C) s (\<lambda>_ s'. moved V s rest evs s')"
proof (induction k arbitrary: s evs)
  case 0
  then show ?case by simp
next
  case (Suc k)
  note live = Suc.prems(1) and v = Suc.prems(2) and P = Suc.prems(5)
  let ?f = "push V (env s)" and ?b = "out V (env s)"
  let ?Q = "\<lambda>_ s'. moved V s rest evs s'"
  let ?turn = "\<lambda>ch. bind (skip_resize (Suc k) C ch) (\<lambda>ch. if ch = - 1 then ret ()
              else seq (if ch = ESC then handle_arrows C else vterm_unichar C ch) (input_loop k C))"
  have "runs (bind (getch C) ?turn) s ?Q" if room: "length ?b < cap"
    unfolding runs_bind [of "getch C"]
  proof (rule runs_getch_keys [OF L live])
    fix s1 assume s1: "moved V s (tl (keys V (env s))) [] s1"
    then have g1: "g_vterm (globe s1) = v" "keys V (env s1) = tl (keys V (env s))" "live V (env s1)"
      using v by (simp_all add: moved_def)
    show "runs (?turn (first_key (keys V (env s)))) s1 ?Q"
    proof (cases "keys V (env s)")
      case Nil
      with s1 P show ?thesis by (simp add: first_key_def KEY_RESIZE_def runs_bind runs_ret)
    next
      case (Cons c ks)
      obtain ch ks' where d: "drop_resize c ks = (ch, ks')" by force
      have no1: "- 1 \<notin> set (c # ks)" using Suc.prems(3) Cons by simp
      note drop = drop_resize_keys [OF no1 d] and pass = drop_resize_pass_on [OF no1 d room, of ?f v]
      let ?p = "key_step v ch ks'"
      have k1: "keys V (env s1) = ks" using g1 Cons by simp
      have len: "length (keys V (env s1)) < k" using Suc.prems(4) k1 Cons by simp
      have "runs (?turn c) s1 ?Q"
        unfolding runs_bind
      proof (rule runs_mono [OF runs_skip_resize [OF L g1(3) len]])
        fix r s2 assume "r = fst (drop_resize c (keys V (env s1))) \<and> moved V s1 (snd (drop_resize c (keys V (env s1)))) [] s2"
        then have s2: "r = ch" "moved V s ks' [] s2" using d k1 moved_trans [OF s1, of ks' "[]" s2] by simp_all
        then have g2: "g_vterm (globe s2) = v" "keys V (env s2) = ks'" "live V (env s2)" using v by (simp_all add: moved_def)
        show "runs (if r = - 1 then ret () else seq (if r = ESC then handle_arrows C else vterm_unichar C r) (input_loop k C)) s2 ?Q"
        proof (cases "ch = - 1")
          case True
          with s2 drop pass P Cons show ?thesis by (simp add: runs_ret)
        next
          case False
          have "runs (if ch = ESC then handle_arrows C else vterm_unichar C ch) s2 (\<lambda>_ s3. runs (input_loop k C) s3 ?Q)"
          proof (rule runs_mono [OF runs_pass_on [OF L g2(3,1)]])
            fix u s3 assume "moved V s2 (snd (key_step v ch (keys V (env s2)))) (fst (key_step v ch (keys V (env s2)))) s3"
            then have s3: "moved V s (snd ?p) (fst ?p) s3" using moved_trans [OF s2(2)] g2(2) by simp
            have g3: "live V (env s3)" "g_vterm (globe s3) = v" "keys V (env s3) = snd ?p" "push V (env s3) = ?f"
              "out V (env s3) = fold ?f (fst ?p) ?b"
              using s3 v by (simp_all add: moved_def)
            obtain evs' where evs: "evs = fst ?p @ evs'" "pass_on ?f cap v (snd ?p) (fold ?f (fst ?p) ?b) = (evs', rest, b)"
              using pass P Cons False by (cases "pass_on ?f cap v (snd ?p) (fold ?f (fst ?p) ?b)") auto
            have "runs (input_loop k C) s3 (\<lambda>_ s'. moved V s3 rest evs' s')"
              by (rule Suc.IH)
                (use g3 evs(2) drop key_step_keys [of ks' v ch] key_step_shorter [of v ch ks'] len k1 in \<open>simp_all\<close>)
            then show "runs (input_loop k C) s3 ?Q"
              by (rule runs_mono) (use moved_trans [OF s3] evs(1) in simp)
          qed
          with s2(1) False show ?thesis by (simp only: runs_seq if_False)
        qed
      qed
      then show ?thesis by (simp only: Cons first_key_def list.case)
    qed
  qed
  moreover have "moved V s rest evs s" if "\<not> length ?b < cap" using P that live by (simp add: moved_def)
  ultimately show ?case
    using room_left [OF O live]
    by (simp only: input_loop.simps(2) runs_bind [of "gets _"] runs_gets v) (simp add: runs_ret)
qed

section \<open>The output\<close>

lemma unat_minimum: "unat a \<le> 8192 \<Longrightarrow> unat (minimum a BUFSZ) = 8192"
  by (auto simp: minimum_def BUFSZ_def word_less_nat_alt)

lemma output_fill:
  assumes "output_laws C V v fd cap" "cap \<le> 8192" "live V e"
  shows "unat (out_fill C e v) = length (out V e)" "length (out V e) \<le> 8192"
proof -
  have "length (out V e) \<le> cap" using assms(1,3) by (simp add: output_laws_def)
  with assms(2) show le: "length (out V e) \<le> 8192" by simp
  then show "unat (out_fill C e v) = length (out V e)"
    using assms unat_of_nat_small [of "length (out V e)"] by (simp add: output_laws_def)
qed

lemma flush_empty:
  assumes "output_laws C V v fd cap" "cap \<le> 8192" "live V (env s)" "g_vterm (globe s) = v" "out V (env s) = []"
  shows "flush_loop (Suc k) C s = Done () s"
  using assms(4,5) output_fill(1) [OF assms(1-3)]
  by (simp add: bind_gets ret_def word_less_nat_alt)

text \<open>What the second loop does: the whole buffer goes into one call of \<open>write\<close>, if it holds anything.\<close>

definition flushed :: "'e console \<Rightarrow> 'e view \<Rightarrow> int \<Rightarrow> 'e world \<Rightarrow> 'e world \<Rightarrow> bool" where
  "flushed C V fd s s' \<longleftrightarrow> out V (env s') = [] \<and> keys V (env s') = keys V (env s) \<and> fed V (env s') = fed V (env s) \<and>
     (if out V (env s) = [] then sent V (env s') = sent V (env s)
      else \<exists>e answer. act C e (Write fd (out V (env s))) = (answer, env s') \<and>
        sent V (env s') = sent V (env s) @ taken answer (out V (env s))) \<and>
     globe s' = globe s \<and> blocks s' = blocks s"

lemma output_lawsD:
  assumes "output_laws C V v fd cap" "live V e"
  shows "out_read C e v n = (bs, e') \<Longrightarrow> bs = take (unat n) (out V e) \<and> live V e' \<and> out V e' = drop (unat n) (out V e) \<and>
      keys V e' = keys V e \<and> fed V e' = fed V e \<and> sent V e' = sent V e"
    "act C e (Write fd bs) = (r, e') \<Longrightarrow> live V e' \<and> sent V e' = sent V e @ taken r bs \<and>
      keys V e' = keys V e \<and> fed V e' = fed V e \<and> out V e' = out V e"
proof -
  note parts = assms(1) [unfolded output_laws_def, THEN conjunct2]
  show "out_read C e v n = (bs, e') \<Longrightarrow> bs = take (unat n) (out V e) \<and> live V e' \<and> out V e' = drop (unat n) (out V e) \<and>
      keys V e' = keys V e \<and> fed V e' = fed V e \<and> sent V e' = sent V e"
    using parts [THEN conjunct1, THEN spec [of _ e], THEN spec [of _ n], THEN mp, OF assms(2)] by simp
  show "act C e (Write fd bs) = (r, e') \<Longrightarrow> live V e' \<and> sent V e' = sent V e @ taken r bs \<and>
      keys V e' = keys V e \<and> fed V e' = fed V e \<and> out V e' = out V e"
    using parts [THEN conjunct2, THEN spec [of _ e], THEN spec [of _ bs], THEN mp, OF assms(2)] by simp
qed

lemma runs_flush_loop:
  assumes O: "output_laws C V v fd cap" "cap \<le> 8192" "live V (env s)" and v: "g_vterm (globe s) = v" "fd_master (globe s) = fd"
  shows "runs (flush_loop (Suc (Suc k)) C) s (\<lambda>_. flushed C V fd s)"
proof (cases "out V (env s) = []")
  case True
  with flush_empty [OF O v(1)] show ?thesis by (simp add: runs_def flushed_def del: flush_loop.simps)
next
  case False
  note fill = output_fill [OF O]
  let ?m = "minimum (out_fill C (env s) v) BUFSZ" and ?o = "out V (env s)"
  obtain bytes e' where r: "out_read C (env s) v ?m = (bytes, e')" by force
  have m: "unat ?m = 8192" by (rule unat_minimum) (use fill in simp)
  have e': "bytes = ?o" "live V e'" "out V e' = []" "keys V e' = keys V (env s)" "fed V e' = fed V (env s)" "sent V e' = sent V (env s)"
    using output_lawsD(1) [OF O(1,3) r] m fill(2) by simp_all
  let ?s1 = "s\<lparr>env := e'\<rparr>"
  have "runs (seq (perform C (Write fd bytes)) (flush_loop (Suc k) C)) ?s1 (\<lambda>_. flushed C V fd s)"
  proof (rule runs_perform_drop)
    fix n
    let ?s2 = "?s1\<lparr>env := did C (Write fd bytes) (env ?s1), errno_of := n\<rparr>"
    obtain answer e2 where w: "act C e' (Write fd bytes) = (answer, e2)" by force
    have e2: "live V e2" "sent V e2 = sent V (env s) @ taken answer ?o" "keys V e2 = keys V (env s)" "fed V e2 = fed V (env s)" "out V e2 = []"
      using output_lawsD(2) [OF O(1) e'(2) w] e' by simp_all
    have "env ?s2 = e2" using w by (simp add: did_def)
    moreover from this have "flush_loop (Suc k) C ?s2 = Done () ?s2"
      by (intro flush_empty [OF O(1,2)]) (use v e2 in simp_all)
    moreover have "flushed C V fd s ?s2"
      using False w e' e2 by (auto simp: flushed_def did_def)
    ultimately show "runs (flush_loop (Suc k) C) ?s2 (\<lambda>_. flushed C V fd s)" by (simp add: runs_def del: flush_loop.simps)
  qed
  moreover have "0 < out_fill C (env s) v" using fill(1) False by (simp add: word_less_nat_alt)
  moreover have "\<not> length bytes > unat BUFSZ" using e'(1) fill(2) by (simp add: BUFSZ_def)
  ultimately show ?thesis
    using v r by (simp add: flush_loop.simps(2) [of "Suc k"] runs_bind [of "gets _"] runs_gets runs_seq [of "modify _"] runs_modify
        del: flush_loop.simps)
qed

lemma runs_handle_input:
  assumes L: "key_laws C V v" and O: "output_laws C V v fd cap" "cap \<le> 8192" and v: "live V (env s)" "g_vterm (globe s) = v" "fd_master (globe s) = fd"
    and ks: "- 1 \<notin> set (keys V (env s))" "length (keys V (env s)) + 2 \<le> k"
    and P: "pass_on (push V (env s)) cap v (keys V (env s)) (out V (env s)) = (evs, rest, b)"
  shows "runs (handle_input k C) s (\<lambda>r s'. r = 0 \<and> keys V (env s') = rest \<and> fed V (env s') = fed V (env s) @ evs \<and> out V (env s') = [] \<and>
    (if b = [] then sent V (env s') = sent V (env s)
     else \<exists>e answer. act C e (Write fd b) = (answer, env s') \<and> sent V (env s') = sent V (env s) @ taken answer b) \<and>
    globe s' = globe s \<and> blocks s' = blocks s)" (is "runs _ _ ?Q")
proof -
  define j where "j = k - 2"
  then have j: "k = Suc (Suc j)" using ks(2) by simp
  have b: "b = fold (push V (env s)) evs (out V (env s))"
    using pass_on_translate [of "push V (env s)" cap v "keys V (env s)" "out V (env s)"] by (simp add: P)
  have loop: "runs (input_loop k C) s (\<lambda>_ s'. moved V s rest evs s')"
    by (rule runs_input_loop [OF L O v(1,2) ks(1) _ P]) (use ks(2) in simp)
  have "runs (seq (flush_loop k C) (ret 0)) s1 ?Q" if s1: "moved V s rest evs s1" for s1
  proof -
    have g1: "live V (env s1)" "g_vterm (globe s1) = v" "fd_master (globe s1) = fd" "out V (env s1) = b"
      using v s1 b by (simp_all add: moved_def)
    show ?thesis
      unfolding runs_seq j by (rule runs_mono [OF runs_flush_loop [OF O g1(1-3)]])
        (use s1 g1(4) in \<open>auto simp: runs_ret moved_def flushed_def\<close>)
  qed
  then show ?thesis
    unfolding handle_input_def runs_seq [of "input_loop _ _"] by (rule runs_mono [OF loop])
qed

lemma output_overflow:
  assumes "g_vterm (globe s) = v" "8192 < unat (out_fill C (env s) v)"
    and "length (fst (out_read C (env s) v (out_fill C (env s) v))) = unat (out_fill C (env s) v)"
  shows "flush_loop (Suc k) C s = Undefined"
proof -
  let ?n = "out_fill C (env s) v"
  have m: "minimum ?n BUFSZ = ?n" "0 < ?n"
    using assms(2) by (auto simp: minimum_def BUFSZ_def word_less_nat_alt)
  obtain bytes e' where "out_read C (env s) v ?n = (bytes, e')" by force
  with assms m show ?thesis
    by (simp add: bind_gets seq_modify BUFSZ_def undefined_prog_def)
qed

section \<open>The size of the window\<close>

text \<open>The calls of a resize; the size is what the screen reports after the refresh.\<close>

definition resized_env :: "'e console \<Rightarrow> ptr \<Rightarrow> 'e \<Rightarrow> 'e" where
  "resized_env C v e = after C [Vt_flush (vt_screen C e v), Endwin, Refresh] e"

definition new_rows :: "'e console \<Rightarrow> 'e \<Rightarrow> u16" where
  "new_rows C e = of_int (screen_rows C e) - 1"

definition new_cols :: "'e console \<Rightarrow> 'e \<Rightarrow> u16" where
  "new_cols C e = of_int (screen_cols C e)"

lemma runs_maxyx [runs_simps]:
  "runs (maxyx C) s Q \<longleftrightarrow> Q () (s\<lparr>globe := (globe s)\<lparr>ws_row := of_int (screen_rows C (env s)), ws_col := of_int (screen_cols C (env s))\<rparr>\<rparr>)"
  by (simp add: maxyx_def runs_bind runs_gets runs_set_globe)

lemma env_first:
  fixes s :: "'e world"
  shows "s\<lparr>globe := g, env := e\<rparr> = s\<lparr>env := e, globe := g\<rparr>" "s\<lparr>errno_of := n, env := e\<rparr> = s\<lparr>env := e, errno_of := n\<rparr>"
    "s\<lparr>errno_of := n, globe := g\<rparr> = s\<lparr>globe := g, errno_of := n\<rparr>"
  by simp_all

lemma runs_window_resize:
  fixes s :: "'e world"
  assumes "\<And>n. Q () (s\<lparr>env := after C [Vt_size v (new_rows C (resized_env C v (env s))) (new_cols C (resized_env C v (env s))),
        Set_winsize fd (new_rows C (resized_env C v (env s))) (new_cols C (resized_env C v (env s)))] (resized_env C v (env s)),
      globe := (globe s)\<lparr>ws_col := new_cols C (resized_env C v (env s)), ws_row := new_rows C (resized_env C v (env s))\<rparr>,
      errno_of := n\<rparr>)"
  shows "runs (window_resize C v fd) s Q"
proof -
  let ?e = "resized_env C v (env s)"
  let ?g = "(globe s)\<lparr>ws_col := new_cols C ?e, ws_row := new_rows C ?e\<rparr>"
  let ?k = "bind (gets globe) (\<lambda>g. seq (perform C (Vt_size v (ws_row g) (ws_col g)))
    (bind (gets globe) (\<lambda>g. seq (perform C (Set_winsize fd (ws_row g) (ws_col g))) (ret ()))))"
  have size: "runs ?k (s\<lparr>env := ?e, globe := ?g, errno_of := n\<rparr>) Q" for n
  proof -
    have "runs (seq (perform C (Set_winsize fd (new_rows C ?e) (new_cols C ?e))) (ret ()))
        (s\<lparr>env := did C (Vt_size v (new_rows C ?e) (new_cols C ?e)) ?e, globe := ?g, errno_of := m\<rparr>) Q" for m
      by (rule runs_perform_drop) (use assms in \<open>simp add: runs_ret env_first\<close>)
    then have "runs (seq (perform C (Vt_size v (new_rows C ?e) (new_cols C ?e)))
        (bind (gets globe) (\<lambda>g. seq (perform C (Set_winsize fd (ws_row g) (ws_col g))) (ret ()))))
        (s\<lparr>env := ?e, globe := ?g, errno_of := n\<rparr>) Q"
      by (intro runs_perform_drop) (simp add: runs_bind [of "gets _"] runs_gets env_first)
    then show ?thesis by (simp add: runs_bind [of "gets _"] runs_gets)
  qed
  have "runs (performs C [Vt_flush (vt_screen C (env s) v), Endwin, Refresh]
      (seq (maxyx C) (seq (set_globe (\<lambda>g. g\<lparr>ws_row := ws_row g - 1\<rparr>)) ?k))) s Q"
    by (rule runs_performs)
      (use size in \<open>simp add: runs_seq [of "maxyx _"] runs_seq [of "set_globe _"] runs_maxyx runs_bind [of "gets _"] runs_gets
        runs_set_globe resized_env_def new_rows_def new_cols_def env_first\<close>)
  then show ?thesis
    by (simp add: window_resize_def runs_bind [of "gets _"] runs_gets)
qed

section \<open>A small machine\<close>

text \<open>Keys that wait, the calls made, the output buffer and the bytes the pseudo terminal took. The virtual terminal echoes
  every character it is given as long as its buffer of three bytes has room; a \<open>write\<close> takes two bytes at most; the screen
  has 3 rows and 39 columns; the log can always be written.\<close>

type_synonym machine = "int list \<times> action list \<times> string \<times> string"

definition echo :: "action \<Rightarrow> string \<Rightarrow> string" where
  "echo a b = (case a of Vt_char v c \<Rightarrow> if length b < 3 then b @ [char_of (unat c)] else b | _ \<Rightarrow> b)"

definition did_machine :: "machine \<Rightarrow> action \<Rightarrow> machine" where
  "did_machine e a = (case e of (ks, acts, buf, tty) \<Rightarrow>
     (case a of Write fd bs \<Rightarrow> (ks, acts, buf, tty @ take 2 bs) | _ \<Rightarrow> (ks, acts @ [a], echo a buf, tty)))"

definition machine_answer :: "action \<Rightarrow> int" where
  "machine_answer a = (case a of Write fd bs \<Rightarrow> min 2 (int (length bs)) | _ \<Rightarrow> 0)"

definition sample_console :: "machine console" where
  "sample_console = \<lparr>act = (\<lambda>e a. (Inr (machine_answer a), did_machine e a)), screen_rows = (\<lambda>_. 3), screen_cols = (\<lambda>_. 39),
     cursor = (\<lambda>_. (1, 2)), cchar_ok = (\<lambda>_ _ _. True), get_key = (\<lambda>(ks, r). (first_key ks, (tl ks, r))),
     vt_new = (\<lambda>e _ _. (Ptr (Ext 1) 0, e)), vt_screen = (\<lambda>_ v. v),
     vt_cell = (\<lambda>_ _ _ _. \<lparr>cell_chars = [0], cell_width = 1, blink = False, bold = False, italic = False,
       reversed = False, underline = 0, cell_fg = 7, cell_bg = 0\<rparr>),
     out_room = (\<lambda>e _. of_nat (3 - length (fst (snd (snd e))))), out_fill = (\<lambda>e _. of_nat (length (fst (snd (snd e))))),
     out_read = (\<lambda>(ks, acts, buf, tty) _ n. (take (unat n) buf, (ks, acts, drop (unat n) buf, tty))),
     fd_read = (\<lambda>e _ _. (Inl 5, e)), fd_poll = (\<lambda>e _ _. (Poll_none, e)), file_append = (\<lambda>e _ _. Some e),
     pts_name = (\<lambda>_ _. None), winch = (\<lambda>e. (False, e)), str_error = (\<lambda>_. ''error'')\<rparr>"

definition machine_view :: "machine view" where
  "machine_view = \<lparr>live = (\<lambda>e. length (fst (snd (snd e))) \<le> 3), keys = fst, fed = (\<lambda>e. fst (snd e)), out = (\<lambda>e. fst (snd (snd e))),
     sent = (\<lambda>e. snd (snd (snd e))), push = (\<lambda>_. echo)\<rparr>"

lemma sample_key_laws: "key_laws sample_console machine_view v"
  by (auto simp: key_laws_def sample_console_def machine_view_def did_def did_machine_def echo_def)

lemma sample_output_laws: "output_laws sample_console machine_view v fd 3"
  by (auto simp: output_laws_def sample_console_def machine_view_def did_machine_def machine_answer_def taken_def echo_def min_def)

lemma sample_log_ok: "log_ok sample_console e"
proof -
  have "appends sample_console ms e = Some e" for ms by (induction ms) (simp_all add: sample_console_def)
  then show ?thesis by (simp add: log_ok_def)
qed

lemma callbacks_without_log:
  assumes "\<And>m. file_append C (env s) callback_log m = None" "str_of_ptr s p = Some x"
  shows "file_read_cb C p s = Undefined" "file_write_cb C p s = Undefined"
  using assms by (simp_all add: file_read_cb_def file_write_cb_def bind_def seq_def load_str_def reads_def oflogf_def
      gets_def undefined_prog_def)

lemma openat_undefined:
  assumes "peek_reports T" "mem_ok s" "never_oom s" "text_at k T (env s) pid (rsi regs) = Some x" "8 * k < 2 ^ 61"
    and "\<And>m. file_append C (env s) callback_log m = None" "access_mode regs \<in> {O_RDONLY, O_WRONLY, O_RDWR}"
  shows "syscall_openat k T \<lparr>t_cbs = shell_cbs C\<rparr> pid regs s = Undefined"
proof -
  obtain p s1 where r: "read_string k T pid (rsi regs) s = Done p s1" "has_string s x p s1"
    using runs_read_string [OF assms(1,2,4,5)] by (auto simp: runs_iff)
  then have p: "p \<noteq> null" "str_of_ptr s1 p = Some x" "env s1 = env s"
    using assms(3) io_ext_world(1) [of s s1] by (auto simp: has_string_def split: if_splits)
  note undef = callbacks_without_log [of C s1 p x, unfolded p(3), OF assms(6) p(2)]
  have "ask (file_read (shell_cbs C)) (access_mode regs = O_RDONLY \<or> access_mode regs = O_RDWR) p False s1 = Undefined \<or>
      ask (file_read (shell_cbs C)) (access_mode regs = O_RDONLY \<or> access_mode regs = O_RDWR) p False s1 = Done False s1 \<and>
      ask (file_write (shell_cbs C)) (access_mode regs = O_WRONLY \<or> access_mode regs = O_RDWR) p False s1 = Undefined"
    using assms(7) by (auto simp: ask_def shell_cbs_def bind_def undef ret_def)
  with p(1) r(1) show ?thesis
    by (auto simp: syscall_openat_def bind_Done [where m = "read_string k T pid (rsi regs)", OF r(1)] Let_def access_mode_def bind_def)
qed

text \<open>A console over the registers of the tracees; \<open>ok\<close> says whether the log can be written.\<close>

definition plain_console :: "bool \<Rightarrow> 'e console" where
  "plain_console ok = \<lparr>act = (\<lambda>e a. (Inr 0, e)), screen_rows = (\<lambda>_. 3), screen_cols = (\<lambda>_. 39), cursor = (\<lambda>_. (1, 2)),
     cchar_ok = (\<lambda>_ _ _. True), get_key = (\<lambda>e. (- 1, e)), vt_new = (\<lambda>e _ _. (Ptr (Ext 1) 0, e)),
     vt_screen = (\<lambda>_ v. v), vt_cell = (\<lambda>_ _ _ _. \<lparr>cell_chars = [0], cell_width = 1, blink = False, bold = False, italic = False,
       reversed = False, underline = 0, cell_fg = 7, cell_bg = 0\<rparr>), out_room = (\<lambda>_ _. 0), out_fill = (\<lambda>_ _. 9000),
     out_read = (\<lambda>e _ n. (replicate (min (unat n) 9000) (CHR ''x''), e)),
     fd_read = (\<lambda>e _ _. (Inl 5, e)), fd_poll = (\<lambda>e _ _. (Poll_none, e)), file_append = (\<lambda>e _ _. if ok then Some e else None),
     pts_name = (\<lambda>_ _. None), winch = (\<lambda>e. (False, e)), str_error = (\<lambda>_. ''error'')\<rparr>"

lemma plain_log_ok: "log_ok (plain_console True) e"
proof -
  have "appends (plain_console True) ms e = Some e" for ms by (induction ms) (simp_all add: plain_console_def)
  then show ?thesis by (simp add: log_ok_def)
qed

definition test_kernel :: "(int \<Rightarrow> user_regs) ptrace_os" where
  "test_kernel = sample_kernel\<lparr>os_peek := (\<lambda>e pid a. if a = 4096 then Inr 7310572984192823924 else if a = 4104 then Inr 28548172589462643 else Inl 5)\<rparr>"

definition write_regs :: user_regs where
  "write_regs = sample_regs\<lparr>rdx := 1\<rparr>"

lemma test_text: "text_at 2 test_kernel e pid 4096 = Some ''trace_test.file''"
proof -
  have a: "word_chars 7310572984192823924 = ''trace_te''" "word_chars 28548172589462643 = ''st.file'' @ [CHR 0x00]"
    by code_simp+
  have "text_at (Suc (Suc 0)) test_kernel e pid 4096 = Some ''trace_test.file''"
    by (simp add: test_kernel_def a)
  then show ?thesis by (simp only: numeral_2_eq_2)
qed

lemma test_kernel_facts:
  "peek_reports test_kernel" "os_getregs test_kernel e pid = Inr (e pid)" "orig_rax write_regs = SYS_openat"
  "rsi write_regs = 4096" "access_mode write_regs = O_WRONLY" "written test_kernel e pid regs r e' \<longleftrightarrow> r = 0 \<and> e' = e(pid := regs)"
  by (auto simp: peek_reports_def test_kernel_def sample_kernel_def write_regs_def sample_regs_def SYS_openat_def
      access_mode_def O_ACCMODE_def O_WRONLY_def written_def split: if_splits)

text \<open>What a signal does, and one that comes while the resize is under way, after the size was read: it is forgotten,
  because the flag is cleared behind it.\<close>

lemma runs_signals:
  assumes "winch C (env s) = (b, e)"
  shows "runs (signals C) s Q \<longleftrightarrow> Q () (s\<lparr>env := e, globe := (if b then (globe s)\<lparr>got_sigwinch := True\<rparr> else globe s)\<rparr>)"
  using assms by (simp add: signals_def runs_bind runs_gets runs_seq runs_modify sigwinch_handler_def runs_set_globe runs_ret)

lemma sigwinch_lost: "seq (signals C) clear_sigwinch s = clear_sigwinch (s\<lparr>env := snd (winch C (env s))\<rparr>)"
  by (cases "winch C (env s)")
    (simp add: signals_def sigwinch_handler_def clear_sigwinch_def set_globe_def seq_def bind_def gets_def modify_def ret_def)

section \<open>Properties\<close>

text \<open>C13: Under the shell the tracer enforces one rule: an \<open>openat\<close> that may write the path
  \<open>trace_test.file\<close>, spelled just so, is denied, and every other goes on unchanged; as long as the log of
  the callbacks can be written.\<close>

theorem shell_openat_policy:
  assumes "peek_reports T" "mem_ok s" "never_oom s" "log_ok C (env s)"
    and "text_at k T (env s) pid (rsi regs) = Some x" "8 * k < 2 ^ 61"
    and "os_getregs T (env s) pid = Inr regs" "orig_rax regs = SYS_openat" "last_syscall s \<noteq> SYS_openat"
  shows "runs (handle_syscalls k T \<lparr>t_cbs = shell_cbs C\<rparr> pid) s (\<lambda>r s'. (\<exists>e. log_ok C e \<and>
     written T e pid (if x = ''trace_test.file'' \<and> access_mode regs \<in> {O_WRONLY, O_RDWR}
       then regs\<lparr>orig_rax := - 1, rax := - 1\<rparr> else regs) r (env s')) \<and> blocks s' = blocks s)"
proof -
  have d: "denied (\<lambda>_. True) (\<lambda>x. x \<noteq> trace_test_file) (access_mode regs) x \<longleftrightarrow>
      x = ''trace_test.file'' \<and> access_mode regs \<in> {O_WRONLY, O_RDWR}"
    by (auto simp: denied_def trace_test_file_def)
  have "on_syscall (shell_cbs C) = None" by (simp add: shell_cbs_def)
  from runs_entry [OF shell.file_policy_axioms this assms(1,2,5,6,4,7,8,9,3)] show ?thesis
    unfolding d after_denial_minus by (rule runs_mono) blast
qed

theorem shell_openat_policy_witness:
  "runs (handle_syscalls 2 test_kernel \<lparr>t_cbs = shell_cbs (plain_console True)\<rparr> 7) (start_at (\<lambda>_. write_regs))
     (\<lambda>r s'. r = 0 \<and> orig_rax (env s' 7) = - 1)"
proof -
  have "runs (handle_syscalls 2 test_kernel \<lparr>t_cbs = shell_cbs (plain_console True)\<rparr> 7) (start_at (\<lambda>_. write_regs))
     (\<lambda>r s'. (\<exists>e. log_ok (plain_console True) e \<and> written test_kernel e 7
        (if ''trace_test.file'' = ''trace_test.file'' \<and> access_mode write_regs \<in> {O_WRONLY, O_RDWR}
         then write_regs\<lparr>orig_rax := - 1, rax := - 1\<rparr> else write_regs) r (env s')) \<and>
       blocks s' = blocks (start_at (\<lambda>_. write_regs)))"
    using shell_openat_policy [where T = test_kernel and s = "start_at (\<lambda>_. write_regs)" and regs = write_regs and k = 2 and pid = 7
        and x = "''trace_test.file''" and C = "plain_console True"]
    by (simp add: test_kernel_facts start_at_ok plain_log_ok test_text sample_opens)
  then show ?thesis by (rule runs_mono) (auto simp: test_kernel_facts)
qed

text \<open>The callbacks pass the result of \<open>fopen\<close> on without a look: where the log cannot be opened, the first
  \<open>openat\<close> of a traced program is undefined behaviour of the shell.\<close>

lemma openat_without_log:
  assumes "peek_reports T" "mem_ok s" "never_oom s" "\<And>m. file_append C (env s) callback_log m = None"
    and "text_at k T (env s) pid (rsi regs) = Some x" "8 * k < 2 ^ 61" "access_mode regs \<in> {O_RDONLY, O_WRONLY, O_RDWR}"
    and "os_getregs T (env s) pid = Inr regs" "orig_rax regs = SYS_openat" "last_syscall s \<noteq> SYS_openat"
  shows "handle_syscalls k T \<lparr>t_cbs = shell_cbs C\<rparr> pid s = Undefined"
proof -
  let ?s = "s\<lparr>last_syscall := SYS_openat\<rparr>"
  have tog: "toggled (last_syscall s) (orig_rax regs) = SYS_openat" "SYS_openat \<noteq> - 1"
    using assms(9,10) by (simp_all add: toggled_def SYS_openat_def)
  have "syscall_openat k T \<lparr>t_cbs = shell_cbs C\<rparr> pid regs ?s = Undefined"
    by (rule openat_undefined [OF assms(1)]) (use assms in \<open>simp_all add: never_oom_def mem_ok_def\<close>)
  moreover have "on_syscall (shell_cbs C) = None" by (simp add: shell_cbs_def)
  ultimately show ?thesis
    unfolding handle_syscalls_regs [OF assms(8)] tog
    using assms(9) tog(2) by (simp add: bind_ret) (simp add: bind_def)
qed

text \<open>C33: The keys that wait reach the virtual terminal as \<open>translate\<close> says, as long as its output buffer has room: with the
  buffer full the rest keeps waiting, and none is dropped. What the buffer then holds goes to the pseudo terminal in one
  \<open>write\<close>, all of it and in order, and what that call does not take is gone, since the buffer is empty behind it. An ESC that
  is the last key waiting, as when the ESC key is pressed alone, is followed by a character that was not typed,
  \<open>0xFFFFFFFF\<close>: the failed read is passed on.\<close>

theorem handle_input_translates:
  assumes "key_laws C V v" "output_laws C V v fd cap" "cap \<le> 8192" "live V (env s)" "g_vterm (globe s) = v" "fd_master (globe s) = fd"
    and "- 1 \<notin> set (keys V (env s))" "length (keys V (env s)) + 2 \<le> k"
    and "pass_on (push V (env s)) cap v (keys V (env s)) (out V (env s)) = (evs, rest, b)"
  shows "runs (handle_input k C) s (\<lambda>r s'. r = 0 \<and> keys V (env s') = rest \<and> fed V (env s') = fed V (env s) @ evs \<and>
      out V (env s') = [] \<and>
      (if b = [] then sent V (env s') = sent V (env s)
       else \<exists>e answer. act C e (Write fd b) = (answer, env s') \<and> sent V (env s') = sent V (env s) @ taken answer b) \<and>
      globe s' = globe s \<and> blocks s' = blocks s) \<and>
    evs @ translate v rest = translate v (keys V (env s)) \<and> (rest = [] \<or> cap \<le> length b) \<and>
    translate v [ESC] = [Vt_char v 27, Vt_char v 0xFFFFFFFF]"
proof -
  have "translate v [ESC] = [Vt_char v 27, Vt_char v 0xFFFFFFFF]"
    by (simp add: key_step_def arrow_step_def first_key_def ESC_def KEY_RESIZE_def)
  moreover have "evs @ translate v rest = translate v (keys V (env s))" "rest = [] \<or> cap \<le> length b"
    using pass_on_translate [of "push V (env s)" cap v "keys V (env s)" "out V (env s)"]
    unfolding assms(9) fst_conv snd_conv by blast+
  ultimately show ?thesis using runs_handle_input [OF assms] by blast
qed

theorem handle_input_translates_witness:
  "runs (handle_input 10 sample_console) (start_at ([104, 27, 91, 65, 105, 106, 107, 108], [], [], []))
     (\<lambda>r s'. r = 0 \<and> env s' = ([107, 108], [Vt_char null 104, Vt_key null KEY_UP, Vt_char null 105, Vt_char null 106], [], ''hi''))"
proof -
  let ?s = "start_at ([104, 27, 91, 65, 105, 106, 107, 108], [], [], []) :: machine world" and ?V = machine_view
  let ?evs = "[Vt_char null 104, Vt_key null KEY_UP, Vt_char null 105, Vt_char null 106]"
  have p: "pass_on (push ?V (env ?s)) 3 null (keys ?V (env ?s)) (out ?V (env ?s)) = (?evs, [107, 108], ''hij'')"
    by (simp add: start_at_ok machine_view_def echo_def key_step_def arrow_step_def first_key_def arrow_key_def ESC_def KEY_RESIZE_def
        char_of_def bit_0)
  have s: "live ?V (env ?s)" "g_vterm (globe ?s) = null" "fd_master (globe ?s) = 0" "- 1 \<notin> set (keys ?V (env ?s))"
    "length (keys ?V (env ?s)) + 2 \<le> 10"
    by (simp_all add: start_at_ok machine_view_def) (simp_all add: start_at_def start_globe_def)
  have "runs (handle_input 10 sample_console) ?s (\<lambda>r s'. r = 0 \<and> keys ?V (env s') = [107, 108] \<and> fed ?V (env s') = fed ?V (env ?s) @ ?evs \<and>
      out ?V (env s') = [] \<and>
      (if ''hij'' = [] then sent ?V (env s') = sent ?V (env ?s)
       else \<exists>e answer. act sample_console e (Write 0 ''hij'') = (answer, env s') \<and> sent ?V (env s') = sent ?V (env ?s) @ taken answer ''hij'') \<and>
      globe s' = globe ?s \<and> blocks s' = blocks ?s)"
    by (rule handle_input_translates [OF sample_key_laws sample_output_laws _ s p, THEN conjunct1]) simp
  then show ?thesis
    by (rule runs_mono) (auto simp: start_at_ok machine_view_def sample_console_def machine_answer_def taken_def prod_eq_iff)
qed

text \<open>C36: The buffer of \<open>handle_input\<close> has 8192 bytes, but \<open>minimum\<close> gives the larger of its arguments: where the
  virtual terminal holds more than that and hands out what it is asked for, the read runs past the buffer.\<close>

theorem input_buffer_overflow:
  assumes "out_room C (env s) (g_vterm (globe s)) = 0" "8192 < unat (out_fill C (env s) (g_vterm (globe s)))"
    and "\<And>n. length (fst (out_read C (env s) (g_vterm (globe s)) n)) = min (unat n) (unat (out_fill C (env s) (g_vterm (globe s))))"
  shows "handle_input (Suc k) C s = Undefined"
proof -
  have "input_loop (Suc k) C s = Done () s" using assms(1) by (simp add: bind_gets ret_def)
  moreover have "flush_loop (Suc k) C s = Undefined"
    by (rule output_overflow [OF refl assms(2)]) (simp add: assms(3))
  ultimately show ?thesis by (simp add: handle_input_def seq_def bind_def del: input_loop.simps flush_loop.simps)
qed

theorem input_buffer_overflow_witness:
  "handle_input 1 (plain_console True) (start_at (\<lambda>_. write_regs)) = Undefined"
  using input_buffer_overflow [of "plain_console True" "start_at (\<lambda>_. write_regs)" 0]
  by (simp add: plain_console_def)

text \<open>C34: A turn of the master loop draws one line exactly as wide as the screen, the status text cut or filled
  up with spaces, puts the cursor back and frees the line; without memory for it the code writes through NULL, and on a
  screen of \<open>INT_MAX\<close> columns the sum of the width and 1 overflows.\<close>

theorem status_bar_drawn:
  assumes "mem_ok s" "0 \<le> screen_cols C (env s)" "screen_cols C (env s) < 2 ^ 31"
  shows "if screen_cols C (env s) = 2 ^ 31 - 1 then status_bar C s = Undefined
    else if grants s (requests s)
    then runs (status_bar C) s (\<lambda>_ s'. blocks s' = blocks s \<and> globe s' = globe s \<and>
      env s' = after C [Move (screen_rows C (env s) - 1) 0, Init_pair 1 COLOR_WHITE COLOR_MAGENTA, Attron 1,
        Addstr (take (nat (screen_cols C (env s))) (prom_status @ replicate (nat (screen_cols C (env s))) (CHR '' ''))),
        Attroff 1, Move (fst (cursor C (env s))) (snd (cursor C (env s)))] (env s))
    else status_bar C s = Undefined"
proof (cases "screen_cols C (env s) = 2 ^ 31 - 1")
  case True
  then show ?thesis by (simp add: status_bar_def bind_gets INT_MAX_def undefined_prog_def)
next
  case False
  then have cols: "screen_cols C (env s) < INT_MAX" using assms(3) by (simp add: INT_MAX_def)
  show ?thesis
  proof (cases "grants s (requests s)")
    case True
    show ?thesis
      unfolding if_not_P [OF False] if_P [OF True] by (rule runs_mono [OF runs_status_bar [OF assms(1) True assms(2) cols]]) (simp add: bar_actions_def bar_text_def)
  qed (use status_bar_without_memory [OF assms(1) _ assms(2) cols] False in simp)
qed

theorem status_bar_drawn_witness:
  "runs (status_bar sample_console) (start_at ([], [], [], [])) (\<lambda>_ s'. fst (snd (env s')) =
     [Move 2 0, Init_pair 1 7 5, Attron 1, Addstr (''[prom]: prom is running...'' @ replicate 13 (CHR '' '')), Attroff 1, Move 1 2])"
proof -
  let ?s = "start_at ([], [], [], []) :: machine world"
  have "grants ?s (requests ?s)" by (simp add: start_at_def)
  then have "runs (status_bar sample_console) ?s (\<lambda>_ s'. blocks s' = blocks ?s \<and> globe s' = globe ?s \<and>
      env s' = after sample_console [Move 2 0, Init_pair 1 COLOR_WHITE COLOR_MAGENTA, Attron 1,
        Addstr (take 39 (prom_status @ replicate 39 (CHR '' ''))), Attroff 1, Move 1 2] (env ?s))"
    using status_bar_drawn [of ?s sample_console] by (simp add: start_at_ok sample_console_def)
  then show ?thesis
    by (rule runs_mono) (simp add: start_at_ok sample_console_def did_def did_machine_def prom_status_def
      COLOR_WHITE_def COLOR_MAGENTA_def)
qed

text \<open>After a change of the window the virtual terminal and the pseudo terminal get the same size, that of the
  refreshed screen less one row for the status bar (a screen of no rows wraps to 65535), and the flag is cleared, also where
  another signal has come meanwhile. Without a signal nothing is done.\<close>

lemma resize_reaches_both:
  assumes "winch C (env s) = (b, e0)" "e = after C [Vt_flush (vt_screen C e0 (g_vterm (globe s))), Endwin, Refresh] e0"
    and "e1 = after C [Vt_size (g_vterm (globe s)) (of_int (screen_rows C e) - 1) (of_int (screen_cols C e)),
      Set_winsize (fd_master (globe s)) (of_int (screen_rows C e) - 1) (of_int (screen_cols C e))] e"
  shows "runs (resize_if_asked C) s (\<lambda>_ s'. blocks s' = blocks s \<and> \<not> got_sigwinch (globe s') \<and>
    (if b \<or> got_sigwinch (globe s)
     then ws_row (globe s') = of_int (screen_rows C e) - 1 \<and> ws_col (globe s') = of_int (screen_cols C e) \<and> env s' = snd (winch C e1)
     else globe s' = globe s \<and> env s' = e0))"
proof -
  have e: "e = resized_env C (g_vterm (globe s)) e0" using assms(2) by (simp add: resized_env_def)
  have clear: "runs (seq (signals C) clear_sigwinch) s1 Q \<longleftrightarrow>
      Q () (s1\<lparr>env := snd (winch C (env s1)), globe := (globe s1)\<lparr>got_sigwinch := False\<rparr>\<rparr>)" for s1 :: "'a world" and Q
    by (simp add: runs_def sigwinch_lost) (simp add: clear_sigwinch_def set_globe_def modify_def)
  show ?thesis
  proof (cases "b \<or> got_sigwinch (globe s)")
    case True
    then show ?thesis
      unfolding resize_if_asked_def runs_seq [of "signals _"] runs_signals [OF assms(1)] runs_bind [of "gets _"] runs_gets e assms(3)
      by (auto simp: runs_seq [of "window_resize _ _ _"] clear new_rows_def new_cols_def intro!: runs_window_resize)
  next
    case False
    then show ?thesis
      unfolding resize_if_asked_def runs_seq [of "signals _"] runs_signals [OF assms(1)] runs_bind [of "gets _"] runs_gets
      by (simp add: runs_ret)
  qed
qed

end
