(* ===== verification/Shell_Child.thy ===== *)
theory Shell_Child
  imports Shell_Facts
begin

text \<open>
  What the forked child of \<open>src/shell/shell.c\<close> does: it becomes the shell on the slave side of the pseudo terminal,
  or ends with a message.
\<close>

section \<open>Calls that may fail\<close>

definition answer :: "'e console \<Rightarrow> action \<Rightarrow> 'e \<Rightarrow> int" where
  "answer C a e = (case fst (act C e a) of Inl _ \<Rightarrow> - 1 | Inr v \<Rightarrow> v)"

lemma perform_answer: "\<exists>n. perform C a s = Done (answer C a (env s)) (s\<lparr>env := did C a (env s), errno_of := n\<rparr>)"
proof -
  obtain x e where act: "act C (env s) a = (x, e)" by fastforce
  show ?thesis
  proof (cases x)
    case (Inl c)
    with act have "perform C a s = Done (- 1) (s\<lparr>env := did C a (env s), errno_of := c\<rparr>)"
      by (simp add: perform_def did_def bind_def gets_def seq_def modify_def ret_def set_errno_def)
    with act Inl show ?thesis by (auto simp: answer_def)
  next
    case (Inr v)
    with act have "perform C a s = Done v (s\<lparr>env := did C a (env s), errno_of := errno_of s\<rparr>)"
      by (simp add: perform_def did_def bind_def gets_def seq_def modify_def ret_def)
    with act Inr show ?thesis by (intro exI [of _ "errno_of s"]) (simp add: answer_def)
  qed
qed

text \<open>Calls in order up to the first that fails: what is outside then, and whether all went well.\<close>

fun tries :: "'e console \<Rightarrow> action list \<Rightarrow> 'e \<Rightarrow> 'e \<times> bool" where
  "tries C [] e = (e, True)"
| "tries C (a # as) e = (if answer C a e = - 1 then (did C a e, False) else tries C as (did C a e))"

definition raised :: "'e ptrace_os \<Rightarrow> 'e \<Rightarrow> 'e" where
  "raised T e = (case os_raise T e SIGSTOP of Inl _ \<Rightarrow> e | Inr e' \<Rightarrow> e')"

text \<open>\<open>at s e n\<close>: \<open>s\<close> but for the outside and \<open>errno\<close>.\<close>

definition at :: "'e world \<Rightarrow> 'e \<Rightarrow> int \<Rightarrow> 'e world" where
  "at s e n = s\<lparr>env := e, errno_of := n\<rparr>"

lemma at_simps [simp]:
  "env (at s e n) = e" "errno_of (at s e n) = n" "globe (at s e n) = globe s" "at (at s e n) e' n' = at s e' n'"
  "stderr_of (at s e n) = stderr_of s" "at s (env s) (errno_of s) = s"
  by (simp_all add: at_def env_first)

lemma bind_perform: "\<exists>n. bind (perform C a) f s = f (answer C a (env s)) (at s (did C a (env s)) n)"
  using perform_answer [of C a s] by (auto simp: bind_def at_def)

lemma performs_at: "\<exists>n. performs C as k s = k (at s (after C as (env s)) n)"
proof (induction as arbitrary: s)
  case Nil
  then show ?case using at_simps(6) [of s] by (metis after_simps(1) performs.simps(1))
next
  case (Cons a as)
  obtain n where "seq (perform C a) (performs C as k) s = performs C as k (at s (did C a (env s)) n)"
    using bind_perform [of C a "\<lambda>_. performs C as k" s] by (auto simp: seq_def)
  with Cons [of "at s (did C a (env s)) n"] show ?case by auto
qed

lemma tracee_init_at: "\<exists>n. seq (tracee_init T) k s = k (at s (raised T (env s)) n)"
proof (cases "os_raise T (env s) SIGSTOP")
  case (Inl c)
  then have "seq (tracee_init T) k s = k (at s (raised T (env s)) c)"
    by (simp add: tracee_init_def pt_call_def os_result_def seq_def bind_def gets_def set_errno_def modify_def ret_def raised_def at_def)
  then show ?thesis by blast
next
  case (Inr e)
  then have "seq (tracee_init T) k s = k (at s (raised T (env s)) (errno_of s))"
    by (simp add: tracee_init_def pt_call_def os_result_def seq_def bind_def gets_def modify_def ret_def raised_def at_def)
  then show ?thesis by blast
qed

section \<open>The child\<close>

text \<open>The calls whose answers are dropped: the size of the window, and the slave side as the three standard
  streams.\<close>

definition child_setup :: "global_state \<Rightarrow> action list" where
  "child_setup g = [Set_winsize (fd_slave g) (ws_row g) (ws_col g), Close (fd_master g),
     Dup2 (fd_slave g) 0, Dup2 (fd_slave g) 1, Dup2 (fd_slave g) 2, Close (fd_slave g)]"

definition child_calls :: "'e console \<Rightarrow> string \<Rightarrow> (int, 'e world) prog" where
  "child_calls C sh =
     bind (perform C Setsid) (\<lambda>r. if r = - 1 then ret (- 1) else
     bind (perform C (Set_ctty 0 1)) (\<lambda>r. if r = - 1 then ret (- 1) else
     bind (perform C (Exec sh)) (\<lambda>r. if r = - 1 then ret (- 1) else replaced_prog)))"

lemma slave_process_parts:
  "slave_process T C sh = seq (tracee_init T) (bind (gets globe) (\<lambda>g. performs C (child_setup g) (child_calls C sh)))"
  by (simp only: slave_process_def child_calls_def child_setup_def STDIN_FILENO_def STDOUT_FILENO_def STDERR_FILENO_def performs.simps)

lemma try_then:
  assumes "\<And>m. \<exists>n. k (at s (did C a e) m) = P n"
  shows "\<exists>n. bind (perform C a) (\<lambda>r. if r = - 1 then ret (- 1) else k) (at s e m) =
    (if answer C a e = - 1 then Done (- 1) (at s (did C a e) n) else P n)"
proof -
  obtain n where n: "bind (perform C a) (\<lambda>r. if r = - 1 then ret (- 1) else k) (at s e m) =
      (if answer C a e = - 1 then ret (- 1) else k) (at s (did C a e) n)"
    using bind_perform [of C a "\<lambda>r. if r = - 1 then ret (- 1) else k" "at s e m"] by auto
  obtain n' where "k (at s (did C a e) n) = P n'" using assms by blast
  with n show ?thesis by (cases "answer C a e = - 1") (auto simp: ret_def)
qed

lemma child_calls_at:
  "\<exists>n. child_calls C sh s = (let (e, ok) = tries C [Setsid, Set_ctty 0 1, Exec sh] (env s) in
      if ok then Replaced (at s e n) else Done (- 1) (at s e n))"
proof -
  let ?e1 = "did C Setsid (env s)"
  let ?e2 = "did C (Set_ctty 0 1) ?e1"
  let ?e3 = "did C (Exec sh) ?e2"
  have "\<exists>n. child_calls C sh (at s (env s) (errno_of s)) = (if answer C Setsid (env s) = - 1 then Done (- 1) (at s ?e1 n)
      else if answer C (Set_ctty 0 1) ?e1 = - 1 then Done (- 1) (at s ?e2 n)
      else if answer C (Exec sh) ?e2 = - 1 then Done (- 1) (at s ?e3 n) else Replaced (at s ?e3 n))"
    unfolding child_calls_def by (intro try_then) (auto simp: replaced_prog_def)
  then show ?thesis by auto
qed

lemma child_main_ends:
  "\<exists>n. child_main T C s =
    (let (e, ok) = tries C [Setsid, Set_ctty 0 1, Exec ''bash''] (after C (child_setup (globe s)) (raised T (env s))) in
     if ok then Replaced (s\<lparr>env := e, errno_of := n\<rparr>)
     else Exited 1 (s\<lparr>env := e, errno_of := n, stderr_of := stderr_of s @ ''Error: '' @ str_error C n @ nl\<rparr>))"
proof -
  let ?k = "child_calls C ''bash''"
  let ?e = "after C (child_setup (globe s)) (raised T (env s))"
  obtain n1 where n1: "slave_process T C ''bash'' s =
      bind (gets globe) (\<lambda>g. performs C (child_setup g) ?k) (at s (raised T (env s)) n1)"
    unfolding slave_process_parts using tracee_init_at by blast
  obtain n2 where n2: "performs C (child_setup (globe s)) ?k (at s (raised T (env s)) n1) = ?k (at s ?e n2)"
    using performs_at [of C "child_setup (globe s)" ?k "at s (raised T (env s)) n1"] by auto
  obtain n where n: "?k (at s ?e n2) = (let (e, ok) = tries C [Setsid, Set_ctty 0 1, Exec ''bash''] ?e in
      if ok then Replaced (at s e n) else Done (- 1) (at s e n))"
    using child_calls_at [of C "''bash''" "at s ?e n2"] by (auto simp: case_prod_unfold Let_def)
  have run: "slave_process T C ''bash'' s = (let (e, ok) = tries C [Setsid, Set_ctty 0 1, Exec ''bash''] ?e in
      if ok then Replaced (at s e n) else Done (- 1) (at s e n))"
    unfolding n1 n [symmetric] n2 [symmetric] by (simp add: bind_def gets_def)
  obtain e ok where t: "tries C [Setsid, Set_ctty 0 1, Exec ''bash''] ?e = (e, ok)" by fastforce
  have "child_main T C s = (if ok then Replaced (at s e n)
      else Exited 1 ((at s e n)\<lparr>stderr_of := stderr_of s @ ''Error: '' @ str_error C n @ nl\<rparr>))"
    using run unfolding t by (simp add: child_main_def SHELL_def bind_def gets_def errord_def logf_err_def print_err_def seq_def
      modify_def exit_prog_def log_lvl_to_msg_def)
  with t show ?thesis by (auto simp: at_def)
qed

section \<open>Property\<close>

text \<open>C17: The child never goes on as the shell's parent. It stops for its tracer, takes the slave side of the pseudo
  terminal as its standard streams, starts a session with that terminal and becomes \<open>bash\<close>; where one of the last
  three calls fails it ends with status 1 and the reason on \<open>stderr\<close>.\<close>

theorem child_becomes_shell:
  "\<exists>n. child_main T C s =
    (let (e, ok) = tries C [Setsid, Set_ctty 0 1, Exec ''bash''] (after C (child_setup (globe s)) (raised T (env s))) in
     if ok then Replaced (s\<lparr>env := e, errno_of := n\<rparr>)
     else Exited 1 (s\<lparr>env := e, errno_of := n, stderr_of := stderr_of s @ ''Error: '' @ str_error C n @ nl\<rparr>))"
  by (rule child_main_ends)

end
