(* ===== verification/Shell_Main.thy ===== *)
theory Shell_Main
  imports Shell_Facts
begin

text \<open>
  How the shell ends: the parent gives the screen back on every way out, and the loop that runs it cannot
  end the process by itself.
\<close>

section \<open>Code that does not call \<open>exit\<close>\<close>

definition never_exits :: "('a, 's) prog \<Rightarrow> bool" where
  "never_exits m \<longleftrightarrow> (\<forall>s c s'. m s \<noteq> Exited c s')"

named_theorems never_exits_intros \<open>code that does not call exit\<close>

lemma never_exits_basic [never_exits_intros]:
  "never_exits (ret a)" "never_exits undefined_prog" "never_exits replaced_prog" "never_exits (gets f)" "never_exits (reads g)" "never_exits (modify h)"
  "never_exits (writes w)" "never_exits (\<lambda>s. OutOfFuel)"
  by (simp_all add: never_exits_def prog_defs split: option.split)

lemma never_exits_bind [never_exits_intros]:
  "never_exits m \<Longrightarrow> (\<And>a. never_exits (f a)) \<Longrightarrow> never_exits (bind m f)"
  by (simp add: never_exits_def bind_def split: outcome.split)

lemma never_exits_bind_Done:
  "never_exits m \<Longrightarrow> (\<And>s a s'. m s = Done a s' \<Longrightarrow> never_exits (f a)) \<Longrightarrow> never_exits (bind m f)"
  by (auto simp: never_exits_def bind_def split: outcome.split)

lemma never_exits_seq [never_exits_intros]: "never_exits m \<Longrightarrow> never_exits k \<Longrightarrow> never_exits (seq m k)"
  by (simp add: seq_def never_exits_bind)

lemma never_exits_cases [never_exits_intros]:
  "never_exits m \<Longrightarrow> never_exits k \<Longrightarrow> never_exits (if b then m else k)"
  "never_exits m \<Longrightarrow> (\<And>a. never_exits (f a)) \<Longrightarrow> never_exits (case x of None \<Rightarrow> m | Some a \<Rightarrow> f a)"
  "(\<And>a. never_exits (g a)) \<Longrightarrow> (\<And>b. never_exits (h b)) \<Longrightarrow> never_exits (case y of Inl a \<Rightarrow> g a | Inr b \<Rightarrow> h b)"
  "(\<And>a b. never_exits (i a b)) \<Longrightarrow> never_exits (case z of (a, b) \<Rightarrow> i a b)"
  by (simp_all split: option.split sum.split prod.split)

lemma never_exits_calls [never_exits_intros]:
  "never_exits (set_errno e)" "never_exits (set_globe f)" "never_exits (perform C a)" "never_exits (getch C)"
  "never_exits (store_bytes p bs)" "never_exits (load_str p)" "never_exits (os_result r)" "never_exits (pt_call g)"
  "never_exits (snprintf p n x)"
  unfolding set_errno_def set_globe_def perform_def getch_def store_bytes_def load_str_def os_result_def pt_call_def snprintf_def
  by (intro never_exits_intros)+

lemma never_exits_heap [never_exits_intros]: "never_exits (malloc n)" "never_exits (free p)" "never_exits (realloc p n)"
  by (simp_all add: never_exits_def malloc_def free_def realloc_def bind_def modify_def undefined_prog_def ret_def Let_def
      split: outcome.splits option.splits ptr.splits base.splits)

lemma never_exits_for_each [never_exits_intros]: "(\<And>x. never_exits (f x)) \<Longrightarrow> never_exits (for_each f xs)"
  by (induction xs) (simp_all add: never_exits_intros)

section \<open>The tracer and the master loop\<close>

lemma never_exits_read_loop [never_exits_intros]: "never_exits (read_loop k T child addr al v rd)"
proof (induction k arbitrary: al v rd)
  case 0
  show ?case by (simp add: never_exits_intros)
next
  case (Suc k)
  show ?case
    unfolding read_loop.simps Let_def peek_text_def by (intro never_exits_intros Suc.IH)
qed

lemma never_exits_callbacks [never_exits_intros]:
  "never_exits (file_read_cb C p)" "never_exits (file_write_cb C p)"
  unfolding file_read_cb_def file_write_cb_def oflogf_def by (intro never_exits_intros)+

lemma never_exits_ask [never_exits_intros]:
  "never_exits (ask (file_read (shell_cbs C)) b p d)" "never_exits (ask (file_write (shell_cbs C)) b p d)"
  by (simp_all add: ask_def shell_cbs_def never_exits_intros)

lemma never_exits_tracer_loop [never_exits_intros]: "never_exits (tracer_loop k T \<lparr>t_cbs = shell_cbs C\<rparr>)"
proof -
  have entry: "never_exits (handle_syscalls k T \<lparr>t_cbs = shell_cbs C\<rparr> pid)" for pid
    unfolding handle_syscalls_def getregs_def setregs_def resume_def syscall_openat_def read_string_def Let_def
    by (simp add: shell_cbs_def [of C, THEN arg_cong [where f = on_syscall]], intro never_exits_intros) (simp_all add: never_exits_intros)
  show ?thesis
    unfolding tracer_loop_def handle_stopped_def handle_sigtrap_def resume_def
    by (intro never_exits_intros) (auto split: wait_answer.split intro!: never_exits_intros entry)
qed

lemma never_exits_loops [never_exits_intros]:
  "never_exits (pad_loop k q i)" "never_exits (skip_resize k C ch)" "never_exits (flush_loop k C)"
proof -
  show "never_exits (pad_loop k q i)" by (induction k arbitrary: i) (simp_all add: never_exits_intros)
  show "never_exits (skip_resize k C ch)" by (induction k arbitrary: ch) (simp_all add: never_exits_intros)
  show "never_exits (flush_loop k C)"
  proof (induction k)
    case (Suc k)
    show ?case unfolding flush_loop.simps by (intro never_exits_intros Suc.IH)
  qed (simp add: never_exits_intros)
qed

lemma never_exits_input [never_exits_intros]: "never_exits (handle_input k C)" "never_exits (handle_output C)"
proof -
  have arrows: "never_exits (handle_arrows C)"
    unfolding handle_arrows_def vterm_key_def vterm_unichar_def by (intro never_exits_intros)
  have "never_exits (input_loop k C)"
  proof (induction k)
    case (Suc k)
    show ?case unfolding input_loop.simps vterm_unichar_def by (intro never_exits_intros arrows Suc.IH)
  qed (simp add: never_exits_intros)
  then show "never_exits (handle_input k C)" unfolding handle_input_def by (intro never_exits_intros)
  show "never_exits (handle_output C)" unfolding handle_output_def Let_def by (intro never_exits_intros)
qed

lemma never_exits_turn [never_exits_intros]:
  "never_exits (resize_if_asked C)" "never_exits (status_bar C)" "never_exits (poll_turn k C)"
proof -
  show "never_exits (resize_if_asked C)"
    unfolding resize_if_asked_def window_resize_def maxyx_def clear_sigwinch_def signals_def sigwinch_handler_def
    by (intro never_exits_intros)
  show "never_exits (status_bar C)"
    unfolding status_bar_def set_status_bar_def draw_status_bar_def Let_def by (intro never_exits_intros)
  show "never_exits (poll_turn k C)"
    unfolding poll_turn_def by (intro never_exits_intros) (auto split: poll_answer.split intro!: never_exits_intros)
qed

lemma never_exits_master: "never_exits (master_process j k T C)"
proof -
  have loop: "never_exits (master_loop j k T C \<lparr>t_cbs = shell_cbs C\<rparr>)"
  proof (induction j)
    case (Suc j)
    show ?case
      unfolding master_loop.simps by (intro never_exits_intros) (auto split: turn.split intro!: never_exits_intros Suc.IH)
  qed (simp add: never_exits_intros)
  have tr: "tr = \<lparr>t_cbs = shell_cbs C\<rparr>" if "tracer_init T (shell_cbs C) pid s = Done (tr, r) s'" for pid s tr r s'
    using that by (auto simp: tracer_init_def Let_def seq_def bind_def ret_def modify_def split: outcome.splits if_splits)
  have init: "never_exits (tracer_init T (shell_cbs C) pid)" for pid
    unfolding tracer_init_def resume_def Let_def by (intro never_exits_intros)
  show ?thesis
    unfolding master_process_def
  proof (intro never_exits_bind [OF never_exits_basic(4)] never_exits_seq never_exits_calls never_exits_bind_Done [OF init])
    fix g pid s a s' assume "tracer_init T (shell_cbs C) pid s = Done a s'"
    then show "never_exits (case a of (tr, _) \<Rightarrow> master_loop j k T C tr)"
      using tr loop by (cases a) simp
  qed
qed

section \<open>Ways out\<close>

definition exits :: "('a, 's) prog \<Rightarrow> 's \<Rightarrow> (int \<Rightarrow> 's \<Rightarrow> bool) \<Rightarrow> bool" where
  "exits m s P \<longleftrightarrow> (\<forall>c s'. m s = Exited c s' \<longrightarrow> P c s')"

lemma exits_never: "never_exits m \<Longrightarrow> exits m s P"
  by (simp add: exits_def never_exits_def)

lemma exits_bind: "never_exits m \<Longrightarrow> (\<And>a s'. m s = Done a s' \<Longrightarrow> exits (f a) s' P) \<Longrightarrow> exits (bind m f) s P"
  by (auto simp: exits_def never_exits_def bind_def split: outcome.splits)

lemma exits_seq: "never_exits m \<Longrightarrow> (\<And>a s'. m s = Done a s' \<Longrightarrow> exits k s' P) \<Longrightarrow> exits (seq m k) s P"
  unfolding seq_def by (rule exits_bind)

lemma exits_if: "(b \<Longrightarrow> exits m s P) \<Longrightarrow> (\<not> b \<Longrightarrow> exits k s P) \<Longrightarrow> exits (if b then m else k) s P"
  by simp

text \<open>\<open>restored C\<close>: the exit status is 1 and the last call of the libraries was the one that gives the screen back.\<close>

definition restored :: "'e console \<Rightarrow> int \<Rightarrow> 'e world \<Rightarrow> bool" where
  "restored C c s \<longleftrightarrow> c = 1 \<and> (\<exists>e. env s = did C Endwin e)"

lemma perform_Done: "perform C a s = Done r s' \<Longrightarrow> env s' = did C a (env s) \<and> globe s' = globe s"
  by (auto simp: perform_def bind_def gets_def seq_def modify_def set_errno_def ret_def did_def split: prod.splits sum.splits)

lemma errord_exits: "errord msg s = Exited 1 (s\<lparr>stderr_of := stderr_of s @ ''Error'' @ '': '' @ msg\<rparr>)"
  by (simp add: errord_def logf_err_def print_err_def seq_def bind_def modify_def exit_prog_def log_lvl_to_msg_def)

lemma cleanup_Done:
  assumes "cleanup C s = Done r s'"
  shows "\<exists>e. env s' = did C Endwin e"
  using assms perform_Done [of C Endwin]
  by (fastforce simp: cleanup_def bind_def gets_def seq_def ret_def split: outcome.splits)

lemma never_exits_cleanup: "never_exits (cleanup C)"
  unfolding cleanup_def by (intro never_exits_intros)

lemma errord_clean_restored: "exits (errord_clean C msg) s (restored C)" "exits (errord_errno C what) s (restored C)"
  unfolding errord_clean_def errord_errno_def
  by (intro exits_seq never_exits_cleanup;
      auto simp: exits_def errord_exits restored_def bind_def gets_def dest!: cleanup_Done)+

lemma parent_main_restored: "exits (parent_main j k T C) s (restored C)"
  unfolding parent_main_def
  by (intro exits_bind exits_if errord_clean_restored never_exits_master never_exits_intros exits_never never_exits_cleanup)

lemma never_exits_slave: "never_exits (slave_process T C sh)"
  unfolding slave_process_def tracee_init_def by (intro never_exits_intros)

lemma never_exits_setup [never_exits_intros]:
  "never_exits (init_ncurses C)" "never_exits (maxyx C)" "never_exits (init_vterm C r c)" "never_exits (new_master_pty C)"
  unfolding init_ncurses_def maxyx_def init_vterm_def new_master_pty_def by (intro never_exits_intros)+

text \<open>\<open>in_child T C\<close>: the process is the child, which \<open>fork\<close> has told by its answer 0, and that part of the code has ended
  it.\<close>

definition in_child :: "'e ptrace_os \<Rightarrow> 'e console \<Rightarrow> int \<Rightarrow> 'e world \<Rightarrow> bool" where
  "in_child T C c s \<longleftrightarrow> (\<exists>s0 s1. perform C Fork s0 = Done 0 s1 \<and>
     child_main T C (s1\<lparr>globe := (globe s1)\<lparr>pid_child := 0\<rparr>\<rparr>) = Exited c s)"

definition settled :: "'e ptrace_os \<Rightarrow> 'e console \<Rightarrow> int \<Rightarrow> 'e world \<Rightarrow> bool" where
  "settled T C c s \<longleftrightarrow> c = 1 \<and> ((\<exists>e. env s = did C Endwin e) \<or> in_child T C c s)"

lemma restored_settled: "exits m s (restored C) \<Longrightarrow> exits m s (settled T C)"
  by (auto simp: exits_def restored_def settled_def)

lemma child_main_exits: "exits (child_main T C) s (\<lambda>c _. c = 1)"
  unfolding child_main_def
  by (rule exits_bind [OF never_exits_slave]) (auto simp: exits_def bind_gets errord_exits ret_def split: if_splits)

lemma fork_settled:
  assumes "perform C Fork s = Done pid s1"
  shows "exits (seq (set_globe (\<lambda>g. g\<lparr>pid_child := pid\<rparr>))
    (if pid = - 1 then errord_errno C what else if pid = 0 then child_main T C else parent_main j k T C)) s1 (settled T C)"
proof -
  let ?s = "s1\<lparr>globe := (globe s1)\<lparr>pid_child := pid\<rparr>\<rparr>"
  have step: "exits (seq (set_globe (\<lambda>g. g\<lparr>pid_child := pid\<rparr>)) m) s1 P = exits m ?s P" for m :: "(int, 'a world) prog" and P
    by (simp add: exits_def seq_def bind_def set_globe_def modify_def)
  have "exits (child_main T C) ?s (settled T C)" if "pid = 0"
    using child_main_exits [of T C ?s] assms that by (auto simp: exits_def settled_def in_child_def)
  then show ?thesis
    unfolding step by (intro exits_if restored_settled [OF errord_clean_restored(2)] restored_settled [OF parent_main_restored])
qed

lemma run_shell_settled: "exits (run_shell j k T C) s (settled T C)"
  unfolding run_shell_def
  by (intro fork_settled exits_seq [OF never_exits_calls(2)] exits_seq [OF never_exits_calls(3)] exits_seq [OF never_exits_setup(1)]
      exits_seq [OF never_exits_setup(2)] exits_bind [OF never_exits_basic(4)] exits_bind [OF never_exits_setup(3)]
      exits_bind [OF never_exits_setup(4)] exits_bind [OF never_exits_calls(3)] exits_if restored_settled errord_clean_restored)

text \<open>A machine without pseudo terminals that keeps the calls made.\<close>

definition idle_kernel :: "'e ptrace_os" where
  "idle_kernel = \<lparr>os_raise = (\<lambda>e _. Inr e), os_wait_stopped = (\<lambda>e _. e), os_wait_any = (\<lambda>e. (NoChange, e)),
     os_seize = (\<lambda>_ _ _. Inl 1), os_interrupt = (\<lambda>_ _. Inl 1), os_resume = (\<lambda>_ _ _. Inl 1), os_kill = (\<lambda>_ _ _. Inl 1),
     os_getregs = (\<lambda>_ _. Inl 3), os_setregs = (\<lambda>_ _ _. Inl 1), os_peek = (\<lambda>_ _ _. Inl 5)\<rparr>"

definition no_pty :: "action list console" where
  "no_pty = (plain_console True)\<lparr>act := (\<lambda>e a. (if a = Openpt then Inl 2 else Inr (if a = Fork then 7 else 0), e @ [a]))\<rparr>"

lemma no_pty_exits: "\<exists>s'. shell_main_entry 1 1 idle_kernel no_pty (start_at []) = Exited 1 s'"
  by (simp add: shell_main_entry_def run_shell_def perform_def bind_def gets_def seq_def modify_def ret_def no_pty_def
      init_ncurses_def maxyx_def set_globe_def init_vterm_def new_master_pty_def errord_errno_def cleanup_def errord_exits
      plain_console_def set_errno_def start_at_def start_globe_def)

section \<open>Property\<close>

text \<open>C16: Where the shell calls \<open>exit\<close> the status is 1, and the process has given the screen back with its last call of
  the libraries, whichever step of the set-up or of the session has failed. Two exits are not of this kind, and neither has a
  screen to give back: the signal handler could not be set up, which is the only call made by then, and the process is the
  child of the \<open>fork\<close>.\<close>

theorem shell_exit_restores:
  assumes "shell_main_entry j k T C s = Exited c s'"
  shows "c = 1 \<and> ((\<exists>e. env s' = did C Endwin e) \<or>
    (\<exists>s1. perform C Sigaction s = Done (- 1) s1 \<and> env s' = env s1) \<or>
    (\<exists>s0 s1. perform C Fork s0 = Done 0 s1 \<and> child_main T C (s1\<lparr>globe := (globe s1)\<lparr>pid_child := 0\<rparr>\<rparr>) = Exited c s'))"
proof -
  let ?P = "\<lambda>c s'. c = 1 \<and> ((\<exists>e. env s' = did C Endwin e) \<or>
    (\<exists>s1. perform C Sigaction s = Done (- 1) s1 \<and> env s' = env s1) \<or> in_child T C c s')"
  have "exits (shell_main_entry j k T C) s ?P"
    unfolding shell_main_entry_def
  proof (rule exits_bind [OF never_exits_calls(3)])
    fix r s1 assume r: "perform C Sigaction s = Done r s1"
    show "exits (if r = - 1 then errord (''could not set up signal handler'' @ ''.'' @ nl) else run_shell j k T C) s1 ?P"
    proof (cases "r = - 1")
      case True
      with r show ?thesis by (auto simp: exits_def errord_exits)
    next
      case False
      with run_shell_settled [of j k T C s1] show ?thesis by (auto simp: exits_def settled_def)
    qed
  qed
  with assms have "?P c s'" unfolding exits_def by blast
  then show ?thesis unfolding in_child_def .
qed

theorem shell_exit_restores_witness:
  "\<exists>s'. shell_main_entry 1 1 idle_kernel no_pty (start_at []) = Exited 1 s' \<and> last (env s') = Endwin"
proof -
  obtain s' where s': "shell_main_entry 1 1 idle_kernel no_pty (start_at []) = Exited 1 s'"
    using no_pty_exits by blast
  have "perform no_pty Sigaction s0 \<noteq> Done (- 1) s1" "perform no_pty Fork s0 \<noteq> Done 0 s1" for s0 s1
    by (simp_all add: perform_def bind_def gets_def seq_def modify_def ret_def no_pty_def)
  then obtain e where "env s' = did no_pty Endwin e"
    using shell_exit_restores [OF s'] by auto
  then have "last (env s') = Endwin" by (simp add: did_def no_pty_def)
  with s' show ?thesis by blast
qed

end
