(* ===== verification/Session.thy ===== *)
theory Session
  imports Shell_Main
begin

text \<open>
  A whole session of the shell of \<open>src/shell/shell.c\<close>: every turn of the master loop returns, whatever the tracees do, and the
  loop ends once the other side of the pseudo terminal has hung up.
\<close>

section \<open>One turn of the tracer\<close>

lemma runs_write_back_any: "runs (write_back T pid regs) s (\<lambda>r s'. r \<in> {0, - 1} \<and> blocks s' = blocks s)"
  by (auto simp: write_back_def setregs_def resume_def runs_simps split: sum.split)

lemma runs_resume: "runs (resume T pid n) s (\<lambda>r s'. r \<in> {0, - 1} \<and> blocks s' = blocks s)"
  by (auto simp: resume_def runs_simps split: sum.split)

lemma runs_handle_syscalls_any:
  assumes "file_policy fine cbs may_read may_write" "on_syscall cbs = None" "peek_reports T" "mem_ok s" "fine (env s)"
    and "\<And>a. text_at k T (env s) pid a \<noteq> None" "8 * k < 2 ^ 61"
  shows "runs (handle_syscalls k T \<lparr>t_cbs = cbs\<rparr> pid) s (\<lambda>r s'. r \<in> {0, - 1} \<and> blocks s' = blocks s)"
    (is "runs _ s ?Q")
proof (cases "os_getregs T (env s) pid")
  case (Inl e)
  then show ?thesis
    by (auto simp: handle_syscalls_def getregs_def runs_simps set_errno_def resume_def split: sum.split)
next
  case (Inr regs)
  let ?n = "toggled (last_syscall s) (orig_rax regs)" and ?wb = "\<lambda>perm. write_back T pid (if perm = - 1
      then regs\<lparr>orig_rax := of_int (- EPERM), rax := of_int (- EPERM)\<rparr> else regs)"
  let ?s = "s\<lparr>last_syscall := ?n\<rparr>"
  have s: "mem_ok ?s" "fine (env ?s)" "blocks ?s = blocks s" using assms(4,5) by (simp_all add: mem_ok_def)
  have same: "handle_syscalls k T \<lparr>t_cbs = cbs\<rparr> pid s = bind (if orig_rax regs = SYS_openat \<and> ?n \<noteq> - 1
      then syscall_openat k T \<lparr>t_cbs = cbs\<rparr> pid regs else ret 0) ?wb ?s"
    using assms(2) by (simp add: handle_syscalls_regs [OF Inr] bind_ret cong: if_cong)
  have wb: "runs (?wb perm) s1 ?Q" if "blocks s1 = blocks s" for perm and s1 :: "'a world"
    using runs_write_back_any [of T pid "if perm = - 1 then regs\<lparr>orig_rax := of_int (- EPERM), rax := of_int (- EPERM)\<rparr> else regs" s1]
      that by simp
  obtain x where x: "text_at k T (env ?s) pid (rsi regs) = Some x" using assms(6) by fastforce
  have "runs (bind (if orig_rax regs = SYS_openat \<and> ?n \<noteq> - 1 then syscall_openat k T \<lparr>t_cbs = cbs\<rparr> pid regs else ret 0) ?wb) ?s ?Q"
  proof (cases "orig_rax regs = SYS_openat \<and> ?n \<noteq> - 1")
    case True
    have "runs (bind (syscall_openat k T \<lparr>t_cbs = cbs\<rparr> pid regs) ?wb) ?s ?Q"
      unfolding runs_bind
      by (rule runs_mono [OF file_policy.runs_syscall_openat [OF assms(1,3) s(1) x assms(7) s(2)]]) (rule wb, simp)
    then show ?thesis unfolding if_P [OF True] .
  next
    case False
    show ?thesis unfolding if_not_P [OF False] runs_bind runs_ret by (rule wb) simp
  qed
  with same show ?thesis by (simp add: runs_def)
qed

definition tracer_ready :: "nat \<Rightarrow> 'e ptrace_os \<Rightarrow> 'e console \<Rightarrow> 'e \<Rightarrow> bool" where
  "tracer_ready k T C e \<longleftrightarrow> log_ok C e \<and> (\<forall>pid a. text_at k T e pid a \<noteq> None)"

lemma runs_tracer_loop:
  assumes "peek_reports T" "8 * k < 2 ^ 61" "mem_ok s" "tracer_ready k T C (snd (os_wait_any T (env s)))"
  shows "runs (tracer_loop k T \<lparr>t_cbs = shell_cbs C\<rparr>) s (\<lambda>r s'. r \<in> {0, - 1} \<and> blocks s' = blocks s)" (is "runs _ s ?Q")
proof -
  obtain a e where w: "os_wait_any T (env s) = (a, e)" by fastforce
  let ?s = "s\<lparr>env := e\<rparr>"
  have ok: "mem_ok ?s" "log_ok C (env ?s)" "\<And>pid a. text_at k T (env ?s) pid a \<noteq> None"
    using assms(3,4) w by (simp_all add: tracer_ready_def mem_ok_def)
  have cbs: "on_syscall (shell_cbs C) = None" by (simp add: shell_cbs_def)
  have "runs (handle_stopped k T \<lparr>t_cbs = shell_cbs C\<rparr> pid ev sig) ?s ?Q" for pid ev sig
    using runs_handle_syscalls_any [OF shell.file_policy_axioms cbs assms(1) ok(1,2,3) assms(2)]
      runs_resume [of T pid 0 ?s] runs_resume [of T pid sig ?s]
    by (simp add: handle_stopped_def handle_sigtrap_def)
  then show ?thesis
    using w by (auto simp: tracer_loop_def runs_simps set_errno_def split: wait_answer.split)
qed

section \<open>The outside of a session\<close>

text \<open>\<open>ok\<close> are the states of the outside a session can meet: the virtual terminal lives and the pseudo terminal is open.
  \<open>left\<close> is how many polls it takes at most until the other side hangs up. \<open>follows\<close>: a call of a library or of the kernel
  leads from one such state to another and does not put the end off; this is asked of every call but \<open>poll\<close>, which waits for
  the others to go on. \<open>own\<close> are the calls on the two terminals of the session and those that concern neither; a call that
  frees the virtual terminal or closes the pseudo terminal is none, and no law speaks of one on another object.\<close>

definition follows :: "('e \<Rightarrow> bool) \<Rightarrow> ('e \<Rightarrow> nat) \<Rightarrow> 'e \<Rightarrow> 'e \<Rightarrow> bool" where
  "follows ok left e e' \<longleftrightarrow> (ok e \<longrightarrow> ok e' \<and> left e' \<le> left e)"

definition own :: "'e console \<Rightarrow> ptr \<Rightarrow> int \<Rightarrow> action \<Rightarrow> bool" where
  "own C v fd a \<longleftrightarrow> (case a of
     Vt_free u \<Rightarrow> False | Vt_utf8 u n \<Rightarrow> u = v | Vt_size u r c \<Rightarrow> u = v | Vt_key u k \<Rightarrow> u = v | Vt_char u c \<Rightarrow> u = v
   | Vt_input u bs \<Rightarrow> u = v | Vt_altscreen p n \<Rightarrow> (\<exists>e. p = vt_screen C e v) | Vt_reset p n \<Rightarrow> (\<exists>e. p = vt_screen C e v)
   | Vt_callbacks p \<Rightarrow> (\<exists>e. p = vt_screen C e v) | Vt_flush p \<Rightarrow> (\<exists>e. p = vt_screen C e v)
   | Write f bs \<Rightarrow> f = fd | Close f \<Rightarrow> f \<noteq> fd | Set_winsize f r c \<Rightarrow> f = fd | Grantpt f \<Rightarrow> f = fd | Unlockpt f \<Rightarrow> f = fd
   | Getfl f \<Rightarrow> f = fd | Setfl f n \<Rightarrow> f = fd
   | Openpt \<Rightarrow> False | Dup2 f n \<Rightarrow> False | Setsid \<Rightarrow> False | Set_ctty f n \<Rightarrow> False | Exec x \<Rightarrow> False | _ \<Rightarrow> True)"

definition console_follows :: "'e console \<Rightarrow> ptr \<Rightarrow> int \<Rightarrow> ('e \<Rightarrow> bool) \<Rightarrow> ('e \<Rightarrow> nat) \<Rightarrow> bool" where
  "console_follows C v fd ok left \<longleftrightarrow> (\<forall>e a. own C v fd a \<longrightarrow> follows ok left e (did C a e)) \<and>
     (\<forall>e. follows ok left e (snd (get_key C e))) \<and> (\<forall>e n. follows ok left e (snd (out_read C e v n))) \<and>
     (\<forall>e n. follows ok left e (snd (fd_read C e fd n))) \<and> (\<forall>e. follows ok left e (snd (winch C e))) \<and>
     (\<forall>e f m e'. file_append C e f m = Some e' \<longrightarrow> follows ok left e e')"

definition kernel_follows :: "'e ptrace_os \<Rightarrow> ('e \<Rightarrow> bool) \<Rightarrow> ('e \<Rightarrow> nat) \<Rightarrow> bool" where
  "kernel_follows T ok left \<longleftrightarrow> (\<forall>e. follows ok left e (snd (os_wait_any T e))) \<and>
     (\<forall>e pid. follows ok left e (os_wait_stopped T e pid)) \<and>
     (\<forall>e e' pid o'. os_seize T e pid o' = Inr e' \<longrightarrow> follows ok left e e') \<and>
     (\<forall>e e' pid. os_interrupt T e pid = Inr e' \<longrightarrow> follows ok left e e') \<and>
     (\<forall>e e' pid n. os_resume T e pid n = Inr e' \<longrightarrow> follows ok left e e') \<and>
     (\<forall>e e' pid n. os_kill T e pid n = Inr e' \<longrightarrow> follows ok left e e') \<and>
     (\<forall>e e' pid regs. os_setregs T e pid regs = Inr e' \<longrightarrow> follows ok left e e')"

lemma kernel_followsD:
  assumes "kernel_follows T ok left"
  shows "follows ok left e (snd (os_wait_any T e))" "follows ok left e (os_wait_stopped T e pid)"
    "os_seize T e pid o' = Inr e' \<Longrightarrow> follows ok left e e'" "os_interrupt T e pid = Inr e' \<Longrightarrow> follows ok left e e'"
    "os_resume T e pid n = Inr e' \<Longrightarrow> follows ok left e e'" "os_kill T e pid n = Inr e' \<Longrightarrow> follows ok left e e'"
    "os_setregs T e pid regs = Inr e' \<Longrightarrow> follows ok left e e'"
  using assms unfolding kernel_follows_def by (elim conjE, metis)+

lemma follows_refl [simp]: "follows ok left e e"
  by (simp add: follows_def)

section \<open>Calm code\<close>

text \<open>Code that keeps the books of a session: the heap is sound, memory does not run out, the outside goes on as above, and
  the virtual and the pseudo terminal are the same.\<close>

definition held :: "('e \<Rightarrow> bool) \<Rightarrow> ('e \<Rightarrow> nat) \<Rightarrow> 'e world \<Rightarrow> 'e world \<Rightarrow> bool" where
  "held ok left s s' \<longleftrightarrow> (mem_ok s \<longrightarrow> mem_ok s') \<and> (never_oom s \<longrightarrow> never_oom s') \<and> follows ok left (env s) (env s') \<and>
     g_vterm (globe s') = g_vterm (globe s) \<and> fd_master (globe s') = fd_master (globe s) \<and> fd_slave (globe s') = fd_slave (globe s)"

lemma held_refl [simp]: "held ok left s s"
  by (simp add: held_def)

lemma held_trans: "held ok left s s1 \<Longrightarrow> held ok left s1 s2 \<Longrightarrow> held ok left s s2"
  by (auto simp: held_def follows_def)

definition calm :: "ptr \<Rightarrow> int \<Rightarrow> ('e \<Rightarrow> bool) \<Rightarrow> ('e \<Rightarrow> nat) \<Rightarrow> ('a, 'e world) prog \<Rightarrow> bool" where
  "calm v fd ok left m \<longleftrightarrow> (\<forall>s a s'. m s = Done a s' \<longrightarrow> g_vterm (globe s) = v \<longrightarrow> fd_master (globe s) = fd \<longrightarrow> held ok left s s')"

named_theorems calm_intros \<open>code that keeps the books of a session\<close>

lemma calm_bind [calm_intros]: "calm v fd ok left m \<Longrightarrow> (\<And>a. calm v fd ok left (f a)) \<Longrightarrow> calm v fd ok left (bind m f)"
proof -
  assume m: "calm v fd ok left m" and f: "\<And>a. calm v fd ok left (f a)"
  have "held ok left s s2" if "m s = Done a s1" "f a s1 = Done b s2" "g_vterm (globe s) = v" "fd_master (globe s) = fd" for s a s1 b s2
  proof (rule held_trans)
    show 1: "held ok left s s1" using m that(1,3,4) by (simp add: calm_def)
    show "held ok left s1 s2" using f [of a] that(2-4) 1 by (simp add: calm_def held_def)
  qed
  then show ?thesis by (auto simp: calm_def bind_def split: outcome.splits)
qed

lemma calm_seq [calm_intros]: "calm v fd ok left m \<Longrightarrow> calm v fd ok left k \<Longrightarrow> calm v fd ok left (seq m k)"
  by (simp add: seq_def calm_bind)

text \<open>What is read of the state is known to be the session's.\<close>

lemma calm_gets:
  "(\<And>s. g_vterm (globe s) = v \<Longrightarrow> fd_master (globe s) = fd \<Longrightarrow> calm v fd ok left (k (f s))) \<Longrightarrow> calm v fd ok left (bind (gets f) k)"
  by (simp add: calm_def bind_gets)

lemma calm_basic [calm_intros]:
  "calm v fd ok left (ret a)" "calm v fd ok left undefined_prog" "calm v fd ok left (gets f)" "calm v fd ok left (reads g)"
  "calm v fd ok left (\<lambda>s. OutOfFuel)" "calm v fd ok left (set_errno e)" "calm v fd ok left (modify (\<lambda>s. s\<lparr>last_syscall := h s\<rparr>))"
  by (auto simp: calm_def prog_defs set_errno_def held_def mem_ok_def never_oom_def split: option.splits)

lemma calm_cases [calm_intros]:
  "calm v fd ok left m \<Longrightarrow> calm v fd ok left k \<Longrightarrow> calm v fd ok left (if b then m else k)"
  "calm v fd ok left m \<Longrightarrow> (\<And>a. calm v fd ok left (f a)) \<Longrightarrow> calm v fd ok left (case x of None \<Rightarrow> m | Some a \<Rightarrow> f a)"
  "(\<And>a. calm v fd ok left (g a)) \<Longrightarrow> (\<And>b. calm v fd ok left (h b)) \<Longrightarrow> calm v fd ok left (case y of Inl a \<Rightarrow> g a | Inr b \<Rightarrow> h b)"
  by (simp_all split: option.split sum.split)

lemma calm_store_bytes [calm_intros]: "calm v fd ok left (store_bytes p bs)"
  by (auto simp: calm_def store_bytes_def writes_def poke_def held_def mem_ok_def never_oom_def split: option.splits if_splits)

lemma calm_heap [calm_intros]: "calm v fd ok left (malloc n)" "calm v fd ok left (free p)"
  by (auto simp: calm_def malloc_def free_def Let_def held_def mem_ok_def never_oom_def
      split: option.splits if_splits ptr.splits base.splits)

lemma calm_realloc [calm_intros]: "calm v fd ok left (realloc p n)"
  using calm_heap(1) [of v fd ok left n]
  by (auto simp: calm_def realloc_def Let_def held_def mem_ok_def never_oom_def split: option.splits if_splits ptr.splits base.splits)

lemma calm_set_globe [calm_intros]:
  "(\<And>g. g_vterm (f g) = g_vterm g \<and> fd_master (f g) = fd_master g \<and> fd_slave (f g) = fd_slave g) \<Longrightarrow> calm v fd ok left (set_globe f)"
  by (auto simp: calm_def set_globe_def modify_def held_def mem_ok_def never_oom_def)

text \<open>A call that answers with a value and a new state of the outside.\<close>

lemma calm_answer [calm_intros]:
  assumes "\<And>s. g_vterm (globe s) = v \<Longrightarrow> fd_master (globe s) = fd \<Longrightarrow> follows ok left (env s) (snd (f s))" "\<And>x e. calm v fd ok left (k x e)"
  shows "calm v fd ok left (bind (gets f) (\<lambda>(x, e). seq (modify (\<lambda>s. s\<lparr>env := e\<rparr>)) (k x e)))"
proof -
  have "held ok left s s'" if "k (fst (f s)) (snd (f s)) (s\<lparr>env := snd (f s)\<rparr>) = Done a s'" "g_vterm (globe s) = v" "fd_master (globe s) = fd" for s a s'
  proof (rule held_trans)
    show "held ok left s (s\<lparr>env := snd (f s)\<rparr>)" using assms(1) [OF that(2,3)] by (simp add: held_def mem_ok_def never_oom_def)
    show "held ok left (s\<lparr>env := snd (f s)\<rparr>) s'" using assms(2) that by (simp add: calm_def)
  qed
  then show ?thesis by (auto simp: calm_def bind_gets seq_modify case_prod_unfold)
qed

lemma calm_pt_call [calm_intros]: "(\<And>e e'. f e = Inr e' \<Longrightarrow> follows ok left e e') \<Longrightarrow> calm v fd ok left (pt_call f)"
proof -
  assume f: "\<And>e e'. f e = Inr e' \<Longrightarrow> follows ok left e e'"
  have "held ok left s s'" if "pt_call f s = Done a s'" for s a s'
    using that f [of "env s"]
    by (auto simp: pt_call_def gets_def os_result_def seq_def set_errno_def modify_def ret_def bind_def held_def mem_ok_def
        never_oom_def split: sum.splits)
  then show ?thesis by (simp add: calm_def)
qed

lemma calm_for_each [calm_intros]: "(\<And>x. calm v fd ok left (f x)) \<Longrightarrow> calm v fd ok left (for_each f xs)"
  by (induction xs) (simp_all add: calm_intros)

lemma calm_perform [calm_intros]:
  assumes "console_follows C v fd ok left" "own C v fd a"
  shows "calm v fd ok left (perform C a)"
proof -
  have f: "follows ok left (env s) (snd (act C (env s) a))" for s :: "'a world"
    using assms by (simp add: console_follows_def did_def)
  show ?thesis
    unfolding perform_def by (rule calm_answer [OF f]) (intro calm_intros)
qed

lemma calm_getch [calm_intros]:
  assumes "console_follows C v fd ok left"
  shows "calm v fd ok left (getch C)"
proof -
  have f: "follows ok left (env s) (snd (get_key C (env s)))" for s :: "'a world"
    using assms by (simp add: console_follows_def)
  show ?thesis
    unfolding getch_def by (rule calm_answer [OF f]) (intro calm_intros)
qed

lemma calm_oflogf [calm_intros]:
  assumes "console_follows C v fd ok left"
  shows "calm v fd ok left (oflogf C lvl f m)"
proof -
  have "held ok left s s'" if "oflogf C lvl f m s = Done a s'" for s :: "'a world" and a s'
    using that assms
    by (auto simp: oflogf_def bind_gets console_follows_def undefined_prog_def modify_def held_def mem_ok_def never_oom_def split: option.splits)
  then show ?thesis by (simp add: calm_def)
qed

section \<open>The tracer and the shell are calm\<close>

lemma calm_kernel [calm_intros]:
  assumes "kernel_follows T ok left"
  shows "calm v fd ok left (resume T pid n)" "calm v fd ok left (setregs T pid regs)" "calm v fd ok left (getregs T pid)" "calm v fd ok left (peek_text T pid a)"
proof -
  note F = kernel_followsD [OF assms]
  show "calm v fd ok left (resume T pid n)" "calm v fd ok left (setregs T pid regs)"
    unfolding resume_def setregs_def by (rule calm_pt_call, erule F)+
  show "calm v fd ok left (getregs T pid)" "calm v fd ok left (peek_text T pid a)"
    unfolding getregs_def peek_text_def by (intro calm_intros)+
qed

lemma calm_read_loop [calm_intros]: "kernel_follows T ok left \<Longrightarrow> calm w fd ok left (read_loop k T child addr al v rd)"
proof (induction k arbitrary: al v rd)
  case 0
  show ?case by (simp add: calm_intros)
next
  case (Suc k)
  show ?case
    unfolding read_loop.simps Let_def by (intro calm_intros Suc)
qed

lemma calm_callbacks:
  assumes "console_follows C v fd ok left"
  shows "file_read (shell_cbs C) = Some f \<Longrightarrow> calm v fd ok left (f p)" "file_write (shell_cbs C) = Some f \<Longrightarrow> calm v fd ok left (f p)"
  using assms by (auto simp: shell_cbs_def file_read_cb_def file_write_cb_def load_str_def intro!: calm_intros)

lemma calm_ask: "(\<And>f. cb = Some f \<Longrightarrow> calm v fd ok left (f p)) \<Longrightarrow> calm v fd ok left (ask cb b p d)"
  by (auto simp: ask_def calm_basic split: option.split intro!: calm_intros)

lemma calm_tracer_loop [calm_intros]:
  assumes "kernel_follows T ok left" "console_follows C v fd ok left"
  shows "calm v fd ok left (tracer_loop k T \<lparr>t_cbs = shell_cbs C\<rparr>)"
proof -
  have asks: "calm v fd ok left (ask (file_read (shell_cbs C)) b p d)" "calm v fd ok left (ask (file_write (shell_cbs C)) b p d)" for b p d
    by (rule calm_ask, erule calm_callbacks [OF assms(2)])+
  have "calm v fd ok left (syscall_openat k T \<lparr>t_cbs = shell_cbs C\<rparr> pid regs)" for pid regs
    unfolding syscall_openat_def read_string_def Let_def tracer.select_convs by (intro calm_intros asks assms)
  moreover have "on_syscall (shell_cbs C) = None" by (simp add: shell_cbs_def)
  ultimately have "calm v fd ok left (handle_syscalls k T \<lparr>t_cbs = shell_cbs C\<rparr> pid)" for pid
    unfolding handle_syscalls_def Let_def by (simp, intro calm_intros assms)
  then have stopped: "calm v fd ok left (handle_stopped k T \<lparr>t_cbs = shell_cbs C\<rparr> pid ev sig)" for pid ev sig
    unfolding handle_stopped_def handle_sigtrap_def by (intro calm_intros assms)
  have f: "follows ok left (env s) (snd (os_wait_any T (env s)))" for s :: "'a world"
    using assms(1) by (simp add: kernel_follows_def)
  show ?thesis
    unfolding tracer_loop_def
    by (rule calm_answer [OF f]) (auto split: wait_answer.split intro!: calm_intros stopped)
qed

lemma own_simps [simp]:
  "own C v fd (Vt_key u k) \<longleftrightarrow> u = v" "own C v fd (Vt_char u c) \<longleftrightarrow> u = v" "own C v fd (Vt_input u bs) \<longleftrightarrow> u = v"
  "own C v fd (Vt_size u r l) \<longleftrightarrow> u = v" "own C v fd (Write f bs) \<longleftrightarrow> f = fd" "own C v fd (Set_winsize f r l) \<longleftrightarrow> f = fd"
  "own C v fd (Close f) \<longleftrightarrow> f \<noteq> fd" "own C v fd (Getfl f) \<longleftrightarrow> f = fd" "own C v fd (Setfl f n) \<longleftrightarrow> f = fd"
  "own C v fd (Vt_flush (vt_screen C e v))" "own C v fd Refresh" "own C v fd Endwin" "own C v fd (Move y x)"
  "own C v fd (Init_pair p x y)" "own C v fd (Attron p)" "own C v fd (Attroff p)" "own C v fd (Addstr t)"
  by (auto simp: own_def)

lemma calm_terminal [calm_intros]:
  assumes "console_follows C v fd ok left"
  shows "calm v fd ok left (vterm_key C key)" "calm v fd ok left (vterm_unichar C c)" "calm v fd ok left (maxyx C)"
    "calm v fd ok left (draw_status_bar C bar)" "calm v fd ok left (window_resize C v fd)" "calm v fd ok left (signals C)"
proof -
  have winch: "follows ok left e (snd (winch C e))" for e using assms by (simp add: console_follows_def)
  show "calm v fd ok left (signals C)"
    unfolding signals_def sigwinch_handler_def by (rule calm_answer [OF winch]) (intro calm_intros; simp)
  show size: "calm v fd ok left (maxyx C)"
    unfolding maxyx_def case_prod_unfold by (intro calm_intros; simp)
  show "calm v fd ok left (vterm_key C key)" "calm v fd ok left (vterm_unichar C c)" "calm v fd ok left (draw_status_bar C bar)"
    "calm v fd ok left (window_resize C v fd)"
    unfolding vterm_key_def vterm_unichar_def draw_status_bar_def window_resize_def load_str_def case_prod_unfold
    by (intro calm_gets calm_intros assms size; simp)+
qed

lemma calm_pad_loop [calm_intros]: "calm v fd ok left (pad_loop k bar n)"
  by (induction k arbitrary: n) (simp_all add: calm_intros)

lemma calm_status_bar [calm_intros]: "console_follows C v fd ok left \<Longrightarrow> calm v fd ok left (status_bar C)"
  unfolding status_bar_def set_status_bar_def snprintf_def Let_def by (intro calm_intros)

lemma calm_resize [calm_intros]: "console_follows C v fd ok left \<Longrightarrow> calm v fd ok left (resize_if_asked C)"
  unfolding resize_if_asked_def clear_sigwinch_def by (intro calm_gets calm_intros; simp add: calm_terminal)

lemma calm_input_loop [calm_intros]:
  assumes "console_follows C v fd ok left"
  shows "calm v fd ok left (input_loop k C)"
proof (induction k)
  case 0
  show ?case by (simp add: calm_intros)
next
  case (Suc k)
  have skip: "calm v fd ok left (skip_resize j C ch)" for j ch
    by (induction j arbitrary: ch) (simp_all add: calm_intros assms)
  have "calm v fd ok left (handle_arrows C)"
    unfolding handle_arrows_def by (intro calm_intros assms)
  then show ?case
    unfolding input_loop.simps by (intro calm_intros assms skip Suc)
qed

lemma calm_flush_loop [calm_intros]:
  assumes "console_follows C v fd ok left"
  shows "calm v fd ok left (flush_loop k C)"
proof (induction k)
  case 0
  show ?case by (simp add: calm_intros)
next
  case (Suc k)
  have "follows ok left (env s) (snd (out_read C (env s) v n))" for s :: "'a world" and n
    using assms by (simp add: console_follows_def)
  then show ?case
    unfolding flush_loop.simps
    by (intro calm_bind [OF calm_basic(3)] calm_cases(1) calm_answer calm_gets calm_intros assms Suc; simp)
qed

lemma calm_handle_input [calm_intros]: "console_follows C v fd ok left \<Longrightarrow> calm v fd ok left (handle_input k C)"
  unfolding handle_input_def by (intro calm_intros)

lemma calm_handle_output [calm_intros]:
  assumes "console_follows C v fd ok left"
  shows "calm v fd ok left (handle_output C)"
proof -
  have f: "follows ok left (env s) (snd (fd_read C (env s) fd BUFSZ))" for s :: "'a world"
    using assms by (simp add: console_follows_def)
  show ?thesis
    unfolding handle_output_def Let_def
    by (rule calm_answer) (use f in simp, intro calm_gets calm_intros assms, simp)
qed

section \<open>The keyboard comes to an end\<close>

text \<open>\<open>wait\<close> bounds the keys that can be read before a read finds none. A read that gives a key lowers the bound, and feeding
  the virtual terminal does not raise it; the virtual terminal holds at most 8192 bytes, gives as many as it is asked for
  and has, and a \<open>write\<close>, whatever it answers, adds none.\<close>

definition terminal_laws :: "'e console \<Rightarrow> ptr \<Rightarrow> int \<Rightarrow> ('e \<Rightarrow> bool) \<Rightarrow> ('e \<Rightarrow> nat) \<Rightarrow> bool" where
  "terminal_laws C v fd ok wait \<longleftrightarrow> (\<forall>e. ok e \<longrightarrow>
     (case get_key C e of (ch, e') \<Rightarrow> wait e' \<le> wait e \<and> (ch = - 1 \<or> wait e' < wait e)) \<and>
     (\<forall>k. wait (did C (Vt_key v k) e) \<le> wait e) \<and> (\<forall>c. wait (did C (Vt_char v c) e) \<le> wait e) \<and>
     unat (out_fill C e v) \<le> 8192 \<and>
     (\<forall>n. case out_read C e v n of (bs, e') \<Rightarrow> length bs = min (unat n) (unat (out_fill C e v)) \<and>
        unat (out_fill C e' v) = unat (out_fill C e v) - length bs) \<and>
     (\<forall>bs. out_fill C (did C (Write fd bs) e) v = out_fill C e v))"

lemma terminal_lawsD:
  assumes "terminal_laws C v fd ok wait" "ok e"
  shows "wait (snd (get_key C e)) \<le> wait e" "fst (get_key C e) = - 1 \<or> wait (snd (get_key C e)) < wait e"
    "wait (did C (Vt_key v k) e) \<le> wait e" "wait (did C (Vt_char v c) e) \<le> wait e" "unat (out_fill C e v) \<le> 8192"
    "out_read C e v n = (bs, e') \<Longrightarrow> length bs = min (unat n) (unat (out_fill C e v)) \<and>
       unat (out_fill C e' v) = unat (out_fill C e v) - length bs"
    "out_fill C (did C (Write fd bs) e) v = out_fill C e v"
proof -
  note all = assms(1) [unfolded terminal_laws_def, THEN spec, THEN mp, OF assms(2)]
  from all [THEN conjunct1] show "wait (snd (get_key C e)) \<le> wait e" "fst (get_key C e) = - 1 \<or> wait (snd (get_key C e)) < wait e"
    by (simp_all add: case_prod_unfold)
  note all = all [THEN conjunct2]
  from all [THEN conjunct1] show "wait (did C (Vt_key v k) e) \<le> wait e" by (rule spec)
  note all = all [THEN conjunct2]
  from all [THEN conjunct1] show "wait (did C (Vt_char v c) e) \<le> wait e" by (rule spec)
  note all = all [THEN conjunct2]
  from all [THEN conjunct1] show "unat (out_fill C e v) \<le> 8192" .
  note all = all [THEN conjunct2]
  from all [THEN conjunct1, THEN spec, of n] show "out_read C e v n = (bs, e') \<Longrightarrow> length bs = min (unat n) (unat (out_fill C e v)) \<and>
       unat (out_fill C e' v) = unat (out_fill C e v) - length bs" by simp
  from all [THEN conjunct2] show "out_fill C (did C (Write fd bs) e) v = out_fill C e v" by (rule spec)
qed

text \<open>\<open>reads_on\<close>: a step of the two loops of \<open>handle_input\<close>.\<close>

definition reads_on :: "('e \<Rightarrow> bool) \<Rightarrow> ('e \<Rightarrow> nat) \<Rightarrow> 'e world \<Rightarrow> 'e world \<Rightarrow> bool" where
  "reads_on ok wait s s' \<longleftrightarrow> ok (env s') \<and> wait (env s') \<le> wait (env s) \<and> globe s' = globe s \<and> blocks s' = blocks s"

lemma reads_on_trans: "reads_on ok wait s s1 \<Longrightarrow> reads_on ok wait s1 s2 \<Longrightarrow> reads_on ok wait s s2"
  by (auto simp: reads_on_def)

text \<open>The two terminals as \<open>handle_input\<close> needs them.\<close>

definition settling :: "'e console \<Rightarrow> ptr \<Rightarrow> int \<Rightarrow> ('e \<Rightarrow> bool) \<Rightarrow> ('e \<Rightarrow> nat) \<Rightarrow> ('e \<Rightarrow> nat) \<Rightarrow> bool" where
  "settling C v fd ok left wait \<longleftrightarrow> console_follows C v fd ok left \<and> terminal_laws C v fd ok wait"

lemma settlingD:
  assumes "settling C v fd ok left wait"
  shows "console_follows C v fd ok left" "terminal_laws C v fd ok wait"
  using assms by (simp_all add: settling_def)

lemma ends_getch:
  fixes s :: "'e world"
  assumes S: "settling C v fd ok left wait"
  shows "ok (env s) \<Longrightarrow> runs (getch C) s (\<lambda>ch s'. reads_on ok wait s s' \<and> (ch = - 1 \<or> wait (env s') < wait (env s)))"
  using settlingD(1) [OF S] terminal_lawsD(1,2) [OF settlingD(2) [OF S], of "env s"] by (simp add: runs_getch reads_on_def console_follows_def follows_def)

lemma ends_feed:
  fixes s :: "'e world"
  assumes S: "settling C v fd ok left wait" and "ok (env s)" "(\<exists>k. a = Vt_key v k) \<or> (\<exists>c. a = Vt_char v c)"
  shows "runs (seq (perform C a) (ret ())) s (\<lambda>_. reads_on ok wait s)"
proof (rule runs_perform_drop)
  have "own C v fd a" using assms(3) by auto
  then have "ok (did C a (env s))" using settlingD(1) [OF S] assms(2) by (simp add: console_follows_def follows_def)
  then show "runs (ret ()) (s\<lparr>env := did C a (env s), errno_of := n\<rparr>) (\<lambda>_. reads_on ok wait s)" for n
    using terminal_lawsD(3,4) [OF settlingD(2) [OF S] assms(2)] assms(3) by (auto simp: runs_ret reads_on_def)
qed

lemma ends_keys:
  fixes s :: "'e world"
  assumes S: "settling C v fd ok left wait"
  shows "ok (env s) \<Longrightarrow> g_vterm (globe s) = v \<Longrightarrow> runs (vterm_key C k) s (\<lambda>_. reads_on ok wait s)"
  "ok (env s) \<Longrightarrow> g_vterm (globe s) = v \<Longrightarrow> runs (vterm_unichar C c) s (\<lambda>_. reads_on ok wait s)"
  "ok (env s) \<Longrightarrow> g_vterm (globe s) = v \<Longrightarrow> runs (for_each (vterm_unichar C) cs) s (\<lambda>_. reads_on ok wait s)"
proof -
  show "runs (vterm_key C k) s (\<lambda>_. reads_on ok wait s)" if "ok (env s)" "g_vterm (globe s) = v" for s
    using ends_feed [OF S that(1)] that(2) by (simp add: vterm_key_def runs_bind runs_gets)
  have char: "runs (vterm_unichar C c) s (\<lambda>_. reads_on ok wait s)" if "ok (env s)" "g_vterm (globe s) = v" for s c
    using ends_feed [OF S that(1)] that(2) by (simp add: vterm_unichar_def runs_bind runs_gets)
  then show "ok (env s) \<Longrightarrow> g_vterm (globe s) = v \<Longrightarrow> runs (vterm_unichar C c) s (\<lambda>_. reads_on ok wait s)" .
  show "ok (env s) \<Longrightarrow> g_vterm (globe s) = v \<Longrightarrow> runs (for_each (vterm_unichar C) cs) s (\<lambda>_. reads_on ok wait s)"
  proof (induction cs arbitrary: s)
    case Nil
    then show ?case by (simp add: runs_ret reads_on_def)
  next
    case (Cons c cs)
    have "runs (for_each (vterm_unichar C) cs) s1 (\<lambda>_. reads_on ok wait s)" if "reads_on ok wait s s1" for s1
      using that Cons.prems by (intro runs_mono [OF Cons.IH]) (auto simp: reads_on_def)
    then show ?case
      unfolding for_each.simps runs_seq by (rule runs_mono [OF char [OF Cons.prems]])
  qed
qed

lemma ends_arrows:
  fixes s :: "'e world"
  assumes S: "settling C v fd ok left wait" and "ok (env s)" "g_vterm (globe s) = v"
  shows "runs (handle_arrows C) s (\<lambda>_. reads_on ok wait s)"
proof -
  have on: "ok (env s1)" "g_vterm (globe s1) = v" if "reads_on ok wait s s1" for s1
    using that assms(3) by (simp_all add: reads_on_def)
  have then_on: "runs m s1 (\<lambda>_. reads_on ok wait s)" if "reads_on ok wait s s1" "runs m s1 (\<lambda>_. reads_on ok wait s1)"
    for m :: "(unit, 'e world) prog" and s1
    by (rule runs_mono [OF that(2)]) (rule reads_on_trans [OF that(1)])
  have second: "runs (bind (getch C) (\<lambda>c2. if c2 = 65 then vterm_key C KEY_UP else if c2 = 66 then vterm_key C KEY_DOWN
      else if c2 = 67 then vterm_key C KEY_RIGHT else if c2 = 68 then vterm_key C KEY_LEFT
      else for_each (vterm_unichar C) [ESC, c1, c2])) s1 (\<lambda>_. reads_on ok wait s)" if s1: "reads_on ok wait s s1" for s1 c1
    unfolding runs_bind
  proof (rule runs_mono [OF ends_getch [OF S on(1) [OF s1]]])
    fix c2 :: int and s2 :: "'e world" assume "reads_on ok wait s1 s2 \<and> (c2 = - 1 \<or> wait (env s2) < wait (env s1))"
    then have s2: "reads_on ok wait s s2" using reads_on_trans [OF s1] by blast
    show "runs (if c2 = 65 then vterm_key C KEY_UP else if c2 = 66 then vterm_key C KEY_DOWN
      else if c2 = 67 then vterm_key C KEY_RIGHT else if c2 = 68 then vterm_key C KEY_LEFT
      else for_each (vterm_unichar C) [ESC, c1, c2]) s2 (\<lambda>_. reads_on ok wait s)"
      by (rule then_on [OF s2]) (simp only: ends_keys [OF S on [OF s2]] split: if_split, simp)
  qed
  show ?thesis
    unfolding handle_arrows_def runs_bind [of "getch C"]
  proof (rule runs_mono [OF ends_getch [OF S assms(2)]])
    fix c1 :: int and s1 :: "'e world" assume "reads_on ok wait s s1 \<and> (c1 = - 1 \<or> wait (env s1) < wait (env s))"
    then have s1: "reads_on ok wait s s1" by blast
    have "runs (for_each (vterm_unichar C) [ESC, c1]) s1 (\<lambda>_. reads_on ok wait s)"
      by (rule then_on [OF s1 ends_keys(3) [OF S on [OF s1]]])
    with second [OF s1, of c1]
    show "runs (if c1 = 91 then bind (getch C) (\<lambda>c2. if c2 = 65 then vterm_key C KEY_UP else if c2 = 66 then vterm_key C KEY_DOWN
      else if c2 = 67 then vterm_key C KEY_RIGHT else if c2 = 68 then vterm_key C KEY_LEFT
      else for_each (vterm_unichar C) [ESC, c1, c2]) else for_each (vterm_unichar C) [ESC, c1]) s1 (\<lambda>_. reads_on ok wait s)"
      by (cases "c1 = 91") (simp_all only: if_True if_False simp_thms)
  qed
qed

lemma ends_skip:
  fixes s :: "'e world"
  assumes S: "settling C v fd ok left wait"
  shows "ok (env s) \<Longrightarrow> ch = - 1 \<or> wait (env s) < k \<Longrightarrow> runs (skip_resize (Suc k) C ch) s (\<lambda>_. reads_on ok wait s)"
proof (induction k arbitrary: ch s)
  case 0
  then show ?case by (simp add: KEY_RESIZE_def runs_ret reads_on_def)
next
  case (Suc k)
  show ?case
  proof (cases "ch = KEY_RESIZE")
    case False
    then show ?thesis using Suc.prems(1) by (simp add: runs_ret reads_on_def)
  next
    case True
    have "runs (bind (getch C) (skip_resize (Suc k) C)) s (\<lambda>_. reads_on ok wait s)"
      unfolding runs_bind
    proof (rule runs_mono [OF ends_getch [OF S Suc.prems(1)]])
      fix c :: int and s1 :: "'e world" assume s1: "reads_on ok wait s s1 \<and> (c = - 1 \<or> wait (env s1) < wait (env s))"
      have "runs (skip_resize (Suc k) C c) s1 (\<lambda>_. reads_on ok wait s1)"
        by (rule Suc.IH) (use s1 Suc.prems(2) True in \<open>auto simp: reads_on_def KEY_RESIZE_def\<close>)
      then show "runs (skip_resize (Suc k) C c) s1 (\<lambda>_. reads_on ok wait s)"
        by (rule runs_mono) (use s1 in \<open>blast intro: reads_on_trans\<close>)
    qed
    with True show ?thesis by (simp add: skip_resize.simps(2) [of "Suc k"] del: skip_resize.simps)
  qed
qed

lemma ends_input_loop:
  fixes s :: "'e world"
  assumes S: "settling C v fd ok left wait"
  shows "ok (env s) \<Longrightarrow> g_vterm (globe s) = v \<Longrightarrow> wait (env s) < k \<Longrightarrow> runs (input_loop k C) s (\<lambda>_. reads_on ok wait s)"
proof (induction k arbitrary: s)
  case 0
  then show ?case by simp
next
  case (Suc k)
  let ?Q = "\<lambda>_. reads_on ok wait s"
  let ?rest = "\<lambda>ch. if ch = - 1 then ret () else seq (if ch = ESC then handle_arrows C else vterm_unichar C ch) (input_loop k C)"
  have rest: "runs (?rest ch) s2 ?Q" if s2: "reads_on ok wait s s2" "wait (env s2) < k" for ch s2
  proof -
    have g: "ok (env s2)" "g_vterm (globe s2) = v" using s2(1) Suc.prems(2) by (simp_all add: reads_on_def)
    have loop: "runs (input_loop k C) s3 ?Q" if s3: "reads_on ok wait s2 s3" for s3
      by (rule runs_mono [OF Suc.IH])
        (use s3 s2(2) g(2) reads_on_trans [OF reads_on_trans [OF s2(1) s3]] in \<open>auto simp: reads_on_def\<close>)
    have "runs (if ch = ESC then handle_arrows C else vterm_unichar C ch) s2 (\<lambda>_ s3. runs (input_loop k C) s3 ?Q)"
      using runs_mono [OF ends_arrows [OF S g]] runs_mono [OF ends_keys(2) [OF S g]] loop by (simp only: split: if_split) blast
    with s2(1) show ?thesis by (simp only: runs_seq runs_ret split: if_split) blast
  qed
  have skip: "runs (skip_resize (Suc k) C ch) s1 (\<lambda>ch s2. runs (?rest ch) s2 ?Q)"
    if s1: "reads_on ok wait s s1" "ch = - 1 \<or> wait (env s1) < wait (env s)" for ch s1
  proof (cases "ch = - 1")
    case True
    then show ?thesis using s1(1) by (simp add: KEY_RESIZE_def runs_ret)
  next
    case False
    with s1 Suc.prems(3) have less: "wait (env s1) < k" by simp
    have "ok (env s1)" using s1(1) by (simp add: reads_on_def)
    then show ?thesis
    proof (rule runs_mono [OF ends_skip [OF S]])
      show "ch = - 1 \<or> wait (env s1) < k" using less by simp
      show "runs (?rest a) s2 ?Q" if s2: "reads_on ok wait s1 s2" for a s2
        by (rule rest) (use reads_on_trans [OF s1(1) s2] s2 less in \<open>auto simp: reads_on_def\<close>)
    qed
  qed
  have "runs (bind (getch C) (\<lambda>ch. bind (skip_resize (Suc k) C ch) ?rest)) s ?Q"
    unfolding runs_bind by (rule runs_mono [OF ends_getch [OF S Suc.prems(1)]]) (rule skip, simp_all)
  moreover have "?Q () s" using Suc.prems(1) by (simp add: reads_on_def)
  ultimately show ?case
    by (simp only: input_loop.simps(2) runs_bind [of "gets _"] runs_gets runs_ret split: if_split) blast
qed

lemma ends_flush_loop:
  fixes s :: "'e world"
  assumes S: "settling C v fd ok left wait" and s: "ok (env s)" "g_vterm (globe s) = v" "fd_master (globe s) = fd"
  shows "runs (flush_loop (Suc (Suc k)) C) s (\<lambda>_ s'. blocks s' = blocks s)"
proof -
  have empty: "flush_loop (Suc k) C s2 = Done () s2" if "unat (out_fill C (env s2) v) = 0" "g_vterm (globe s2) = v" for s2
    using that by (simp add: bind_gets ret_def word_less_nat_alt)
  let ?m = "minimum (out_fill C (env s) v) BUFSZ"
  obtain bytes e' where r: "out_read C (env s) v ?m = (bytes, e')" by force
  note fill = terminal_lawsD(5) [OF settlingD(2) [OF S] s(1)]
  have "unat ?m = 8192" by (rule unat_minimum [OF fill])
  then have e': "length bytes \<le> 8192" "unat (out_fill C e' v) = 0"
    using terminal_lawsD(6) [OF settlingD(2) [OF S] s(1) r] fill by simp_all
  have ok: "ok e'" using settlingD(1) [OF S] s(1) r unfolding console_follows_def follows_def by (metis snd_conv)
  have "runs (seq (perform C (Write fd bytes)) (flush_loop (Suc k) C)) (s\<lparr>env := e'\<rparr>) (\<lambda>_ s'. blocks s' = blocks s)"
  proof (rule runs_perform_drop)
    fix n
    have "flush_loop (Suc k) C (s\<lparr>env := did C (Write fd bytes) e', errno_of := n\<rparr>) = Done () (s\<lparr>env := did C (Write fd bytes) e', errno_of := n\<rparr>)"
      by (rule empty) (use e'(2) s(2) terminal_lawsD(7) [OF settlingD(2) [OF S] ok] in simp_all)
    then show "runs (flush_loop (Suc k) C) (s\<lparr>env := e'\<rparr>\<lparr>env := did C (Write fd bytes) (env (s\<lparr>env := e'\<rparr>)), errno_of := n\<rparr>)
        (\<lambda>_ s'. blocks s' = blocks s)"
      by (simp add: runs_def del: flush_loop.simps)
  qed
  with s(2,3) r e'(1) show ?thesis
    by (simp add: flush_loop.simps(2) [of "Suc k"] runs_bind [of "gets _"] runs_gets runs_seq [of "modify _"] runs_modify runs_ret BUFSZ_def
        del: flush_loop.simps)
qed

lemma ends_handle_input:
  fixes s :: "'e world"
  assumes S: "settling C v fd ok left wait" and "ok (env s)" "g_vterm (globe s) = v" "fd_master (globe s) = fd" "wait (env s) + 2 \<le> k"
  shows "runs (handle_input k C) s (\<lambda>r s'. r = 0 \<and> blocks s' = blocks s)"
proof -
  define j where "j = k - 2"
  then have j: "k = Suc (Suc j)" using assms(5) by simp
  have flush: "runs (seq (flush_loop k C) (ret 0)) s1 (\<lambda>r s'. r = 0 \<and> blocks s' = blocks s)" if s1: "reads_on ok wait s s1" for s1
    unfolding j runs_seq by (rule runs_mono [OF ends_flush_loop [OF S]]) (use s1 assms(3,4) in \<open>auto simp: reads_on_def runs_ret\<close>)
  show ?thesis
    unfolding handle_input_def runs_seq [of "input_loop _ _"]
    by (rule runs_mono [OF ends_input_loop [OF S assms(2,3)]]) (use assms(5) flush in auto)
qed

section \<open>Turns\<close>

text \<open>What a session asks of the outside: nothing puts the end off, the log can be written, the screen has a size, the keys that
  wait fit the fuel, and each \<open>poll\<close> either brings the end nearer or reports that the other side has hung up.\<close>

definition session ::
  "nat \<Rightarrow> 'e ptrace_os \<Rightarrow> 'e console \<Rightarrow> ptr \<Rightarrow> int \<Rightarrow> ('e \<Rightarrow> bool) \<Rightarrow> ('e \<Rightarrow> nat) \<Rightarrow> ('e \<Rightarrow> nat) \<Rightarrow> bool" where
  "session k T C v fd ok left wait \<longleftrightarrow> kernel_follows T ok left \<and> console_follows C v fd ok left \<and> peek_reports T \<and> 8 * k < 2 ^ 61 \<and>
     terminal_laws C v fd ok wait \<and>
     (\<forall>e. ok e \<longrightarrow> tracer_ready k T C e \<and> 0 \<le> screen_cols C e \<and> screen_cols C e < INT_MAX \<and> wait e + 2 \<le> k) \<and>
     (\<forall>e. ok e \<longrightarrow> (case fd_poll C e fd STDIN_FILENO of (a, e') \<Rightarrow> ok e' \<and>
       (left e' < left e \<or> (\<exists>m i. a = Poll_ready m i \<and> m AND POLLHUP \<noteq> 0))))"

lemma session_laws:
  assumes "session k T C v fd ok left wait"
  shows "kernel_follows T ok left" "console_follows C v fd ok left" "peek_reports T" "8 * k < 2 ^ 61" "terminal_laws C v fd ok wait"
  using assms unfolding session_def by blast+

lemma session_settling: "session k T C v fd ok left wait \<Longrightarrow> settling C v fd ok left wait"
  by (simp add: session_def settling_def)

lemma session_state:
  assumes "session k T C v fd ok left wait" "ok e"
  shows "tracer_ready k T C e" "0 \<le> screen_cols C e" "screen_cols C e < INT_MAX" "wait e + 2 \<le> k"
proof -
  have "\<forall>e. ok e \<longrightarrow> tracer_ready k T C e \<and> 0 \<le> screen_cols C e \<and> screen_cols C e < INT_MAX \<and> wait e + 2 \<le> k"
    using assms(1) unfolding session_def by (elim conjE)
  with assms(2) show "tracer_ready k T C e" "0 \<le> screen_cols C e" "screen_cols C e < INT_MAX" "wait e + 2 \<le> k" by blast+
qed

lemma session_poll:
  assumes "session k T C v fd ok left wait" "ok e" "fd_poll C e fd STDIN_FILENO = (a, e')"
  shows "ok e'" "left e' < left e \<or> (\<exists>m i. a = Poll_ready m i \<and> m AND POLLHUP \<noteq> 0)"
proof -
  have "case fd_poll C e fd STDIN_FILENO of (a, e') \<Rightarrow> ok e' \<and> (left e' < left e \<or> (\<exists>m i. a = Poll_ready m i \<and> m AND POLLHUP \<noteq> 0))"
    using assms(1,2) unfolding session_def by (elim conjE) (drule spec, erule mp)
  then show "ok e'" "left e' < left e \<or> (\<exists>m i. a = Poll_ready m i \<and> m AND POLLHUP \<noteq> 0)"
    unfolding assms(3) by simp_all
qed

lemmas sessionD = session_laws session_state session_poll

definition in_session :: "ptr \<Rightarrow> int \<Rightarrow> ('e \<Rightarrow> bool) \<Rightarrow> 'e world \<Rightarrow> bool" where
  "in_session v fd ok s \<longleftrightarrow> mem_ok s \<and> never_oom s \<and> ok (env s) \<and> g_vterm (globe s) = v \<and> fd_master (globe s) = fd \<and>
     fd_slave (globe s) \<noteq> fd"

text \<open>\<open>near\<close>: a step within a session that leaves the objects alone.\<close>

definition near :: "ptr \<Rightarrow> int \<Rightarrow> ('e \<Rightarrow> bool) \<Rightarrow> ('e \<Rightarrow> nat) \<Rightarrow> 'e world \<Rightarrow> 'e world \<Rightarrow> bool" where
  "near v fd ok left s s' \<longleftrightarrow> in_session v fd ok s' \<and> left (env s') \<le> left (env s) \<and> blocks s' = blocks s"

lemma near_trans: "near v fd ok left s s1 \<Longrightarrow> near v fd ok left s1 s2 \<Longrightarrow> near v fd ok left s s2"
  by (auto simp: near_def)

lemma calm_near:
  assumes "calm v fd ok left m" "in_session v fd ok s" "runs m s Q" "\<And>a s'. Q a s' \<Longrightarrow> blocks s' = blocks s"
  shows "runs m s (\<lambda>a s'. Q a s' \<and> near v fd ok left s s')"
proof -
  obtain a s' where m: "m s = Done a s'" "Q a s'" using assms(3) by (auto simp: runs_iff)
  then have "held ok left s s'" using assms(1,2) by (simp add: calm_def in_session_def)
  with assms(2,4) m have "near v fd ok left s s'" by (auto simp: near_def in_session_def held_def follows_def)
  with m show ?thesis by (simp add: runs_def)
qed

lemma runs_handle_output: "runs (handle_output C) s (\<lambda>r s'. r \<in> {0, - 1} \<and> blocks s' = blocks s)"
  by (auto simp: handle_output_def runs_simps split: prod.split sum.split)

lemma runs_signals_any:
  fixes s :: "'e world"
  shows "(\<And>e g. Q () (s\<lparr>env := e, globe := g\<rparr>)) \<Longrightarrow> runs (signals C) s Q"
  by (cases "winch C (env s)") (simp add: runs_signals)

lemma near_steps:
  assumes S: "session k T C v fd ok left wait" and s: "in_session v fd ok s"
  shows "runs (tracer_loop k T \<lparr>t_cbs = shell_cbs C\<rparr>) s (\<lambda>_. near v fd ok left s)"
    "runs (resize_if_asked C) s (\<lambda>_. near v fd ok left s)" "runs (status_bar C) s (\<lambda>_. near v fd ok left s)"
    "runs (handle_output C) s (\<lambda>r s'. r \<in> {0, - 1} \<and> near v fd ok left s s')"
    "runs (handle_input k C) s (\<lambda>r s'. r = 0 \<and> near v fd ok left s s')"
    "own C v fd a \<Longrightarrow> runs (perform C a) s (\<lambda>_. near v fd ok left s)"
proof -
  note D = sessionD [OF S]
  have e: "mem_ok s" "never_oom s" "ok (env s)" "g_vterm (globe s) = v" "fd_master (globe s) = fd"
    using s by (simp_all add: in_session_def)
  have "ok (snd (os_wait_any T (env s)))" using kernel_followsD(1) [OF D(1), of "env s"] e(3) by (simp add: follows_def)
  from runs_tracer_loop [OF D(3,4) e(1) D(6) [OF this]]
  show "runs (tracer_loop k T \<lparr>t_cbs = shell_cbs C\<rparr>) s (\<lambda>_. near v fd ok left s)"
    by (rule runs_mono [OF calm_near [OF calm_tracer_loop [OF D(1,2)] s]]) simp_all
  have "runs (resize_if_asked C) s (\<lambda>_ s'. blocks s' = blocks s)"
  proof -
    have "runs (seq (window_resize C u f) (seq (signals C) clear_sigwinch)) s1 (\<lambda>_ s'. blocks s' = blocks s)"
      if "blocks s1 = blocks s" for u f and s1 :: "'a world"
      unfolding runs_seq
      by (rule runs_window_resize, rule runs_signals_any) (simp add: clear_sigwinch_def runs_set_globe that)
    then show ?thesis
      unfolding resize_if_asked_def runs_seq [of "signals _"] runs_bind [of "gets _"] runs_gets
      by (intro runs_signals_any) (simp add: runs_ret)
  qed
  then show "runs (resize_if_asked C) s (\<lambda>_. near v fd ok left s)"
    by (rule runs_mono [OF calm_near [OF calm_resize [OF D(2)] s]]) simp_all
  show "runs (status_bar C) s (\<lambda>_. near v fd ok left s)"
    by (rule runs_mono [OF calm_near [OF calm_status_bar [OF D(2)] s
          runs_status_bar [OF e(1) never_oom_now [OF e(2)] D(7,8) [OF e(3)]]]]) simp_all
  show "runs (handle_output C) s (\<lambda>r s'. r \<in> {0, - 1} \<and> near v fd ok left s s')"
    by (rule runs_mono [OF calm_near [OF calm_handle_output [OF D(2)] s runs_handle_output]]) simp_all
  show "runs (handle_input k C) s (\<lambda>r s'. r = 0 \<and> near v fd ok left s s')"
    by (rule runs_mono [OF calm_near [OF calm_handle_input [OF D(2)] s
          ends_handle_input [OF session_settling [OF S] e(3,4,5) D(9) [OF e(3)]]]]) simp_all
  show "own C v fd a \<Longrightarrow> runs (perform C a) s (\<lambda>_. near v fd ok left s)"
  proof -
    assume a: "own C v fd a"
    have "runs (perform C a) s (\<lambda>_ s'. blocks s' = blocks s)" by (simp add: runs_perform split: sum.split)
    then show ?thesis by (rule runs_mono [OF calm_near [OF calm_perform [OF D(2) a] s]]) simp_all
  qed
qed

text \<open>What a turn leads to: another one, nearer to the end, or the way out with one of two results.\<close>

definition turned :: "ptr \<Rightarrow> int \<Rightarrow> ('e \<Rightarrow> bool) \<Rightarrow> ('e \<Rightarrow> nat) \<Rightarrow> 'e world \<Rightarrow> turn \<Rightarrow> 'e world \<Rightarrow> bool" where
  "turned v fd ok left s t s' \<longleftrightarrow> in_session v fd ok s' \<and> blocks s' = blocks s \<and> (case t of Again \<Rightarrow> left (env s') < left (env s) | Leave r \<Rightarrow> r \<in> {0, - 1})"

lemma runs_poll_turn:
  fixes s :: "'e world"
  assumes S: "session k T C v fd ok left wait" and s: "in_session v fd ok s"
  shows "runs (poll_turn k C) s (turned v fd ok left s)"
proof -
  obtain a e where p: "fd_poll C (env s) fd STDIN_FILENO = (a, e)" by fastforce
  have ok: "ok (env s)" "fd_master (globe s) = fd" using s by (simp_all add: in_session_def)
  note poll = sessionD(10,11) [OF S ok(1) p]
  let ?s = "s\<lparr>env := e\<rparr>"
  let ?keys = "\<lambda>i. bind (if i AND POLLIN \<noteq> 0 then handle_input k C else ret 0) (\<lambda>r.
      if r < 0 then ret (Leave 0) else seq (perform C Refresh) (ret Again))"
  have s1: "in_session v fd ok ?s" using s poll(1) by (simp add: in_session_def mem_ok_def never_oom_def)
  have keys: "runs (?keys i) s2 (turned v fd ok left s)" if s2: "near v fd ok left ?s s2" and less: "left e < left (env s)" for i s2
  proof -
    have again: "runs (perform C Refresh) s3 (\<lambda>_. turned v fd ok left s Again)" if s3: "near v fd ok left ?s s3" for s3
    proof (rule runs_mono [OF near_steps(6) [OF S]])
      show "in_session v fd ok s3" using s3 by (simp add: near_def)
      show "own C v fd Refresh" by simp
      show "near v fd ok left s3 s4 \<Longrightarrow> turned v fd ok left s Again s4" for s4
        using s3 less by (auto simp: turned_def near_def)
    qed
    have "runs (if i AND POLLIN \<noteq> 0 then handle_input k C else ret 0) s2 (\<lambda>r s3. r = 0 \<and> near v fd ok left ?s s3)"
      using near_steps(5) [OF S, of s2] s2 near_trans [OF s2] by (auto simp: runs_ret near_def elim!: runs_mono)
    then show ?thesis
      unfolding runs_bind by (rule runs_mono) (auto simp: runs_seq runs_ret intro: again)
  qed
  have "runs (case a of Poll_failed n \<Rightarrow> seq (set_errno n) (if n = EINTR then ret Again else ret (Leave (- 1)))
     | Poll_none \<Rightarrow> ret Again
     | Poll_ready m i \<Rightarrow> bind (if m AND POLLIN \<noteq> 0 then handle_output C else ret 0) (\<lambda>r.
           if r < 0 then ret (Leave 0) else if m AND POLLHUP \<noteq> 0 then ret (Leave 0) else ?keys i)) ?s (turned v fd ok left s)"
  proof (cases a)
    case (Poll_failed n)
    with poll(2) s1 show ?thesis
      by (simp add: runs_seq runs_set_errno runs_ret turned_def in_session_def mem_ok_def never_oom_def)
  next
    case Poll_none
    with poll(2) s1 show ?thesis by (simp add: runs_ret turned_def)
  next
    case (Poll_ready m i)
    have read: "runs (if m AND POLLIN \<noteq> 0 then handle_output C else ret 0) ?s (\<lambda>r s2. near v fd ok left ?s s2)"
      using near_steps(4) [OF S s1] s1 by (auto simp: runs_ret near_def elim!: runs_mono)
    have leave: "turned v fd ok left s (Leave 0) s2" if "near v fd ok left ?s s2" for s2
      using that by (simp add: turned_def near_def)
    have rest: "runs (if r < 0 then ret (Leave 0) else if m AND POLLHUP \<noteq> 0 then ret (Leave 0) else ?keys i) s2
        (turned v fd ok left s)" if "near v fd ok left ?s s2" for r :: int and s2
    proof -
      have "left e < left (env s)" if "m AND POLLHUP = 0" using that poll(2) Poll_ready by auto
      with leave [OF that] keys [OF that, of i] show ?thesis
        by (cases "r < 0"; cases "m AND POLLHUP = 0") (simp_all only: runs_ret if_True if_False simp_thms)
    qed
    have "runs (if m AND POLLIN \<noteq> 0 then handle_output C else ret 0) ?s (\<lambda>r s2.
        runs (if r < 0 then ret (Leave 0) else if m AND POLLHUP \<noteq> 0 then ret (Leave 0) else ?keys i) s2 (turned v fd ok left s))"
      by (rule runs_mono [OF read]) (rule rest)
    with Poll_ready show ?thesis by (simp only: poll_answer.case runs_bind)
  qed
  then show ?thesis
    using p ok(2) by (simp only: poll_turn_def runs_bind [of "gets _"] runs_gets prod.case runs_seq [of "modify _"] runs_modify)
qed

section \<open>The loop\<close>

lemma near_then:
  assumes "near v fd ok left s s1" "in_session v fd ok s1 \<Longrightarrow> runs m s1 (\<lambda>_. near v fd ok left s1)"
    and "\<And>s2. near v fd ok left s s2 \<Longrightarrow> runs n s2 Q"
  shows "runs (seq m n) s1 Q"
  unfolding runs_seq by (rule runs_mono [OF assms(2)]) (use assms(1) near_trans [OF assms(1)] assms(3) in \<open>auto simp: near_def\<close>)

lemma runs_master_loop:
  assumes S: "session k T C v fd ok left wait"
  shows "in_session v fd ok s \<Longrightarrow> left (env s) < j \<Longrightarrow>
    runs (master_loop j k T C \<lparr>t_cbs = shell_cbs C\<rparr>) s (\<lambda>r s'. r \<in> {0, - 1} \<and> in_session v fd ok s' \<and> blocks s' = blocks s)"
proof (induction j arbitrary: s)
  case 0
  then show ?case by simp
next
  case (Suc j)
  let ?Q = "\<lambda>r s'. r \<in> {0, - 1} \<and> in_session v fd ok s' \<and> blocks s' = blocks s"
  let ?go = "\<lambda>t. case t of Again \<Rightarrow> master_loop j k T C \<lparr>t_cbs = shell_cbs C\<rparr> | Leave r \<Rightarrow> ret r"
  have poll: "runs (bind (poll_turn k C) ?go) s1 ?Q" if s1: "near v fd ok left s s1" for s1
    unfolding runs_bind
  proof (rule runs_mono [OF runs_poll_turn [OF S]])
    show "in_session v fd ok s1" using s1 by (simp add: near_def)
    fix t s2 assume "turned v fd ok left s1 t s2"
    with s1 Suc.prems(2) have s2: "in_session v fd ok s2" "blocks s2 = blocks s"
      "case t of Again \<Rightarrow> left (env s2) < j | Leave r \<Rightarrow> r \<in> {0, - 1}"
      by (auto simp: turned_def near_def split: turn.splits)
    then show "runs (?go t) s2 ?Q"
      using Suc.IH [of s2] by (cases t) (simp_all add: runs_ret)
  qed
  have start: "near v fd ok left s s" using Suc.prems(1) by (simp add: near_def)
  show ?case
    unfolding master_loop.simps
    by (intro near_then [OF start near_steps(1) [OF S]], assumption) (rule near_then [OF _ near_steps(2) [OF S]], assumption+,
        rule near_then [OF _ near_steps(3) [OF S]], assumption+, rule poll)
qed

section \<open>The parent\<close>

lemma calm_tracer_init:
  assumes "kernel_follows T ok left"
  shows "calm v fd ok left (tracer_init T cbs pid)"
proof -
  note F = kernel_followsD [OF assms]
  have wait: "calm v fd ok left (modify (\<lambda>s. s\<lparr>env := os_wait_stopped T (env s) pid\<rparr>))"
    using F(2) by (auto simp: calm_def modify_def held_def mem_ok_def never_oom_def)
  have calls: "calm v fd ok left (pt_call (\<lambda>e. os_seize T e pid n))" "calm v fd ok left (pt_call (\<lambda>e. os_interrupt T e pid))"
    "calm v fd ok left (pt_call (\<lambda>e. os_kill T e pid i))" for n i
    by (rule calm_pt_call, erule F)+
  show ?thesis
    unfolding tracer_init_def Let_def by (intro calm_intros wait calls assms)
qed

lemma runs_tracer_init: "runs (tracer_init T cbs pid) s (\<lambda>r s'. fst r = \<lparr>t_cbs = cbs\<rparr> \<and> blocks s' = blocks s)"
  by (auto simp: tracer_init_def Let_def resume_def runs_simps split: sum.split)

text \<open>The steps of the start in order, up to the first one that fails: its error and what is left of the outside.\<close>

fun up_to_failure :: "('e \<Rightarrow> int + 'e) list \<Rightarrow> 'e \<Rightarrow> int option \<times> 'e" where
  "up_to_failure [] e = (None, e)"
| "up_to_failure (f # fs) e = (case f e of Inl c \<Rightarrow> (Some c, e) | Inr e' \<Rightarrow> up_to_failure fs e')"

definition start_steps :: "'e ptrace_os \<Rightarrow> int \<Rightarrow> ('e \<Rightarrow> int + 'e) list" where
  "start_steps T pid = [\<lambda>e. os_seize T e pid 75, \<lambda>e. os_interrupt T e pid, \<lambda>e. os_resume T e pid 0,
     \<lambda>e. os_kill T e pid SIGCONT]"

definition start_failed :: "int option \<Rightarrow> 'e world \<Rightarrow> 'e world" where
  "start_failed c s = (case c of None \<Rightarrow> s | Some n \<Rightarrow> s\<lparr>errno_of := n\<rparr>)"

text \<open>The tracer's start on each branch: it waits for the child to stop, takes the steps in order and answers -1 at the first
  that fails.\<close>

lemma tracer_init_steps:
  assumes "up_to_failure (start_steps T pid) (os_wait_stopped T (env s) pid) = (c, e)"
  shows "tracer_init T cbs pid s = Done (\<lparr>t_cbs = cbs\<rparr>, if c = None then 0 else - 1) (start_failed c (s\<lparr>env := e\<rparr>))"
proof -
  have "PTRACE_O_TRACEFORK OR PTRACE_O_TRACESYSGOOD OR PTRACE_O_TRACECLONE OR PTRACE_O_TRACEEXIT = 75"
    by (simp add: PTRACE_O_TRACEFORK_def PTRACE_O_TRACESYSGOOD_def PTRACE_O_TRACECLONE_def PTRACE_O_TRACEEXIT_def)
  then show ?thesis
    using assms by (auto simp: tracer_init_def Let_def resume_def pt_call_def os_result_def set_errno_def start_steps_def start_failed_def
      seq_def bind_def gets_def modify_def ret_def split: sum.splits)
qed

text \<open>The parent does not look at that answer: where the tracer could not be started, for instance because the kernel
  refuses \<open>PTRACE_SEIZE\<close>, the loop of the session runs all the same, over a child nobody traces.\<close>

lemma unattached_session_runs:
  assumes "up_to_failure (start_steps T (pid_child (globe s))) (os_wait_stopped T (env s1) (pid_child (globe s))) = (c, e)"
    and "perform C (Close (fd_slave (globe s))) s = Done r s1"
  shows "master_process j k T C s = master_loop j k T C \<lparr>t_cbs = shell_cbs C\<rparr> (start_failed c (s1\<lparr>env := e\<rparr>))"
  using tracer_init_steps [OF assms(1), of "shell_cbs C"] assms(2)
  by (simp add: master_process_def seq_def bind_def gets_def)

lemma runs_master_process:
  assumes S: "session k T C v fd ok left wait" and s: "in_session v fd ok s" "left (env s) < j"
  shows "runs (master_process j k T C) s (\<lambda>r s'. r \<in> {0, - 1} \<and> blocks s' = blocks s)"
proof -
  note D = sessionD [OF S]
  have "runs (seq (perform C (Close (fd_slave (globe s)))) (bind (tracer_init T (shell_cbs C) (pid_child (globe s)))
      (\<lambda>(tr, _). master_loop j k T C tr))) s (\<lambda>r s'. r \<in> {0, - 1} \<and> blocks s' = blocks s)"
  proof (rule near_then [OF _ near_steps(6) [OF S]])
    show "near v fd ok left s s" "own C v fd (Close (fd_slave (globe s)))" using s(1) by (simp_all add: near_def in_session_def)
    fix s1 assume s1: "near v fd ok left s s1"
    then have in1: "in_session v fd ok s1" by (simp add: near_def)
    show "runs (bind (tracer_init T (shell_cbs C) (pid_child (globe s))) (\<lambda>(tr, _). master_loop j k T C tr)) s1
        (\<lambda>r s'. r \<in> {0, - 1} \<and> blocks s' = blocks s)"
      unfolding runs_bind
    proof (rule runs_mono [OF calm_near [OF calm_tracer_init [OF D(1)] in1 runs_tracer_init]])
      fix r and s2 :: "'a world"
      assume r: "(fst r = \<lparr>t_cbs = shell_cbs C\<rparr> \<and> blocks s2 = blocks s1) \<and> near v fd ok left s1 s2"
      then have n: "near v fd ok left s s2" using near_trans [OF s1] by blast
      have "runs (master_loop j k T C \<lparr>t_cbs = shell_cbs C\<rparr>) s2 (\<lambda>r s'. r \<in> {0, - 1} \<and> in_session v fd ok s' \<and> blocks s' = blocks s2)"
        by (rule runs_master_loop [OF S]) (use n s(2) in \<open>simp_all add: near_def\<close>)
      then show "runs (case r of (tr, _) \<Rightarrow> master_loop j k T C tr) s2 (\<lambda>r s'. r \<in> {0, - 1} \<and> blocks s' = blocks s)"
        using r n by (cases r) (auto simp: near_def elim!: runs_mono)
    qed simp
  qed
  then show ?thesis
    by (simp only: master_process_def runs_bind [of "gets _"] runs_gets)
qed

text \<open>The two ends of the shell: the screen is given back, and the heap is as it was.\<close>

definition ended :: "'e console \<Rightarrow> 'e world \<Rightarrow> (int, 'e world) outcome \<Rightarrow> bool" where
  "ended C s r \<longleftrightarrow> (\<exists>s'. (r = Done 0 s' \<or> r = Exited 1 s') \<and> blocks s' = blocks s \<and> (\<exists>e. env s' = did C Endwin e))"

lemma runs_cleanup: "runs (cleanup C) s (\<lambda>_ s'. blocks s' = blocks s \<and> (\<exists>e. env s' = did C Endwin e))"
  by (auto simp: cleanup_def runs_simps split: sum.split)

lemma ended_ways:
  assumes "blocks s1 = blocks s"
  shows "ended C s (errord_clean C msg s1)" "ended C s (errord_errno C what s1)" "ended C s (seq (cleanup C) (ret 0) s1)"
proof -
  obtain u s2 where s2: "cleanup C s1 = Done u s2" "blocks s2 = blocks s" "\<exists>e. env s2 = did C Endwin e"
    using runs_cleanup [of C s1] assms by (auto simp: runs_iff)
  then show "ended C s (errord_clean C msg s1)" "ended C s (errord_errno C what s1)" "ended C s (seq (cleanup C) (ret 0) s1)"
    by (auto simp: ended_def errord_clean_def errord_errno_def seq_def bind_def gets_def ret_def errord_exits)
qed

lemma ended_bind: "runs m s1 (\<lambda>a s2. ended C s (f a s2)) \<Longrightarrow> ended C s (bind m f s1)"
  by (auto simp: runs_iff bind_def)

lemma parent_ended:
  assumes S: "session k T C v fd ok left wait" and s: "in_session v fd ok s" "left (env s) < j"
  shows "ended C s (parent_main j k T C s)"
proof -
  have go: "ended C s (bind (master_process j k T C) (\<lambda>r. if r < 0
      then errord_clean C (''master process had a failure'' @ ''.'' @ nl) else seq (cleanup C) (ret 0)) s1)"
    if s1: "near v fd ok left s s1" for s1
    by (rule ended_bind, rule runs_mono [OF runs_master_process [OF S, of s1]])
      (use s1 s(2) in \<open>auto simp: near_def intro: ended_ways\<close>)
  have setfl: "ended C s (bind (perform C a) (\<lambda>r. if r = - 1 then errord_errno C what else
      bind (master_process j k T C) (\<lambda>r. if r < 0
        then errord_clean C (''master process had a failure'' @ ''.'' @ nl) else seq (cleanup C) (ret 0))) s1)"
    if s1: "near v fd ok left s s1" and a: "own C v fd a" for s1 a what
    by (rule ended_bind, rule runs_mono [OF near_steps(6) [OF S _ a]])
      (use s1 near_trans [OF s1] go in \<open>auto simp: near_def intro: ended_ways\<close>)
  have start: "near v fd ok left s s" using s(1) by (simp add: near_def)
  show ?thesis
    unfolding parent_main_def
    by (rule ended_bind, simp only: runs_gets, rule ended_bind, rule runs_mono [OF near_steps(6) [OF S s(1)]])
      (use s(1) in \<open>auto intro!: setfl intro: ended_ways simp: near_def in_session_def\<close>)
qed

section \<open>Properties\<close>

text \<open>C11: Whatever the tracees do, a turn of the tracer under the callbacks of the shell returns: no stop, no system call, no
  argument of an \<open>openat\<close> and no refused allocation leads to undefined behaviour, and nothing is leaked. What it takes is a
  log that can be written and memory of the tracees in which every string ends within \<open>k\<close> words or runs off what can be read.\<close>

theorem tracer_turn_safe:
  assumes "peek_reports T" "8 * k < 2 ^ 61" "mem_ok s" "tracer_ready k T C (snd (os_wait_any T (env s)))"
  shows "runs (tracer_loop k T \<lparr>t_cbs = shell_cbs C\<rparr>) s (\<lambda>r s'. r \<in> {0, - 1} \<and> blocks s' = blocks s)"
  by (rule runs_tracer_loop [OF assms])

theorem tracer_turn_safe_witness:
  "runs (tracer_loop 2 (test_kernel\<lparr>os_wait_any := (\<lambda>e. (Changed 7 0x857F, e))\<rparr>) \<lparr>t_cbs = shell_cbs (plain_console True)\<rparr>)
     ((start_at (\<lambda>_. write_regs))\<lparr>grants := (\<lambda>_. False)\<rparr>) (\<lambda>r s'. r \<in> {0, - 1})"
proof -
  let ?T = "test_kernel\<lparr>os_wait_any := (\<lambda>e. (Changed 7 0x857F, e))\<rparr>"
  have words: "word_chars 7310572984192823924 = ''trace_te''" "word_chars 28548172589462643 = ''st.file'' @ [CHR 0x00]"
    by code_simp+
  have "text_at (Suc (Suc 0)) ?T e pid a \<noteq> None" for e pid a
    by (simp add: test_kernel_def sample_kernel_def words)
  then have "tracer_ready 2 ?T (plain_console True) e" for e
    by (simp add: tracer_ready_def plain_log_ok numeral_2_eq_2)
  moreover have "peek_reports ?T" using test_kernel_facts(1) by (simp add: peek_reports_def)
  moreover have "mem_ok ((start_at (\<lambda>_. write_regs))\<lparr>grants := (\<lambda>_. False)\<rparr>)"
    using start_at_ok(4) [of "\<lambda>_. write_regs"] by (simp add: mem_ok_def)
  ultimately show ?thesis
    by (intro runs_mono [OF tracer_turn_safe]) auto
qed

text \<open>What the child writes reaches the virtual terminal in one piece. A read that fails ends the session but for
  \<open>EAGAIN\<close>; so should the end of the file, but there \<open>errno\<close> is what an earlier call has left: after an \<open>EAGAIN\<close> the
  shell goes on as if more was to come.\<close>

lemma output_passed_on:
  "runs (handle_output C) s (\<lambda>r s'. globe s' = globe s \<and> blocks s' = blocks s \<and>
    (case fd_read C (env s) (fd_master (globe s)) 8192 of
       (Inr (b # bs), e) \<Rightarrow> r = 0 \<and> env s' = did C (Vt_input (g_vterm (globe s)) (b # bs)) e
     | (Inr [], e) \<Rightarrow> r = (if errno_of s = EAGAIN then 0 else - 1) \<and> env s' = e
     | (Inl n, e) \<Rightarrow> r = (if n = EAGAIN then 0 else - 1) \<and> env s' = e))"
  by (auto simp: handle_output_def BUFSZ_def runs_simps split: prod.split sum.split list.split)

text \<open>A machine whose other side hangs up after as many polls as the first component says, and that keeps the calls made.\<close>

type_synonym clock = "nat \<times> action list"

definition clock_console :: "clock console" where
  "clock_console = (plain_console True)\<lparr>act := (\<lambda>e a. (Inr (case a of Fork \<Rightarrow> 7 | Openpt \<Rightarrow> 3 | Open x \<Rightarrow> 4 | _ \<Rightarrow> 0), (fst e, snd e @ [a]))), out_room := (\<lambda>_ _. 1), out_fill := (\<lambda>_ _. 0),
     out_read := (\<lambda>e _ _. ([], e)),
     fd_poll := (\<lambda>e _ _. if fst e = 0 then (Poll_ready POLLHUP 0, e) else (Poll_none, (fst e - 1, snd e)))\<rparr>"

lemma clock_session: "session 2 idle_kernel clock_console v fd (\<lambda>_. b) fst (\<lambda>_. 0)"
proof -
  have "appends clock_console ms e = Some e" for ms and e :: clock
    by (induction ms) (simp_all add: clock_console_def plain_console_def)
  then have log: "log_ok clock_console e" for e by (simp add: log_ok_def)
  have f: "follows (\<lambda>_. b) fst e (did clock_console a e)" for e a
    by (simp add: follows_def did_def clock_console_def)
  have "console_follows clock_console v fd (\<lambda>_. b) fst"
    by (simp add: console_follows_def f) (simp add: clock_console_def plain_console_def)
  moreover have "kernel_follows idle_kernel (\<lambda>_. b) fst"
    by (simp add: kernel_follows_def idle_kernel_def)
  moreover have "terminal_laws clock_console v fd (\<lambda>_. b) (\<lambda>_. 0)"
    by (simp add: terminal_laws_def clock_console_def plain_console_def)
  moreover have "peek_reports idle_kernel" "tracer_ready 2 idle_kernel clock_console e" for e
    by (simp_all add: peek_reports_def tracer_ready_def log idle_kernel_def numeral_2_eq_2)
  moreover have "case fd_poll clock_console e fd STDIN_FILENO of (a, e') \<Rightarrow>
      fst e' < fst e \<or> (\<exists>m i. a = Poll_ready m i \<and> m AND POLLHUP \<noteq> 0)" for e
    by (simp add: clock_console_def POLLHUP_def)
  moreover have "screen_cols clock_console e = 39" for e
    by (simp add: clock_console_def plain_console_def)
  ultimately show ?thesis by (simp add: session_def INT_MAX_def)
qed

end
