(* ===== verification/Repaint.thy ===== *)
theory Repaint
  imports Shell_Facts
begin

text \<open>
  What \<open>damage_callback\<close> of \<open>src/shell/terminal.c\<close> draws: the rectangle it is given, with the characters and attributes the
  virtual terminal has there and without its colours, under what curses documents of \<open>move\<close> and \<open>add_wch\<close> for a
  character one column wide.
\<close>

text \<open>What a screen shows at a place: characters, attributes and colour pair.\<close>

type_synonym glyph = "u32 list \<times> u32 \<times> int"

text \<open>The text and the attributes a cell is drawn with.\<close>

definition cell_text :: "screen_cell \<Rightarrow> u32 list" where
  "cell_text cell = (case wide_str (cell_chars cell) of Some (c # cs) \<Rightarrow> c # cs | _ \<Rightarrow> [0x20])"

definition cell_attr :: "screen_cell \<Rightarrow> u32" where
  "cell_attr cell = (if blink cell then A_BLINK else 0) OR (if bold cell then A_BOLD else 0) OR
     (if italic cell then A_ITALIC else 0) OR (if reversed cell then A_REVERSE else 0) OR
     (if underline cell \<noteq> 0 then A_UNDERLINE else 0)"

definition glyph_of :: "screen_cell \<Rightarrow> glyph" where
  "glyph_of cell = (cell_text cell, cell_attr cell, 0)"

text \<open>\<open>width\<close> is the number of columns of a character, as \<open>wcwidth\<close> gives it: -1 for a control character, 2 for a wide one.
  One column: a character of width 1, and then only characters that combine with it.\<close>

definition one_column :: "(u32 \<Rightarrow> int) \<Rightarrow> u32 list \<Rightarrow> bool" where
  "one_column width t = (case t of [] \<Rightarrow> False | c # cs \<Rightarrow> width c = 1 \<and> list_all (\<lambda>x. width x = 0) cs)"

text \<open>The cells the property is about: the characters end within their array, take one column and are taken by \<open>setcchar\<close>.\<close>

definition drawable :: "'e console \<Rightarrow> (u32 \<Rightarrow> int) \<Rightarrow> screen_cell \<Rightarrow> bool" where
  "drawable C width cell \<longleftrightarrow> 0 \<in> set (cell_chars cell) \<and> one_column width (cell_text cell) \<and>
     cchar_ok C (cell_text cell) (cell_attr cell) 0"

definition on_screen :: "'e console \<Rightarrow> 'e \<Rightarrow> int \<Rightarrow> int \<Rightarrow> bool" where
  "on_screen C e r c \<longleftrightarrow> 0 \<le> r \<and> r < screen_rows C e \<and> 0 \<le> c \<and> c < screen_cols C e"

definition same_terminal :: "'e console \<Rightarrow> 'e \<Rightarrow> 'e \<Rightarrow> bool" where
  "same_terminal C e e' \<longleftrightarrow> screen_rows C e' = screen_rows C e \<and> screen_cols C e' = screen_cols C e \<and>
     vt_screen C e' = vt_screen C e \<and> vt_cell C e' = vt_cell C e"

text \<open>\<open>look\<close> is what the screen shows at a row and a column. \<open>simple\<close> are the states of curses in which every place shows a
  character of one column and no attribute or background is set for the whole window. In such a state \<open>move\<close> moves the cursor
  to a place of the screen, and \<open>add_wch\<close> of a character of one column replaces the one at the cursor.\<close>

definition draws :: "'e console \<Rightarrow> (u32 \<Rightarrow> int) \<Rightarrow> ('e \<Rightarrow> bool) \<Rightarrow> ('e \<Rightarrow> int \<Rightarrow> int \<Rightarrow> glyph) \<Rightarrow> bool" where
  "draws C width simple look \<longleftrightarrow>
     (\<forall>e r c. simple e \<longrightarrow> on_screen C e r c \<longrightarrow> (\<exists>v e'. act C e (Move r c) = (Inr v, e') \<and> v \<noteq> - 1 \<and> cursor C e' = (r, c) \<and>
        look e' = look e \<and> simple e' \<and> same_terminal C e e')) \<and>
     (\<forall>e r c t a p. simple e \<longrightarrow> cursor C e = (r, c) \<longrightarrow> on_screen C e r c \<longrightarrow> one_column width t \<longrightarrow>
        look (did C (Add_wch t a p) e) = (look e)(r := (look e r)(c := (t, a, p))) \<and> simple (did C (Add_wch t a p) e) \<and>
        same_terminal C e (did C (Add_wch t a p) e))"

lemma drawsD:
  assumes "draws C width simple look" "simple e" "on_screen C e r c"
  shows "\<exists>v e'. act C e (Move r c) = (Inr v, e') \<and> v \<noteq> - 1 \<and> cursor C e' = (r, c) \<and>
      look e' = look e \<and> simple e' \<and> same_terminal C e e'"
    "cursor C e = (r, c) \<Longrightarrow> one_column width t \<Longrightarrow> look (did C (Add_wch t a p) e) = (look e)(r := (look e r)(c := (t, a, p))) \<and>
      simple (did C (Add_wch t a p) e) \<and> same_terminal C e (did C (Add_wch t a p) e)"
  using assms unfolding draws_def by blast+

lemma same_terminal_refl [simp]: "same_terminal C e e"
  by (simp add: same_terminal_def)

lemma same_terminal_trans: "same_terminal C e e1 \<Longrightarrow> same_terminal C e1 e2 \<Longrightarrow> same_terminal C e e2"
  by (simp add: same_terminal_def)

section \<open>One cell\<close>

lemma print_cell_parts:
  assumes "0 \<in> set (cell_chars cell)"
  shows "print_cell C cell row col = (if \<not> cchar_ok C (cell_text cell) (cell_attr cell) 0 then ret (- 1)
     else bind (perform C (Move row col)) (\<lambda>r. if r = - 1 then ret (- 1) else
          bind (perform C (Add_wch (cell_text cell) (cell_attr cell) 0)) (\<lambda>r. if r = - 1 then ret (- 1) else ret 0)))"
proof -
  obtain str where str: "wide_str (cell_chars cell) = Some str" using assms by (simp add: wide_str_def)
  have wch: "(if str \<noteq> [] then str else [0x20]) = cell_text cell"
    by (simp add: cell_text_def str split: list.split)
  have attr: "(let attr = A_NORMAL; attr = (if blink cell then attr OR A_BLINK else attr);
      attr = (if bold cell then attr OR A_BOLD else attr); attr = (if italic cell then attr OR A_ITALIC else attr);
      attr = (if reversed cell then attr OR A_REVERSE else attr)
      in if underline cell \<noteq> 0 then attr OR A_UNDERLINE else attr) = cell_attr cell"
    by (cases "blink cell"; cases "bold cell"; cases "italic cell"; cases "reversed cell"; cases "underline cell = 0")
      (simp_all add: Let_def A_NORMAL_def cell_attr_def or.assoc)
  show ?thesis
    unfolding print_cell_def str option.case Let_def wch attr [unfolded Let_def] ..
qed

text \<open>A cell with as many characters as its array has room for is read past its end.\<close>

lemma print_full_cell: "0 \<notin> set (cell_chars cell) \<Longrightarrow> print_cell C cell row col s = Undefined"
  by (simp add: print_cell_def wide_str_def undefined_prog_def)

text \<open>\<open>drew\<close>: only the outside and \<open>errno\<close> change, and the screen is \<open>f\<close> now.\<close>

definition drew ::
  "'e console \<Rightarrow> ('e \<Rightarrow> bool) \<Rightarrow> ('e \<Rightarrow> int \<Rightarrow> int \<Rightarrow> glyph) \<Rightarrow> 'e world \<Rightarrow> (int \<Rightarrow> int \<Rightarrow> glyph) \<Rightarrow> 'e world \<Rightarrow> bool" where
  "drew C simple look s f s' \<longleftrightarrow> globe s' = globe s \<and> blocks s' = blocks s \<and> look (env s') = f \<and> simple (env s') \<and>
     same_terminal C (env s) (env s')"

lemma runs_print_cell:
  assumes "draws C width simple look" "simple (env s)" "on_screen C (env s) r c" "drawable C width cell"
  shows "runs (print_cell C cell r c) s (\<lambda>_. drew C simple look s ((look (env s))(r := (look (env s) r)(c := glyph_of cell))))"
proof -
  obtain v e where m: "act C (env s) (Move r c) = (Inr v, e)" "v \<noteq> - 1" "cursor C e = (r, c)" "look e = look (env s)"
    "simple e" "same_terminal C (env s) e"
    using drawsD(1) [OF assms(1-3)] by blast
  have cell: "0 \<in> set (cell_chars cell)" "one_column width (cell_text cell)" "cchar_ok C (cell_text cell) (cell_attr cell) 0"
    using assms(4) by (simp_all add: drawable_def)
  have did: "did C (Move r c) (env s) = e" using m(1) by (simp add: did_def)
  have "on_screen C e r c" using assms(3) m(6) by (simp add: on_screen_def same_terminal_def)
  note add = drawsD(2) [OF assms(1) m(5) this m(3) cell(2)]
  have goal: "drew C simple look s ((look (env s))(r := (look (env s) r)(c := glyph_of cell)))
      (s\<lparr>env := did C (Add_wch (cell_text cell) (cell_attr cell) 0) e, errno_of := n\<rparr>)" for n
    using add [of "cell_attr cell" 0] m(4,6) by (auto simp: drew_def glyph_of_def intro: same_terminal_trans)
  show ?thesis
    using cell(3) m(1,2) did goal goal [of "errno_of s"]
    by (auto simp: print_cell_parts [OF cell(1)] runs_simps env_first split: sum.split)
qed

section \<open>Rectangles\<close>

text \<open>What is shown once \<open>g\<close> is drawn over \<open>f\<close> at the places of \<open>P\<close>.\<close>

definition over :: "(int \<Rightarrow> int \<Rightarrow> glyph) \<Rightarrow> (int \<Rightarrow> int \<Rightarrow> glyph) \<Rightarrow> (int \<times> int) set \<Rightarrow> int \<Rightarrow> int \<Rightarrow> glyph" where
  "over f g P r c = (if (r, c) \<in> P then g r c else f r c)"

lemma over_simps [simp]: "over f g {} = f" "over (over f g P) g Q = over f g (P \<union> Q)"
  by (auto simp: over_def fun_eq_iff)

lemma over_one: "f(r := (f r)(c := g r c)) = over f g {(r, c)}"
  by (auto simp: over_def fun_eq_iff)

definition stays :: "'e console \<Rightarrow> ('e \<Rightarrow> bool) \<Rightarrow> 'e world \<Rightarrow> 'e world \<Rightarrow> bool" where
  "stays C simple s s' \<longleftrightarrow> globe s' = globe s \<and> blocks s' = blocks s \<and> simple (env s') \<and> same_terminal C (env s) (env s')"

lemma drew_over:
  assumes "drew C simple look s (over (look (env s)) g P) s1" "drew C simple look s1 (over (look (env s1)) g Q) s2"
  shows "drew C simple look s (over (look (env s)) g (P \<union> Q)) s2"
  using assms by (auto simp: drew_def intro: same_terminal_trans)

lemma for_each_draws:
  assumes "simple (env s)" "\<And>x s'. x \<in> set xs \<Longrightarrow> stays C simple s s' \<Longrightarrow>
      runs (f x) s' (\<lambda>_. drew C simple look s' (over (look (env s')) g (A x)))"
  shows "runs (for_each f xs) s (\<lambda>_. drew C simple look s (over (look (env s)) g (\<Union>x\<in>set xs. A x)))"
  using assms
proof (induction xs arbitrary: s)
  case Nil
  then show ?case by (simp add: runs_simps drew_def)
next
  case (Cons x xs)
  have here: "runs (f x) s (\<lambda>_. drew C simple look s (over (look (env s)) g (A x)))"
    by (rule Cons.prems(2)) (simp_all add: stays_def Cons.prems(1))
  have "runs (for_each f xs) s1 (\<lambda>_. drew C simple look s (over (look (env s)) g (\<Union>x\<in>set (x # xs). A x)))"
    if d: "drew C simple look s (over (look (env s)) g (A x)) s1" for s1
  proof -
    have "runs (for_each f xs) s1 (\<lambda>_. drew C simple look s1 (over (look (env s1)) g (\<Union>x\<in>set xs. A x)))"
      using d by (intro Cons.IH Cons.prems(2)) (auto simp: stays_def drew_def intro: same_terminal_trans)
    then show ?thesis by (rule runs_mono) (use drew_over [OF d] in simp)
  qed
  with here show ?case by (auto simp: runs_simps intro: runs_mono)
qed

section \<open>Property\<close>

definition shown :: "'e console \<Rightarrow> 'e \<Rightarrow> ptr \<Rightarrow> int \<Rightarrow> int \<Rightarrow> screen_cell" where
  "shown C e v r c = vt_cell C e (vt_screen C e v) r c"

lemma runs_rectangle:
  assumes "draws C width simple look" "simple (env s)" "\<And>r c. r1 \<le> r \<Longrightarrow> r < r2 \<Longrightarrow> c1 \<le> c \<Longrightarrow> c < c2 \<Longrightarrow> on_screen C (env s) r c \<and>
      drawable C width (shown C (env s) (g_vterm (globe s)) r c)"
  shows "runs (for_each (\<lambda>row. for_each (\<lambda>col.
      bind (gets (\<lambda>s. vt_cell C (env s) (vt_screen C (env s) (g_vterm (globe s))) row col)) (\<lambda>cell.
      seq (print_cell C cell row col) (ret ()))) [c1..c2 - 1]) [r1..r2 - 1]) s
    (\<lambda>_. drew C simple look s (over (look (env s)) (\<lambda>r c. glyph_of (shown C (env s) (g_vterm (globe s)) r c))
      (\<Union>r\<in>{r1..r2 - 1}. \<Union>c\<in>{c1..c2 - 1}. {(r, c)})))"
    (is "runs _ _ (\<lambda>_. drew C simple look s (over (look (env s)) ?g _))")
proof -
  have cell: "runs (bind (gets (\<lambda>s. vt_cell C (env s) (vt_screen C (env s) (g_vterm (globe s))) r c)) (\<lambda>cell.
      seq (print_cell C cell r c) (ret ()))) s' (\<lambda>_. drew C simple look s' (over (look (env s')) ?g {(r, c)}))"
    if "r1 \<le> r" "r < r2" "c1 \<le> c" "c < c2" "stays C simple s s'" for r c and s' :: "'a world"
  proof -
    have same: "vt_cell C (env s') (vt_screen C (env s') (g_vterm (globe s'))) r c = shown C (env s) (g_vterm (globe s)) r c"
      "on_screen C (env s') r c" "simple (env s')"
      using that assms(3) by (auto simp: stays_def same_terminal_def shown_def on_screen_def)
    have "runs (print_cell C (shown C (env s) (g_vterm (globe s)) r c) r c) s' (\<lambda>_. drew C simple look s' (over (look (env s')) ?g {(r, c)}))"
      unfolding over_one [symmetric] using that assms(3) by (intro runs_print_cell [OF assms(1) same(3,2)]) simp
    then show ?thesis by (simp add: runs_simps same)
  qed
  have row: "runs (for_each (\<lambda>col. bind (gets (\<lambda>s. vt_cell C (env s) (vt_screen C (env s) (g_vterm (globe s))) r col)) (\<lambda>cell.
      seq (print_cell C cell r col) (ret ()))) [c1..c2 - 1]) s'
      (\<lambda>_. drew C simple look s' (over (look (env s')) ?g (\<Union>c\<in>{c1..c2 - 1}. {(r, c)})))"
    if "r1 \<le> r" "r < r2" "stays C simple s s'" for r and s' :: "'a world"
    unfolding set_upto [symmetric]
    by (rule for_each_draws, use that(3) in \<open>simp add: stays_def\<close>, rule cell)
      (use that in \<open>auto simp: stays_def intro: same_terminal_trans\<close>)
  show ?thesis
    unfolding set_upto [symmetric, of r1] by (rule for_each_draws, rule assms(2), rule row) simp_all
qed

text \<open>C35: On a screen of characters one column wide, after a damage callback the screen shows, at every place of the damaged
  rectangle, the characters and the attributes that the virtual terminal has there, for cells that hold such a character;
  the colours are lost, whatever the cell has: everything is drawn with the colour pair 0. Every other place is as it was,
  the cursor is back where it was, and nothing of the shell's own state has changed.\<close>

theorem damage_repaints:
  assumes "draws C width simple look" "simple (env s)" "case cursor C (env s) of (y, x) \<Rightarrow> on_screen C (env s) y x"
    "\<And>r c. r1 \<le> r \<Longrightarrow> r < r2 \<Longrightarrow> c1 \<le> c \<Longrightarrow> c < c2 \<Longrightarrow> on_screen C (env s) r c \<and>
      drawable C width (shown C (env s) (g_vterm (globe s)) r c)"
  shows "runs (damage_callback C r1 r2 c1 c2) s (\<lambda>x s'. x = 1 \<and> globe s' = globe s \<and> blocks s' = blocks s \<and>
    cursor C (env s') = cursor C (env s) \<and>
    (\<forall>r c. look (env s') r c = (if r1 \<le> r \<and> r < r2 \<and> c1 \<le> c \<and> c < c2
       then (cell_text (shown C (env s) (g_vterm (globe s)) r c), cell_attr (shown C (env s) (g_vterm (globe s)) r c), 0)
       else look (env s) r c)))"
    (is "runs _ _ ?Q")
proof -
  let ?g = "\<lambda>r c. glyph_of (shown C (env s) (g_vterm (globe s)) r c)"
  let ?P = "\<Union>r\<in>{r1..r2 - 1}. \<Union>c\<in>{c1..c2 - 1}. {(r, c)}"
  obtain y x where yx: "cursor C (env s) = (y, x)" by fastforce
  have home: "runs (seq (perform C (Move y x)) (ret 1)) s1 ?Q" if d: "drew C simple look s (over (look (env s)) ?g ?P) s1" for s1
  proof -
    have "on_screen C (env s1) y x" "simple (env s1)"
      using d assms(3) yx by (simp_all add: drew_def same_terminal_def on_screen_def)
    then obtain v e where "act C (env s1) (Move y x) = (Inr v, e)" "cursor C e = (y, x)" "look e = look (env s1)"
      using drawsD(1) [OF assms(1)] by blast
    then have "runs (perform C (Move y x)) s1 (\<lambda>_ s'. globe s' = globe s1 \<and> blocks s' = blocks s1 \<and> cursor C (env s') = (y, x) \<and>
        look (env s') = look (env s1))"
      by (simp add: perform_def runs_simps)
    then show ?thesis
      unfolding runs_seq by (rule runs_mono) (use d yx in \<open>simp add: runs_ret drew_def over_def glyph_of_def\<close>)
  qed
  show ?thesis
    unfolding damage_callback_def runs_bind [of "gets _"] runs_gets yx prod.case runs_seq [of "for_each _ _"]
    by (rule runs_mono, rule runs_rectangle [OF assms(1,2)], erule (3) assms(4)) (rule home [unfolded yx])
qed

text \<open>A screen that can be drawn on: the cursor and what it shows. It takes characters one column wide and drops the others.
  The virtual terminal has its position in every cell, bold and in red.\<close>

type_synonym canvas = "(int \<times> int) \<times> (int \<Rightarrow> int \<Rightarrow> glyph)"

definition canvas_width :: "u32 \<Rightarrow> int" where
  "canvas_width x = (if x < 0x20 then - 1 else if x < 0x300 then 1 else if x < 0x370 then 0 else 2)"

definition did_canvas :: "canvas \<Rightarrow> action \<Rightarrow> canvas" where
  "did_canvas e a = (case e of ((y, x), f) \<Rightarrow> (case a of
       Move r c \<Rightarrow> ((r, c), f)
     | Add_wch t at p \<Rightarrow> if one_column canvas_width t then ((y, x + 1), f(y := (f y)(x := (t, at, p)))) else e
     | _ \<Rightarrow> e))"

definition canvas_console :: "canvas console" where
  "canvas_console = (plain_console True)\<lparr>act := (\<lambda>e a. (Inr 0, did_canvas e a)), cursor := fst,
     vt_cell := (\<lambda>_ _ r c. \<lparr>cell_chars = [of_int (65 + r), 0x301, 0, of_int c, 0, 0], cell_width = 1, blink = False, bold = True,
       italic = False, reversed = False, underline = 0, cell_fg = 1, cell_bg = 0\<rparr>)\<rparr>"

definition all_simple :: "canvas \<Rightarrow> bool" where
  "all_simple e \<longleftrightarrow> (\<forall>r c. one_column canvas_width (fst (snd e r c)))"

lemma canvas_draws: "draws canvas_console canvas_width all_simple snd"
  by (auto simp: draws_def canvas_console_def plain_console_def did_canvas_def did_def same_terminal_def all_simple_def)

definition canvas_world :: "canvas world" where
  "canvas_world = start_at ((1, 2), \<lambda>_ _. ([0x2E], 0, 0))"

theorem damage_repaints_witness:
  "runs (damage_callback canvas_console 0 2 3 5) canvas_world (\<lambda>_ s'. cursor canvas_console (env s') = (1, 2) \<and>
     snd (env s') 1 4 = ([66, 0x301], A_BOLD, 0) \<and> snd (env s') 1 5 = ([0x2E], 0, 0))"
proof -
  let ?v = "g_vterm (globe canvas_world)"
  have size: "cursor canvas_console (env canvas_world) = (1, 2)" "screen_rows canvas_console e = 3" "screen_cols canvas_console e = 39"
    "cchar_ok canvas_console x a p" for e x a p
    by (simp_all add: canvas_console_def canvas_world_def start_at_def plain_console_def)
  have simple: "all_simple (env canvas_world)"
    by (simp add: all_simple_def canvas_world_def start_at_def one_column_def canvas_width_def)
  have cell: "cell_text (shown canvas_console (env canvas_world) ?v r c) = [of_int (65 + r), 0x301]"
    "cell_attr (shown canvas_console (env canvas_world) ?v r c) = A_BOLD"
    "0 \<in> set (cell_chars (shown canvas_console (env canvas_world) ?v r c))" if "r = 0 \<or> r = 1" for r c
    using that by (auto simp: shown_def canvas_console_def cell_text_def cell_attr_def wide_str_def)
  have rect: "on_screen canvas_console (env canvas_world) r c \<and>
      drawable canvas_console canvas_width (shown canvas_console (env canvas_world) ?v r c)" if "0 \<le> r" "r < 2" "3 \<le> c" "c < 5" for r c
  proof -
    have r: "r = 0 \<or> r = 1" using that by linarith
    then have "one_column canvas_width [of_int (65 + r), 0x301]" by (auto simp: one_column_def canvas_width_def)
    with that show ?thesis by (simp add: on_screen_def drawable_def size cell [OF r] del: of_int_add)
  qed
  have "case cursor canvas_console (env canvas_world) of (y, x) \<Rightarrow> on_screen canvas_console (env canvas_world) y x"
    by (simp add: size on_screen_def)
  from damage_repaints [OF canvas_draws simple this rect]
  show ?thesis
    by (rule runs_mono) (simp_all add: size cell, simp add: canvas_world_def start_at_def)
qed

end
