(* ===== verification/Prom.thy ===== *)
theory Prom
  imports Mods Shell
begin

text \<open>
  The commands: \<open>src/prom.c\<close>, \<open>src/prom-module.c\<close>, \<open>src/prom-shell.c\<close> and \<open>src/main.c\<close>. The arguments of a
  command are the list of its strings; \<open>--argc, ++argv\<close> is the tail.
\<close>

definition EXIT_SUCCESS :: int where "EXIT_SUCCESS = 0"
definition EXIT_FAILURE :: int where "EXIT_FAILURE = 1"

definition usage_exit :: "string \<Rightarrow> ('a, 'e world) prog" where
  "usage_exit usage = seq (print_err usage) (exit_prog EXIT_FAILURE)"

definition modules_path :: string where
  "modules_path = ''/home/nullp0tr/.prom/modules/''"

definition module_add_usage :: string where
  "module_add_usage = ''usage: prom-module-add path'' @ nl"

definition module_remove_usage :: string where
  "module_remove_usage = ''usage: prom-module-remove name'' @ nl"

definition module_usage :: string where
  "module_usage = ''usage: prom-module <command>'' @ nl @ nl @ ''commands:'' @ nl @
     ''    list      list all modules'' @ nl @ ''    add       add a new namespace'' @ nl @
     ''    remove    remove an existing namespace'' @ nl"

definition prom_usage :: string where
  "prom_usage = ''usage: prom <command> [--help]'' @ nl @ nl @ ''prom commands'' @ nl @
     ''    module       Manage your modules'' @ nl @ ''    shell        Launch a prom shell'' @ nl"

section \<open>The module commands\<close>

text \<open>The local array \<open>modules_path\<close> of \<open>cmd_arg_add\<close>, which hides the global of this name.\<close>

definition add_modules_path :: string where
  "add_modules_path = []"

definition report_add_failure :: "(int \<Rightarrow> string) \<Rightarrow> string \<Rightarrow> string \<Rightarrow> (int, 'e world) prog" where
  "report_add_failure err mod_path name =
     seq (print_err (''Failed to add module from '' @ mod_path @ '': ''))
    (bind (gets errno_of) (\<lambda>e.
     seq (if e = EEXIST then print_err (''Module with name '' @ name @ '' exists already.'') else print_err (err e))
    (seq (print_err nl) (ret EXIT_FAILURE))))"

definition cmd_arg_add :: "'e posix \<Rightarrow> (int \<Rightarrow> string) \<Rightarrow> string list \<Rightarrow> (int, 'e world) prog" where
  "cmd_arg_add P err argv =
     (if length argv < 2 then usage_exit module_add_usage
      else let mod_path = argv ! 1 in
        bind (abs_path P mod_path) (\<lambda>abs_mod_path.
          if abs_mod_path = null then ret EXIT_FAILURE
          else bind (load_str abs_mod_path) (\<lambda>x.
          bind (load_module P x fresh_module add_modules_path) (\<lambda>(mod_err, m).
            case mod_err of
              Some msg \<Rightarrow>
                seq (print_err (mod_path @ '' is not a valid module.'' @ nl @ msg @ ''.'' @ nl))
               (seq (free abs_mod_path) (ret EXIT_FAILURE))
            | None \<Rightarrow>
                bind (load_str abs_mod_path) (\<lambda>x.
                bind (reads (\<lambda>s. mod_name m)) (\<lambda>np.
                bind (load_str np) (\<lambda>name.
                bind (add_module P x name add_modules_path) (\<lambda>am.
                bind (if am = - 1 then report_add_failure err mod_path name else ret EXIT_SUCCESS) (\<lambda>exit_status.
                seq (unload_module m)
               (seq (free abs_mod_path) (ret exit_status))))))))))) "

definition cmd_arg_remove :: "'e posix \<Rightarrow> (int \<Rightarrow> string) \<Rightarrow> string list \<Rightarrow> (int, 'e world) prog" where
  "cmd_arg_remove P err argv =
     (if length argv < 2 then usage_exit module_remove_usage
      else let mod_name = argv ! 1 in
        bind (rm_module P mod_name modules_path) (\<lambda>rm.
          if rm = - 1
          then bind (gets errno_of) (\<lambda>e.
               seq (if e = ENOENT then print_err (''Module with name '' @ mod_name @ '' doesn't exist.'' @ nl)
                    else print_err (err e @ ''. '' @ show_int e @ nl)) (ret 1))
          else ret 0))"

definition list_clean :: "'e posix \<Rightarrow> (int, 'e world) prog" where
  "list_clean P =
     bind (clean_ul_mod_names P modules_path) (\<lambda>(damaged, len).
       if damaged = null then ret (- 1)
       else bind (reads (\<lambda>s. len)) (\<lambda>damaged_len.
            seq (for_each (\<lambda>i. bind (load_ptr (ptr_add damaged (int (8 * i)))) (\<lambda>p. bind (load_str p) (\<lambda>name.
                   print_out (''Removed: '' @ name @ nl)))) [0..<unat damaged_len])
           (seq (free_ul_mod_names damaged) (ret 0))))"

text \<open>The lines of one module; \<open>name\<close> and \<open>desc\<close> are the second and the third pointer of its struct.\<close>

definition print_module :: "ptr \<Rightarrow> nat \<Rightarrow> (unit, 'z proc_scheme) prog" where
  "print_module mods i =
     seq (print_out (''-----'' @ nl))
    (bind (load_ptr (ptr_add mods (int (56 * i) + 8))) (\<lambda>p. bind (load_str p) (\<lambda>name.
     seq (print_out (''Name: '' @ name @ nl))
    (bind (load_ptr (ptr_add mods (int (56 * i) + 16))) (\<lambda>p. bind (load_str p) (\<lambda>desc.
     print_out (''Desc: '' @ desc @ nl)))))))"

definition list_modules :: "'e posix \<Rightarrow> (int, 'e world) prog" where
  "list_modules P =
     bind (installed_mods P modules_path) (\<lambda>(mods, len).
       if mods = null then ret 1
       else bind (reads (\<lambda>s. len)) (\<lambda>len_ret.
            seq (for_each (print_module mods) [0..<unat len_ret])
           (seq (free_installed_mods mods)
           (seq (print_out (''-----'' @ nl)) (ret 0)))))"

definition cmd_arg_list :: "'e posix \<Rightarrow> string list \<Rightarrow> (int, 'e world) prog" where
  "cmd_arg_list P argv =
     (if list_ex (\<lambda>a. a = ''--clean'') argv then list_clean P else list_modules P)"

definition module_main :: "'e posix \<Rightarrow> (int \<Rightarrow> string) \<Rightarrow> string list \<Rightarrow> (int, 'e world) prog" where
  "module_main P err argv =
     (if length argv < 2 then usage_exit module_usage
      else let cmd_arg = argv ! 1 in
        if cmd_arg = ''list'' then cmd_arg_list P (tl argv)
        else if cmd_arg = ''add'' then cmd_arg_add P err (tl argv)
        else if cmd_arg = ''remove'' then cmd_arg_remove P err (tl argv)
        else usage_exit module_usage)"

section \<open>The program\<close>

definition shell_main ::
  "nat \<Rightarrow> nat \<Rightarrow> 'e ptrace_os \<Rightarrow> 'e console \<Rightarrow> string list \<Rightarrow> (int, 'e world) prog" where
  "shell_main k fuel T C argv = shell_main_entry k fuel T C"

definition cmd_main ::
  "nat \<Rightarrow> nat \<Rightarrow> 'e posix \<Rightarrow> 'e ptrace_os \<Rightarrow> 'e console \<Rightarrow> string list \<Rightarrow> (int, 'e world) prog" where
  "cmd_main k fuel P T C argv =
     (if length argv < 2 then usage_exit prom_usage
      else if argv ! 1 = ''module'' then module_main P (str_error C) (tl argv)
      else if argv ! 1 = ''shell'' then shell_main k fuel T C (tl argv)
      else usage_exit prom_usage)"

end
