(* ===== verification/Shell_Whole.thy ===== *)
theory Shell_Whole
  imports Session Shell_Child Prom
begin

text \<open>
  \<open>prom shell\<close> from its first call to its last: the set-up of screen, virtual terminal and pseudo terminal, the fork, and
  then the session of the parent or the program of the child.
\<close>

section \<open>Setting up\<close>

text \<open>Code that always returns, leaves the objects alone and keeps the books of a session.\<close>

definition prepared :: "('e \<Rightarrow> bool) \<Rightarrow> ('e \<Rightarrow> nat) \<Rightarrow> 'e world \<Rightarrow> 'e world \<Rightarrow> bool" where
  "prepared ok left s s' \<longleftrightarrow> mem_ok s' \<and> never_oom s' \<and> ok (env s') \<and> left (env s') \<le> left (env s) \<and> blocks s' = blocks s"

definition prepares :: "('e \<Rightarrow> bool) \<Rightarrow> ('e \<Rightarrow> nat) \<Rightarrow> ('a, 'e world) prog \<Rightarrow> bool" where
  "prepares ok left m \<longleftrightarrow> (\<forall>s. prepared ok left s s \<longrightarrow> runs m s (\<lambda>_. prepared ok left s))"

named_theorems prepares_intros \<open>code that prepares a session\<close>

lemma prepared_here: "prepared ok left s0 s \<Longrightarrow> prepared ok left s s"
  by (simp add: prepared_def)

lemma prepared_trans: "prepared ok left s s1 \<Longrightarrow> prepared ok left s1 s2 \<Longrightarrow> prepared ok left s s2"
  by (auto simp: prepared_def)

lemma prepares_bind [prepares_intros]: "prepares ok left m \<Longrightarrow> (\<And>a. prepares ok left (f a)) \<Longrightarrow> prepares ok left (bind m f)"
  unfolding prepares_def runs_bind
  by (intro allI impI) (rule runs_mono, blast, rule runs_mono, blast intro: prepared_here, blast intro: prepared_trans)

lemma prepares_seq [prepares_intros]: "prepares ok left m \<Longrightarrow> prepares ok left k \<Longrightarrow> prepares ok left (seq m k)"
  by (simp add: seq_def prepares_bind)

lemma prepares_basic [prepares_intros]: "prepares ok left (ret a)" "prepares ok left (gets f)" "prepares ok left (set_globe g)"
  by (simp_all add: prepares_def runs_ret runs_gets set_globe_def runs_modify prepared_def mem_ok_def never_oom_def)

lemma prepares_if [prepares_intros]: "prepares ok left m \<Longrightarrow> prepares ok left k \<Longrightarrow> prepares ok left (if b then m else k)"
  by simp

lemma prepares_answer [prepares_intros]:
  assumes "\<And>s. follows ok left (env s) (snd (f s))" "\<And>x e. prepares ok left (k x e)"
  shows "prepares ok left (bind (gets f) (\<lambda>(x, e). seq (modify (\<lambda>s. s\<lparr>env := e\<rparr>)) (k x e)))"
proof -
  have "runs (k (fst (f s)) (snd (f s))) (s\<lparr>env := snd (f s)\<rparr>) (\<lambda>_. prepared ok left s)" if "prepared ok left s s" for s :: "'a world"
  proof -
    have s1: "prepared ok left s (s\<lparr>env := snd (f s)\<rparr>)"
      using that assms(1) [of s] by (simp add: prepared_def follows_def mem_ok_def never_oom_def)
    show ?thesis
      using assms(2) prepared_here [OF s1] prepared_trans [OF s1] unfolding prepares_def by (blast intro: runs_mono)
  qed
  then show ?thesis by (simp add: prepares_def runs_bind runs_gets runs_seq runs_modify case_prod_unfold)
qed

lemma prepares_case [prepares_intros]:
  "(\<And>n. prepares ok left (g n)) \<Longrightarrow> (\<And>n. prepares ok left (h n)) \<Longrightarrow> prepares ok left (case r of Inl n \<Rightarrow> g n | Inr n \<Rightarrow> h n)"
  by (simp split: sum.split)

lemma prepares_errno [prepares_intros]: "prepares ok left (set_errno n)"
  by (auto simp: prepares_def prepared_def runs_set_errno mem_ok_def never_oom_def)

lemma prepares_perform:
  assumes "\<And>e. follows ok left e (did C a e)"
  shows "prepares ok left (perform C a)"
proof -
  have f: "follows ok left (env s) (snd (act C (env s) a))" for s :: "'a world"
    using assms by (simp add: did_def)
  show ?thesis unfolding perform_def by (rule prepares_answer [OF f]) (intro prepares_intros)
qed

text \<open>The calls made before there is a terminal.\<close>

definition first_call :: "action \<Rightarrow> bool" where
  "first_call a \<longleftrightarrow> (case a of Sigaction \<Rightarrow> True | Setlocale \<Rightarrow> True | Initscr \<Rightarrow> True | Raw \<Rightarrow> True | Noecho \<Rightarrow> True | Nodelay b \<Rightarrow> True
     | Keypad b \<Rightarrow> True | Nonl \<Rightarrow> True | Meta b \<Rightarrow> True | Refresh \<Rightarrow> True | _ \<Rightarrow> False)"

lemma prepares_setup:
  assumes "\<And>e a. first_call a \<Longrightarrow> follows ok left e (did C a e)"
  shows "prepares ok left (init_ncurses C)" "prepares ok left (maxyx C)"
proof -
  show "prepares ok left (init_ncurses C)"
    unfolding init_ncurses_def by (intro prepares_perform assms prepares_intros; simp add: first_call_def)
  show "prepares ok left (maxyx C)"
    unfolding maxyx_def case_prod_unfold by (intro prepares_intros)
qed

section \<open>Ends\<close>

text \<open>How the program ends, with the heap as it was: the parent's two ways, and the child's.\<close>

definition ends :: "'e console \<Rightarrow> 'e world \<Rightarrow> (int, 'e world) outcome \<Rightarrow> bool" where
  "ends C s r \<longleftrightarrow> (\<exists>s'. (r = Done 0 s' \<and> (\<exists>e. env s' = did C Endwin e) \<or> r = Exited 1 s' \<or>
     r = Replaced s' \<and> pid_child (globe s') = 0) \<and> blocks s' = blocks s)"

lemma ended_ends: "ended C s1 r \<Longrightarrow> blocks s1 = blocks s \<Longrightarrow> ends C s r"
  by (auto simp: ended_def ends_def)

lemma ends_bind:
  assumes "prepares ok left m" "prepared ok left s s1" "\<And>a s2. prepared ok left s s2 \<Longrightarrow> ends C s (f a s2)"
  shows "ends C s (bind m f s1)"
proof -
  obtain a s2 where "m s1 = Done a s2" "prepared ok left s1 s2"
    using assms(1) prepared_here [OF assms(2)] unfolding prepares_def runs_iff by blast
  with assms(2,3) show ?thesis by (auto simp: bind_def intro: prepared_trans)
qed

lemma ends_seq:
  assumes "prepares ok left m" "prepared ok left s s1" "\<And>s2. prepared ok left s s2 \<Longrightarrow> ends C s (k s2)"
  shows "ends C s (seq m k s1)"
  unfolding seq_def by (rule ends_bind [OF assms(1,2)]) (rule assms(3))

lemma ends_if: "(b \<Longrightarrow> ends C s (m s1)) \<Longrightarrow> (\<not> b \<Longrightarrow> ends C s (k s1)) \<Longrightarrow> ends C s ((if b then m else k) s1)"
  by simp

lemma child_ends:
  assumes "prepared ok left s s1" "pid_child (globe s1) = 0"
  shows "ends C s (child_main T C s1)"
proof -
  obtain e b where t: "tries C [Setsid, Set_ctty 0 1, Exec ''bash''] (after C (child_setup (globe s1)) (raised T (env s1))) = (e, b)"
    by fastforce
  then obtain n where "child_main T C s1 = (if b then Replaced (s1\<lparr>env := e, errno_of := n\<rparr>)
     else Exited 1 (s1\<lparr>env := e, errno_of := n, stderr_of := stderr_of s1 @ ''Error: '' @ str_error C n @ nl\<rparr>))"
    using child_main_ends [of T C s1] unfolding t by auto
  with assms show ?thesis by (simp add: ends_def prepared_def)
qed

text \<open>What the set-up asks of the outside. \<open>ok (v, fd)\<close> are the states in which the virtual terminal \<open>v\<close> lives and \<open>fd\<close> is the
  open master of a pseudo terminal: \<open>null\<close> and -1 stand for none yet. A new virtual terminal lives, a pseudo terminal that is
  opened is open, and a file opened beside it gets another descriptor.\<close>

definition opens :: "'e console \<Rightarrow> (ptr \<times> int \<Rightarrow> 'e \<Rightarrow> bool) \<Rightarrow> ('e \<Rightarrow> nat) \<Rightarrow> bool" where
  "opens C ok left \<longleftrightarrow> (\<forall>e a. first_call a \<longrightarrow> follows (ok (null, - 1)) left e (did C a e)) \<and>
     (\<forall>v fd. v \<noteq> null \<longrightarrow> console_follows C v fd (ok (v, fd)) left) \<and>
     (\<forall>e r c. ok (null, - 1) e \<longrightarrow> (case vt_new C e r c of (v, e') \<Rightarrow> v \<noteq> null \<and> ok (v, - 1) e' \<and> left e' \<le> left e)) \<and>
     (\<forall>v e fd. ok (v, - 1) e \<longrightarrow> fst (act C e Openpt) = Inr fd \<longrightarrow> 0 \<le> fd \<longrightarrow>
        ok (v, fd) (did C Openpt e) \<and> left (did C Openpt e) \<le> left e) \<and>
     (\<forall>v e fd name. ok (v, fd) e \<longrightarrow> 0 \<le> fd \<longrightarrow> fst (act C e (Open name)) \<noteq> Inr fd)"

lemma opensD:
  assumes "opens C ok left"
  shows "first_call a \<Longrightarrow> follows (ok (null, - 1)) left e (did C a e)"
    "v \<noteq> null \<Longrightarrow> console_follows C v fd (ok (v, fd)) left"
    "ok (null, - 1) e \<Longrightarrow> vt_new C e r c = (v, e') \<Longrightarrow> v \<noteq> null \<and> ok (v, - 1) e' \<and> left e' \<le> left e"
    "ok (v, - 1) e \<Longrightarrow> fst (act C e Openpt) = Inr fd \<Longrightarrow> 0 \<le> fd \<Longrightarrow> ok (v, fd) (did C Openpt e) \<and> left (did C Openpt e) \<le> left e"
    "ok (v, fd) e \<Longrightarrow> 0 \<le> fd \<Longrightarrow> fst (act C e (Open name)) \<noteq> Inr fd"
proof -
  note o = assms [unfolded opens_def]
  from o [THEN conjunct1] show "first_call a \<Longrightarrow> follows (ok (null, - 1)) left e (did C a e)" by blast
  note o = o [THEN conjunct2]
  from o [THEN conjunct1] show "v \<noteq> null \<Longrightarrow> console_follows C v fd (ok (v, fd)) left" by blast
  note o = o [THEN conjunct2]
  from o [THEN conjunct1, THEN spec [of _ e], THEN spec [of _ r], THEN spec [of _ c]]
  show "ok (null, - 1) e \<Longrightarrow> vt_new C e r c = (v, e') \<Longrightarrow> v \<noteq> null \<and> ok (v, - 1) e' \<and> left e' \<le> left e" by simp
  note o = o [THEN conjunct2]
  from o [THEN conjunct1]
  show "ok (v, - 1) e \<Longrightarrow> fst (act C e Openpt) = Inr fd \<Longrightarrow> 0 \<le> fd \<Longrightarrow> ok (v, fd) (did C Openpt e) \<and> left (did C Openpt e) \<le> left e"
    by blast
  from o [THEN conjunct2]
  show "ok (v, fd) e \<Longrightarrow> 0 \<le> fd \<Longrightarrow> fst (act C e (Open name)) \<noteq> Inr fd" by blast
qed

lemma prepared_globe [simp]: "prepared ok left s (s1\<lparr>globe := g\<rparr>) \<longleftrightarrow> prepared ok left s s1"
  by (simp add: prepared_def mem_ok_def never_oom_def)

lemma ends_set_globe: "ends C s (k (s1\<lparr>globe := f (globe s1)\<rparr>)) \<Longrightarrow> ends C s (seq (set_globe f) k s1)"
  by (simp add: seq_def bind_def set_globe_def modify_def)

lemma ends_runs: "runs m s1 Q \<Longrightarrow> (\<And>a s2. Q a s2 \<Longrightarrow> ends C s (f a s2)) \<Longrightarrow> ends C s (bind m f s1)"
  by (auto simp: runs_iff bind_def)

text \<open>A call on the terminals that are there, and the three steps of the set-up that change what is there.\<close>

lemma runs_own:
  fixes s1 :: "'e world"
  assumes "console_follows C v fd ok left" "own C v fd a" "prepared ok left s s1"
  shows "runs (perform C a) s1 (\<lambda>r s'. prepared ok left s s' \<and> globe s' = globe s1 \<and> (fst (act C (env s1) a) = Inr r \<or> r = - 1))"
proof -
  have "follows ok left (env s1) (did C a (env s1))" using assms(1,2) by (simp add: console_follows_def)
  then show ?thesis
    using assms(3) by (auto simp: runs_perform prepared_def follows_def mem_ok_def never_oom_def split: sum.split)
qed

lemma runs_own_then:
  assumes "console_follows C v fd ok left" "own C v fd a" "prepared ok left s s1"
    and "\<And>s2. prepared ok left s s2 \<Longrightarrow> globe s2 = globe s1 \<Longrightarrow> runs m s2 Q"
  shows "runs (seq (perform C a) m) s1 Q"
  unfolding runs_seq by (rule runs_mono [OF runs_own [OF assms(1-3)]]) (use assms(4) in blast)

lemma runs_init_vterm:
  fixes s1 :: "'e world"
  assumes O: "opens C ok left" and s: "prepared (ok (null, - 1)) left s s1"
  shows "runs (init_vterm C r c) s1 (\<lambda>v s'. v \<noteq> null \<and> prepared (ok (v, - 1)) left s s')"
proof -
  obtain v e where v: "vt_new C (env s1) r c = (v, e)" by fastforce
  have new: "prepared (ok (v, - 1)) left s (s1\<lparr>env := e\<rparr>)" "v \<noteq> null"
    using s opensD(3) [OF O _ v] by (auto simp: prepared_def mem_ok_def never_oom_def)
  have own: "own C v (- 1) (Vt_utf8 v 1)" "own C v (- 1) (Vt_altscreen (vt_screen C e' v) 1)"
    "own C v (- 1) (Vt_reset (vt_screen C e' v) 1)" "own C v (- 1) (Vt_callbacks (vt_screen C e' v))" for e'
    by (auto simp: own_def)
  note call = runs_own_then [OF opensD(2) [OF O new(2)]]
  have "runs (seq (perform C (Vt_altscreen (vt_screen C e' v) 1)) (seq (perform C (Vt_reset (vt_screen C e' v) 1))
      (seq (perform C (Vt_callbacks (vt_screen C e' v))) (ret v)))) s2 (\<lambda>v s'. v \<noteq> null \<and> prepared (ok (v, - 1)) left s s')"
    if "prepared (ok (v, - 1)) left s s2" for e' s2
    by (rule call [OF own(2) that], rule call [OF own(3)], assumption, rule call [OF own(4)], assumption) (simp add: runs_ret new(2))
  then show ?thesis
    unfolding init_vterm_def runs_bind [of "gets _"] runs_gets v prod.case runs_seq [of "modify _"] runs_modify
    by (intro call [OF own(1) new(1)]) (simp only: runs_bind runs_gets)
qed

lemma runs_new_master_pty:
  fixes s1 :: "'e world"
  assumes O: "opens C ok left" and v: "v \<noteq> null" and s: "prepared (ok (v, - 1)) left s s1"
  shows "runs (new_master_pty C) s1 (\<lambda>fd s2. globe s2 = globe s1 \<and>
    (if fd = - 1 then blocks s2 = blocks s else 0 \<le> fd \<and> prepared (ok (v, fd)) left s s2))" (is "runs _ _ ?Q")
proof -
  have failed: "runs (ret (- 1)) s2 ?Q" if "globe s2 = globe s1" "blocks s2 = blocks s" for s2
    using that by (simp add: runs_ret)
  have granted: "runs (bind (perform C (Grantpt fd)) (\<lambda>r. if r \<noteq> 0 then ret (- 1)
      else bind (perform C (Unlockpt fd)) (\<lambda>r. if r \<noteq> 0 then ret (- 1) else ret fd))) s2 ?Q"
    if s2: "0 \<le> fd" "prepared (ok (v, fd)) left s s2" "globe s2 = globe s1" for fd s2
  proof -
    have own: "own C v fd (Grantpt fd)" "own C v fd (Unlockpt fd)" by (simp_all add: own_def)
    note call = runs_own [OF opensD(2) [OF O v]]
    have unlock: "runs (bind (perform C (Unlockpt fd)) (\<lambda>r. if r \<noteq> 0 then ret (- 1) else ret fd)) s3 ?Q"
      if "prepared (ok (v, fd)) left s s3" "globe s3 = globe s1" for s3
      unfolding runs_bind
      by (rule runs_mono [OF call [OF own(2) that(1)]]) (use that s2(1) in \<open>auto simp: runs_ret prepared_def\<close>)
    show ?thesis
      unfolding runs_bind [of "perform C (Grantpt fd)"]
    proof (rule runs_mono [OF call [OF own(1) s2(2)]])
      fix r s3 assume "prepared (ok (v, fd)) left s s3 \<and> globe s3 = globe s2 \<and> (fst (act C (env s2) (Grantpt fd)) = Inr r \<or> r = - 1)"
      then have s3: "prepared (ok (v, fd)) left s s3" "globe s3 = globe s1" "blocks s3 = blocks s" using s2(3) by (simp_all add: prepared_def)
      from unlock [OF s3(1,2)] failed [OF s3(2,3)]
      show "runs (if r \<noteq> 0 then ret (- 1) else bind (perform C (Unlockpt fd)) (\<lambda>r. if r \<noteq> 0 then ret (- 1) else ret fd)) s3 ?Q"
        by (cases "r = 0") (simp_all only: if_True if_False simp_thms)
    qed
  qed
  show ?thesis
  proof (cases "fst (act C (env s1) Openpt)")
    case (Inl n)
    then show ?thesis using s by (simp add: new_master_pty_def runs_bind runs_perform runs_ret prepared_def)
  next
    case (Inr fd)
    let ?s = "s1\<lparr>env := did C Openpt (env s1)\<rparr>"
    have now: "ok (v, - 1) (env s1)" using s by (simp add: prepared_def)
    have "prepared (ok (v, fd)) left s ?s" if "0 \<le> fd"
      using s opensD(4) [OF O now Inr that] by (auto simp: prepared_def mem_ok_def never_oom_def)
    moreover have "blocks ?s = blocks s" using s by (simp add: prepared_def)
    ultimately show ?thesis
      using granted [of fd ?s] failed [of ?s] Inr
      by (simp add: new_master_pty_def runs_bind [of "perform C Openpt"] runs_perform [of C Openpt])
  qed
qed

lemma ends_error: "blocks s1 = blocks s \<Longrightarrow> ends C s (errord_errno C what s1)"
  by (rule ended_ends [OF ended_ways(2) [OF refl]])

lemma after_fork_ends:
  fixes s1 :: "'e world"
  assumes S: "session k T C v fd ok left wait" and s: "prepared ok left s s1" "left (env s) < j"
    and g: "g_vterm (globe s1) = v" "fd_master (globe s1) = fd" "fd_slave (globe s1) \<noteq> fd"
  shows "ends C s (seq (set_globe (\<lambda>g. g\<lparr>pid_child := pid\<rparr>))
    (if pid = - 1 then errord_errno C what else if pid = 0 then child_main T C else parent_main j k T C) s1)"
proof (rule ends_set_globe)
  let ?s = "s1\<lparr>globe := (globe s1)\<lparr>pid_child := pid\<rparr>\<rparr>"
  have p: "prepared ok left s ?s" using s(1) by simp
  have "ended C ?s (parent_main j k T C ?s)"
    by (rule parent_ended [OF S]) (use p s(2) g in \<open>auto simp: in_session_def prepared_def\<close>)
  then have "ends C s (parent_main j k T C ?s)" by (rule ended_ends) (use p in \<open>simp add: prepared_def\<close>)
  moreover have "blocks ?s = blocks s" using p by (simp add: prepared_def)
  ultimately show "ends C s ((if pid = - 1 then errord_errno C what else if pid = 0 then child_main T C else parent_main j k T C) ?s)"
    by (intro ends_if ends_error child_ends [OF p]) simp_all
qed

text \<open>From the open master on.\<close>

lemma after_pty_ends:
  fixes s1 :: "'e world"
  assumes S: "session k T C v fd (ok (v, fd)) left wait" and O: "opens C ok left" and fd: "v \<noteq> null" "0 \<le> fd"
    and s: "prepared (ok (v, fd)) left s s1" "left (env s) < j" and g: "g_vterm (globe s1) = v" "fd_master (globe s1) = fd"
  shows "ends C s (bind (gets (\<lambda>s. pts_name C (env s) fd)) (\<lambda>name. bind (perform C (Open name)) (\<lambda>fds.
     seq (set_globe (\<lambda>g. g\<lparr>fd_slave := fds\<rparr>)) (if fds = - 1 then errord_errno C what1 else
     bind (perform C Fork) (\<lambda>pid. seq (set_globe (\<lambda>g. g\<lparr>pid_child := pid\<rparr>))
     (if pid = - 1 then errord_errno C what2 else if pid = 0 then child_main T C else parent_main j k T C))))) s1)"
proof -
  have own: "own C v fd (Open name)" "own C v fd Fork" for name by (simp_all add: own_def)
  note call = runs_own [OF opensD(2) [OF O fd(1)]]
  have forked: "ends C s (bind (perform C Fork) (\<lambda>pid. seq (set_globe (\<lambda>g. g\<lparr>pid_child := pid\<rparr>))
     (if pid = - 1 then errord_errno C what2 else if pid = 0 then child_main T C else parent_main j k T C)) s2)"
    if s2: "prepared (ok (v, fd)) left s s2" "g_vterm (globe s2) = v" "fd_master (globe s2) = fd" "fd_slave (globe s2) \<noteq> fd" for s2
    by (rule ends_runs [OF call [OF own(2) s2(1)]], rule after_fork_ends [OF S _ s(2)]) (use s2 in simp_all)
  have "ends C s (bind (perform C (Open name)) (\<lambda>fds. seq (set_globe (\<lambda>g. g\<lparr>fd_slave := fds\<rparr>)) (if fds = - 1 then errord_errno C what1 else
     bind (perform C Fork) (\<lambda>pid. seq (set_globe (\<lambda>g. g\<lparr>pid_child := pid\<rparr>))
     (if pid = - 1 then errord_errno C what2 else if pid = 0 then child_main T C else parent_main j k T C)))) s1)" for name
  proof (rule ends_runs [OF call [OF own(1) s(1)]], rule ends_set_globe)
    fix fds s2 assume s2: "prepared (ok (v, fd)) left s s2 \<and> globe s2 = globe s1 \<and> (fst (act C (env s1) (Open name)) = Inr fds \<or> fds = - 1)"
    have "ok (v, fd) (env s1)" using s(1) by (simp add: prepared_def)
    then have "fds \<noteq> fd" using s2 opensD(5) [OF O _ fd(2)] fd by auto
    then have "ends C s (bind (perform C Fork) (\<lambda>pid. seq (set_globe (\<lambda>g. g\<lparr>pid_child := pid\<rparr>))
     (if pid = - 1 then errord_errno C what2 else if pid = 0 then child_main T C else parent_main j k T C))
     (s2\<lparr>globe := (globe s2)\<lparr>fd_slave := fds\<rparr>\<rparr>))"
      by (intro forked) (use s2 g in simp_all)
    then show "ends C s ((if fds = - 1 then errord_errno C what1 else
     bind (perform C Fork) (\<lambda>pid. seq (set_globe (\<lambda>g. g\<lparr>pid_child := pid\<rparr>))
     (if pid = - 1 then errord_errno C what2 else if pid = 0 then child_main T C else parent_main j k T C)))
     (s2\<lparr>globe := (globe s2)\<lparr>fd_slave := fds\<rparr>\<rparr>))"
      using s2 by (intro ends_if ends_error) (simp_all add: prepared_def)
  qed
  then show ?thesis by (simp add: bind_gets)
qed

lemma run_shell_ends:
  fixes s1 :: "'e world"
  assumes S: "\<And>v fd. v \<noteq> null \<Longrightarrow> 0 \<le> fd \<Longrightarrow> session k T C v fd (ok (v, fd)) left wait" and O: "opens C ok left"
    and s: "prepared (ok (null, - 1)) left s s1" "left (env s) < j"
  shows "ends C s (run_shell j k T C s1)"
proof -
  note F = opensD(1) [OF O]
  have first: "first_call Setlocale" by (simp add: first_call_def)
  note step = ends_seq [where ok = "ok (null, - 1)" and left = left] ends_bind [where ok = "ok (null, - 1)" and left = left]
  have pty: "ends C s (bind (new_master_pty C) (\<lambda>fdm.
     seq (set_globe (\<lambda>g. g\<lparr>fd_master := fdm\<rparr>)) (if fdm = - 1 then errord_errno C what0 else
     bind (gets (\<lambda>s. pts_name C (env s) fdm)) (\<lambda>name. bind (perform C (Open name)) (\<lambda>fds.
     seq (set_globe (\<lambda>g. g\<lparr>fd_slave := fds\<rparr>)) (if fds = - 1 then errord_errno C what1 else
     bind (perform C Fork) (\<lambda>pid. seq (set_globe (\<lambda>g. g\<lparr>pid_child := pid\<rparr>))
     (if pid = - 1 then errord_errno C what2 else if pid = 0 then child_main T C else parent_main j k T C))))))) s2)"
    if s2: "prepared (ok (v, - 1)) left s s2" "g_vterm (globe s2) = v" "v \<noteq> null" for v s2 what0 what1 what2
    by (rule ends_runs [OF runs_new_master_pty [OF O s2(3,1)]], rule ends_set_globe, rule ends_if, rule ends_error, simp)
      (rule after_pty_ends [OF S O _ _ _ s(2)]; use s2(2,3) in simp)
  show ?thesis
    unfolding run_shell_def
    by (rule step [OF prepares_perform [OF F [OF first]] s(1)], rule step [OF prepares_setup(1) [OF F]], assumption, assumption,
        rule step [OF prepares_setup(2) [OF F]], assumption, assumption, rule step [OF prepares_basic(3)], assumption,
        rule step [OF prepares_basic(2)], assumption, rule ends_runs [OF runs_init_vterm [OF O]], assumption,
        rule ends_set_globe, elim conjE, rule pty, subst prepared_globe, assumption) simp_all
qed

section \<open>Property\<close>

text \<open>C14: \<open>prom shell\<close> comes to an end, whatever the calls of its set-up answer, as long as the other side of its pseudo
  terminal hangs up within a number of polls, the log of the callbacks can be written, memory lasts, the paths the tracees
  name end within \<open>k\<close> words and the keyboard pauses within \<open>k\<close> keys: the parent leaves its loop and returns 0 with the screen
  given back as its last call of the libraries, or exits with status 1; the child becomes another program or exits with
  status 1. Nothing done on the way is still allocated. How much a \<open>write\<close> takes and how much the output buffer of the
  virtual terminal has room for does not matter.\<close>

theorem prom_shell_ends:
  fixes s :: "'e world"
  assumes "\<And>v fd. v \<noteq> null \<Longrightarrow> 0 \<le> fd \<Longrightarrow> session k T C v fd (ok (v, fd)) left wait" "opens C ok left"
    and "mem_ok s" "never_oom s" "ok (null, - 1) (env s)" "left (env s) < j" "2 \<le> length argv" "argv ! 1 = ''shell''"
  shows "\<exists>s'. (cmd_main j k P T C argv s = Done 0 s' \<and> (\<exists>e. env s' = did C Endwin e) \<or> cmd_main j k P T C argv s = Exited 1 s' \<or>
    cmd_main j k P T C argv s = Replaced s' \<and> pid_child (globe s') = 0) \<and> blocks s' = blocks s"
proof -
  have start: "prepared (ok (null, - 1)) left s s" using assms(3-5) by (simp add: prepared_def)
  have first: "first_call Sigaction" by (simp add: first_call_def)
  have "ends C s (errord msg s1)" if "prepared (ok (null, - 1)) left s s1" for msg s1
    using that by (simp add: errord_exits ends_def prepared_def)
  then have "ends C s (shell_main_entry j k T C s)"
    unfolding shell_main_entry_def
    by (intro ends_bind [OF prepares_perform [OF opensD(1) [OF assms(2) first]] start] ends_if run_shell_ends [OF assms(1,2) _ assms(6)])
  with assms(7,8) show ?thesis by (simp add: cmd_main_def shell_main_def ends_def)
qed

theorem prom_shell_ends_witness:
  "\<forall>P. \<exists>s'. (cmd_main 6 2 P idle_kernel clock_console [''prom'', ''shell''] (start_at (5, [])) = Done 0 s' \<and> last (snd (env s')) = Endwin \<or>
      cmd_main 6 2 P idle_kernel clock_console [''prom'', ''shell''] (start_at (5, [])) = Exited 1 s' \<or>
      cmd_main 6 2 P idle_kernel clock_console [''prom'', ''shell''] (start_at (5, [])) = Replaced s' \<and> pid_child (globe s') = 0) \<and>
    blocks s' = (\<lambda>_. None)"
proof
  fix P :: "clock posix"
  let ?ok = "\<lambda>(v :: ptr, fd :: int) (e :: clock). fd \<noteq> 4"
  have session: "session 2 idle_kernel clock_console v fd (?ok (v, fd)) fst (\<lambda>_. 0)" for v fd
    using clock_session [where b = "fd \<noteq> 4"] by simp
  have opens: "opens clock_console ?ok fst"
    using session_laws(2) [OF session] by (auto simp: opens_def clock_console_def plain_console_def did_def follows_def null_def)
  have "last (snd (did clock_console Endwin e)) = Endwin" for e by (simp add: did_def clock_console_def)
  with prom_shell_ends [where ok = ?ok and left = fst, OF session opens, where s = "start_at (5, [])" and j = 6
      and argv = "[''prom'', ''shell'']" and P = P]
  show "\<exists>s'. (cmd_main 6 2 P idle_kernel clock_console [''prom'', ''shell''] (start_at (5, [])) = Done 0 s' \<and> last (snd (env s')) = Endwin \<or>
      cmd_main 6 2 P idle_kernel clock_console [''prom'', ''shell''] (start_at (5, [])) = Exited 1 s' \<or>
      cmd_main 6 2 P idle_kernel clock_console [''prom'', ''shell''] (start_at (5, [])) = Replaced s' \<and> pid_child (globe s') = 0) \<and>
    blocks s' = (\<lambda>_. None)" by (auto simp: start_at_ok)
qed

end
