(* ===== verification/Prom_Facts.thy ===== *)
theory Prom_Facts
  imports Prom
begin

text \<open>
  What the commands do: adding a module, removing one, and which command runs.
\<close>

lemma runs_usage_exit: "usage_exit u s = Exited 1 (s\<lparr>stderr_of := stderr_of s @ u\<rparr>)"
  by (simp add: usage_exit_def EXIT_FAILURE_def print_err_def seq_def bind_def modify_def exit_prog_def)

section \<open>Adding a module\<close>

lemma c_string_append: "c_string (x @ y) \<longleftrightarrow> c_string x \<and> c_string y"
  by (simp add: c_string_def)

lemma resolved_fits:
  assumes "c_string x" "c_string c" "length x + length c + 8 < 2 ^ 64"
  shows "path_fits [] (resolved c x)" "c_string (resolved c x)"
  using assms by (auto simp: path_fits_def resolved_def joined_def c_string_append c_string_def)

text \<open>What is left to do once the module is loaded: the link, the unloading and the release of the path.\<close>

definition add_rest :: "'e posix \<Rightarrow> (int \<Rightarrow> string) \<Rightarrow> string \<Rightarrow> ptr \<Rightarrow> c_module \<Rightarrow> (int, 'e world) prog" where
  "add_rest P err mod_path p m =
     bind (load_str p) (\<lambda>x.
     bind (reads (\<lambda>s. mod_name m)) (\<lambda>np.
     bind (load_str np) (\<lambda>name.
     bind (add_module P x name add_modules_path) (\<lambda>am.
     bind (if am = - 1 then report_add_failure err mod_path name else ret EXIT_SUCCESS) (\<lambda>exit_status.
     seq (unload_module m) (seq (free p) (ret exit_status)))))))"

definition add_outcome :: "(int \<Rightarrow> string) \<Rightarrow> string \<Rightarrow> string \<Rightarrow> 'e world \<Rightarrow> int + 'e \<Rightarrow> int \<Rightarrow> 'e world \<Rightarrow> bool" where
  "add_outcome err mod_path name s r q s' \<longleftrightarrow> blocks s' = blocks s \<and> libs s' = libs s \<and> stdout_of s' = stdout_of s \<and> (case r of
       Inr e' \<Rightarrow> q = 0 \<and> env s' = e' \<and> stderr_of s' = stderr_of s
     | Inl e \<Rightarrow> q = 1 \<and> env s' = env s \<and> stderr_of s' = stderr_of s @ ''Failed to add module from '' @ mod_path @ '': '' @
         (if e = EEXIST then ''Module with name '' @ name @ '' exists already.'' else err e) @ nl)"

lemma runs_print_err [runs_simps]: "runs (print_err x) s Q \<longleftrightarrow> Q () (s\<lparr>stderr_of := stderr_of s @ x\<rparr>)"
  by (simp add: print_err_def runs_modify)

lemma runs_report:
  "runs (report_add_failure err mp name) s Q \<longleftrightarrow> Q 1 (s\<lparr>stderr_of := stderr_of s @ ''Failed to add module from '' @ mp @ '': '' @
     (if errno_of s = EEXIST then ''Module with name '' @ name @ '' exists already.'' else err (errno_of s)) @ nl\<rparr>)"
  by (simp add: report_add_failure_def runs_simps EXIT_FAILURE_def)

lemma runs_add_rest:
  assumes s1: "made_string s R p s1" "libs s1 = libs s" "next_ext s1 = next_ext s" "env s1 = env s" "stderr_of s1 = stderr_of s" "stdout_of s1 = stdout_of s"
    and s2: "mapped s1 so s2" "load_step s1 s2" "m = loaded_module (next_ext s) so fresh_module" "never_oom s2"
    and so: "so ''name'' = Some (Data nm)" "c_string nm" "length nm + 4 < 2 ^ 64"
    and fresh: "libs s (next_ext s) = None" "\<forall>x. blocks s (Sym (next_ext s) x) = None" and R: "c_string R"
  shows "runs (add_rest P err mod_path p m) s2 (add_outcome err mod_path nm s (os_symlink P (env s) R nm))"
proof -
  let ?k = "next_ext s"
  obtain b pad where p: "p = Ptr (Blk b) 0" "blocks s (Blk b) = None"
    "blocks s1 = (blocks s)(Blk b \<mapsto> cstr R @ replicate pad Undef)"
    using s1(1) by (auto simp: made_string_def)
  have mem: "mem_ok s2" using s2(2) by (simp add: load_step_def)
  have b2: "blocks s2 = map_lib ?k so (blocks s1)" "libs s2 = (libs s)(?k \<mapsto> so)" "env s2 = env s" "stderr_of s2 = stderr_of s" "stdout_of s2 = stdout_of s"
    using s2(1,2) s1 by (simp_all add: mapped_def load_step_def)
  have strs: "str_of_ptr s2 p = Some R" "str_of_ptr s2 (Ptr (Sym ?k ''name'') 0) = Some nm"
    using b2(1) p so(1,2) R by (simp_all add: str_of_ptr_def str_at_cstr map_lib_def)
  have unmap: "unmap_lib ?k (blocks s2) = blocks s1"
    unfolding b2(1) by (rule unmap_map) (use fresh(2) p(3) in simp)
  have gone: "(blocks s1)(Blk b := None) = blocks s" using p(2,3) by (simp add: fun_upd_idem)
  have leave: "runs (seq (unload_module m) (seq (free p) (ret q))) s3 (\<lambda>r s'. r = q \<and> blocks s' = blocks s \<and> libs s' = libs s \<and>
      env s' = env s3 \<and> stderr_of s' = stderr_of s3 \<and> stdout_of s' = stdout_of s3)" if "blocks s3 = blocks s2" "libs s3 = libs s2" for s3 q
  proof -
    have "lib_of s3 (Ptr (Ext ?k) 0) = Some (?k, so)" using that b2(2) by (simp add: lib_of_def)
    then show ?thesis
      using that unmap gone b2(2) fresh(1) p(1,3) s2(3)
      by (simp add: unload_module_def loaded_module_def dlclose_def dlerror_def runs_simps fun_upd_idem)
  qed
  have fits: "path_fits [] nm" using so(2,3) by (simp add: path_fits_def)
  have grant: "grants s2 (requests s2)" by (rule never_oom_now [OF s2(4)])
  have "runs (add_module P R nm add_modules_path) s2 (\<lambda>am s3. runs (bind (if am = - 1 then report_add_failure err mod_path nm
      else ret EXIT_SUCCESS) (\<lambda>exit_status. seq (unload_module m) (seq (free p) (ret exit_status)))) s3
      (add_outcome err mod_path nm s (os_symlink P (env s) R nm)))"
    unfolding add_modules_path_def
  proof (rule runs_mono [OF runs_add_module [OF mem fits]])
    fix r :: int and s3 :: "'a world"
    assume "link_result (\<lambda>e l. os_symlink P e R l) [] nm s2 r s3"
    with grant b2 have s3: "blocks s3 = blocks s2" "libs s3 = libs s2" "stderr_of s3 = stderr_of s"
      "stdout_of s3 = stdout_of s" "case os_symlink P (env s) R nm of Inl e \<Rightarrow> r = - 1 \<and> errno_of s3 = e \<and> env s3 = env s | Inr e' \<Rightarrow> r = 0 \<and> env s3 = e'"
      by (auto simp: link_result_def outside_step_def load_step_def split: sum.splits)
    show "runs (bind (if r = - 1 then report_add_failure err mod_path nm else ret EXIT_SUCCESS)
        (\<lambda>exit_status. seq (unload_module m) (seq (free p) (ret exit_status)))) s3
        (add_outcome err mod_path nm s (os_symlink P (env s) R nm))"
    proof (cases "os_symlink P (env s) R nm")
      case (Inl e)
      let ?s4 = "s3\<lparr>stderr_of := stderr_of s3 @ ''Failed to add module from '' @ mod_path @ '': '' @
        (if errno_of s3 = EEXIST then ''Module with name '' @ nm @ '' exists already.'' else err (errno_of s3)) @ nl\<rparr>"
      have "runs (seq (unload_module m) (seq (free p) (ret 1))) ?s4 (add_outcome err mod_path nm s (os_symlink P (env s) R nm))"
        by (rule runs_mono [OF leave]) (use s3 Inl in \<open>auto simp: add_outcome_def\<close>)
      with s3(5) Inl show ?thesis by (simp add: runs_bind runs_report)
    next
      case (Inr e')
      have "runs (seq (unload_module m) (seq (free p) (ret 0))) s3 (add_outcome err mod_path nm s (os_symlink P (env s) R nm))"
        by (rule runs_mono [OF leave]) (use s3 Inr in \<open>auto simp: add_outcome_def\<close>)
      with s3(5) Inr show ?thesis by (simp add: runs_bind runs_ret EXIT_SUCCESS_def)
    qed
  qed
  then show ?thesis
    using strs s2(3) by (simp add: add_rest_def runs_bind [of "load_str _"] runs_bind [of "reads _"] runs_load_str runs_reads
      runs_bind [of "add_module _ _ _ _"] loaded_module_def)
qed

lemma runs_cmd_add:
  assumes "stack_ok s" "curr s < 9" "healthy s" "dl_error s = None" "os_wordexp P (env s) path = Some (x # ws)"
    and "c_string x" "Suc (length x) < 2 ^ 64" "length (x # ws) < 2 ^ 64"
    and "os_getcwd P (env s) = Inr c" "c_string c" "length x + length c + 8 < 2 ^ 64"
    and "os_dlopen P (env s) (Some (resolved c x)) = Inr so" "missing so = None" "entry so \<noteq> None"
    and "so ''name'' = Some (Data nm)" "c_string nm" "length nm + 4 < 2 ^ 64"
    and "libs s (next_ext s) = None" "\<forall>x. blocks s (Sym (next_ext s) x) = None"
  shows "runs (cmd_arg_add P err (cmd # path # args)) s
    (add_outcome err path nm s (os_symlink P (env s) (resolved c x) nm))"
proof -
  let ?R = "resolved c x" and ?Q = "add_outcome err path nm s (os_symlink P (env s) (resolved c x) nm)"
  note fits = resolved_fits [OF assms(6,10,11)]
  have oom: "never_oom s" "mem_ok s" using assms(3) by (simp_all add: healthy_def)
  have rel: "is_absolute x \<or> never_oom s \<and> os_getcwd P (env s) = Inr c \<and> c_string c \<and> length x + length c + 8 < 2 ^ 64"
    using oom assms(9,10,11) by simp
  let ?rest = "\<lambda>p. bind (load_str p) (\<lambda>x. bind (load_module P x fresh_module add_modules_path) (\<lambda>(mod_err, m).
      case mod_err of
        Some msg \<Rightarrow> seq (print_err (path @ '' is not a valid module.'' @ nl @ msg @ ''.'' @ nl)) (seq (free p) (ret EXIT_FAILURE))
      | None \<Rightarrow> add_rest P err path p m))"
  have "runs (abs_path P path) s (\<lambda>p s1. p \<noteq> null \<and> runs (?rest p) s1 ?Q)"
  proof (rule runs_mono [OF runs_abs_path [OF assms(1,2) oom(2) assms(5-8) rel]])
    fix p and s1 :: "'a world"
    assume "called s s1 \<and> string_result s ?R p s1 \<and> (never_oom s \<longrightarrow> err_code s1 = No_Error)"
    then have s1: "quiet s s1" "made_string s ?R p s1" using oom(1) by (auto simp: string_result_def called_def)
    have w1: "libs s1 = libs s" "next_ext s1 = next_ext s" "env s1 = env s" "stderr_of s1 = stderr_of s" "stdout_of s1 = stdout_of s" "dl_error s1 = None"
      "mem_ok s1" "never_oom s1"
      using s1(1) assms(4) quiet_never_oom [OF oom(1) s1(1)] by (simp_all add: quiet_def proc_step_def)
    have str: "str_of_ptr s1 p = Some ?R" "p \<noteq> null" using made_string_str [OF s1(2) fits(2)] by simp_all
    have ans: "lib_answer P s1 [] ?R = Inr so" "grants s1 (requests s1)"
      using w1 assms(12) never_oom_now [of s1] by (simp_all add: lib_answer_def)
    have "runs (load_module P ?R fresh_module []) s1
        (\<lambda>r s2. fst r = None \<and> runs (add_rest P err path p (snd r)) s2 ?Q)"
    proof (rule runs_mono [OF runs_load_module [OF w1(7) fits(1) w1(6)]])
      show "\<And>so. lib_answer P s1 [] ?R = Inr so \<Longrightarrow> missing so = None \<Longrightarrow> entry so \<noteq> None" using ans assms(14) by simp
      fix r and s2 :: "'a world"
      assume "load_result P fresh_module (if grants s1 (requests s1) then No_Error else NOT_ENOUGH_MEMORY) s1
        (lib_answer P s1 [] ?R) r s2"
      then have s2: "mapped s1 so s2" "load_step s1 s2" "fst r = None" "snd r = loaded_module (next_ext s) so fresh_module"
        using ans assms(13) w1(2) by (simp_all add: load_result_def)
      have "never_oom s2" using w1(8) s2(2) by (auto simp: never_oom_def load_step_def)
      from runs_add_rest [OF s1(2) w1(1-5) s2(1,2,4) this assms(15-19) fits(2)] s2(3)
      show "fst r = None \<and> runs (add_rest P err path p (snd r)) s2 ?Q" by simp
    qed
    then have "runs (load_module P ?R fresh_module []) s1 (\<lambda>r s2. runs (case r of (mod_err, m) \<Rightarrow> case mod_err of
        Some msg \<Rightarrow> seq (print_err (path @ '' is not a valid module.'' @ nl @ msg @ ''.'' @ nl)) (seq (free p) (ret EXIT_FAILURE))
      | None \<Rightarrow> add_rest P err path p m) s2 ?Q)"
      by (rule runs_mono) auto
    then show "p \<noteq> null \<and> runs (?rest p) s1 ?Q"
      using str by (simp add: runs_bind [of "load_str _"] runs_load_str runs_bind [of "load_module _ _ _ _"] add_modules_path_def)
  qed
  then show ?thesis
    unfolding cmd_arg_add_def add_rest_def [symmetric]
    by (simp add: runs_bind [of "abs_path _ _"]) (erule runs_mono, simp)
qed

text \<open>A path that does not lead to a module is reported.\<close>

lemma runs_cmd_add_refused:
  assumes "stack_ok s" "curr s < 9" "healthy s" "dl_error s = None" "os_wordexp P (env s) path = Some (x # ws)"
    and "c_string x" "Suc (length x) < 2 ^ 64" "length (x # ws) < 2 ^ 64"
    and "os_getcwd P (env s) = Inr c" "c_string c" "length x + length c + 8 < 2 ^ 64"
    and "refused (os_dlopen P (env s) (Some (resolved c x)))"
  shows "runs (cmd_arg_add P err (cmd # path # args)) s (\<lambda>r s'. r = 1 \<and> env s' = env s \<and> stdout_of s' = stdout_of s)"
    (is "runs _ s ?Q")
proof -
  let ?R = "resolved c x"
  note fits = resolved_fits [OF assms(6,10,11)]
  have oom: "never_oom s" "mem_ok s" using assms(3) by (simp_all add: healthy_def)
  have rel: "is_absolute x \<or> never_oom s \<and> os_getcwd P (env s) = Inr c \<and> c_string c \<and> length x + length c + 8 < 2 ^ 64"
    using oom assms(9,10,11) by simp
  let ?rest = "\<lambda>p. bind (load_str p) (\<lambda>x. bind (load_module P x fresh_module add_modules_path) (\<lambda>(mod_err, m).
      case mod_err of
        Some msg \<Rightarrow> seq (print_err (path @ '' is not a valid module.'' @ nl @ msg @ ''.'' @ nl)) (seq (free p) (ret EXIT_FAILURE))
      | None \<Rightarrow> add_rest P err path p m))"
  have "runs (abs_path P path) s (\<lambda>p s1. p \<noteq> null \<and> runs (?rest p) s1 ?Q)"
  proof (rule runs_mono [OF runs_abs_path [OF assms(1,2) oom(2) assms(5-8) rel]])
    fix p and s1 :: "'a world"
    assume "called s s1 \<and> string_result s ?R p s1 \<and> (never_oom s \<longrightarrow> err_code s1 = No_Error)"
    then have s1: "quiet s s1" "made_string s ?R p s1" using oom(1) by (auto simp: string_result_def called_def)
    then have w1: "env s1 = env s" "stdout_of s1 = stdout_of s" "dl_error s1 = None" "mem_ok s1" "never_oom s1"
      using assms(4) quiet_never_oom [OF oom(1) s1(1)] by (simp_all add: quiet_def proc_step_def)
    have ans: "refused (lib_answer P s1 [] ?R)"
      using w1(1,5) assms(12) never_oom_now [of s1] by (simp add: lib_answer_def)
    obtain b pad where p: "p = Ptr (Blk b) 0" "blocks s1 = (blocks s)(Blk b \<mapsto> cstr ?R @ replicate pad Undef)"
      using s1(2) by (auto simp: made_string_def)
    have "runs (load_module P ?R fresh_module []) s1 (\<lambda>r s2. fst r \<noteq> None \<and> blocks s2 (Blk b) \<noteq> None \<and>
        env s2 = env s \<and> stdout_of s2 = stdout_of s)"
    proof (rule runs_mono [OF runs_load_module [OF w1(4) fits(1) w1(3)]])
      show "\<And>so. lib_answer P s1 [] ?R = Inr so \<Longrightarrow> missing so = None \<Longrightarrow> entry so \<noteq> None" using ans by (simp add: refused_def)
      fix r and s2 :: "'a world"
      assume "load_result P fresh_module (if grants s1 (requests s1) then No_Error else NOT_ENOUGH_MEMORY) s1
        (lib_answer P s1 [] ?R) r s2"
      then have s2: "fst r \<noteq> None" "load_step s1 s2" "\<exists>so. mapped s1 so s2 \<or> not_mapped s1 s2"
        using ans by (auto simp: load_result_def refused_def split: sum.splits)
      then show "fst r \<noteq> None \<and> blocks s2 (Blk b) \<noteq> None \<and> env s2 = env s \<and> stdout_of s2 = stdout_of s"
        using w1(1,2) p(2) by (auto simp: load_step_def mapped_def not_mapped_def)
    qed
    then have "runs (load_module P ?R fresh_module []) s1 (\<lambda>r s2. runs (case r of (mod_err, m) \<Rightarrow> case mod_err of
        Some msg \<Rightarrow> seq (print_err (path @ '' is not a valid module.'' @ nl @ msg @ ''.'' @ nl)) (seq (free p) (ret EXIT_FAILURE))
      | None \<Rightarrow> add_rest P err path p m) s2 ?Q)"
      by (rule runs_mono) (auto simp: runs_simps EXIT_FAILURE_def p(1))
    then show "p \<noteq> null \<and> runs (?rest p) s1 ?Q"
      using made_string_str [OF s1(2) fits(2)]
      by (simp add: runs_bind [of "load_str _"] runs_load_str runs_bind [of "load_module _ _ _ _"] add_modules_path_def)
  qed
  then show ?thesis
    unfolding cmd_arg_add_def add_rest_def [symmetric]
    by (simp add: runs_bind [of "abs_path _ _"]) (erule runs_mono, simp)
qed

section \<open>Removing a module\<close>

lemma runs_cmd_remove:
  assumes "mem_ok s" "c_string name" "length name + 40 < 2 ^ 64"
  shows "runs (cmd_arg_remove P err (cmd # name # args)) s (\<lambda>r s'. blocks s' = blocks s \<and> libs s' = libs s \<and> stdout_of s' = stdout_of s \<and>
    (case if grants s (requests s) then os_remove P (env s) (modules_path @ name) else Inl EFAULT of
       Inr e' \<Rightarrow> r = 0 \<and> env s' = e' \<and> stderr_of s' = stderr_of s
     | Inl e \<Rightarrow> r = 1 \<and> env s' = env s \<and> stderr_of s' = stderr_of s @
         (if e = ENOENT then ''Module with name '' @ name @ '' doesn't exist.'' @ nl else err e @ ''. '' @ show_int e @ nl)))"
proof -
  have fits: "path_fits modules_path name" using assms(2,3) by (simp add: path_fits_def c_string_def modules_path_def)
  have "runs (rm_module P name modules_path) s (\<lambda>rm s1. runs (if rm = - 1
      then bind (gets errno_of) (\<lambda>e. seq (if e = ENOENT then print_err (''Module with name '' @ name @ '' doesn't exist.'' @ nl)
        else print_err (err e @ ''. '' @ show_int e @ nl)) (ret 1)) else ret 0) s1 (\<lambda>r s'. blocks s' = blocks s \<and> libs s' = libs s \<and> stdout_of s' = stdout_of s \<and>
    (case if grants s (requests s) then os_remove P (env s) (modules_path @ name) else Inl EFAULT of
       Inr e' \<Rightarrow> r = 0 \<and> env s' = e' \<and> stderr_of s' = stderr_of s
     | Inl e \<Rightarrow> r = 1 \<and> env s' = env s \<and> stderr_of s' = stderr_of s @
         (if e = ENOENT then ''Module with name '' @ name @ '' doesn't exist.'' @ nl else err e @ ''. '' @ show_int e @ nl))))"
    by (rule runs_mono [OF runs_rm_module [OF assms(1) fits]])
      (auto simp: link_result_def runs_simps outside_step_def load_step_def split: if_splits sum.splits)
  then show ?thesis by (simp add: cmd_arg_remove_def runs_bind [of "rm_module _ _ _"])
qed

section \<open>Properties\<close>

text \<open>C19: Adding a module loads it, links the module's own name to its absolute path and unloads it again;
  the answer is 0, or 1 with the reason on \<open>stderr\<close> where the link cannot be made, and memory and loaded
  objects are as before. The link is made relative to the working directory: the local \<open>modules_path\<close> is empty
  and hides the directory the other commands read.\<close>

theorem cmd_add_links:
  assumes "stack_ok s" "curr s < 9" "healthy s" "dl_error s = None" "os_wordexp P (env s) path = Some (x # ws)"
    and "c_string x" "Suc (length x) < 2 ^ 64" "length (x # ws) < 2 ^ 64"
    and "os_getcwd P (env s) = Inr c" "c_string c" "length x + length c + 8 < 2 ^ 64"
    and "os_dlopen P (env s) (Some (resolved c x)) = Inr so" "missing so = None" "entry so \<noteq> None"
    and "so ''name'' = Some (Data nm)" "c_string nm" "length nm + 4 < 2 ^ 64"
    and "libs s (next_ext s) = None" "\<forall>x. blocks s (Sym (next_ext s) x) = None"
  shows "runs (cmd_arg_add P err (cmd # path # args)) s (\<lambda>r s'. blocks s' = blocks s \<and> libs s' = libs s \<and>
    (case os_symlink P (env s) (resolved c x) nm of
       Inr e' \<Rightarrow> r = 0 \<and> env s' = e' \<and> stderr_of s' = stderr_of s
     | Inl e \<Rightarrow> r = 1 \<and> env s' = env s \<and> stderr_of s' = stderr_of s @ ''Failed to add module from '' @ path @ '': '' @
         (if e = EEXIST then ''Module with name '' @ nm @ '' exists already.'' else err e) @ nl))"
  by (rule runs_mono [OF runs_cmd_add [OF assms]]) (auto simp: add_outcome_def split: sum.splits)

theorem cmd_add_links_witness:
  "runs (cmd_arg_add sample_posix (\<lambda>_. ''?'') [''add'', ''/m/a.so'']) sample_world (\<lambda>r s'. r = 0 \<and> stderr_of s' = [])"
  by (rule runs_mono [OF cmd_add_links [where x = "''/m/a.so''" and ws = "[]" and c = "''/home''" and so = sample_so
        and nm = "''notes''"]])
    (simp_all add: sample_world_ok sample_mods, simp_all add: sample_posix_def sample_so_def c_string_def resolved_def
      is_absolute_def sample_world_def start_at_def)

text \<open>C26: Removing a module removes its link from the modules directory, whatever it points to, and answers 0; where
  that fails the answer is 1 and \<open>stderr\<close> says why. Memory and loaded objects are as before, whatever the
  allocator answers.\<close>

theorem cmd_remove_unlinks:
  assumes "mem_ok s" "c_string name" "length name + 40 < 2 ^ 64"
  shows "runs (cmd_arg_remove P err (cmd # name # args)) s (\<lambda>r s'. blocks s' = blocks s \<and> libs s' = libs s \<and>
    (case if grants s (requests s) then os_remove P (env s) (modules_path @ name) else Inl EFAULT of
       Inr e' \<Rightarrow> r = 0 \<and> env s' = e' \<and> stderr_of s' = stderr_of s
     | Inl e \<Rightarrow> r = 1 \<and> env s' = env s \<and> stderr_of s' = stderr_of s @
         (if e = ENOENT then ''Module with name '' @ name @ '' doesn't exist.'' @ nl else err e @ ''. '' @ show_int e @ nl)))"
  by (rule runs_mono [OF runs_cmd_remove [OF assms]]) simp

theorem cmd_remove_unlinks_witness:
  "runs (cmd_arg_remove sample_posix (\<lambda>_. ''?'') [''remove'', ''x'']) sample_world
     (\<lambda>r s'. r = 1 \<and> stderr_of s' = ''Module with name x doesn't exist.'' @ nl)"
  by (rule runs_mono [OF cmd_remove_unlinks [where name = "''x''"]])
    (simp_all add: sample_world_ok sample_mods c_string_def,
      simp add: sample_posix_def modules_path_def sample_world_def start_at_def)

section \<open>The command line\<close>

text \<open>What an argument vector asks for.\<close>

datatype command = Wrong string | Clean | List_Modules | Add_Module string | Remove_Module string | Launch

fun module_command :: "string list \<Rightarrow> command" where
  "module_command [] = Wrong module_usage"
| "module_command (c # args) =
     (if c = ''list'' then (if ''--clean'' \<in> set args then Clean else List_Modules)
      else if c = ''add'' then (case args of [] \<Rightarrow> Wrong module_add_usage | p # _ \<Rightarrow> Add_Module p)
      else if c = ''remove'' then (case args of [] \<Rightarrow> Wrong module_remove_usage | n # _ \<Rightarrow> Remove_Module n)
      else Wrong module_usage)"

fun command_of :: "string list \<Rightarrow> command" where
  "command_of (_ # c # args) = (if c = ''module'' then module_command args
     else if c = ''shell'' then Launch else Wrong prom_usage)"
| "command_of _ = Wrong prom_usage"

lemma cmd_arg_add_args: "cmd_arg_add P err (a # p # args) = cmd_arg_add P err [''add'', p]"
  by (simp add: cmd_arg_add_def)

lemma cmd_arg_remove_args: "cmd_arg_remove P err (a # p # args) = cmd_arg_remove P err [''remove'', p]"
  by (simp add: cmd_arg_remove_def)

lemma module_main_command:
  "module_main P err (m # args) = (case module_command args of
       Wrong u \<Rightarrow> usage_exit u
     | Clean \<Rightarrow> list_clean P
     | List_Modules \<Rightarrow> list_modules P
     | Add_Module p \<Rightarrow> cmd_arg_add P err [''add'', p]
     | Remove_Module n \<Rightarrow> cmd_arg_remove P err [''remove'', n]
     | Launch \<Rightarrow> ret 0)"
proof (cases args)
  case (Cons c rest)
  then show ?thesis
    by (cases rest) (auto simp: module_main_def cmd_arg_list_def list_ex_iff cmd_arg_add_args cmd_arg_remove_args
      cmd_arg_add_def cmd_arg_remove_def)
qed (simp add: module_main_def)

text \<open>C18: Each argument vector runs the command it names, with the arguments of that command, and anything else
  prints the usage of the level that could not be read and ends the program with status 1 before it has done
  anything.\<close>

theorem cmd_main_dispatch:
  "cmd_main k fuel P T C argv s = (case command_of argv of
       Wrong u \<Rightarrow> Exited 1 (s\<lparr>stderr_of := stderr_of s @ u\<rparr>)
     | Clean \<Rightarrow> list_clean P s
     | List_Modules \<Rightarrow> list_modules P s
     | Add_Module p \<Rightarrow> cmd_arg_add P (str_error C) [''add'', p] s
     | Remove_Module n \<Rightarrow> cmd_arg_remove P (str_error C) [''remove'', n] s
     | Launch \<Rightarrow> shell_main_entry k fuel T C s)"
proof -
  have "module_command args \<noteq> Launch" for args
    by (cases args) (auto split: list.splits)
  then show ?thesis
    by (cases argv rule: command_of.cases)
      (auto simp: cmd_main_def shell_main_def module_main_command runs_usage_exit split: command.split)
qed

end
