(* ===== verification/Listing.thy ===== *)
theory Listing
  imports Prom
begin

text \<open>
  What \<open>prom module list\<close> prints: the name and the description of every module of the directory.
\<close>

section \<open>The modules of an array\<close>

lemma mods_bytes_nth: "i < length ms \<Longrightarrow> drop (56 * i) (mods_bytes ms) = module_bytes (ms ! i) @ mods_bytes (drop (Suc i) ms)"
proof (induction ms arbitrary: i)
  case (Cons m ms)
  then show ?case by (cases i) (simp_all add: mods_bytes_def)
qed simp

lemma loaded_all_nth: "i < length sos \<Longrightarrow> loaded_all k sos ! i = loaded_module (k + i) (sos ! i) fresh_module"
proof (induction sos arbitrary: k i)
  case (Cons so sos)
  then show ?case by (cases i) simp_all
qed simp

lemma add_libs_other: "j < k \<Longrightarrow> add_libs k sos f j = f j"
  by (induction sos arbitrary: k f) simp_all

lemma add_libs_nth: "i < length sos \<Longrightarrow> add_libs k sos f (k + i) = Some (sos ! i)"
proof (induction sos arbitrary: k i f)
  case (Cons so sos)
  then show ?case
  proof (cases i)
    case 0
    then show ?thesis by (simp add: add_libs_other)
  next
    case (Suc j)
    with Cons.IH [of j "Suc k"] Cons.prems show ?thesis by simp
  qed
qed simp

lemma module_fields:
  "take 8 (drop 8 (module_bytes (loaded_module k so m))) = enc (VPtr (Ptr (Sym k ''name'') 0))"
  "take 8 (drop 16 (module_bytes (loaded_module k so m))) = enc (VPtr (Ptr (Sym k ''desc'') 0))"
  by (simp_all add: module_bytes_def field_bytes_def loaded_module_def)

lemma runs_load_field:
  assumes "dga_ok s am (of_nat (length sos)) sizeof_module (mods_bytes (loaded_all k sos))" "i < length sos"
  shows "runs (load_ptr (ptr_add am (int (56 * i) + 8))) s Q \<longleftrightarrow> Q (Ptr (Sym (k + i) ''name'') 0) s"
    "runs (load_ptr (ptr_add am (int (56 * i) + 16))) s Q \<longleftrightarrow> Q (Ptr (Sym (k + i) ''desc'') 0) s"
proof -
  let ?m = "loaded_module (k + i) (sos ! i) fresh_module" and ?pl = "mods_bytes (loaded_all k sos)"
  have all: "drop (56 * i) ?pl = module_bytes ?m @ mods_bytes (drop (Suc i) (loaded_all k sos))"
    using mods_bytes_nth [of i "loaded_all k sos"] assms(2) by (simp add: loaded_all_nth)
  have field: "peek s (ptr_add am (int (56 * i) + int j)) 8 = Some (take 8 (drop j (module_bytes ?m)))" if "j \<le> 48" for j
  proof -
    have "56 * i + j + 8 \<le> length ?pl" using assms(2) that by simp
    from dga.load_spec [OF assms(1) this] have "peek s (ptr_add am (int (56 * i + j))) 8 = Some (take 8 (drop j (drop (56 * i) ?pl)))"
      by (simp add: add.commute)
    then show ?thesis using that unfolding all by simp
  qed
  from field [of 8] field [of 16] show "runs (load_ptr (ptr_add am (int (56 * i) + 8))) s Q \<longleftrightarrow> Q (Ptr (Sym (k + i) ''name'') 0) s"
    "runs (load_ptr (ptr_add am (int (56 * i) + 16))) s Q \<longleftrightarrow> Q (Ptr (Sym (k + i) ''desc'') 0) s"
    unfolding module_fields by (simp_all add: runs_load_ptr)
qed

text \<open>The texts of a module, and its lines.\<close>

definition has_texts :: "shared_object \<Rightarrow> string \<times> string \<Rightarrow> bool" where
  "has_texts so td \<longleftrightarrow> so ''name'' = Some (Data (fst td)) \<and> so ''desc'' = Some (Data (snd td)) \<and>
     c_string (fst td) \<and> c_string (snd td)"

definition module_lines :: "string \<times> string \<Rightarrow> string" where
  "module_lines td = ''-----'' @ nl @ ''Name: '' @ fst td @ nl @ ''Desc: '' @ snd td @ nl"

lemma text_of_symbol:
  assumes "syms_mapped s" "libs s k = Some so" "so x = Some (Data d)" "c_string d"
  shows "str_of_ptr s (Ptr (Sym k x) 0) = Some d"
proof -
  have "blocks s (Sym k x) = Some (cstr d)" using assms(1-3) by (auto simp: syms_mapped_def)
  with assms(4) show ?thesis by (simp add: str_of_ptr_def)
qed

lemma print_module_lines:
  fixes s :: "'a world"
  assumes "dga_ok s am (of_nat (length sos)) sizeof_module (mods_bytes (loaded_all k sos))" "i < length sos"
    and "syms_mapped s" "libs s (k + i) = Some (sos ! i)" "has_texts (sos ! i) td"
  shows "prints (print_module am i :: (unit, 'a world) prog) (blocks s) (module_lines td)"
  unfolding prints_def
proof (intro allI impI)
  fix s1 :: "'a world" and Q assume b: "blocks s1 = blocks s"
  have field: "runs (load_ptr (ptr_add am (56 * int i + 8))) s2 R \<longleftrightarrow> R (Ptr (Sym (k + i) ''name'') 0) s2"
    "runs (load_ptr (ptr_add am (56 * int i + 16))) s2 R \<longleftrightarrow> R (Ptr (Sym (k + i) ''desc'') 0) s2"
    if "blocks s2 = blocks s" for s2 :: "'a world" and R
    using runs_load_field [OF dga.rep_local [OF assms(1)] assms(2), of s2] that by simp_all
  have texts: "str_of_ptr s2 (Ptr (Sym (k + i) ''name'') 0) = Some (fst td)" "str_of_ptr s2 (Ptr (Sym (k + i) ''desc'') 0) = Some (snd td)"
    if "blocks s2 = blocks s" for s2 :: "'a world"
  proof -
    have same: "str_of_ptr s2 p = str_of_ptr s p" for p using that by (simp add: str_of_ptr_def)
    show "str_of_ptr s2 (Ptr (Sym (k + i) ''name'') 0) = Some (fst td)" "str_of_ptr s2 (Ptr (Sym (k + i) ''desc'') 0) = Some (snd td)"
      using assms(5) text_of_symbol [OF assms(3,4)] unfolding same by (simp_all add: has_texts_def)
  qed
  show "runs (print_module am i) s1 Q \<longleftrightarrow> Q () (s1\<lparr>stdout_of := stdout_of s1 @ module_lines td\<rparr>)"
    by (simp add: print_module_def runs_bind runs_seq runs_print runs_load_str field texts b module_lines_def)
qed

section \<open>The command\<close>

lemma path_fits_name: "c_string n \<Longrightarrow> length n < 256 \<Longrightarrow> path_fits modules_path n"
  by (simp add: path_fits_def c_string_def modules_path_def)

lemma names_fit: "name_room ns \<Longrightarrow> \<forall>n\<in>set ns. path_fits modules_path n"
  by (simp add: name_room_def path_fits_name)

lemma concat_upt_nth: "length xs = n \<Longrightarrow> concat (map (\<lambda>i. g (xs ! i)) [0..<n]) = concat (map g xs)"
proof -
  assume "length xs = n"
  then have "map (\<lambda>i. g (xs ! i)) [0..<n] = map g xs" by (intro nth_equalityI) simp_all
  then show ?thesis by simp
qed

text \<open>Printing and releasing the array \<open>installed_mods\<close> gave.\<close>

lemma runs_print_all:
  fixes s :: "'a world"
  assumes "mods_result s0 (loaded_all k sos) (mods, len) s" "syms_mapped s" "libs s = add_libs k sos f"
    and "list_all2 has_texts sos tds" "length sos < 2 ^ 56" "balanced s0 s"
  shows "runs (if mods = null then ret 1 else bind (reads (\<lambda>s. len)) (\<lambda>len_ret.
      seq (for_each (print_module mods) [0..<unat len_ret])
     (seq (free_installed_mods mods)
     (seq (print_out (''-----'' @ nl)) (ret 0))))) s (\<lambda>r s'. r = 0 \<and> libs s' = libs s \<and> env s' = env s \<and> extends_heap s0 {} s' \<and>
      balanced s0 s' \<and> stdout_of s' = stdout_of s @ concat (map module_lines tds) @ ''-----'' @ nl)"
proof -
  have arr: "dga_ok s mods (of_nat (length sos)) sizeof_module (mods_bytes (loaded_all k sos))"
    and len: "len = Some (of_nat (length sos))" and ext: "extends_heap s0 {pbase mods} s"
    using assms(1) by (simp_all add: mods_result_def)
  have live: "mods \<noteq> null" using dga.rep_live [OF arr] arr by (auto simp: dga_ok_def is_dga_def null_def)
  have n: "unat (of_nat (length sos) :: u64) = length sos" using assms(5) fits_names [of sos] by simp
  have tds: "length tds = length sos" using assms(4) by (simp add: list_all2_lengthD)
  have "prints (print_module mods i :: (unit, 'a world) prog) (blocks s) (module_lines (tds ! i))" if "i < length sos" for i
    by (rule print_module_lines [OF arr that assms(2)])
      (use assms(3,4) that in \<open>simp_all add: add_libs_nth list_all2_conv_all_nth\<close>)
  then have all: "prints (for_each (print_module mods) [0..<length sos] :: (unit, 'a world) prog) (blocks s)
      (concat (map (\<lambda>i. module_lines (tds ! i)) [0..<length sos]))"
    by (intro prints_each) simp
  have loop: "runs (for_each (print_module mods) [0..<length sos]) s Q \<longleftrightarrow>
      Q () (s\<lparr>stdout_of := stdout_of s @ concat (map module_lines tds)\<rparr>)" for Q
    using printsD [OF all] by (simp only: concat_upt_nth [OF tds])
  have "dga_ok (s\<lparr>stdout_of := x\<rparr>) mods (of_nat (length sos)) sizeof_module (mods_bytes (loaded_all k sos))" for x
    by (rule dga.rep_local [OF arr]) simp
  note free = runs_dga_free_ok [OF this]
  show ?thesis
    using live ext assms(6) len n
    by (simp add: runs_bind runs_reads runs_seq loop free_installed_mods_def free runs_print runs_ret)
      (auto simp: extends_heap_def balanced_def)
qed

lemma runs_list_modules:
  assumes "stack_ok s" "curr s < 7" "healthy s" "dl_error s = None" "os_wordexp P (env s) modules_path = Some (x # ws)"
    and "c_string x" "Suc (length x) < 2 ^ 64" "length (x # ws) < 2 ^ 64"
    and "os_opendir P (env s) x = Inr names" "name_room (visible names)"
    and "answers P (env s) modules_path (visible names) sos" "list_all2 has_texts sos tds" "syms_mapped s"
  shows "runs (list_modules P) s (\<lambda>r s'. r = 0 \<and>
    stdout_of s' = stdout_of s @ concat (map module_lines tds) @ ''-----'' @ nl \<and> env s' = env s \<and>
    extends_heap s {} s' \<and> balanced s s' \<and> (\<exists>k \<ge> next_ext s. libs s' = add_libs k sos (libs s)))"
    (is "runs _ s ?Q")
proof -
  have len: "length sos < 2 ^ 56"
    using assms(10,11) by (simp add: name_room_def answers_def list_all2_lengthD)
  show ?thesis
    unfolding list_modules_def runs_bind [of "installed_mods _ _"]
  proof (rule runs_mono [OF runs_installed_ok [OF assms(1-10) names_fit [OF assms(10)] assms(11)]])
    fix r and s1 :: "'a world"
    assume "\<exists>k. next_ext s \<le> k \<and> mods_result s (loaded_all k sos) r s1 \<and> libs s1 = add_libs k sos (libs s) \<and>
      err_code s1 = No_Error \<and> balanced s s1 \<and> keeps_syms s s1 \<and> stdout_of s1 = stdout_of s \<and> env s1 = env s"
    then obtain k where s1: "next_ext s \<le> k" "mods_result s (loaded_all k sos) (fst r, snd r) s1" "libs s1 = add_libs k sos (libs s)"
      "balanced s s1" "syms_mapped s1" "stdout_of s1 = stdout_of s" "env s1 = env s"
      using assms(13) by (auto simp: keeps_syms_def)
    have "runs (if fst r = null then ret 1 else bind (reads (\<lambda>s. snd r)) (\<lambda>len_ret.
        seq (for_each (print_module (fst r)) [0..<unat len_ret])
       (seq (free_installed_mods (fst r))
       (seq (print_out (''-----'' @ nl)) (ret 0))))) s1 ?Q"
      by (rule runs_mono [OF runs_print_all [OF s1(2,5,3) assms(12) len s1(4)]]) (use s1(1,3,6,7) in auto)
    then show "runs (case r of (mods, len) \<Rightarrow> if mods = null then ret 1 else bind (reads (\<lambda>s. len)) (\<lambda>len_ret.
        seq (for_each (print_module mods) [0..<unat len_ret])
       (seq (free_installed_mods mods)
       (seq (print_out (''-----'' @ nl)) (ret 0))))) s1 ?Q"
      by (simp only: case_prod_unfold)
  qed
qed

text \<open>Where a name does not load, nothing is printed.\<close>

lemma runs_list_fails:
  assumes "stack_ok s" "curr s < 7" "healthy s" "dl_error s = None" "os_wordexp P (env s) modules_path = Some (x # ws)"
    and "c_string x" "Suc (length x) < 2 ^ 64" "length (x # ws) < 2 ^ 64"
    and "os_opendir P (env s) x = Inr names" "name_room (visible names)"
    and "visible names = pre @ y # post" "answers P (env s) modules_path pre sos"
    and "refused (os_dlopen P (env s) (Some (modules_path @ y)))"
  shows "runs (list_modules P) s (\<lambda>r s'. r = 1 \<and> stdout_of s' = stdout_of s \<and> env s' = env s)"
  unfolding list_modules_def runs_bind [of "installed_mods _ _"]
  by (rule runs_mono [OF runs_installed_fail [OF assms(1-10) names_fit [OF assms(10)] assms(11-13)]]) (auto simp: runs_ret)

section \<open>Property\<close>

text \<open>C27: Where every visible name of the modules directory loads, the list command prints the name and the
  description of each module, in the order of the directory, and answers 0. The memory is as before, but the
  objects stay loaded: the array is freed without unloading what its structs hold.\<close>

theorem cmd_list_prints:
  assumes "stack_ok s" "curr s < 7" "healthy s" "dl_error s = None" "os_wordexp P (env s) modules_path = Some (x # ws)"
    and "c_string x" "Suc (length x) < 2 ^ 64" "length (x # ws) < 2 ^ 64"
    and "os_opendir P (env s) x = Inr names" "name_room (visible names)"
    and "answers P (env s) modules_path (visible names) sos" "list_all2 has_texts sos tds" "syms_mapped s"
    and "''--clean'' \<notin> set argv"
  shows "runs (cmd_arg_list P argv) s (\<lambda>r s'. r = 0 \<and>
    stdout_of s' = stdout_of s @ concat (map module_lines tds) @ ''-----'' @ nl \<and>
    extends_heap s {} s' \<and> balanced s s' \<and> (\<exists>k \<ge> next_ext s. libs s' = add_libs k sos (libs s)))"
  using runs_mono [OF runs_list_modules [OF assms(1-13)]] assms(14) by (auto simp: cmd_arg_list_def list_ex_iff)

definition notes_posix :: "unit posix" where
  "notes_posix = sample_posix\<lparr>os_opendir := (\<lambda>_ _. Inr [''.'', ''a.so'']), os_dlopen := (\<lambda>_ _. Inr sample_so)\<rparr>"

theorem cmd_list_prints_witness:
  "runs (cmd_arg_list notes_posix [''list'']) sample_world (\<lambda>r s'. r = 0 \<and>
     stdout_of s' = ''-----'' @ nl @ ''Name: notes'' @ nl @ ''Desc: takes notes'' @ nl @ ''-----'' @ nl)"
proof (rule runs_mono [OF cmd_list_prints [where x = modules_path and ws = "[]" and names = "[''.'', ''a.so'']"
        and sos = "[sample_so]" and tds = "[(''notes'', ''takes notes'')]"]])
  show "syms_mapped sample_world" by (simp add: syms_mapped_def sample_mods)
qed (simp_all add: sample_world_ok sample_mods name_room_def answers_def notes_posix_def has_texts_def c_string_def,
    simp_all add: sample_posix_def sample_so_def modules_path_def sample_world_def start_at_def module_lines_def)

end
