(* ===== verification/Templates.thy ===== *)
theory Templates
  imports Listing
begin

text \<open>
  What a shared object must be for \<open>src/modules\<close> to use it: the type of \<open>struct module\<close> and what makes every struct
  of the modules array well typed; and \<open>src/examples/modules\<close>, the two templates for writing a module.
\<close>

section \<open>The type of a module\<close>

text \<open>The words of a \<open>struct module\<close>: a handle \<open>dlopen\<close> gave, pointers to text, and callbacks. A callback is a pointer
  into a shared object or was never stored.\<close>

datatype c_type = Handle_t | Text_t | Callback_t

fun has_type :: "'e world \<Rightarrow> c_type \<Rightarrow> mval list \<Rightarrow> bool" where
  "has_type s Handle_t bs = (case dec bs of Some (VPtr h) \<Rightarrow> lib_of s h \<noteq> None | _ \<Rightarrow> False)"
| "has_type s Text_t bs = (case dec bs of Some (VPtr p) \<Rightarrow> str_of_ptr s p \<noteq> None | _ \<Rightarrow> False)"
| "has_type s Callback_t bs = (bs = replicate 8 Undef \<or> (case dec bs of Some (VPtr p) \<Rightarrow> is_sym (pbase p) | _ \<Rightarrow> False))"

definition module_type :: "c_type list" where
  "module_type = [Handle_t, Text_t, Text_t, Callback_t, Callback_t, Callback_t, Callback_t]"

definition module_at :: "'e world \<Rightarrow> ptr \<Rightarrow> bool" where
  "module_at s p \<longleftrightarrow> (case peek s p 56 of
       Some bs \<Rightarrow> list_all2 (has_type s) module_type (map (\<lambda>i. take 8 (drop (8 * i) bs)) [0..<7])
     | None \<Rightarrow> False)"

text \<open>An object whose \<open>init\<close> stores nothing but pointers into shared objects.\<close>

definition callback_ok :: "ptr option \<Rightarrow> bool" where
  "callback_ok f \<longleftrightarrow> (case f of None \<Rightarrow> True | Some p \<Rightarrow> is_sym (pbase p))"

definition cbs_ok :: "module_cbs \<Rightarrow> bool" where
  "cbs_ok c \<longleftrightarrow> callback_ok (cb_read_file c) \<and> callback_ok (cb_write_file c) \<and> callback_ok (cb_syscall c) \<and>
     callback_ok (cb_cmd c)"

definition well_behaved :: "shared_object \<Rightarrow> bool" where
  "well_behaved so \<longleftrightarrow> (case entry so of Some init \<Rightarrow> cbs_ok (init no_cbs) | None \<Rightarrow> False)"

lemma callback_typed: "callback_ok f \<Longrightarrow> has_type s Callback_t (field_bytes f)"
  by (auto simp: callback_ok_def field_bytes_def split: option.splits)

lemma module_bytes_words:
  "map (\<lambda>i. take 8 (drop (8 * i) (module_bytes m))) [0..<7] = [field_bytes (dlhandle m), field_bytes (mod_name m),
     field_bytes (mod_desc m), field_bytes (cb_read_file (cbs m)), field_bytes (cb_write_file (cbs m)),
     field_bytes (cb_syscall (cbs m)), field_bytes (cb_cmd (cbs m))]"
  by (simp add: module_bytes_def upt_rec)

lemma module_typed:
  assumes "libs s k = Some so" "syms_mapped s" "has_texts so td" "well_behaved so" "peek s p 56 = Some (module_bytes (loaded_module k so fresh_module))"
  shows "module_at s p"
proof -
  obtain init where "entry so = Some init" "cbs_ok (init no_cbs)"
    using assms(4) by (auto simp: well_behaved_def split: option.splits)
  moreover have "str_of_ptr s (Ptr (Sym k ''name'') 0) = Some (fst td)" "str_of_ptr s (Ptr (Sym k ''desc'') 0) = Some (snd td)"
    using text_of_symbol [OF assms(2,1)] assms(3) by (simp_all add: has_texts_def)
  ultimately show ?thesis
    using assms(1,5) unfolding module_at_def
    by (simp add: callback_typed module_bytes_words module_type_def loaded_module_def fresh_module_def field_bytes_def [of "Some _"] cbs_ok_def lib_of_def
        del: has_type.simps(3))
qed

section \<open>The templates\<close>

text \<open>\<open>FooTemplate\<close> and \<open>BarTemplate\<close>, loaded as object \<open>k\<close>; they differ in their names only.\<close>

definition tmpl_read_cb :: "ptr \<Rightarrow> (int, 'e world) prog" where
  "tmpl_read_cb path = bind (load_str path) (\<lambda>x. seq (print_out (''plugin::read: '' @ x @ nl)) (ret 0))"

definition tmpl_write_cb :: "ptr \<Rightarrow> (int, 'e world) prog" where
  "tmpl_write_cb path = bind (load_str path) (\<lambda>x. seq (print_out (''plugin::write: '' @ x @ nl)) (ret 0))"

definition tmpl_init :: "nat \<Rightarrow> module_cbs \<Rightarrow> module_cbs" where
  "tmpl_init k this = this\<lparr>cb_read_file := Some (Ptr (Sym k ''file_read_cb'') 0),
     cb_write_file := Some (Ptr (Sym k ''file_write_cb'') 0)\<rparr>"

definition foo_template :: "nat \<Rightarrow> shared_object" where
  "foo_template k = [''name'' \<mapsto> Data ''FooTemplate'', ''desc'' \<mapsto> Data ''A template for writing prom modules.'',
     ''init'' \<mapsto> Func (tmpl_init k)]"

definition bar_template :: "nat \<Rightarrow> shared_object" where
  "bar_template k = [''name'' \<mapsto> Data ''BarTemplate'', ''desc'' \<mapsto> Data ''A template for writing prom modules.'',
     ''init'' \<mapsto> Func (tmpl_init k)]"

text \<open>The function a template's symbol stands for.\<close>

definition tmpl_code :: "string \<Rightarrow> (ptr \<Rightarrow> (int, 'e world) prog) option" where
  "tmpl_code = [''file_read_cb'' \<mapsto> tmpl_read_cb, ''file_write_cb'' \<mapsto> tmpl_write_cb]"

lemma templates_ok:
  "missing (foo_template k) = None" "entry (foo_template k) = Some (tmpl_init k)" "well_behaved (foo_template k)"
  "has_texts (foo_template k) (''FooTemplate'', ''A template for writing prom modules.'')"
  "missing (bar_template k) = None" "entry (bar_template k) = Some (tmpl_init k)" "well_behaved (bar_template k)"
  "has_texts (bar_template k) (''BarTemplate'', ''A template for writing prom modules.'')"
  by (simp_all add: missing_def entry_def foo_template_def bar_template_def well_behaved_def cbs_ok_def callback_ok_def
      tmpl_init_def no_cbs_def has_texts_def c_string_def)

text \<open>Loading a template gives a struct with its name and description and two callbacks, of its own code, that
  print the path they are given and let the access pass. Its \<open>init\<close> stores nothing in the other two fields, so a
  client that so much as looks at them reads memory nothing was stored in.\<close>

lemma template_loaded:
  fixes s :: "'e world"
  assumes "healthy s" "path_fits mp file" "dl_error s = None"
    and "os_dlopen P (env s) (Some (mp @ file)) = Inr (foo_template (next_ext s))"
  shows "runs (load_module P file fresh_module mp) s (\<lambda>(err, m) s'. err = None \<and> err_code s' = No_Error \<and>
    Option.bind (mod_name m) (str_of_ptr s') = Some ''FooTemplate'' \<and>
    Option.bind (mod_desc m) (str_of_ptr s') = Some ''A template for writing prom modules.'' \<and>
    cb_syscall (cbs m) = None \<and> cb_cmd (cbs m) = None \<and>
    (\<forall>p x. str_of_ptr s' p = Some x \<longrightarrow>
      (\<exists>y f. cb_read_file (cbs m) = Some (Ptr (Sym (next_ext s) y) 0) \<and> tmpl_code y = Some f \<and>
        runs (f p) s' (\<lambda>r s''. r = 0 \<and> s'' = s'\<lparr>stdout_of := stdout_of s' @ ''plugin::read: '' @ x @ nl\<rparr>)) \<and>
      (\<exists>y f. cb_write_file (cbs m) = Some (Ptr (Sym (next_ext s) y) 0) \<and> tmpl_code y = Some f \<and>
        runs (f p) s' (\<lambda>r s''. r = 0 \<and> s'' = s'\<lparr>stdout_of := stdout_of s' @ ''plugin::write: '' @ x @ nl\<rparr>))))"
proof -
  let ?k = "next_ext s"
  have now: "grants s (requests s)" "lib_answer P s mp file = Inr (foo_template ?k)"
    using assms(1,4) never_oom_now [of s] by (simp_all add: healthy_def lib_answer_def)
  have res: "runs (load_module P file fresh_module mp) s (load_result P fresh_module No_Error s (Inr (foo_template ?k)))"
    using runs_load_module [OF healthy_mem_ok [OF assms(1)] assms(2,3), where m = fresh_module and P = P] now
    by (simp add: templates_ok)
  show ?thesis
  proof (rule runs_mono [OF res])
    fix q and s' :: "'e world" assume "load_result P fresh_module No_Error s (Inr (foo_template ?k)) q s'"
    then have q: "mapped s (foo_template ?k) s'" "fst q = None" "snd q = loaded_module ?k (foo_template ?k) fresh_module" "err_code s' = No_Error"
      by (simp_all add: load_result_def templates_ok)
    have "blocks s' (Sym ?k ''name'') = Some (cstr ''FooTemplate'')"
      "blocks s' (Sym ?k ''desc'') = Some (cstr ''A template for writing prom modules.'')"
      using q(1) by (simp_all add: mapped_def map_lib_def foo_template_def)
    then have texts: "str_of_ptr s' (Ptr (Sym ?k ''name'') 0) = Some ''FooTemplate''"
      "str_of_ptr s' (Ptr (Sym ?k ''desc'') 0) = Some ''A template for writing prom modules.''"
      by (simp_all add: str_of_ptr_def c_string_def)
    show "(case q of (err, m) \<Rightarrow> \<lambda>s'. err = None \<and> err_code s' = No_Error \<and>
    Option.bind (mod_name m) (str_of_ptr s') = Some ''FooTemplate'' \<and>
    Option.bind (mod_desc m) (str_of_ptr s') = Some ''A template for writing prom modules.'' \<and>
    cb_syscall (cbs m) = None \<and> cb_cmd (cbs m) = None \<and>
    (\<forall>p x. str_of_ptr s' p = Some x \<longrightarrow>
      (\<exists>y f. cb_read_file (cbs m) = Some (Ptr (Sym (next_ext s) y) 0) \<and> tmpl_code y = Some f \<and>
        runs (f p) s' (\<lambda>r s''. r = 0 \<and> s'' = s'\<lparr>stdout_of := stdout_of s' @ ''plugin::read: '' @ x @ nl\<rparr>)) \<and>
      (\<exists>y f. cb_write_file (cbs m) = Some (Ptr (Sym (next_ext s) y) 0) \<and> tmpl_code y = Some f \<and>
        runs (f p) s' (\<lambda>r s''. r = 0 \<and> s'' = s'\<lparr>stdout_of := stdout_of s' @ ''plugin::write: '' @ x @ nl\<rparr>)))) s'"
      using q(2-4) texts
      by (cases q) (simp add: loaded_module_def templates_ok tmpl_init_def fresh_module_def no_cbs_def tmpl_code_def tmpl_read_cb_def
          tmpl_write_cb_def runs_simps)
  qed
qed

section \<open>Property\<close>

text \<open>C24: Every struct of the array \<open>installed_mods\<close> gives is a well-typed \<open>struct module\<close>: its handle is of an object that
  is still loaded, its name and description are strings of the process, and its callbacks point into shared
  objects or were never stored, which \<open>init\<close> alone decides.\<close>

theorem modules_well_typed:
  fixes s :: "'e world"
  assumes "stack_ok s" "curr s < 7" "healthy s" "dl_error s = None" "os_wordexp P (env s) mp = Some (x # ws)"
    and "c_string x" "Suc (length x) < 2 ^ 64" "length (x # ws) < 2 ^ 64"
    and "os_opendir P (env s) x = Inr names" "name_room (visible names)" "\<forall>n\<in>set (visible names). path_fits mp n"
    and "answers P (env s) mp (visible names) sos"
    and "list_all2 has_texts sos tds" "list_all well_behaved sos" "syms_mapped s"
  shows "runs (installed_mods P mp) s (\<lambda>(mods, len) s'. len = Some (of_nat (length sos)) \<and>
    (\<forall>i < length sos. module_at s' (ptr_add mods (int (56 * i)))))"
proof (rule runs_mono [OF runs_installed_ok [OF assms(1-12)]])
  fix r and s' :: "'e world"
  assume "\<exists>k. next_ext s \<le> k \<and> mods_result s (loaded_all k sos) r s' \<and> libs s' = add_libs k sos (libs s) \<and>
    err_code s' = No_Error \<and> balanced s s' \<and> keeps_syms s s' \<and> stdout_of s' = stdout_of s \<and> env s' = env s"
  then obtain k am where s': "r = (am, Some (of_nat (length sos)))" "libs s' = add_libs k sos (libs s)" "syms_mapped s'"
    and arr: "dga_ok s' am (of_nat (length sos)) sizeof_module (mods_bytes (loaded_all k sos))"
    using assms(15) by (auto simp: mods_result_def keeps_syms_def)
  have "module_at s' (ptr_add am (int (56 * i)))" if i: "i < length sos" for i
  proof -
    let ?m = "loaded_module (k + i) (sos ! i) fresh_module" and ?pl = "mods_bytes (loaded_all k sos)"
    have "drop (56 * i) ?pl = module_bytes ?m @ mods_bytes (drop (Suc i) (loaded_all k sos))"
      using mods_bytes_nth [of i "loaded_all k sos"] i by (simp add: loaded_all_nth)
    then have "peek s' (ptr_add am (int (56 * i))) 56 = Some (module_bytes ?m)"
      using dga_load [OF arr, of "56 * i" 56] i by simp
    moreover have "has_texts (sos ! i) (tds ! i)" "well_behaved (sos ! i)" "libs s' (k + i) = Some (sos ! i)"
      using assms(13,14) i s'(2) by (simp_all add: list_all2_conv_all_nth list_all_length add_libs_nth)
    ultimately show ?thesis using module_typed s'(3) by blast
  qed
  with s'(1) show "(case r of (mods, len) \<Rightarrow> \<lambda>s'. len = Some (of_nat (length sos)) \<and>
    (\<forall>i < length sos. module_at s' (ptr_add mods (int (56 * i))))) s'" by simp
qed

definition foo_posix :: "unit posix" where
  "foo_posix = notes_posix\<lparr>os_dlopen := (\<lambda>_ _. Inr (foo_template 0))\<rparr>"

theorem modules_well_typed_witness:
  "runs (installed_mods foo_posix ''/m/'') sample_world (\<lambda>(mods, len) s'. len = Some 1 \<and> module_at s' mods)"
proof (rule runs_mono [OF modules_well_typed [where x = "''/m/''" and ws = "[]" and names = "[''.'', ''a.so'']"
        and sos = "[foo_template 0]" and tds = "[(''FooTemplate'', ''A template for writing prom modules.'')]"]])
  show "syms_mapped sample_world" by (simp add: syms_mapped_def sample_mods)
qed (auto simp: sample_world_ok sample_mods name_room_def answers_def foo_posix_def notes_posix_def templates_ok ptr_add_def loads_def,
    simp_all add: sample_posix_def)

end
