(* ===== verification/Clean.thy ===== *)
theory Clean
  imports Listing
begin

text \<open>
  What \<open>prom module list --clean\<close> does: \<open>clean_ul_mod_names\<close> of \<open>src/modules/mods.c\<close> removes the links of the
  modules that do not load and gives their names, which the command prints.
\<close>

section \<open>What is removed\<close>

text \<open>The names that do not load are removed one after the other; whether the removal works is not looked at.\<close>

fun sweep :: "'e posix \<Rightarrow> string \<Rightarrow> 'e \<Rightarrow> string list \<Rightarrow> 'e \<times> string list" where
  "sweep P mp e [] = (e, [])"
| "sweep P mp e (n # ns) =
     (if loads (os_dlopen P e (Some (mp @ n))) then sweep P mp e ns
      else let (e', us) = sweep P mp (case os_remove P e (mp @ n) of Inl _ \<Rightarrow> e | Inr e1 \<Rightarrow> e1) ns in (e', n # us))"

section \<open>Adding a name to the array\<close>

lemma push_heap:
  assumes "names_at s ul us qs" "extends_heap s0 (name_bases ul qs) s"
    and q: "blocks s (pbase q) = None" "untouched {pbase q} s s1" "blocks s1 (pbase q) \<noteq> None" "\<not> is_sym (pbase q)"
    and u: "blocks s1 (pbase u) = None" "blocks s2 (pbase ul) = None" "untouched {pbase ul, pbase u} s1 s2" "\<not> is_sym (pbase u)"
    and s3: "untouched {pbase u} s2 s3"
  shows "extends_heap s0 (name_bases u (qs @ [q])) s3" "distinct (map pbase (u # qs @ [q]))"
    "\<forall>r\<in>set qs. blocks s3 (pbase r) = blocks s (pbase r)" "blocks s3 (pbase q) = blocks s1 (pbase q)"
proof -
  have live: "blocks s b \<noteq> None" if "b \<in> name_bases ul qs" for b
    using names_at_live [OF assms(1) that] .
  have qn: "pbase q \<notin> name_bases ul qs" using live q(1) by blast
  have same1: "blocks s1 b = blocks s b" if "b \<noteq> pbase q" for b
    using q(2) that by (simp add: untouched_def)
  have un: "pbase u \<noteq> pbase q" "pbase u \<notin> name_bases ul qs"
    using u(1) q(3) live same1 qn by metis+
  have qs: "pbase r \<noteq> pbase ul" "pbase r \<noteq> pbase u" "pbase r \<noteq> pbase q" if "r \<in> set qs" for r
    using that un qn names_atD(3) [OF assms(1)] by (auto simp: name_bases_def) (metis image_eqI)+
  show "\<forall>r\<in>set qs. blocks s3 (pbase r) = blocks s (pbase r)"
    using qs same1 u(3) s3 by (simp add: untouched_def)
  show "blocks s3 (pbase q) = blocks s1 (pbase q)"
    using un(1) qn u(3) s3 by (simp add: untouched_def name_bases_def)
  show "distinct (map pbase (u # qs @ [q]))"
    using names_atD(3) [OF assms(1)] un qn by (auto simp: name_bases_def)
  have "blocks s0 (pbase q) = None" "blocks s0 (pbase u) = None"
    using assms(2) q(1,4) u(1,4) qn un same1 by (simp_all add: extends_heap_def)
  moreover have "blocks s3 b = blocks s0 b" if "b \<notin> name_bases u (qs @ [q])" "\<not> is_sym b" for b
  proof (cases "b = pbase ul")
    case True
    then show ?thesis
      using that u(2) s3 assms(2) by (simp add: untouched_def extends_heap_def name_bases_def)
  next
    case False
    then show ?thesis
      using that u(3) s3 same1 assms(2) by (simp add: untouched_def extends_heap_def name_bases_def)
  qed
  ultimately show "extends_heap s0 (name_bases u (qs @ [q])) s3"
    using assms(2) by (auto simp: extends_heap_def name_bases_def)
qed

lemma unat_int_len: "length x < 256 \<Longrightarrow> fits (strlen x + 1) 4 \<and> length x < unat (strlen x + 1) * unat (4 :: u64)"
  using unat_strlen_inc [of x] by (simp add: fits_def)

lemma runs_push_text:
  assumes "healthy s" "names_at s ul us qs" "extends_heap s0 (name_bases ul qs) s" "length us < 2 ^ 56" "length x < 256"
  shows "runs (dga_new (strlen x + 1) 4) s (\<lambda>q s1. q \<noteq> null \<and> runs (strcpy q x) s1 (\<lambda>_ s1.
    runs (dga_grow ul 1) s1 (\<lambda>u s2. u \<noteq> null \<and> runs (dga_len u) s2 (\<lambda>n s2.
    runs (store_ptr (ptr_add u (int (8 * unat (n - 1)))) q) s2 (\<lambda>_ s3. heap_ext s s3 \<and>
      (\<exists>qs'. names_at s3 u (us @ [x]) qs' \<and> extends_heap s0 (name_bases u qs') s3))))))"
proof (rule runs_mono [OF runs_new_text [OF assms(1)]])
  show "fits (strlen x + 1) 4" "length x < unat (strlen x + 1) * unat (4 :: u64)"
    using unat_int_len [OF assms(5)] by simp_all
  let ?n = "of_nat (length us) :: u64"
  note n = fits_names [OF assms(4)]
  note at = names_atD [OF assms(2)]
  fix q s1'
  assume new: "q \<noteq> null \<and> runs (strcpy q x) s1' (\<lambda>_ s'. heap_ext s s' \<and> name_at s' x q \<and> blocks s (pbase q) = None \<and>
    untouched {pbase q} s s')"
  have "runs (dga_grow ul 1) s1 (\<lambda>u s2. u \<noteq> null \<and> runs (dga_len u) s2 (\<lambda>n s2.
    runs (store_ptr (ptr_add u (int (8 * unat (n - 1)))) q) s2 (\<lambda>_ s3. heap_ext s s3 \<and>
      (\<exists>qs'. names_at s3 u (us @ [x]) qs' \<and> extends_heap s0 (name_bases u qs') s3))))"
    if s1: "heap_ext s s1" "name_at s1 x q" "blocks s (pbase q) = None" "untouched {pbase q} s s1" for s1
  proof -
    have h1: "healthy s1" by (rule heap_ext_healthy [OF assms(1) s1(1)])
    have ne: "pbase ul \<noteq> pbase q" using dga.rep_live [OF at(1)] s1(3) by auto
    have ul1: "dga_ok s1 ul ?n 8 (ptr_bytes qs)"
      by (rule dga.rep_untouched [OF at(1) s1(4)]) (use ne in simp)
    show ?thesis
    proof (rule runs_mono [OF dga.grow_one [OF h1 ul1]])
      show "fits (?n + 1) 8" "unat (?n + 1) = Suc (unat ?n)" using n by simp_all
      fix u s2
      assume s2: "u \<noteq> null \<and> heap_ext s1 s2 \<and> dga_ok s2 u (?n + 1) 8 (ptr_bytes qs @ replicate (unat (8 :: u64)) Undef) \<and>
        blocks s1 (pbase u) = None \<and> blocks s2 (pbase ul) = None \<and> untouched {pbase ul, pbase u} s1 s2"
      then have arr: "dga_ok s2 u (?n + 1) 8 (ptr_bytes qs @ replicate 8 Undef)" by simp
      have idx: "length (ptr_bytes qs) = 8 * unat ?n" using n at(4) by simp
      have "runs (store_bytes (ptr_add u (int (length (ptr_bytes qs)))) (enc (VPtr q))) s2 (\<lambda>_ s3. heap_ext s2 s3 \<and>
          dga_ok s3 u (?n + 1) 8 (ptr_bytes qs @ enc (VPtr q)) \<and> untouched {pbase u} s2 s3)"
        by (rule dga.set_last [OF _ arr]) (use s2 heap_ext_healthy [OF h1] in auto)
      then have "runs (store_ptr (ptr_add u (int (8 * unat ?n))) q) s2 (\<lambda>_ s3. heap_ext s s3 \<and>
          (\<exists>qs'. names_at s3 u (us @ [x]) qs' \<and> extends_heap s0 (name_bases u qs') s3))"
        unfolding store_ptr_def idx
      proof (rule runs_mono)
        fix v s3 assume s3: "heap_ext s2 s3 \<and> dga_ok s3 u (?n + 1) 8 (ptr_bytes qs @ enc (VPtr q)) \<and> untouched {pbase u} s2 s3"
        have sym: "\<not> is_sym (pbase q)" "\<not> is_sym (pbase u)"
          using s1(2) dga_not_sym unfolding name_at_def by blast (rule dga_not_sym [OF arr])
        have g: "blocks s1 (pbase u) = None" "blocks s2 (pbase ul) = None" "untouched {pbase ul, pbase u} s1 s2"
          "untouched {pbase u} s2 s3" using s2 s3 by simp_all
        note heap = push_heap [OF assms(2,3) s1(3,4) name_at_live [OF s1(2)] sym(1) g(1-3) sym(2) g(4)]
        have "list_all2 (name_at s3) us qs" by (rule names_cong [OF at(2) heap(3)])
        moreover have "name_at s3 x q" by (rule name_at_cong [OF s1(2) heap(4)])
        ultimately have "names_at s3 u (us @ [x]) (qs @ [q])"
          using s3 heap(2) by (simp add: names_at_def list_all2_appendI add.commute [of 1])
        then show "heap_ext s s3 \<and> (\<exists>qs'. names_at s3 u (us @ [x]) qs' \<and> extends_heap s0 (name_bases u qs') s3)"
          using heap(1) s1(1) s2 s3 by (blast intro: heap_ext_trans)
      qed
      with s2 show "u \<noteq> null \<and> runs (dga_len u) s2 (\<lambda>n s2. runs (store_ptr (ptr_add u (int (8 * unat (n - 1)))) q) s2
          (\<lambda>_ s3. heap_ext s s3 \<and> (\<exists>qs'. names_at s3 u (us @ [x]) qs' \<and> extends_heap s0 (name_bases u qs') s3)))"
        by (simp add: runs_dga_len_ok [OF arr])
    qed
  qed
  with new show "q \<noteq> null \<and> runs (strcpy q x) s1' (\<lambda>_ s1. runs (dga_grow ul 1) s1 (\<lambda>u s2. u \<noteq> null \<and> runs (dga_len u) s2 (\<lambda>n s2.
    runs (store_ptr (ptr_add u (int (8 * unat (n - 1)))) q) s2 (\<lambda>_ s3. heap_ext s s3 \<and>
      (\<exists>qs'. names_at s3 u (us @ [x]) qs' \<and> extends_heap s0 (name_bases u qs') s3)))))"
    by (auto elim!: runs_mono)
qed

section \<open>The loop\<close>

text \<open>The state of the loop of \<open>clean_ul_mod_names\<close>: \<open>s0\<close> is the state before \<open>ul_names\<close> was made, \<open>us\<close> the
  names kept in it.\<close>

definition ul_inv :: "'e world \<Rightarrow> ptr \<Rightarrow> string list \<Rightarrow> ptr list \<Rightarrow> 'e world \<Rightarrow> bool" where
  "ul_inv s0 ul us qs s \<longleftrightarrow> healthy s \<and> dl_error s = None \<and> outside_step s0 s \<and> names_at s ul us qs \<and>
     extends_heap s0 (name_bases ul qs) s"

definition decided :: "'e posix \<Rightarrow> string \<Rightarrow> string list \<Rightarrow> bool" where
  "decided P mp ns \<longleftrightarrow> (\<forall>e. \<forall>n\<in>set ns. loads (os_dlopen P e (Some (mp @ n))) \<or> refused (os_dlopen P e (Some (mp @ n))))"

lemma loads_not_refused: "loads r \<Longrightarrow> \<not> refused r"
  by (auto simp: loads_def refused_def split: sum.splits)

lemma runs_load_any:
  assumes "healthy s" "dl_error s = None" "path_fits mp n"
    and "loads (os_dlopen P (env s) (Some (mp @ n))) \<or> refused (os_dlopen P (env s) (Some (mp @ n)))"
  shows "runs (load_module P n m mp) s (\<lambda>r s'. load_step s s' \<and> dl_error s' = None \<and>
    (\<exists>so. mapped s so s' \<or> not_mapped s s') \<and> (fst r = None \<longleftrightarrow> loads (os_dlopen P (env s) (Some (mp @ n)))))"
proof -
  have now: "lib_answer P s mp n = os_dlopen P (env s) (Some (mp @ n))" "mem_ok s"
    using assms(1) never_oom_now [of s] by (simp_all add: healthy_def lib_answer_def)
  show ?thesis
    by (rule runs_mono [OF runs_load_module [OF now(2) assms(3,2)]])
      (use assms(4) now(1) in \<open>auto simp: load_result_def loads_def refused_def split: sum.splits option.splits\<close>)
qed

lemma ul_inv_loaded:
  assumes "ul_inv s0 ul us qs s" "load_step s s'" "dl_error s' = None" "mapped s so s' \<or> not_mapped s s'"
  shows "ul_inv s0 ul us qs s'"
proof -
  have inv: "healthy s" "outside_step s0 s" "names_at s ul us qs" "extends_heap s0 (name_bases ul qs) s"
    using assms(1) by (simp_all add: ul_inv_def)
  have "names_at s' ul us qs"
    by (rule names_at_cong [OF inv(3)])
      (use assms(4) name_bases_blk [OF inv(3)] in \<open>auto simp: mapped_def not_mapped_def\<close>)
  with inv assms show ?thesis
    using outside_step_trans [OF inv(2) outside_step_load] extends_heap_map [OF inv(4)] load_step_healthy
    by (simp add: ul_inv_def) blast
qed

lemma runs_drop_name:
  fixes s :: "'a world"
  assumes "ul_inv s0 ul us qs s" "length us < 2 ^ 56" "length n < 256" "path_fits mp n"
    and rest: "\<And>u qs' s2. ul_inv s0 u (us @ [n]) qs' s2 \<Longrightarrow>
      env s2 = (case os_remove P (env s) (mp @ n) of Inl _ \<Rightarrow> env s | Inr e \<Rightarrow> e) \<Longrightarrow> runs (m u) s2 Q"
  shows "runs (dga_new (strlen n + 1) 4) s (\<lambda>q s1. q \<noteq> null \<and> runs (strcpy q n) s1 (\<lambda>_ s1.
    runs (dga_grow ul 1) s1 (\<lambda>u s2. u \<noteq> null \<and> runs (dga_len u) s2 (\<lambda>k s2.
    runs (store_ptr (ptr_add u (int (8 * unat (k - 1)))) q) s2 (\<lambda>_ s3.
    runs (rm_module P n mp) s3 (\<lambda>_ s4. runs (m u) s4 Q))))))"
proof -
  have inv: "healthy s" "outside_step s0 s" "names_at s ul us qs" "extends_heap s0 (name_bases ul qs) s" "dl_error s = None"
    using assms(1) by (simp_all add: ul_inv_def)
  have "runs (rm_module P n mp) s3 (\<lambda>_ s4. runs (m u) s4 Q)"
    if s3: "heap_ext s s3" "names_at s3 u (us @ [n]) qs'" "extends_heap s0 (name_bases u qs') s3" for u qs' s3
  proof (rule runs_mono [OF runs_rm_module [OF heap_ext_mem_ok [OF s3(1)] assms(4)]])
    have h3: "healthy s3" by (rule heap_ext_healthy [OF inv(1) s3(1)])
    have w: "env s3 = env s" "dl_error s3 = None"
      using s3(1) heap_only_world [of s s3] inv(5) by (simp_all add: heap_ext_def)
    fix r and s4 :: "'a world"
    assume s4: "link_result (os_remove P) mp n s3 r s4"
    have b: "blocks s4 = blocks s3" using s4 by (simp add: link_result_def)
    have "names_at s4 u (us @ [n]) qs'" by (rule names_at_cong [OF s3(2)]) (simp add: b)
    moreover have "outside_step s3 s4" using s4 by (simp add: link_result_def)
    moreover have "outside_step s0 s3" by (rule outside_step_trans [OF inv(2) outside_step_load [OF load_step_heap [OF s3(1)]]])
    ultimately have "ul_inv s0 u (us @ [n]) qs' s4"
      using s3(3) s4 w(2) b outside_step_trans outside_step_healthy [OF h3]
      by (simp add: ul_inv_def extends_heap_def link_result_def) blast
    moreover have "env s4 = (case os_remove P (env s) (mp @ n) of Inl _ \<Rightarrow> env s | Inr e \<Rightarrow> e)"
      using s4 w(1) h3 never_oom_now [of s3] by (auto simp: link_result_def healthy_def split: sum.splits)
    ultimately show "runs (m u) s4 Q" by (rule rest)
  qed
  then show ?thesis
    by (intro runs_mono [OF runs_push_text [OF inv(1,3,4) assms(2,3)]]) (auto elim!: runs_mono)
qed

text \<open>The part of a turn that drops the name \<open>n\<close>; \<open>m\<close> is the rest of the loop.\<close>

lemma runs_clean_drop:
  fixes s :: "'a world"
  assumes "ul_inv s0 ul us qs s" "length us < 2 ^ 56" "length n < 256" "path_fits mp n"
    and "\<And>u qs' s2. ul_inv s0 u (us @ [n]) qs' s2 \<Longrightarrow>
      env s2 = (case os_remove P (env s) (mp @ n) of Inl _ \<Rightarrow> env s | Inr e \<Rightarrow> e) \<Longrightarrow> runs (m u) s2 Q"
  shows "runs (bind (dga_new (strlen n + 1) 4) (\<lambda>ul_mod_name.
      if ul_mod_name = null then clean_memfail ul p
      else seq (strcpy ul_mod_name n)
        (dga_grow_or ul 1 (clean_memfail ul p) (\<lambda>ul_names.
         bind (dga_len ul_names) (\<lambda>k.
         seq (store_ptr (ptr_add ul_names (int (8 * unat (k - 1)))) ul_mod_name)
        (seq (rm_module P n mp) (m ul_names))))))) s Q"
  unfolding runs_bind [of "dga_new _ _"]
  by (rule runs_mono [OF runs_drop_name [OF assms]])
    (auto simp: runs_seq dga_grow_or_def runs_bind elim!: runs_mono)

lemma runs_clean_turn:
  fixes s :: "'a world"
  assumes inv: "ul_inv s0 ul us qs s" and at: "names_at s0 p ns ps" and room: "name_room ns" "i < length ns"
    and fits: "path_fits mp (ns ! i)" and dec: "decided P mp ns" and len: "length us < 2 ^ 56"
    and keep: "\<And>s2. loads (os_dlopen P (env s) (Some (mp @ ns ! i))) \<Longrightarrow> ul_inv s0 ul us qs s2 \<Longrightarrow> env s2 = env s \<Longrightarrow>
      runs (clean_loop k P mp p (of_nat (length ns)) ul (of_nat i + 1)) s2 Q"
    and rest: "\<And>u qs' s2. \<not> loads (os_dlopen P (env s) (Some (mp @ ns ! i))) \<Longrightarrow> ul_inv s0 u (us @ [ns ! i]) qs' s2 \<Longrightarrow>
      env s2 = (case os_remove P (env s) (mp @ ns ! i) of Inl _ \<Rightarrow> env s | Inr e \<Rightarrow> e) \<Longrightarrow>
      runs (clean_loop k P mp p (of_nat (length ns)) u (of_nat i + 1)) s2 Q"
  shows "runs (clean_loop (Suc k) P mp p (of_nat (length ns)) ul (of_nat i)) s Q"
proof -
  have "length ns < 2 ^ 56" using room by (simp add: name_room_def)
  then have n: "unat (of_nat (length ns) :: u64) = length ns" "unat (of_nat i :: u64) = i"
    using fits_names [of ns] room(2) by (simp_all add: unat_of_nat_small)
  then have less: "(of_nat i :: u64) < of_nat (length ns)" using room(2) by (simp add: word_less_nat_alt)
  have at1: "names_at s p ns ps"
    using names_at_extends [OF at] inv by (auto simp: ul_inv_def)
  note nth = names_at_nth [OF at1 room]
  have short: "length (ns ! i) < 256" using room by (simp add: name_room_def)
  let ?d = "os_dlopen P (env s) (Some (mp @ ns ! i))"
  have h: "healthy s" "dl_error s = None" using inv by (simp_all add: ul_inv_def)
  let ?drop = "bind (dga_new (strlen (ns ! i) + 1) 4) (\<lambda>ul_mod_name.
               if ul_mod_name = null then clean_memfail ul p
               else seq (strcpy ul_mod_name (ns ! i))
                 (dga_grow_or ul 1 (clean_memfail ul p) (\<lambda>ul_names.
                  bind (dga_len ul_names) (\<lambda>n.
                  seq (store_ptr (ptr_add ul_names (int (8 * unat (n - 1)))) ul_mod_name)
                 (seq (rm_module P (ns ! i) mp)
                 (clean_loop k P mp p (of_nat (length ns)) ul_names (of_nat i + 1)))))))"
  have "runs (load_module P (ns ! i) fresh_module mp) s (\<lambda>r s2. runs (if fst r = None
      then clean_loop k P mp p (of_nat (length ns)) ul (of_nat i + 1) else ?drop) s2 Q)"
  proof (rule runs_mono [OF runs_load_any [OF h fits]])
    show "loads ?d \<or> refused ?d" using dec room(2) by (simp add: decided_def)
    fix r and s2 :: "'a world"
    assume s2: "load_step s s2 \<and> dl_error s2 = None \<and> (\<exists>so. mapped s so s2 \<or> not_mapped s s2) \<and> (fst r = None \<longleftrightarrow> loads ?d)"
    then have inv2: "ul_inv s0 ul us qs s2" and e2: "env s2 = env s"
      using ul_inv_loaded [OF inv] by (auto simp: load_step_def)
    show "runs (if fst r = None then clean_loop k P mp p (of_nat (length ns)) ul (of_nat i + 1) else ?drop) s2 Q"
    proof (cases "loads ?d")
      case True
      with s2 keep [OF True inv2 e2] show ?thesis by simp
    next
      case False
      have "runs ?drop s2 Q"
        by (rule runs_clean_drop [OF inv2 len short fits]) (rule rest [OF False], assumption, simp only: e2)
      moreover have "fst r \<noteq> None" using False s2 by blast
      ultimately show ?thesis by (simp only: if_False simp_thms)
    qed
  qed
  then show ?thesis
    unfolding clean_loop.simps if_P [OF less] runs_bind [of "load_ptr _"] n(2) nth(1)
    using name_at_str [OF nth(2,3)] by (simp only: runs_bind [of "load_str _"] runs_load_str runs_bind [of "load_module _ _ _ _"]) blast
qed

lemma runs_clean_loop:
  fixes s :: "'a world"
  assumes at: "names_at s0 p ns ps" and room: "name_room ns" and fits: "\<forall>n\<in>set ns. path_fits mp n" and dec: "decided P mp ns"
    and done_all: "\<And>u qs' s2. ul_inv s0 u (us_at @ snd (sweep P mp e_at (drop i_at ns))) qs' s2 \<Longrightarrow>
      env s2 = fst (sweep P mp e_at (drop i_at ns)) \<Longrightarrow>
      runs (seq (free_mod_names p) (bind (dga_len u) (\<lambda>n. ret (u, Some n)))) s2 Q"
  shows "rem = drop i ns \<Longrightarrow> ul_inv s0 ul us qs s \<Longrightarrow> i \<le> length ns \<Longrightarrow> length us + length rem < 2 ^ 56 \<Longrightarrow>
    length rem < k \<Longrightarrow> us @ snd (sweep P mp (env s) rem) = us_at @ snd (sweep P mp e_at (drop i_at ns)) \<Longrightarrow>
    fst (sweep P mp (env s) rem) = fst (sweep P mp e_at (drop i_at ns)) \<Longrightarrow>
    runs (clean_loop k P mp p (of_nat (length ns)) ul (of_nat i)) s Q"
proof (induction rem arbitrary: k i s ul us qs)
  case Nil
  then obtain k' where k: "k = Suc k'" by (cases k) auto
  have "i = length ns" using Nil.prems(1,3) by simp
  then have "\<not> (of_nat i :: u64) < of_nat (length ns)" by simp
  then show ?case
    unfolding k clean_loop.simps if_not_P using done_all [of ul qs s] Nil.prems(2,6,7) by simp
next
  case (Cons n rem)
  obtain k' where k: "k = Suc k'" "length rem < k'" using Cons.prems(5) by (cases k) auto
  have i: "i < length ns" using Cons.prems(1) by (metis drop_all list.distinct(1) not_le_imp_less)
  then have n: "ns ! i = n" "drop (Suc i) ns = rem"
    using Cons.prems(1) by (metis Cons_nth_drop_Suc list.inject)+
  have idx: "of_nat i + 1 = (of_nat (Suc i) :: u64)" by simp
  have fit: "path_fits mp (ns ! i)" using fits i by simp
  have len: "length us < 2 ^ 56" using Cons.prems(4) by simp
  show ?case
    unfolding k(1)
  proof (rule runs_clean_turn [OF Cons.prems(2) at room i fit dec len])
    fix s2 :: "'a world"
    assume "loads (os_dlopen P (env s) (Some (mp @ ns ! i)))" "ul_inv s0 ul us qs s2" "env s2 = env s"
    then show "runs (clean_loop k' P mp p (of_nat (length ns)) ul (of_nat i + 1)) s2 Q"
      unfolding idx using Cons.prems(4,6,7) i n k(2) by (intro Cons.IH) simp_all
  next
    fix u qs' and s2 :: "'a world"
    assume "\<not> loads (os_dlopen P (env s) (Some (mp @ ns ! i)))" "ul_inv s0 u (us @ [ns ! i]) qs' s2"
      "env s2 = (case os_remove P (env s) (mp @ ns ! i) of Inl _ \<Rightarrow> env s | Inr e \<Rightarrow> e)"
    then show "runs (clean_loop k' P mp p (of_nat (length ns)) u (of_nat i + 1)) s2 Q"
      unfolding idx using Cons.prems(4,6,7) i n k(2) by (intro Cons.IH [of "Suc i" u "us @ [n]" qs']) (simp_all add: case_prod_unfold Let_def)
  qed
qed

section \<open>The function\<close>

text \<open>\<open>cleaned e us\<close>: the array of the names \<open>us\<close> removed, beside which the heap is as before but for the data of
  shared objects, and the outside left in \<open>e\<close>.\<close>

definition cleaned :: "'e \<Rightarrow> string list \<Rightarrow> 'e world \<Rightarrow> ptr \<times> u64 option \<Rightarrow> 'e world \<Rightarrow> bool" where
  "cleaned e us s r s' \<longleftrightarrow> (\<exists>ul qs. r = (ul, Some (of_nat (length us))) \<and>
     names_at s' ul us qs \<and> extends_heap s (name_bases ul qs) s' \<and> env s' = e \<and> balanced s s' \<and>
     stdout_of s' = stdout_of s \<and> stderr_of s' = stderr_of s)"

lemma names_at_empty: "dga_ok s p 0 8 [] \<Longrightarrow> names_at s p [] []"
  by (simp add: names_at_def)

lemma cleanedI:
  fixes s :: "'a world"
  assumes at: "names_at s1 p ns ps" and ext: "extends s (name_bases p ps) s1" and bal: "balanced s s1"
    and out: "stdout_of s1 = stdout_of s" "stderr_of s1 = stderr_of s"
    and inv: "ul_inv s1 u us qs s3"
    and s4: "s4 = s3\<lparr>blocks := clear_all (name_bases p ps) (blocks s3)\<rparr>"
  shows "names_at s4 u us qs" "cleaned (env s3) us s (u, Some (of_nat (length us))) s4"
proof -
  have f: "outside_step s1 s3" "names_at s3 u us qs" "extends_heap s1 (name_bases u qs) s3"
    using inv by (simp_all add: ul_inv_def)
  have "b \<notin> name_bases p ps" if "b \<in> name_bases u qs" for b
    using names_at_live [OF at, of b] f(3) that by (auto simp: extends_heap_def)
  then show "names_at s4 u us qs"
    by (intro names_at_cong [OF f(2)]) (simp add: s4 clear_all_def)
  moreover have "extends_heap s (name_bases u qs) s4"
    unfolding s4 by (rule extends_heap_clear [OF ext _ f(3)])
      (use names_at_live [OF at] name_bases_blk [OF at] in blast)
  moreover have "balanced s s4"
    using bal f(1) by (simp add: balanced_def s4 outside_step_def load_step_def)
  ultimately show "cleaned (env s3) us s (u, Some (of_nat (length us))) s4"
    using \<open>names_at s4 u us qs\<close> out f(1) by (auto simp: cleaned_def s4 outside_step_def load_step_def)
qed

text \<open>What follows the loop.\<close>

lemma runs_clean_end:
  fixes s :: "'a world"
  assumes "names_at s1 p ns ps" "extends s (name_bases p ps) s1" "balanced s s1" "stdout_of s1 = stdout_of s" "stderr_of s1 = stderr_of s"
    and "ul_inv s1 u us qs s3" "length ns < 2 ^ 56"
  shows "runs (seq (free_mod_names p) (bind (dga_len u) (\<lambda>n. ret (u, Some n)))) s3 (cleaned (env s3) us s)"
proof -
  note res = cleanedI [OF assms(1-6) refl]
  note arr = names_atD(1) [OF res(1)]
  have at3: "names_at s3 p ns ps"
    using names_at_extends [OF assms(1)] assms(6) by (auto simp: ul_inv_def)
  show ?thesis
    unfolding runs_seq free_mod_names_def
    by (rule runs_mono [OF runs_free_dir_content [OF at3 assms(7)]]) (use res(2) in \<open>simp add: runs_bind runs_dga_len_ok [OF arr] runs_ret\<close>)
qed

lemma runs_clean:
  fixes s :: "'a world"
  assumes "stack_ok s" "curr s < 8" "healthy s" "dl_error s = None" "os_wordexp P (env s) mp = Some (x # ws)"
    and "c_string x" "Suc (length x) < 2 ^ 64" "length (x # ws) < 2 ^ 64"
    and "os_opendir P (env s) x = Inr names" "name_room (visible names)" "\<forall>n\<in>set (visible names). path_fits mp n"
    and "decided P mp (visible names)"
  shows "runs (clean_ul_mod_names P mp) s (cleaned (fst (sweep P mp (env s) (visible names)))
    (snd (sweep P mp (env s) (visible names))) s)"
proof -
  let ?s = "s\<lparr>err_code := No_Error\<rparr>" and ?ns = "visible names"
  let ?Q = "cleaned (fst (sweep P mp (env s) (visible names))) (snd (sweep P mp (env s) (visible names))) s"
  let ?rest = "\<lambda>names. bind (dga_new 0 8) (\<lambda>ul_names.
     seq (if ul_names = null then errm_error NOT_ENOUGH_MEMORY else ret ())
    (bind (reads (\<lambda>s. snd names)) (\<lambda>len_names.
     clean_loop (Suc (unat len_names)) P mp (fst names) len_names ul_names 0)))"
  have len: "length ?ns < 2 ^ 56" using assms(10) by (simp add: name_room_def)
  have "runs (dir_content P mp) ?s (\<lambda>r s1. err_code s1 = No_Error \<and> runs (?rest r) s1 ?Q)"
  proof (rule runs_mono [OF runs_dir_content [OF _ _ _ _ assms(6,7,8) _ assms(10)]])
    show "stack_ok ?s" "curr ?s < 8" "healthy ?s" "os_wordexp P (env ?s) mp = Some (x # ws)"
      "os_opendir P (env ?s) x = Inr names"
      using assms by (simp_all add: stack_ok_def healthy_def mem_ok_def never_oom_def)
    fix r and s1 :: "'a world" assume l: "listing ?s ?ns r s1"
    then obtain p ps where r: "r = (p, Some (of_nat (length ?ns)))" and at: "names_at s1 p ?ns ps"
      and ext: "extends s (name_bases p ps) s1" and bal: "balanced s s1"
      and step: "proc_step s s1" and e1: "err_code s1 = No_Error"
      by (auto simp: listing_def extends_def untouched_def balanced_def defers_ok_def proc_step_def)
    have h1: "healthy s1" by (rule proc_step_healthy [OF assms(3) step])
    have w: "env s1 = env s" "dl_error s1 = None" "stdout_of s1 = stdout_of s" "stderr_of s1 = stderr_of s"
      using step assms(4) by (simp_all add: proc_step_def)
    have n: "unat (of_nat (length ?ns) :: u64) = length ?ns" using fits_names [OF len] by simp
    have "runs (?rest r) s1 ?Q"
      unfolding r fst_conv snd_conv runs_bind [of "dga_new _ _"]
    proof (rule runs_mono [OF dga.make_spec [OF h1]])
      show "fits 0 8" by (simp add: fits_def)
      fix ul and s2 :: "'a world"
      assume s2: "ul \<noteq> null \<and> heap_ext s1 s2 \<and> dga_ok s2 ul 0 8 (replicate (unat (0 :: u64) * unat (8 :: u64)) Undef) \<and>
        blocks s1 (pbase ul) = None \<and> untouched {pbase ul} s1 s2"
      have heap: "heap_only s1 s2" using s2 by (simp add: heap_ext_def)
      have inv: "ul_inv s1 ul [] [] s2"
        using s2 w(2) heap_ext_healthy [OF h1] heap_only_world [OF heap] outside_step_load [OF load_step_heap, of s1 s2]
        by (auto simp: ul_inv_def names_at_empty name_bases_def extends_heap_def untouched_def)
      have "runs (clean_loop (Suc (length ?ns)) P mp p (of_nat (length ?ns)) ul (of_nat 0)) s2 ?Q"
      proof (rule runs_clean_loop [OF at assms(10-12), where i_at = 0 and e_at = "env s" and us_at = "[]", OF _ refl inv])
        fix u qs' and s3 :: "'a world"
        assume s3: "ul_inv s1 u ([] @ snd (sweep P mp (env s) (drop 0 ?ns))) qs' s3" "env s3 = fst (sweep P mp (env s) (drop 0 ?ns))"
        then show "runs (seq (free_mod_names p) (bind (dga_len u) (\<lambda>n. ret (u, Some n)))) s3 ?Q"
          using runs_clean_end [OF at ext bal w(3,4) _ len, of u "snd (sweep P mp (env s) ?ns)" qs' s3] by simp
      qed (use len w(1) heap_only_world [OF heap] in simp_all)
      then show "runs (seq (if ul = null then errm_error NOT_ENOUGH_MEMORY else ret ())
          (bind (reads (\<lambda>s. Some (of_nat (length ?ns)))) (\<lambda>len_names.
           clean_loop (Suc (unat len_names)) P mp p len_names ul 0))) s2 ?Q"
        using s2 n by (simp add: runs_seq runs_ret runs_bind [of "reads _"] runs_reads del: clean_loop.simps)
    qed
    with e1 show "err_code s1 = No_Error \<and> runs (?rest r) s1 ?Q" by simp
  qed
  then show ?thesis
    unfolding clean_ul_mod_names_def mod_names_def errm_clear_def
    by (simp add: runs_seq runs_modify runs_bind [of "dir_content _ _"] runs_on_error del: clean_loop.simps) (erule runs_mono, simp)
qed

section \<open>Releasing the names\<close>

lemma ptr_add_add: "ptr_add (ptr_add p i) j = ptr_add p (i + j)"
  by (cases p) simp

lemma ptr_add_eq: "ptr_add p i = ptr_add p j \<longleftrightarrow> i = j"
  by (cases p) simp

lemma runs_free_each:
  "dga_ok s p (of_nat (length (ds @ qs))) 8 (ptr_bytes (ds @ qs)) \<Longrightarrow> list_all2 (name_at s) ns qs \<Longrightarrow>
   distinct (map pbase (p # qs)) \<Longrightarrow> length (ds @ qs) < 2 ^ 56 \<Longrightarrow> length qs < k \<Longrightarrow>
   runs (free_each k p (ptr_add p (int (8 * length ds)))) s
     (\<lambda>_ s'. s' = s\<lparr>blocks := clear_all (pbase ` set qs) (blocks s)\<rparr>)"
proof (induction qs arbitrary: ds ns k s)
  case Nil
  then obtain k' where k: "k = Suc k'" by (cases k) auto
  have n: "unat (of_nat (length ds) :: u64) = length ds" using fits_names [of ds] Nil.prems(4) by simp
  show ?case
    unfolding k free_each.simps runs_bind [of "dga_len _"] runs_dga_len_ok [OF Nil.prems(1)] append_Nil2 n
    by (simp add: runs_ret)
next
  case (Cons q qs)
  then obtain k' where k: "k = Suc k'" "length qs < k'" by (cases k) auto
  obtain x ns' where ns: "ns = x # ns'" "name_at s x q" "list_all2 (name_at s) ns' qs"
    using Cons.prems(2) by (auto simp: list_all2_Cons2)
  let ?s1 = "s\<lparr>blocks := (blocks s)(pbase q := None)\<rparr>"
  have n: "unat (of_nat (length (ds @ q # qs)) :: u64) = length (ds @ q # qs)"
    using fits_names [of "ds @ q # qs"] Cons.prems(4) by simp
  have "runs (free_each k' p (ptr_add p (int (8 * length (ds @ [q]))))) ?s1
      (\<lambda>_ s'. s' = ?s1\<lparr>blocks := clear_all (pbase ` set qs) (blocks ?s1)\<rparr>)"
  proof (rule Cons.IH [OF _ _ _ _ k(2)])
    show "dga_ok ?s1 p (of_nat (length ((ds @ [q]) @ qs))) 8 (ptr_bytes ((ds @ [q]) @ qs))"
      by (rule dga.rep_local [of s]) (use Cons.prems(1,3) in auto)
    show "list_all2 (name_at ?s1) ns' qs"
      by (rule names_cong [OF ns(3)]) (use Cons.prems(3) in \<open>auto simp: image_iff\<close>)
  qed (use Cons.prems(3,4) in simp_all)
  then have "runs (free_each k' p (ptr_add (ptr_add p (int (8 * length ds))) 8)) ?s1
      (\<lambda>_ s'. s' = s\<lparr>blocks := clear_all (pbase ` set (q # qs)) (blocks s)\<rparr>)"
    by (simp add: clear_all_one [of "blocks s"] ptr_add_add add.commute)
  moreover have "runs (load_ptr (ptr_add p (int (8 * length ds)))) s Q \<longleftrightarrow> Q q s" for Q
    using runs_load_elem [OF Cons.prems(1), of "length ds" Q] by simp
  moreover have "ptr_add p (int (8 * length ds)) \<noteq> ptr_add p (int (8 * length (ds @ q # qs)))"
    by (simp add: ptr_add_eq)
  ultimately show ?case
    unfolding k(1) free_each.simps runs_bind [of "dga_len _"] runs_dga_len_ok [OF Cons.prems(1)] n
    by (simp only: if_True simp_thms runs_bind runs_seq runs_name_free [OF ns(2)])
qed

lemma runs_free_ul:
  assumes "names_at s p ns ps" "length ns < 2 ^ 56"
  shows "runs (free_ul_mod_names p) s (\<lambda>_ s'. s' = s\<lparr>blocks := clear_all (name_bases p ps) (blocks s)\<rparr>)"
proof -
  note at = names_atD [OF assms(1)]
  let ?s1 = "s\<lparr>blocks := clear_all (pbase ` set ps) (blocks s)\<rparr>"
  have arr: "dga_ok s p (of_nat (length ([] @ ps))) 8 (ptr_bytes ([] @ ps))"
    using at(1,4) by simp
  have "runs (free_each (Suc (length ns)) p (ptr_add p (int (8 * length ([] :: ptr list))))) s (\<lambda>_ s'. s' = ?s1)"
    by (rule runs_free_each [OF arr at(2,3)]) (use assms(2) at(4) in simp_all)
  moreover have "dga_ok ?s1 p (of_nat (length ns)) 8 (ptr_bytes ps)"
    by (rule dga.rep_local [OF at(1)]) (use at(3) in \<open>auto simp: clear_all_def\<close>)
  then have "runs (dga_free p) ?s1 (\<lambda>_ s'. s' = s\<lparr>blocks := clear_all (name_bases p ps) (blocks s)\<rparr>)"
    by (simp add: runs_dga_free_ok name_bases_def)
  ultimately show ?thesis
    unfolding free_ul_mod_names_def
    by (auto simp: runs_bind runs_seq runs_dga_len_ok [OF at(1)] fits_names [OF assms(2)] simp del: free_each.simps elim!: runs_mono)
qed

section \<open>The command\<close>

definition removed_line :: "string \<Rightarrow> string" where
  "removed_line n = ''Removed: '' @ n @ nl"

lemma sweep_names: "set (snd (sweep P mp e ns)) \<subseteq> set ns" "length (snd (sweep P mp e ns)) \<le> length ns"
proof -
  show "set (snd (sweep P mp e ns)) \<subseteq> set ns" by (induction ns arbitrary: e) (auto simp: Let_def case_prod_unfold)
  show "length (snd (sweep P mp e ns)) \<le> length ns"
    by (induction ns arbitrary: e) (auto simp: Let_def case_prod_unfold intro: le_SucI)
qed

lemma sweep_room: "name_room ns \<Longrightarrow> name_room (snd (sweep P mp e ns))"
  using sweep_names [of P mp e ns] by (auto simp: name_room_def)

lemma print_removed:
  fixes s :: "'a world"
  assumes "names_at s p ns ps" "name_room ns" "i < length ns"
  shows "prints (bind (load_ptr (ptr_add p (int (8 * i)))) (\<lambda>q. bind (load_str q) (\<lambda>name.
    print_out (''Removed: '' @ name @ nl))) :: (unit, 'a world) prog) (blocks s) (removed_line (ns ! i))"
  unfolding prints_def
proof (intro allI impI)
  fix s1 :: "'a world" and Q assume b: "blocks s1 = blocks s"
  have "names_at s1 p ns ps" by (rule names_at_cong [OF assms(1)]) (simp add: b)
  note nth = names_at_nth [OF this assms(2,3)]
  show "runs (bind (load_ptr (ptr_add p (int (8 * i)))) (\<lambda>q. bind (load_str q) (\<lambda>name.
      print_out (''Removed: '' @ name @ nl)))) s1 Q \<longleftrightarrow> Q () (s1\<lparr>stdout_of := stdout_of s1 @ removed_line (ns ! i)\<rparr>)"
    unfolding runs_bind [of "load_ptr _"] nth(1)
    using name_at_str [OF nth(2,3)] by (simp add: runs_bind runs_load_str runs_print removed_line_def)
qed

lemma runs_report_removed:
  fixes s :: "'a world"
  assumes "names_at s p ns ps" "name_room ns" "extends_heap s0 (name_bases p ps) s" "balanced s0 s"
  shows "runs (seq (for_each (\<lambda>i. bind (load_ptr (ptr_add p (int (8 * i)))) (\<lambda>q. bind (load_str q) (\<lambda>name.
      print_out (''Removed: '' @ name @ nl)))) [0..<length ns]) (seq (free_ul_mod_names p) (ret (0 :: int)))) s
    (\<lambda>r s'. r = 0 \<and> env s' = env s \<and> stdout_of s' = stdout_of s @ concat (map removed_line ns) \<and>
      extends_heap s0 {} s' \<and> balanced s0 s')"
proof -
  have len: "length ns < 2 ^ 56" using assms(2) by (simp add: name_room_def)
  have all: "prints (for_each (\<lambda>i. bind (load_ptr (ptr_add p (int (8 * i)))) (\<lambda>q. bind (load_str q) (\<lambda>name.
      print_out (''Removed: '' @ name @ nl)))) [0..<length ns] :: (unit, 'a world) prog) (blocks s)
      (concat (map (\<lambda>i. removed_line (ns ! i)) [0..<length ns]))"
    by (intro prints_each print_removed [OF assms(1,2)]) simp
  let ?s1 = "s\<lparr>stdout_of := stdout_of s @ concat (map removed_line ns)\<rparr>"
  have "names_at ?s1 p ns ps" by (rule names_at_cong [OF assms(1)]) simp
  from runs_free_ul [OF this len] show ?thesis
    unfolding runs_seq printsD [OF all] concat_upt_nth [OF refl]
    by (rule runs_mono) (use assms(3,4) in \<open>auto simp: runs_ret extends_heap_def clear_all_def balanced_def\<close>)
qed

lemma runs_list_cleaned:
  fixes s :: "'a world"
  assumes "runs (clean_ul_mod_names P modules_path) s (cleaned e us s0)" "name_room us"
  shows "runs (list_clean P) s (\<lambda>r s'. r = 0 \<and> env s' = e \<and> stdout_of s' = stdout_of s0 @ concat (map removed_line us) \<and>
    extends_heap s0 {} s' \<and> balanced s0 s')"
    (is "runs _ _ ?Q")
  unfolding list_clean_def runs_bind [of "clean_ul_mod_names _ _"]
proof (rule runs_mono [OF assms(1)])
  fix r and s1 :: "'a world"
  assume "cleaned e us s0 r s1"
  then obtain p ps where r: "r = (p, Some (of_nat (length us)))" and at: "names_at s1 p us ps"
    and s1: "extends_heap s0 (name_bases p ps) s1" "balanced s0 s1" "env s1 = e" "stdout_of s1 = stdout_of s0"
    by (auto simp: cleaned_def)
  have "length us < 2 ^ 56" using assms(2) by (simp add: name_room_def)
  then have n: "unat (of_nat (length us) :: u64) = length us" using fits_names by blast
  have live: "p \<noteq> null"
    using names_atD(1) [OF at] by (auto simp: dga_ok_def is_dga_def null_def)
  have "runs (seq (for_each (\<lambda>i. bind (load_ptr (ptr_add p (int (8 * i)))) (\<lambda>q. bind (load_str q) (\<lambda>name.
      print_out (''Removed: '' @ name @ nl)))) [0..<length us]) (seq (free_ul_mod_names p) (ret 0))) s1 ?Q"
    by (rule runs_mono [OF runs_report_removed [OF at assms(2) s1(1,2)]]) (use s1(3,4) in simp)
  then show "runs (case r of (damaged, len) \<Rightarrow> if damaged = null then ret (- 1) else bind (reads (\<lambda>s. len)) (\<lambda>damaged_len.
      seq (for_each (\<lambda>i. bind (load_ptr (ptr_add damaged (int (8 * i)))) (\<lambda>p. bind (load_str p) (\<lambda>name.
        print_out (''Removed: '' @ name @ nl)))) [0..<unat damaged_len])
     (seq (free_ul_mod_names damaged) (ret 0)))) s1 ?Q"
    using live unfolding r prod.case by (simp only: if_False runs_bind [of "reads _"] runs_reads option.inject ex_simps) (simp add: n)
qed

lemma runs_list_clean:
  assumes "stack_ok s" "curr s < 8" "healthy s" "dl_error s = None" "os_wordexp P (env s) modules_path = Some (x # ws)"
    and "c_string x" "Suc (length x) < 2 ^ 64" "length (x # ws) < 2 ^ 64"
    and "os_opendir P (env s) x = Inr names" "name_room (visible names)" "decided P modules_path (visible names)"
  shows "runs (list_clean P) s (\<lambda>r s'. r = 0 \<and>
    env s' = fst (sweep P modules_path (env s) (visible names)) \<and>
    stdout_of s' = stdout_of s @ concat (map removed_line (snd (sweep P modules_path (env s) (visible names)))) \<and>
    extends_heap s {} s' \<and> balanced s s')"
  by (rule runs_list_cleaned [OF runs_clean [OF assms(1-10) names_fit [OF assms(10)] assms(11)] sweep_room [OF assms(10)]])

section \<open>Property\<close>

text \<open>C28: With \<open>--clean\<close>, the list command goes through the visible names of the modules directory in order, removes
  the link of each module that does not load and prints its name; the names that load are left alone. Whether a
  removal works is not looked at: the name is printed all the same. The memory is as before.\<close>

theorem cmd_clean_removes:
  assumes "stack_ok s" "curr s < 8" "healthy s" "dl_error s = None" "os_wordexp P (env s) modules_path = Some (x # ws)"
    and "c_string x" "Suc (length x) < 2 ^ 64" "length (x # ws) < 2 ^ 64"
    and "os_opendir P (env s) x = Inr names" "name_room (visible names)" "decided P modules_path (visible names)"
    and "''--clean'' \<in> set argv"
  shows "runs (cmd_arg_list P argv) s (\<lambda>r s'. r = 0 \<and>
    env s' = fst (sweep P modules_path (env s) (visible names)) \<and>
    stdout_of s' = stdout_of s @ concat (map removed_line (snd (sweep P modules_path (env s) (visible names)))) \<and>
    extends_heap s {} s' \<and> balanced s s')"
  using runs_list_clean [OF assms(1-11)] assms(12) by (auto simp: cmd_arg_list_def list_ex_iff)

definition half_posix :: "string list posix" where
  "half_posix = \<lparr>os_wordexp = (\<lambda>_ p. Some [p]), os_getcwd = (\<lambda>_. Inr ''/home''),
     os_opendir = (\<lambda>_ _. Inr [''.'', ''a.so'', ''b.so'']),
     os_dlopen = (\<lambda>_ p. if p = Some (modules_path @ ''a.so'') then Inr sample_so else Inl ''not found''),
     os_nosym = (\<lambda>x. x), os_symlink = (\<lambda>_ _ _. Inl EEXIST), os_remove = (\<lambda>e p. Inr (e @ [p]))\<rparr>"

theorem cmd_clean_removes_witness:
  "runs (cmd_arg_list half_posix [''list'', ''--clean'']) (start_at []) (\<lambda>r s'. r = 0 \<and>
     env s' = [modules_path @ ''b.so''] \<and> stdout_of s' = ''Removed: b.so'' @ nl)"
proof -
  have loaded: "loads (Inr sample_so)" "\<not> loads (Inl m)" "refused (Inl m)" for m
    using sample_mods(1,2) by (simp_all add: loads_def refused_def)
  have d: "os_dlopen half_posix e (Some (modules_path @ ''a.so'')) = Inr sample_so"
    "os_dlopen half_posix e (Some (modules_path @ ''b.so'')) = Inl ''not found''" for e
    by (simp_all add: half_posix_def)
  have sw: "sweep half_posix modules_path [] [''a.so'', ''b.so''] = ([modules_path @ ''b.so''], [''b.so''])"
    by (simp add: d loaded) (simp add: half_posix_def)
  have dir: "os_wordexp half_posix [] modules_path = Some (modules_path # [])"
    "os_opendir half_posix [] modules_path = Inr [''.'', ''a.so'', ''b.so'']" by (simp_all add: half_posix_def)
  have path: "c_string modules_path" "Suc (length modules_path) < 2 ^ 64" "length [modules_path] < 2 ^ 64"
    by (simp_all add: modules_path_def c_string_def)
  have room: "name_room (visible [''.'', ''a.so'', ''b.so''])" by (simp add: name_room_def c_string_def)
  have dec: "decided half_posix modules_path (visible [''.'', ''a.so'', ''b.so''])" by (simp add: decided_def d loaded)
  let ?s = "start_at [] :: string list world"
  have "runs (cmd_arg_list half_posix [''list'', ''--clean'']) ?s (\<lambda>r s'. r = 0 \<and>
    env s' = fst (sweep half_posix modules_path (env ?s) (visible [''.'', ''a.so'', ''b.so''])) \<and>
    stdout_of s' = stdout_of ?s @ concat (map removed_line
      (snd (sweep half_posix modules_path (env ?s) (visible [''.'', ''a.so'', ''b.so''])))) \<and>
    extends_heap ?s {} s' \<and> balanced ?s s')"
    by (rule cmd_clean_removes [OF start_at_ok(1) _ start_at_ok(3) _ _ path _ room dec])
      (simp_all add: start_at_ok dir, simp add: start_at_def)
  then show ?thesis
    by (rule runs_mono) (use sw in \<open>simp add: start_at_ok removed_line_def del: sweep.simps\<close>, simp add: start_at_def)
qed

end
