(* ===== verification/Low_Memory.thy ===== *)
theory Low_Memory
  imports Clean
begin

text \<open>
  \<open>dir_content\<close>, and the commands over it, on a heap that runs out. \<open>takes\<close> carries what is known of a piece of code
  on a heap that never runs out over to one that grants the requests the code makes. What the code does
  when a request is refused is worked out for each of the places that make one.
\<close>

section \<open>Code that is granted its requests\<close>

definition refill :: "'z proc_scheme \<Rightarrow> 'z proc_scheme" where
  "refill s = s\<lparr>grants := (\<lambda>_. True)\<rparr>"

definition granted :: "nat \<Rightarrow> 'z proc_scheme \<Rightarrow> bool" where
  "granted k s \<longleftrightarrow> (\<forall>i<k. grants s (requests s + i))"

text \<open>\<open>takes k m\<close>: where \<open>m\<close> returns on an inexhaustible heap, it makes \<open>k\<close> requests and does the same on any heap that
  grants those.\<close>

definition takes :: "nat \<Rightarrow> ('a, 'z proc_scheme) prog \<Rightarrow> bool" where
  "takes k m \<longleftrightarrow> (\<forall>s a s'. granted k s \<longrightarrow> m (refill s) = Done a s' \<longrightarrow>
     requests s' = requests s + k \<and> refill s' = s' \<and> m s = Done a (s'\<lparr>grants := grants s\<rparr>))"

named_theorems takes_intros

lemma refill_simps [simp]:
  "blocks (refill s) = blocks s" "requests (refill s) = requests s" "next_blk (refill s) = next_blk s"
  "grants (refill s) = (\<lambda>_. True)" "refill (refill s) = refill s" "peek (refill s) = peek s"
  "refill (s\<lparr>grants := g\<rparr>) = refill s"
  by (simp_all add: refill_def peek_def fun_eq_iff)

lemma refill_grants: "refill s' = s' \<Longrightarrow> refill (s'\<lparr>grants := g\<rparr>) = s'"
  by simp

lemma refill_back [simp]: "(refill s)\<lparr>grants := grants s\<rparr> = s"
  by (simp add: refill_def)

lemma takesD:
  assumes "takes k m" "granted k s" "m (refill s) = Done a s'"
  shows "requests s' = requests s + k" "refill s' = s'" "m s = Done a (s'\<lparr>grants := grants s\<rparr>)"
  using assms unfolding takes_def by blast+

lemma takes_bind:
  fixes m :: "('a, 'z proc_scheme) prog"
  assumes "takes j m" "\<And>a. takes k (f a)"
  shows "takes (j + k) (bind m f)"
  unfolding takes_def
proof (intro allI impI)
  fix s :: "'z proc_scheme" and b s2
  assume g: "granted (j + k) s" and run: "bind m f (refill s) = Done b s2"
  then obtain a s1 where s1: "m (refill s) = Done a s1" "f a s1 = Done b s2"
    by (auto simp: bind_def split: outcome.splits)
  have "granted j s" using g by (simp add: granted_def)
  note m = takesD [OF assms(1) this s1(1)]
  let ?t = "s1\<lparr>grants := grants s\<rparr>"
  have t: "refill ?t = s1" "granted k ?t"
    using g m(1,2) by (simp_all add: granted_def add.assoc)
  with takesD [OF assms(2) t(2), of a b s2] s1(2) m
  show "requests s2 = requests s + (j + k) \<and> refill s2 = s2 \<and> bind m f s = Done b (s2\<lparr>grants := grants s\<rparr>)"
    by (simp add: bind_def)
qed

lemma takes_seq: "takes j m \<Longrightarrow> takes k n \<Longrightarrow> takes (j + k) (seq m n)"
  unfolding seq_def by (rule takes_bind)

lemma takes_none:
  "takes 0 m \<Longrightarrow> (\<And>a. takes 0 (f a)) \<Longrightarrow> takes 0 (bind m f)" "takes 0 m \<Longrightarrow> takes 0 n \<Longrightarrow> takes 0 (seq m n)"
  using takes_bind [of 0 m 0 f] takes_seq [of 0 m 0 n] by simp_all

lemma takes_one:
  "takes 1 m \<Longrightarrow> (\<And>a. takes 0 (f a)) \<Longrightarrow> takes 1 (bind m f)"
  "takes 0 m \<Longrightarrow> (\<And>a. takes 1 (f a)) \<Longrightarrow> takes 1 (bind m f)" "takes 0 m \<Longrightarrow> takes 1 n \<Longrightarrow> takes 1 (seq m n)"
  using takes_bind [of 1 m 0 f] takes_bind [of 0 m 1 f] takes_seq [of 0 m 1 n] by simp_all

lemma takes_ret [takes_intros]: "takes 0 (ret a)"
  by (simp add: takes_def ret_def refill_def)

lemma takes_if [takes_intros]: "takes k m \<Longrightarrow> takes k n \<Longrightarrow> takes k (if b then m else n)"
  by simp

lemma takes_loads [takes_intros]: "takes 0 (load_word p)" "takes 0 (load_ptr p)"
  by (auto simp: takes_def load_word_def load_ptr_def reads_def split: option.splits)

lemma poke_refill: "poke p bs (refill s) = Some s' \<longleftrightarrow> (\<exists>t. poke p bs s = Some t \<and> s' = refill t \<and> requests t = requests s \<and> grants t = grants s)"
  by (auto simp: poke_def refill_def split: option.splits)

lemma takes_store_bytes [takes_intros]: "takes 0 (store_bytes p bs)"
  by (auto simp: takes_def store_bytes_def writes_def poke_refill split: option.splits)
     (metis refill_back)

lemma takes_stores [takes_intros]: "takes 0 (store_word p w)" "takes 0 (store_ptr p q)" "takes 0 (strcpy p x)"
  by (simp_all add: store_word_def store_ptr_def strcpy_def takes_intros)

lemma takes_malloc [takes_intros]: "takes 1 (malloc n)"
  by (auto simp: takes_def malloc_def Let_def granted_def refill_def)

lemma takes_realloc [takes_intros]: "takes 1 (realloc p n)"
  using takes_malloc [of n]
  by (auto simp: takes_def realloc_def Let_def granted_def refill_def split: ptr.splits base.splits option.splits if_splits)

lemma takes_dga [takes_intros]: "takes 1 (dga_new n t)" "takes 0 (dga_len p)" "takes 1 (dga_resize p n)" "takes 1 (dga_grow p n)"
proof -
  show new: "takes 1 (dga_new n t)"
    unfolding dga_new_def by (fast intro: takes_one takes_none takes_intros)
  show len: "takes 0 (dga_len p)"
    unfolding dga_len_def by (intro takes_intros)
  show resize: "takes 1 (dga_resize p n)" for n
    unfolding dga_resize_def Let_def by (fast intro: takes_one takes_none takes_intros)
  show "takes 1 (dga_grow p n)"
    unfolding dga_grow_def by (fast intro: takes_one len resize)
qed

section \<open>What a refused request leads to\<close>

lemma dga_new_refused:
  "\<not> grants s (requests s) \<Longrightarrow> dga_new n t s = Done (Ptr NoBase 24) (s\<lparr>requests := Suc (requests s)\<rparr>)"
  by (simp add: dga_new_def malloc_def prog_defs Let_def null_def)

lemma no_array:
  assumes "blocks s NoBase = None"
  shows "dga_grow (Ptr NoBase 24) k s = Undefined" "strcpy (Ptr NoBase 24) x s = Undefined"
  using assms by (simp_all add: dga_grow_def dga_len_def load_word_def strcpy_def store_bytes_def writes_def prog_defs
      peek_no_object poke_no_object)

lemma dga_grow_refused:
  assumes "\<not> grants s (requests s)" "dga_ok s p n t pl" "fits (n + 1) t"
  shows "\<exists>s'. dga_grow p 1 s = Done null s' \<and> is_dga s' p (n + 1) t pl \<and> untouched {pbase p} s s'"
proof -
  have "is_dga s p n t pl" using assms(2) by (simp add: dga_ok_def)
  then have "dga_len p s = Done n s" using runs_dga_len [of s p n t pl "\<lambda>a s'. a = n \<and> s' = s"] by (auto simp: runs_iff)
  moreover obtain s' where "dga_resize p (n + 1) s = Done null s'" "is_dga s' p (n + 1) t pl" "untouched {pbase p} s s'"
    using dga_resize_oom_breaks_length [OF assms(1,2) alloc_size_nonzero [OF assms(3)]] by blast
  ultimately show ?thesis by (simp add: dga_grow_def bind_def)
qed

text \<open>The array whose header says one element more than there is: the release of its elements reads past the end.\<close>

lemma elem_of_array:
  assumes "is_dga s p n 8 (ptr_bytes qs)"
  shows "load_ptr (ptr_add p (int (8 * i))) s = (if i < length qs then Done (qs ! i) s else Undefined)"
proof -
  obtain b cap where b: "p = Ptr (Blk b) 24" "length cap = 8" "blocks s (Blk b) = Some (dga_bytes n cap 8 (ptr_bytes qs))"
    using assms by (auto simp: is_dga_def)
  have "drop (24 + k) (dga_bytes n cap 8 (ptr_bytes qs)) = drop k (ptr_bytes qs)" for k
    using b(2) by (simp add: dga_bytes_def)
  then have "peek s (ptr_add p (int (8 * i))) 8 = (if i < length qs then Some (enc (VPtr (qs ! i))) else None)"
    using b ptr_bytes_nth [of i qs] by (auto simp: peek_def nat_add_distrib nat_mult_distrib)
  then show ?thesis by (simp add: load_ptr_def reads_def)
qed

lemma len_of_array: "is_dga s p n t pl \<Longrightarrow> dga_len p s = Done n s"
  using runs_dga_len [of s p n t pl "\<lambda>a s'. a = n \<and> s' = s"] by (auto simp: runs_iff)

lemma free_elems_past:
  "is_dga s p (of_nat (length (ds @ qs)) + 1) 8 (ptr_bytes (ds @ qs)) \<Longrightarrow> list_all2 (name_at s) ns qs \<Longrightarrow>
   distinct (map pbase (p # qs)) \<Longrightarrow> length (ds @ qs) < 2 ^ 56 \<Longrightarrow> length qs < k \<Longrightarrow>
   free_elems k p (of_nat (length ds)) s = Undefined"
proof (induction qs arbitrary: ds ns k s)
  case Nil
  then obtain k' where "k = Suc k'" by (cases k) auto
  moreover have "(of_nat (length ds) :: u64) < of_nat (length ds) + 1" "unat (of_nat (length ds) :: u64) = length ds"
    using Nil.prems(4) fits_names [of ds] by (simp_all add: word_less_nat_alt)
  ultimately show ?case
    using len_of_array [OF Nil.prems(1)] elem_of_array [of s p _ ds "length ds"] Nil.prems(1) by (simp add: bind_def)
next
  case (Cons q qs)
  then obtain k' where k: "k = Suc k'" "length qs < k'" by (cases k) auto
  obtain x ns' where ns: "name_at s x q" "list_all2 (name_at s) ns' qs"
    using Cons.prems(2) by (auto simp: list_all2_Cons2)
  let ?s1 = "s\<lparr>blocks := (blocks s)(pbase q := None)\<rparr>"
  have free: "dga_free q s = Done () ?s1"
    using runs_name_free [OF ns(1), of "\<lambda>_ s'. s' = ?s1"] by (auto simp: runs_iff)
  have "free_elems k' p (of_nat (length (ds @ [q]))) ?s1 = Undefined"
  proof (rule Cons.IH [OF _ _ _ _ k(2)])
    show "is_dga ?s1 p (of_nat (length ((ds @ [q]) @ qs)) + 1) 8 (ptr_bytes ((ds @ [q]) @ qs))"
      using Cons.prems(1,3) is_dga_cong [of ?s1 p s] by auto
    show "list_all2 (name_at ?s1) ns' qs"
      by (rule names_cong [OF ns(2)]) (use Cons.prems(3) in \<open>auto simp: image_iff\<close>)
  qed (use Cons.prems(3,4) in simp_all)
  moreover have "unat (of_nat (length ds) :: u64) = length ds"
    "(of_nat (length ds) :: u64) < of_nat (length (ds @ q # qs)) + 1"
    using Cons.prems(4) fits_names [of ds] fits_names [of "ds @ q # qs"] by (simp_all only: word_less_nat_alt) simp_all
  ultimately show ?case
    using len_of_array [OF Cons.prems(1)] elem_of_array [OF Cons.prems(1), of "length ds"] free
    by (simp add: k(1) bind_def seq_def add.commute)
qed

lemma free_past_end:
  assumes "names_at s p ns ps" "is_dga s' p (of_nat (length ns) + 1) 8 (ptr_bytes ps)" "untouched {pbase p} s s'"
    and "length ns < 2 ^ 56"
  shows "free_dir_content p s' = Undefined"
proof -
  note at = names_atD [OF assms(1)]
  have "list_all2 (name_at s') ns ps"
    by (rule names_cong [OF at(2)]) (use assms(3) at(3) in \<open>auto simp: untouched_def image_iff\<close>)
  then have "free_elems (Suc (unat (of_nat (length ns) + 1 :: u64))) p (of_nat (length ([] :: ptr list))) s' = Undefined"
    using assms(2,4) at fits_names [of ns] by (intro free_elems_past [where qs = ps and ns = ns]) simp_all
  then show ?thesis
    using len_of_array [OF assms(2)] by (simp add: free_dir_content_def bind_def seq_def del: free_elems.simps)
qed

section \<open>Listing a directory on a heap that runs out\<close>

lemma mem_ok_refill [simp]: "mem_ok (refill s) = mem_ok s" "mem_ok (s\<lparr>grants := g\<rparr>) = mem_ok s"
  by (simp_all add: mem_ok_def)

lemma healthy_refill: "mem_ok s \<Longrightarrow> healthy (refill s)"
  by (simp add: healthy_def never_oom_def)

lemma granted_simps [simp]: "granted 0 s" "granted 1 s \<longleftrightarrow> grants s (requests s)"
  "granted (Suc 0) s \<longleftrightarrow> grants s (requests s)"
  by (simp_all add: granted_def)

lemma granted_Suc: "granted (Suc k) s \<longleftrightarrow> grants s (requests s) \<and> (\<forall>i<k. grants s (Suc (requests s) + i))"
  unfolding granted_def by (auto simp: less_Suc_eq_0_disj)

lemma names_at_grants: "names_at (s\<lparr>grants := g\<rparr>) p ns ps \<longleftrightarrow> names_at s p ns ps"
  using names_at_cong [of s p ns ps "s\<lparr>grants := g\<rparr>"] names_at_cong [of "s\<lparr>grants := g\<rparr>" p ns ps s] by auto

text \<open>What the loop knows of the heap at the start of a turn.\<close>

definition at_turn :: "'e world \<Rightarrow> nat \<Rightarrow> ptr \<Rightarrow> string list \<Rightarrow> string list \<Rightarrow> bool" where
  "at_turn s n p ns xs \<longleftrightarrow> mem_ok s \<and> (\<exists>ps. names_at s p ns ps) \<and> dirs s n = Some xs \<and> name_room (ns @ visible xs)"

text \<open>The rest of a turn that has grown the array to \<open>p1\<close>, where its second request is granted as well.\<close>

definition appends :: "'e world \<Rightarrow> string list \<Rightarrow> string \<Rightarrow> ptr \<Rightarrow> 'e world \<Rightarrow> bool" where
  "appends s ns x p1 s1 \<longleftrightarrow> (\<exists>q s2 s3 s4 ps'. dga_new (strlen x + sizeof_char_const) 1 s1 = Done q s2 \<and> q \<noteq> null \<and>
       strcpy q x s2 = Done () s3 \<and> store_ptr (ptr_add p1 (int (8 * unat (of_nat (length ns) :: u64)))) q s3 = Done () s4 \<and>
       mem_ok s4 \<and> names_at s4 p1 (ns @ [x]) ps' \<and> dirs s4 = dirs s \<and> grants s4 = grants s \<and>
       requests s4 = Suc (Suc (requests s)))"

lemma append_granted:
  fixes s :: "'e world"
  assumes "mem_ok s" "names_at s p ns ps" "name_room (ns @ [x])" "grants s (requests s)"
  obtains p1 s1 where "dga_grow p 1 s = Done p1 s1" "p1 \<noteq> null" "grants s1 = grants s" "requests s1 = Suc (requests s)"
      "blocks s1 NoBase = None"
    "grants s (Suc (requests s)) \<longrightarrow> appends s ns x p1 s1"
proof -
  let ?s0 = "s\<lparr>blocks := clear_all (name_bases p ps) (blocks s)\<rparr>"
  have at: "names_at (refill s) p ns ps" using assms(2) by (simp add: refill_def names_at_grants)
  have ext: "extends ?s0 (name_bases p ps) (refill s)" by (simp add: extends_def untouched_def clear_all_def)
  obtain p1 u1 q u2 u3 u4 ps' where run: "dga_grow p 1 (refill s) = Done p1 u1" "p1 \<noteq> null"
      "dga_new (strlen x + sizeof_char_const) 1 u1 = Done q u2" "q \<noteq> null" "strcpy q x u2 = Done () u3"
      "store_ptr (ptr_add p1 (int (8 * unat (of_nat (length ns) :: u64)))) q u3 = Done () u4"
      "heap_ext (refill s) u4" "names_at u4 p1 (ns @ [x]) ps'"
    using runs_append_name [OF healthy_refill [OF assms(1)] at ext assms(3)] by (auto simp: runs_iff)
  let ?t = "\<lambda>u :: 'e world. u\<lparr>grants := grants s\<rparr>"
  note g1 = takesD [OF takes_dga(4) _ run(1), unfolded granted_simps, OF assms(4)]
  have u1: "refill (?t u1) = u1" using g1(2) by simp
  have no: "blocks (?t u1) NoBase = None"
  proof -
    have "runs (dga_grow p 1) (refill s) (\<lambda>_ s'. heap_ext (refill s) s')"
      by (rule runs_mono [OF dga.grow_one [OF healthy_refill [OF assms(1)] names_atD(1) [OF at]]])
        (use assms(3) fits_names [of ns] in \<open>auto simp: name_room_def\<close>)
    with run(1) have "mem_ok u1" by (simp add: runs_def heap_ext_def)
    then show ?thesis by (simp add: mem_ok_def)
  qed
  show thesis
  proof (rule that [of p1 "?t u1"], use g1 run(2) no in simp_all, rule impI)
    assume more: "grants s (Suc (requests s))"
    have "granted 1 (?t u1)" using more g1(1) by simp
    note g2 = takesD [OF takes_dga(1) this, unfolded u1, OF run(3)]
    have u2: "refill (?t u2) = u2" using g2(2) by simp
    note g3 = takesD [OF takes_stores(3), of "?t u2", unfolded u2, OF _ run(5)]
    have u3: "refill (?t u3) = u3" using g3(2) by simp
    note g4 = takesD [OF takes_stores(2), of "?t u3", unfolded u3, OF _ run(6)]
    have "dirs (?t u4) = dirs s" using run(7) heap_only_world(2) [of "refill s" u4] by (simp add: heap_ext_def refill_def)
    with g1 g2 g3 g4 run(4,7,8) show "appends s ns x p1 (?t u1)"
      unfolding appends_def by (intro exI [of _ q] exI [of _ "?t u2"] exI [of _ "?t u3"] exI [of _ "?t u4"] exI [of _ ps'])
        (auto simp: names_at_grants heap_ext_mem_ok)
  qed
qed

lemma dir_loop_hidden:
  "dirs s n = Some (x # xs) \<Longrightarrow> take 1 x = ''.'' \<Longrightarrow>
   dir_loop (Suc k) (Ptr (Ext n) 0) p i s = dir_loop k (Ptr (Ext n) 0) p i (s\<lparr>dirs := (dirs s)(n \<mapsto> xs)\<rparr>)"
  by (simp add: readdir_def dir_stream_def prog_defs)

lemma dir_loop_visible:
  "dirs s n = Some (x # xs) \<Longrightarrow> take 1 x \<noteq> ''.'' \<Longrightarrow>
   dir_loop (Suc k) (Ptr (Ext n) 0) p i s = dga_grow_or p 1 (dir_memfail p i) (\<lambda>names.
     bind (dga_new (strlen x + sizeof_char_const) 1) (\<lambda>name. if name = null then dir_memfail names i
       else seq (strcpy name x) (seq (store_ptr (ptr_add names (int (8 * unat i))) name) (dir_loop k (Ptr (Ext n) 0) names (i + 1)))))
     (s\<lparr>dirs := (dirs s)(n \<mapsto> xs)\<rparr>)"
  by (simp add: readdir_def dir_stream_def bind_def reads_def writes_def modify_def seq_def ret_def gets_def)

text \<open>Without an array the first entry that counts ends the loop.\<close>

lemma dir_loop_no_array:
  "blocks s NoBase = None \<Longrightarrow> dirs s n = Some xs \<Longrightarrow> visible xs \<noteq> [] \<Longrightarrow> length xs < k \<Longrightarrow>
   dir_loop k (Ptr (Ext n) 0) (Ptr NoBase 24) i s = Undefined"
proof (induction xs arbitrary: k s)
  case (Cons x xs)
  then obtain k' where k: "k = Suc k'" "length xs < k'" by (cases k) auto
  show ?case
  proof (cases "take 1 x = ''.''")
    case True
    then show ?thesis
      using Cons.IH [of "s\<lparr>dirs := (dirs s)(n \<mapsto> xs)\<rparr>" k'] Cons.prems k(2)
      unfolding k(1) dir_loop_hidden [OF Cons.prems(2) True] by simp
  next
    case False
    show ?thesis
      unfolding k(1) dir_loop_visible [OF Cons.prems(2) False] dga_grow_or_def
      using no_array(1) [of "s\<lparr>dirs := (dirs s)(n \<mapsto> xs)\<rparr>" 1] Cons.prems(1) by (simp add: bind_def)
  qed
qed simp

lemma memfail_undefined:
  assumes "names_at s p ns ps" "is_dga s' p (of_nat (length ns) + 1) 8 (ptr_bytes ps)" "untouched {pbase p} s s'"
    and "length ns < 2 ^ 56"
  shows "dir_memfail p i s' = Undefined"
proof -
  let ?s = "s'\<lparr>err_code := NOT_ENOUGH_MEMORY\<rparr>"
  have "free_dir_content p ?s = Undefined"
    by (rule free_past_end [OF assms(1) _ _ assms(4)])
      (use assms(2,3) is_dga_cong [of ?s p s'] in \<open>simp_all add: untouched_def\<close>)
  then show ?thesis by (simp add: dir_memfail_def errm_error_def seq_def bind_def modify_def)
qed

lemma dir_loop_refused:
  "mem_ok s \<Longrightarrow> names_at s p ns ps \<Longrightarrow> dirs s n = Some xs \<Longrightarrow> name_room (ns @ visible xs) \<Longrightarrow> length xs < k \<Longrightarrow>
   f < 2 * length (visible xs) \<Longrightarrow> granted f s \<Longrightarrow> \<not> grants s (requests s + f) \<Longrightarrow>
   dir_loop k (Ptr (Ext n) 0) p (of_nat (length ns)) s = Undefined"
proof (induction xs arbitrary: k s p ns ps f)
  case (Cons x xs)
  then obtain k' where k: "k = Suc k'" "length xs < k'" by (cases k) auto
  let ?s = "s\<lparr>dirs := (dirs s)(n \<mapsto> xs)\<rparr>"
  have s: "mem_ok ?s" "names_at ?s p ns ps"
    using Cons.prems(1,2) names_at_cong [of s p ns ps ?s] by (simp_all add: mem_ok_def)
  have len: "length ns < 2 ^ 56" using Cons.prems(4) by (simp add: name_room_def)
  show ?case
  proof (cases "take 1 x = ''.''")
    case True
    have "dir_loop k' (Ptr (Ext n) 0) p (of_nat (length ns)) ?s = Undefined"
      by (rule Cons.IH [OF s]) (use Cons.prems(4,6-8) True k(2) in \<open>simp_all add: granted_def\<close>)
    then show ?thesis unfolding k(1) dir_loop_hidden [OF Cons.prems(3) True] .
  next
    case False
    note loop = dir_loop_visible [OF Cons.prems(3) False, of k' p "of_nat (length ns)", folded k(1)] dga_grow_or_def
    have room: "name_room (ns @ [x])" using Cons.prems(4) False by (simp add: name_room_def)
    show ?thesis
    proof (cases f)
      case 0
      then have "\<not> grants ?s (requests ?s)" using Cons.prems(8) by simp
      from dga_grow_refused [OF this names_atD(1) [OF s(2)]] obtain s' where "dga_grow p 1 ?s = Done null s'"
        "is_dga s' p (of_nat (length ns) + 1) 8 (ptr_bytes ps)" "untouched {pbase p} ?s s'"
        using fits_names [OF len] by blast
      then show ?thesis
        unfolding loop using memfail_undefined [OF s(2) _ _ len] by (simp add: bind_def)
    next
      case (Suc g)
      have now: "grants ?s (requests ?s)" using Cons.prems(7) Suc by (simp add: granted_Suc)
      from append_granted [OF s room now] obtain p1 s1 where s1: "dga_grow p 1 ?s = Done p1 s1" "p1 \<noteq> null"
        "grants s1 = grants s" "requests s1 = Suc (requests s)" "blocks s1 NoBase = None"
        and more: "grants ?s (Suc (requests ?s)) \<longrightarrow> appends ?s ns x p1 s1"
        by (rule append_granted [OF s room now]) simp_all
      show ?thesis
      proof (cases g)
        case 0
        then have "\<not> grants s1 (requests s1)" using Cons.prems(8) Suc s1(3,4) by simp
        then show ?thesis
          unfolding loop using s1 no_array(2) [of "s1\<lparr>requests := Suc (requests s1)\<rparr>" x]
          by (simp add: bind_def seq_def dga_new_refused null_def)
      next
        case (Suc h)
        then have "grants ?s (Suc (requests ?s))" using Cons.prems(7) \<open>f = Suc g\<close> by (simp add: granted_Suc) auto
        with more have "appends ?s ns x p1 s1" by simp
        then obtain q s2 s3 s4 ps' where s4: "dga_new (strlen x + sizeof_char_const) 1 s1 = Done q s2" "q \<noteq> null"
          "strcpy q x s2 = Done () s3" "store_ptr (ptr_add p1 (int (8 * unat (of_nat (length ns) :: u64)))) q s3 = Done () s4"
          "mem_ok s4" "names_at s4 p1 (ns @ [x]) ps'" "dirs s4 n = Some xs" "grants s4 = grants s" "requests s4 = Suc (Suc (requests s))"
          by (auto simp: appends_def)
        have "granted (Suc (Suc h)) s" using Cons.prems(7) \<open>f = Suc g\<close> Suc by simp
        then have rest: "granted h s4"
          unfolding granted_def s4(8,9) by (metis Suc_less_eq add_Suc add_Suc_right)
        have "dir_loop k' (Ptr (Ext n) 0) p1 (of_nat (length (ns @ [x]))) s4 = Undefined"
          by (rule Cons.IH [OF s4(5-7) _ _ _ rest])
            (use Cons.prems(4,6,8) False \<open>f = Suc g\<close> Suc s4(8,9) k(2) in auto)
        then show ?thesis
          unfolding loop using s1(1,2) s4(1-4) by (simp add: bind_def seq_def add.commute)
      qed
    qed
  qed
qed simp

section \<open>The function\<close>

lemma unwinds_error:
  assumes "inside s [] [] s1" "R r" "err_code s1 = e" "blocks s1 = blocks s" "proc_step s s1"
  shows "unwinds prom_call s (\<lambda>r s'. R r \<and> err_code s' = e \<and> blocks s' = blocks s \<and> call_step s s') r s1"
  by (rule unwinds_none [OF assms(1)]) (use assms in \<open>simp add: call_step_def balanced_with_stack\<close>)

lemma dir_content_no_path:
  assumes "stack_ok s" "curr s < 8" "mem_ok s" "os_wordexp P (env s) path = Some (x # ws)"
    and "c_string x" "Suc (length x) < 2 ^ 64" "length (x # ws) < 2 ^ 64" "\<not> grants s (requests s)"
  shows "runs (dir_content P path) s (\<lambda>r s'. r = (null, None) \<and> err_code s' = NOT_ENOUGH_MEMORY \<and>
    blocks s' = blocks s \<and> call_step s s')"
proof -
  have open_dir: "runs (open_dir P path) s0 (\<lambda>r s'. r = null \<and> err_code s' = NOT_ENOUGH_MEMORY \<and> blocks s' = blocks s0 \<and>
      call_step s0 s')" if s0: "stack_ok s0" "curr s0 < 9" "mem_ok s0" "env s0 = env s" "\<not> grants s0 (requests s0)" for s0 :: "'a world"
  proof -
    have room: "curr s0 < 11" using s0(2) by simp
    have in0: "inside s0 [] [] (entered s0)" by (rule inside_entered [OF s0(1) room])
    have "runs (expand P path) (entered s0) (\<lambda>p s1. p = null \<and> err_code s1 = NOT_ENOUGH_MEMORY \<and>
        blocks s1 = blocks s0 \<and> called (entered s0) s1)"
      by (rule runs_mono [OF runs_expand [OF insideD(1) [OF in0] _ _ _ assms(5-7)]])
        (use s0 assms(4) in \<open>auto simp: string_result_def\<close>)
    then show ?thesis
      unfolding open_dir_def
      by (intro prom.edf_rule [OF s0(1) room])
        (auto simp: runs_bind [of "expand P path"] runs_on_error called_def quiet_def intro!: unwinds_error inside_balanced [OF in0] elim!: runs_mono)
  qed
  have room: "curr s < 11" using assms(2) by simp
  have in0: "inside s [] [] (entered s)" by (rule inside_entered [OF assms(1) room])
  have "runs (open_dir P path) (entered s) (\<lambda>r s'. r = null \<and> err_code s' = NOT_ENOUGH_MEMORY \<and> blocks s' = blocks s \<and>
      balanced (entered s) s' \<and> proc_step s s')"
    using open_dir [OF insideD(1) [OF in0]] assms(2,3,8) by (simp add: call_step_def)
  then show ?thesis
    unfolding dir_content_def
    by (intro prom.edf_rule [OF assms(1) room])
      (auto simp: runs_bind [of "open_dir P path"] runs_on_error intro!: unwinds_error inside_balanced [OF in0] elim!: runs_mono)
qed

lemma dir_content_undefined:
  assumes "stack_ok s" "curr s < 8" "mem_ok s" "os_wordexp P (env s) path = Some (x # ws)"
    and "c_string x" "Suc (length x) < 2 ^ 64" "length (x # ws) < 2 ^ 64"
    and "os_opendir P (env s) x = Inr names" "name_room (visible names)" "visible names \<noteq> []"
    and "f < 2 * length (visible names) + 1" "granted (Suc f) s" "\<not> grants s (Suc (requests s + f))"
  shows "dir_content P path s = Undefined"
proof -
  let ?n = "next_ext s"
  have room: "curr s < 11" using assms(2) by simp
  have in0: "inside s [] [] (entered s)" by (rule inside_entered [OF assms(1) room])
  have "runs (open_dir P path) (entered s) (\<lambda>dp s1. balanced (entered s) s1 \<and>
      opened (entered s) (os_opendir P (env (entered s)) x) dp s1 \<and>
      err_code s1 = (case os_opendir P (env (entered s)) x of Inl e \<Rightarrow> errno_error e | Inr _ \<Rightarrow> No_Error) \<and>
      requests s1 = Suc (requests (entered s)))"
    by (rule runs_open_dir [OF insideD(1) [OF in0] _ _ _ _ assms(5,6,7)]) (use assms(2,3,4,12) in \<open>simp_all add: granted_Suc\<close>)
  then obtain s1 where s1: "open_dir P path (entered s) = Done (Ptr (Ext ?n) 0) s1" "balanced (entered s) s1" "proc_step s s1"
      "dirs s1 = (dirs s)(?n \<mapsto> names)" "err_code s1 = No_Error" "requests s1 = Suc (requests s)"
    using assms(8) by (auto simp: runs_iff opened_def)
  have in1: "inside s [] [] s1" by (rule inside_balanced [OF in0 s1(2)])
  obtain s2 where s2: "defer_call H_close_dir (Ptr (Ext ?n) 0) s1 = Done () s2" "restacked s1 s2"
    using inside_defer [OF in1, of H_close_dir "Ptr (Ext ?n) 0"] by (auto simp: runs_iff)
  have mem: "mem_ok s2" "dirs s2 ?n = Some names" "grants s2 = grants s" "requests s2 = Suc (requests s)"
    using s1(3,4,6) restackedD [OF s2(2)] restacked_world(2) [OF s2(2)] by (auto simp: proc_step_def mem_ok_def)
  let ?rest = "bind (dga_new 0 8) (\<lambda>names. bind (gets (\<lambda>s. entries_left s (Ptr (Ext ?n) 0)))
      (\<lambda>n. dir_loop (Suc n) (Ptr (Ext ?n) 0) names 0))"
  have "?rest s2 = Undefined"
  proof (cases f)
    case 0
    let ?s3 = "s2\<lparr>requests := Suc (requests s2)\<rparr>"
    have "dga_new 0 8 s2 = Done (Ptr NoBase 24) ?s3" using assms(13) mem(3,4) 0 by (intro dga_new_refused) simp
    moreover have "dir_loop (Suc (length names)) (Ptr (Ext ?n) 0) (Ptr NoBase 24) 0 ?s3 = Undefined"
      by (rule dir_loop_no_array [OF _ _ assms(10)]) (use mem(1,2) in \<open>simp_all add: mem_ok_def\<close>)
    ultimately show ?thesis using mem(2) by (simp add: bind_def gets_def entries_left_def dir_stream_def del: dir_loop.simps)
  next
    case (Suc g)
    then have now: "granted 1 s2" using assms(12) mem(3,4) by (auto simp: granted_Suc)
    have "runs (dga_new 0 8) (refill s2) (\<lambda>p s3. heap_ext (refill s2) s3 \<and> names_at s3 p [] [])"
      by (rule runs_mono [OF dga.make_spec [OF healthy_refill [OF mem(1)]]]) (simp_all add: fits_def names_at_def)
    then obtain p u3 where u3: "dga_new 0 8 (refill s2) = Done p u3" "heap_ext (refill s2) u3" "names_at u3 p [] []"
      by (auto simp: runs_iff)
    let ?s3 = "u3\<lparr>grants := grants s2\<rparr>"
    note new = takesD [OF takes_dga(1) now u3(1)]
    have d3: "dirs ?s3 ?n = Some names" using u3(2) mem(2) heap_only_world(2) [of "refill s2" u3] by (simp add: heap_ext_def refill_def)
    have "dir_loop (Suc (length names)) (Ptr (Ext ?n) 0) p (of_nat (length ([] :: string list))) ?s3 = Undefined"
    proof (rule dir_loop_refused [where f = g])
      have "granted (Suc (Suc g)) s" using assms(12) Suc by simp
      then show "granted g ?s3"
        unfolding granted_def by (simp add: new(1) mem(3,4)) (metis Suc_less_eq add_Suc add_Suc_right)
    qed (use u3(2,3) d3 new(1) mem assms(9,11,13) Suc heap_ext_mem_ok in \<open>auto simp: names_at_grants\<close>)
    then show ?thesis
      using new(3) d3 by (simp add: bind_def gets_def entries_left_def dir_stream_def del: dir_loop.simps)
  qed
  then have "bind (open_dir P path) (\<lambda>dp. on_error_return (null, None)
      (seq (defer_call H_close_dir dp) (bind (dga_new 0 8) (\<lambda>names.
       bind (gets (\<lambda>s. entries_left s dp)) (\<lambda>n. dir_loop (Suc n) dp names 0))))) (entered s) = Undefined"
    using s1(5) by (simp add: bind_Done [where m = "open_dir P path", OF s1(1)] on_error_cases
        seq_Done [where m = "defer_call H_close_dir (Ptr (Ext ?n) 0)", OF s2(1)] del: dir_loop.simps)
  then show ?thesis
    unfolding dir_content_def by (rule edf_undefined [OF room])
qed

section \<open>Properties\<close>

lemma refused_at:
  assumes "\<forall>j<i. grants s (requests s + j)" "\<not> grants s (requests s + i)" "i \<noteq> 0"
  obtains f where "i = Suc f" "granted (Suc f) s" "\<not> grants s (Suc (requests s + f))"
  using assms by (cases i) (auto simp: granted_def)

lemma installed_mods_no_path:
  assumes "stack_ok s" "curr s < 7" "mem_ok s" "os_wordexp P (env s) mp = Some (x # ws)"
    and "c_string x" "Suc (length x) < 2 ^ 64" "length (x # ws) < 2 ^ 64" "\<not> grants s (requests s)"
  shows "runs (installed_mods P mp) s (\<lambda>r s'. r = (null, None) \<and> err_code s' = NOT_ENOUGH_MEMORY \<and>
    blocks s' = blocks s \<and> call_step s s')"
proof -
  have room: "curr s < 11" using assms(2) by simp
  have in0: "inside s [] [] (entered s)" by (rule inside_entered [OF assms(1) room])
  have "runs (dir_content P mp) (entered s) (\<lambda>r s'. r = (null, None) \<and> err_code s' = NOT_ENOUGH_MEMORY \<and>
      blocks s' = blocks s \<and> balanced (entered s) s' \<and> proc_step s s')"
    by (rule runs_mono [OF dir_content_no_path [OF insideD(1) [OF in0] _ _ _ assms(5-7)]])
      (use assms(2,3,4,8) in \<open>simp_all add: call_step_def\<close>)
  then show ?thesis
    unfolding installed_mods_def mod_names_def
    by (intro prom.edf_rule [OF assms(1) room])
      (auto simp: runs_bind [of "dir_content P mp"] runs_on_error intro!: unwinds_error inside_balanced [OF in0] elim!: runs_mono)
qed

lemma commands_undefined:
  assumes "curr s < 11" "dir_content P modules_path (entered s) = Undefined"
    and "dir_content P modules_path (s\<lparr>err_code := No_Error\<rparr>) = Undefined"
  shows "cmd_arg_list P argv s = Undefined"
proof -
  have "installed_mods P modules_path s = Undefined"
    unfolding installed_mods_def mod_names_def by (intro edf_undefined [OF assms(1)] bind_undefined assms(2))
  moreover have "clean_ul_mod_names P modules_path s = Undefined"
    using assms(3) by (simp add: clean_ul_mod_names_def mod_names_def errm_clear_def seq_def bind_def modify_def)
  ultimately show ?thesis by (simp add: cmd_arg_list_def list_modules_def list_clean_def bind_undefined)
qed

lemma commands_no_path:
  assumes "stack_ok s" "curr s < 7" "mem_ok s" "os_wordexp P (env s) modules_path = Some (x # ws)"
    and "c_string x" "Suc (length x) < 2 ^ 64" "length (x # ws) < 2 ^ 64" "\<not> grants s (requests s)"
  shows "runs (cmd_arg_list P argv) s (\<lambda>r s'. r = (if ''--clean'' \<in> set argv then - 1 else 1) \<and>
    err_code s' = NOT_ENOUGH_MEMORY \<and> blocks s' = blocks s \<and> call_step s s')"
proof -
  let ?s = "s\<lparr>err_code := No_Error\<rparr>"
  have "runs (list_modules P) s (\<lambda>r s'. r = 1 \<and> err_code s' = NOT_ENOUGH_MEMORY \<and> blocks s' = blocks s \<and> call_step s s')"
    unfolding list_modules_def runs_bind [of "installed_mods _ _"]
    by (rule runs_mono [OF installed_mods_no_path [OF assms]]) (simp add: runs_ret)
  moreover have "runs (dir_content P modules_path) ?s (\<lambda>r s'. r = (null, None) \<and> err_code s' = NOT_ENOUGH_MEMORY \<and>
      blocks s' = blocks s \<and> call_step s s')"
    by (rule runs_mono [OF dir_content_no_path [OF _ _ _ _ assms(5-7)]])
      (use assms(1-4,8) stack_cong [of ?s s] in \<open>auto simp: call_step_def balanced_def defers_ok_def proc_step_def\<close>)
  then have "runs (list_clean P) s (\<lambda>r s'. r = - 1 \<and> err_code s' = NOT_ENOUGH_MEMORY \<and> blocks s' = blocks s \<and> call_step s s')"
    by (auto simp: list_clean_def clean_ul_mod_names_def mod_names_def errm_clear_def runs_simps elim!: runs_mono)
  ultimately show ?thesis by (auto simp: cmd_arg_list_def list_ex_iff)
qed

text \<open>C29: Listing the modules directory takes one request of memory for the path, one for the array and two for each
  visible name. Where the first of them is refused, the list command and its \<open>--clean\<close> fail with \<open>NOT_ENOUGH_MEMORY\<close>
  and leave the heap as it was; where any later one is, each of them is undefined behaviour: the failure of a new
  array is not seen, and that of a growing one is handled by releasing one name more than there is.\<close>

theorem list_out_of_memory:
  assumes "stack_ok s" "curr s < 7" "mem_ok s" "os_wordexp P (env s) modules_path = Some (x # ws)"
    and "c_string x" "Suc (length x) < 2 ^ 64" "length (x # ws) < 2 ^ 64"
    and "os_opendir P (env s) x = Inr names" "name_room (visible names)" "visible names \<noteq> []"
    and "i < 2 + 2 * length (visible names)" "\<forall>j<i. grants s (requests s + j)" "\<not> grants s (requests s + i)"
  shows "if i = 0 then runs (cmd_arg_list P argv) s (\<lambda>r s'. r = (if ''--clean'' \<in> set argv then - 1 else 1) \<and>
      err_code s' = NOT_ENOUGH_MEMORY \<and> blocks s' = blocks s \<and> stdout_of s' = stdout_of s \<and> balanced s s')
    else cmd_arg_list P argv s = Undefined"
proof (cases "i = 0")
  case True
  have "runs (cmd_arg_list P argv) s (\<lambda>r s'. r = (if ''--clean'' \<in> set argv then - 1 else 1) \<and>
      err_code s' = NOT_ENOUGH_MEMORY \<and> blocks s' = blocks s \<and> stdout_of s' = stdout_of s \<and> balanced s s')"
    by (rule runs_mono [OF commands_no_path [OF assms(1-7)]])
      (use assms(13) True in \<open>auto simp: call_step_def proc_step_def\<close>)
  with True show ?thesis by simp
next
  case False
  obtain f where f: "i = Suc f" "granted (Suc f) s" "\<not> grants s (Suc (requests s + f))"
    by (rule refused_at [OF assms(12,13) False])
  have room: "curr s < 11" using assms(2) by simp
  have undefined: "dir_content P modules_path s1 = Undefined"
    if "stack_ok s1" "curr s1 < 8" "mem_ok s1" "env s1 = env s" "grants s1 = grants s" "requests s1 = requests s" for s1
    by (rule dir_content_undefined [OF that(1-3) _ assms(5-7) _ assms(9,10)])
      (use that(4-6) f assms(4,8,11) in \<open>auto simp: granted_def\<close>)
  have "cmd_arg_list P argv s = Undefined"
    by (rule commands_undefined [OF room]; rule undefined)
      (use assms(1-3) stack_ok_entered [OF assms(1) room] stack_cong [of "s\<lparr>err_code := No_Error\<rparr>" s] in \<open>simp_all add: mem_ok_def\<close>)
  with False show ?thesis by simp
qed

text \<open>A heap that grants the first \<open>n\<close> requests.\<close>

definition short_of :: "nat \<Rightarrow> string list world" where
  "short_of n = (start_at [])\<lparr>grants := (\<lambda>k. k < n)\<rparr>"

theorem list_out_of_memory_witness:
  "runs (cmd_arg_list half_posix [''list'']) (short_of 0) (\<lambda>r s'. r = 1 \<and> err_code s' = NOT_ENOUGH_MEMORY) \<and>
   cmd_arg_list half_posix [''list''] (short_of 1) = Undefined \<and>
   cmd_arg_list half_posix [''list'', ''--clean''] (short_of 5) = Undefined"
proof -
  have path: "c_string modules_path" "Suc (length modules_path) < 2 ^ 64" "length [modules_path] < 2 ^ 64"
    by (simp_all add: modules_path_def c_string_def)
  have room: "name_room (visible [''.'', ''a.so'', ''b.so''])" by (simp add: name_room_def c_string_def)
  have s: "stack_ok (short_of n)" "curr (short_of n) < 7" "mem_ok (short_of n)"
    "os_wordexp half_posix (env (short_of n)) modules_path = Some (modules_path # [])"
    "os_opendir half_posix (env (short_of n)) modules_path = Inr [''.'', ''a.so'', ''b.so'']"
    "grants (short_of n) = (\<lambda>k. k < n)" "requests (short_of n) = 0" for n
    using start_at_ok(1,4) [of "[] :: string list"] stack_cong [of "short_of n" "start_at []"]
    by (simp_all add: short_of_def half_posix_def start_at_def mem_ok_def)
  note out = list_out_of_memory [OF s(1-4) path s(5) room]
  show ?thesis
    using out [of 0 0 "[''list'']"] out [of 1 1 "[''list'']"] out [of 5 5 "[''list'', ''--clean'']"]
    by (auto simp: s(6,7) elim!: runs_mono)
qed

end
