(* ===== verification/Scarce.thy ===== *)
theory Scarce
  imports Low_Memory
begin

text \<open>
  \<open>list --clean\<close> where a single request for memory is refused. \<open>thrifty\<close> carries runs of code whose number of requests depends on
  its data over from a heap that never runs out.
\<close>

section \<open>Code that only sees the requests it makes\<close>

text \<open>Where \<open>m\<close> returns on an inexhaustible heap, it does the same on any heap that grants the requests it made there.\<close>

definition thrifty :: "('a, 'z proc_scheme) prog \<Rightarrow> bool" where
  "thrifty m \<longleftrightarrow> (\<forall>s a u. m (refill s) = Done a u \<longrightarrow> requests s \<le> requests u \<and> refill u = u \<and>
     (granted (requests u - requests s) s \<longrightarrow> m s = Done a (u\<lparr>grants := grants s\<rparr>)))"

named_theorems thrifty_intros

lemma thriftyD:
  assumes "thrifty m" "m (refill s) = Done a u"
  shows "requests s \<le> requests u" "refill u = u" "granted (requests u - requests s) s \<Longrightarrow> m s = Done a (u\<lparr>grants := grants s\<rparr>)"
  using assms unfolding thrifty_def by blast+

lemma granted_refill [simp]: "granted k (refill s)"
  by (simp add: granted_def)

lemma thrifty_takes: "takes k m \<Longrightarrow> thrifty m"
  unfolding thrifty_def
proof (intro allI impI)
  fix s a u assume m: "takes k m" "m (refill s) = Done a u"
  from takesD [OF m(1), of "refill s" a u] m(2) have u: "requests u = requests s + k" "refill u = u" by simp_all
  with takesD(3) [OF m(1) _ m(2)]
  show "requests s \<le> requests u \<and> refill u = u \<and> (granted (requests u - requests s) s \<longrightarrow> m s = Done a (u\<lparr>grants := grants s\<rparr>))"
    by simp
qed

lemma granted_part: "granted k s \<Longrightarrow> j \<le> k \<Longrightarrow> granted j s"
  by (simp add: granted_def)

lemma thrifty_bind [thrifty_intros]:
  fixes m :: "('a, 'z proc_scheme) prog"
  assumes "thrifty m" "\<And>a. thrifty (f a)"
  shows "thrifty (bind m f)"
  unfolding thrifty_def
proof (intro allI impI)
  fix s b v assume "bind m f (refill s) = Done b v"
  then obtain a u where u: "m (refill s) = Done a u" "f a u = Done b v"
    by (auto simp: bind_def split: outcome.splits)
  note m = thriftyD [OF assms(1) u(1)]
  have fa: "f a (refill u) = Done b v" using u(2) m(2) by simp
  note f = thriftyD [OF assms(2) fa]
  let ?t = "u\<lparr>grants := grants s\<rparr>"
  have "bind m f s = Done b (v\<lparr>grants := grants s\<rparr>)" if g: "granted (requests v - requests s) s"
  proof -
    have "m s = Done a ?t" by (rule m(3)) (use g f(1) m(1) in \<open>auto intro: granted_part\<close>)
    moreover have "granted (requests v - requests ?t) ?t"
      unfolding granted_def
    proof (intro allI impI)
      fix i assume "i < requests v - requests ?t"
      then have "grants s (requests s + (requests u - requests s + i))"
        using g f(1) m(1) unfolding granted_def by (intro mp [OF spec [OF g [unfolded granted_def]]]) simp
      then show "grants ?t (requests ?t + i)" using m(1) by simp
    qed
    moreover have "f a (refill ?t) = Done b v" using fa by simp
    ultimately show ?thesis using thriftyD(3) [OF assms(2), of a ?t b v] by (simp add: bind_def)
  qed
  with m(1) f(1,2) show "requests s \<le> requests v \<and> refill v = v \<and>
      (granted (requests v - requests s) s \<longrightarrow> bind m f s = Done b (v\<lparr>grants := grants s\<rparr>))" by simp
qed

lemma thrifty_seq [thrifty_intros]: "thrifty m \<Longrightarrow> thrifty n \<Longrightarrow> thrifty (seq m n)"
  by (simp add: seq_def thrifty_bind)

lemma thrifty_cases [thrifty_intros]:
  "thrifty m \<Longrightarrow> thrifty n \<Longrightarrow> thrifty (if b then m else n)"
  "thrifty m \<Longrightarrow> (\<And>a. thrifty (f a)) \<Longrightarrow> thrifty (case x of None \<Rightarrow> m | Some a \<Rightarrow> f a)"
  by (simp_all split: option.split)

lemma thrifty_never [thrifty_intros]: "thrifty undefined_prog" "thrifty abort_prog" "thrifty (\<lambda>s. OutOfFuel)"
  by (simp_all add: thrifty_def undefined_prog_def abort_prog_def)

text \<open>Code that does not look at the allocator.\<close>

lemma thrifty_gets [thrifty_intros]: "(\<And>s. f (refill s) = f s) \<Longrightarrow> thrifty (gets f)"
  by (auto simp: thrifty_def gets_def)

lemma thrifty_reads [thrifty_intros]: "(\<And>s. f (refill s) = f s) \<Longrightarrow> thrifty (reads f)"
  by (auto simp: thrifty_def reads_def split: option.splits)

lemma thrifty_modify [thrifty_intros]:
  assumes "\<And>s g. f (s\<lparr>grants := g\<rparr>) = (f s)\<lparr>grants := g\<rparr>" "\<And>s. requests (f s) = requests s"
  shows "thrifty (modify f)"
proof -
  have "f (refill s) = refill (f s)" for s by (simp add: refill_def assms(1))
  moreover have "(f s)\<lparr>grants := grants s\<rparr> = f s" for s using assms(1) [where s = s and g = "grants s"] by simp
  ultimately show ?thesis using assms(2) by (auto simp: thrifty_def modify_def refill_def)
qed

lemma thrifty_basic [thrifty_intros]:
  "thrifty (ret a)" "thrifty (load_word p)" "thrifty (load_ptr p)" "thrifty (store_bytes p bs)" "thrifty (store_word p w)"
  "thrifty (store_ptr p q)" "thrifty (strcpy p x)" "thrifty (malloc n)" "thrifty (realloc p n)" "thrifty (dga_new n t)"
  "thrifty (dga_len p)" "thrifty (dga_resize p n)" "thrifty (dga_grow p n)"
  by (rule thrifty_takes, rule takes_intros)+

lemma thrifty_free [thrifty_intros]: "thrifty (free p)"
  by (cases p rule: ptr.exhaust, cases "pbase p")
    (auto simp: thrifty_def free_def refill_def split: base.splits if_splits)

lemma refill_world [simp]:
  fixes s :: "'e world"
  shows "env (refill s) = env s" "dirs (refill s) = dirs s" "libs (refill s) = libs s" "next_ext (refill s) = next_ext s"
    "dl_error (refill s) = dl_error s" "frames (refill s) = frames s" "curr (refill s) = curr s" "err_code (refill s) = err_code s"
    "errno_of (refill s) = errno_of s" "stdout_of (refill s) = stdout_of s" "stderr_of (refill s) = stderr_of s"
  by (simp_all add: refill_def)

lemma refill_errm [simp]:
  fixes s :: "('h, 'z) errm_state_scheme"
  shows "frames (refill s) = frames s" "curr (refill s) = curr s" "err_code (refill s) = err_code s" "curr_index (refill s) = curr_index s"
    "errno_of (refill s) = errno_of s"
  by (simp_all add: refill_def curr_index_def)

lemma thrifty_errm [thrifty_intros]:
  "thrifty (errm_error c)" "thrifty errm_clear" "thrifty errm_error_code" "thrifty (print_err x)" "thrifty errm_error_from_errno"
  "thrifty defer_push" "thrifty defer_pop" "thrifty (defer_call h p)" "thrifty (static_defer h n bs)"
  unfolding errm_error_def errm_clear_def errm_error_code_def print_err_def errm_error_from_errno_def defer_push_def defer_pop_def
    defer_call_def static_defer_def set_frame_def
  by (intro thrifty_intros; simp add: fun_eq_iff)+

lemma thrifty_on_error [thrifty_intros]: "thrifty k \<Longrightarrow> thrifty (on_error_return a k)"
  unfolding on_error_return_def by (intro thrifty_intros)

lemma thrifty_run_static [thrifty_intros]: "(\<And>h a. thrifty (call h a)) \<Longrightarrow> thrifty (run_static k call i)"
proof (induction k)
  case (Suc k)
  show ?case
    unfolding run_static.simps Let_def set_frame_def
    by (intro thrifty_intros Suc; simp)
qed (simp add: thrifty_intros)

lemma thrifty_run_dyn [thrifty_intros]: "(\<And>h a. thrifty (call h a)) \<Longrightarrow> thrifty (run_dyn k call i)"
proof (induction k)
  case (Suc k)
  show ?case
    unfolding run_dyn.simps Let_def set_frame_def
    by (intro thrifty_intros Suc; simp)
qed (simp add: thrifty_intros)

lemma thrifty_edf [thrifty_intros]: "(\<And>h a. thrifty (call h a)) \<Longrightarrow> thrifty m \<Longrightarrow> thrifty (edf call name loc m)"
  unfolding edf_def run_defers_def set_frame_def by (intro thrifty_intros; simp)

lemma str_of_ptr_refill [simp]: "str_of_ptr (refill s) p = str_of_ptr s p"
  by (simp add: str_of_ptr_def)

lemma dir_stream_refill [simp]: "dir_stream (refill s) p = dir_stream s p" "entries_left (refill s) p = entries_left s p"
proof -
  show stream: "dir_stream (refill s) p = dir_stream s p" by (simp add: dir_stream_def split: ptr.split base.split)
  show "entries_left (refill s) p = entries_left s p" by (simp add: entries_left_def stream)
qed

lemma thrifty_load_str [thrifty_intros]: "thrifty (load_str p)"
  unfolding load_str_def by (intro thrifty_intros) simp

lemma thrifty_dga_free [thrifty_intros]: "thrifty (dga_free p)"
  unfolding dga_free_def by (intro thrifty_intros)

lemma thrifty_free_elems [thrifty_intros]: "thrifty (free_elems k p i)"
  by (induction k arbitrary: i) (auto intro!: thrifty_intros)

lemma thrifty_free_words [thrifty_intros]: "thrifty (free_words k v)"
  by (induction k arbitrary: v) (auto intro!: thrifty_intros)

lemma thrifty_prom_call [thrifty_intros]: "thrifty (prom_call h a)"
  by (cases "(h, a)" rule: prom_call.cases)
    (auto simp: free_mod_names_def free_dir_content_def close_dir_def closedir_def wordfree_def split: option.split intro!: thrifty_intros)

section \<open>Listing a directory\<close>

lemma thrifty_lib_alloc [thrifty_intros]: "thrifty (lib_alloc bs)"
  by (auto simp: thrifty_def lib_alloc_def refill_def)

lemma thrifty_lib_alloc_all [thrifty_intros]: "thrifty (lib_alloc_all xs)"
  by (induction xs) (auto intro!: thrifty_intros)

lemma thrifty_emalloc [thrifty_intros]: "thrifty (emalloc n)"
  unfolding emalloc_def by (intro thrifty_intros)

lemma thrifty_expand [thrifty_intros]: "thrifty (expand P path)"
  unfolding expand_def wordexp_def first_word_def by (intro thrifty_intros; simp)

lemma thrifty_opendir [thrifty_intros]: "thrifty (opendir P x)"
proof -
  have "thrifty (\<lambda>s. Done (Ptr (Ext (next_ext s)) 0) (s\<lparr>dirs := (dirs s)(next_ext s \<mapsto> names), next_ext := Suc (next_ext s)\<rparr>))" for names
    by (auto simp: thrifty_def refill_def)
  then show ?thesis
    unfolding opendir_def set_errno_def by (auto split: sum.split intro!: thrifty_intros)
qed

lemma thrifty_open_dir [thrifty_intros]: "thrifty (open_dir P path)"
  unfolding open_dir_def by (intro thrifty_intros)

lemma thrifty_readdir [thrifty_intros]: "thrifty (readdir dp)"
  unfolding readdir_def by (auto split: list.split intro!: thrifty_intros)

lemma thrifty_dir_loop [thrifty_intros]: "thrifty (dir_loop k dp names i)"
proof (induction k arbitrary: names i)
  case (Suc k)
  show ?case
    unfolding dir_loop.simps dga_grow_or_def dir_memfail_def free_dir_content_def
    by (intro thrifty_intros Suc)
qed (simp add: thrifty_intros)

lemma thrifty_dir_content: "thrifty (dir_content P path)"
  unfolding dir_content_def by (intro thrifty_intros; simp)

section \<open>A module whose path finds no memory\<close>

text \<open>Without the path \<open>dlopen\<close> is asked for the program itself, which is no module. The request after that is granted
  again, so the rest of the turn drops the name.\<close>

lemma load_refused:
  fixes t :: "'a world"
  assumes "mem_ok t" "\<not> grants t (requests t)" "dl_error t = None" "refused (os_dlopen P (env t) None)"
  shows "runs (load_module P n fresh_module mp) t (\<lambda>r s. fst r \<noteq> None \<and> load_step (t\<lparr>requests := Suc (requests t)\<rparr>) s \<and>
    dl_error s = None \<and> (\<exists>so. mapped (t\<lparr>requests := Suc (requests t)\<rparr>) so s \<or> not_mapped (t\<lparr>requests := Suc (requests t)\<rparr>) s))"
    (is "runs _ _ ?Q")
proof -
  let ?t = "t\<lparr>requests := Suc (requests t), err_code := NOT_ENOUGH_MEMORY\<rparr>"
  have mem: "mem_ok ?t" using assms(1) by (simp add: mem_ok_def)
  have "runs (dlopen P None) ?t (\<lambda>h s1. runs (load_rest P fresh_module h) s1 ?Q)"
  proof (rule runs_mono [OF runs_dlopen [OF mem]])
    fix h and s1 :: "'a world"
    assume "opened_lib ?t (os_dlopen P (env ?t) None) h s1 \<and> err_code s1 = err_code ?t \<and> next_blk s1 = next_blk ?t"
    then have o: "opened_lib ?t (os_dlopen P (env t) None) h s1" "err_code s1 = NOT_ENOUGH_MEMORY" by simp_all
    show "runs (load_rest P fresh_module h) s1 ?Q"
      by (rule runs_mono [OF runs_load_rest [OF o]])
        (use assms(3,4) in \<open>auto simp: load_result_def refused_def load_step_def mapped_def not_mapped_def split: sum.splits\<close>)
  qed
  then show ?thesis
    unfolding load_module_parts open_lib_def get_mod_path_def Let_def
    using assms(2) by (simp add: runs_simps errm_clear_def errm_error_def runs_malloc_fail)
qed

lemma runs_first_turn:
  fixes t :: "'a world"
  assumes "names_at t p (n # ns) ps" "name_room (n # ns)" "path_fits mp n" "mem_ok t" "\<not> grants t (requests t)"
    and "dl_error t = None" "refused (os_dlopen P (env t) None)" "ul_inv s0 ul [] [] (t\<lparr>requests := Suc (requests t)\<rparr>)"
    and rest: "\<And>u qs' s. ul_inv s0 u [n] qs' s \<Longrightarrow> env s = (case os_remove P (env t) (mp @ n) of Inl _ \<Rightarrow> env t | Inr e \<Rightarrow> e) \<Longrightarrow>
      runs (clean_loop k P mp p (of_nat (length (n # ns))) u 1) s Q"
  shows "runs (clean_loop (Suc k) P mp p (of_nat (length (n # ns))) ul 0) t Q"
proof -
  let ?len = "of_nat (length (n # ns)) :: u64"
  have len: "length (n # ns) < 2 ^ 56" "length n < 256" using assms(2) by (simp_all add: name_room_def)
  have less: "(0 :: u64) < ?len"
    using fits_names [OF len(1)] by (simp add: word_less_nat_alt)
  note nth = names_at_nth [OF assms(1,2), of 0, simplified]
  let ?drop = "bind (dga_new (strlen n + 1) 4) (\<lambda>ul_mod_name.
      if ul_mod_name = null then clean_memfail ul p
      else seq (strcpy ul_mod_name n)
        (dga_grow_or ul 1 (clean_memfail ul p) (\<lambda>ul_names.
         bind (dga_len ul_names) (\<lambda>k'.
         seq (store_ptr (ptr_add ul_names (int (8 * unat (k' - 1)))) ul_mod_name)
        (seq (rm_module P n mp) (clean_loop k P mp p ?len ul_names (0 + 1)))))))"
  have "runs (load_module P n fresh_module mp) t (\<lambda>r s2. runs (if fst r = None then clean_loop k P mp p ?len ul (0 + 1) else ?drop) s2 Q)"
  proof (rule runs_mono [OF load_refused [OF assms(4-7)]])
    fix r and s2 :: "'a world"
    assume s2: "fst r \<noteq> None \<and> load_step (t\<lparr>requests := Suc (requests t)\<rparr>) s2 \<and> dl_error s2 = None \<and>
      (\<exists>so. mapped (t\<lparr>requests := Suc (requests t)\<rparr>) so s2 \<or> not_mapped (t\<lparr>requests := Suc (requests t)\<rparr>) s2)"
    then have inv: "ul_inv s0 ul [] [] s2" and e: "env s2 = env t"
      using ul_inv_loaded [OF assms(8)] by (auto simp: load_step_def)
    have "runs ?drop s2 Q"
    proof (rule runs_clean_drop [OF inv _ len(2) assms(3)])
      fix u qs' and s3 :: "'a world"
      assume "ul_inv s0 u ([] @ [n]) qs' s3" "env s3 = (case os_remove P (env s2) (mp @ n) of Inl _ \<Rightarrow> env s2 | Inr e \<Rightarrow> e)"
      then show "runs (clean_loop k P mp p ?len u (0 + 1)) s3 Q"
        unfolding e using rest [of u qs' s3] by simp
    qed simp
    with s2 show "runs (if fst r = None then clean_loop k P mp p ?len ul (0 + 1) else ?drop) s2 Q" by (simp only: if_False simp_thms)
  qed
  then show ?thesis
    unfolding clean_loop.simps if_P [OF less] runs_bind [of "load_ptr _"]
    using nth(1) name_at_str [OF nth(2,3)] by (simp only: unat_0 mult_0_right of_nat_0 ptr_add_zero runs_bind [of "load_str _"] runs_load_str
      runs_bind [of "load_module _ _ _ _"] if_P) auto
qed

section \<open>The function\<close>

text \<open>A heap that refuses request \<open>k\<close> and no other.\<close>

definition all_but :: "nat \<Rightarrow> 'e world \<Rightarrow> 'e world" where
  "all_but k s = s\<lparr>grants := (\<lambda>i. i \<noteq> k)\<rparr>"

lemma all_but_simps [simp]:
  "requests (all_but k s) = requests s" "blocks (all_but k s) = blocks s" "env (all_but k s) = env s" "dl_error (all_but k s) = dl_error s"
  "stdout_of (all_but k s) = stdout_of s" "stderr_of (all_but k s) = stderr_of s" "frames (all_but k s) = frames s"
  "curr (all_but k s) = curr s" "grants (all_but k s) = (\<lambda>i. i \<noteq> k)" "refill (all_but k s) = refill s" "mem_ok (all_but k s) = mem_ok s"
  by (simp_all add: all_but_def)

lemma all_but_names [simp]: "names_at (all_but k s) p ns ps \<longleftrightarrow> names_at s p ns ps"
  by (simp add: all_but_def names_at_grants)

lemma all_but_balanced: "balanced s (all_but k u) \<longleftrightarrow> balanced s u" "balanced (all_but k s) u \<longleftrightarrow> balanced s u"
  by (simp_all add: balanced_def defers_ok_def)

lemma granted_before: "j \<le> k - requests s \<Longrightarrow> granted j (all_but k s)"
  by (auto simp: granted_def)

lemma runs_clean_scarce:
  fixes s :: "'a world"
  assumes "stack_ok s" "curr s < 8" "mem_ok s" "dl_error s = None" "os_wordexp P (env s) mp = Some (x # ws)"
    and "c_string x" "Suc (length x) < 2 ^ 64" "length (x # ws) < 2 ^ 64"
    and "os_opendir P (env s) x = Inr names" "visible names = n # ns" "name_room (n # ns)" "\<forall>n\<in>set (n # ns). path_fits mp n"
    and "decided P mp (n # ns)" "refused (os_dlopen P (env s) None)"
    and e1: "e1 = (case os_remove P (env s) (mp @ n) of Inl _ \<Rightarrow> env s | Inr e \<Rightarrow> e)"
  obtains k where "requests s \<le> k"
    and "runs (clean_ul_mod_names P mp) (all_but k s) (cleaned (fst (sweep P mp e1 ns)) (n # snd (sweep P mp e1 ns)) (all_but k s))"
proof -
  let ?h = "refill s\<lparr>err_code := No_Error\<rparr>"
  have len: "length (n # ns) < 2 ^ 56" using assms(11) by (simp add: name_room_def)
  have "runs (dir_content P mp) ?h (listing ?h (visible names))"
    by (rule runs_dir_content [OF _ _ _ _ assms(6,7,8)])
      (use assms(1-3,5,9-11) in \<open>simp_all add: stack_ok_def healthy_def mem_ok_def never_oom_def\<close>)
  then obtain r u where u: "dir_content P mp ?h = Done r u" "listing ?h (n # ns) r u"
    using assms(10) by (auto simp: runs_iff)
  then obtain p ps where r: "r = (p, Some (of_nat (length (n # ns))))" and at: "names_at u p (n # ns) ps"
    and ext: "extends ?h (name_bases p ps) u" and bal: "balanced ?h u" and step: "proc_step ?h u" and e0: "err_code u = No_Error"
    by (auto simp: listing_def)
  have hu: "healthy u" using step by (simp add: proc_step_def healthy_def never_oom_def)
  obtain ul v where v: "dga_new 0 8 u = Done ul v" "ul \<noteq> null" "heap_ext u v" "dga_ok v ul 0 8 []"
      "blocks u (pbase ul) = None" "untouched {pbase ul} u v"
    using dga.make_spec [OF hu, of 0 8] by (auto simp: runs_iff fits_def)
  have hs: "refill (s\<lparr>err_code := No_Error\<rparr>) = ?h" by (simp add: refill_def)
  have "dir_content P mp (refill (s\<lparr>err_code := No_Error\<rparr>)) = Done r u" using u(1) hs by simp
  note run = thriftyD [OF thrifty_dir_content this]
  have ru: "refill u = u" by (rule run(2))
  have "dga_new 0 8 (refill u) = Done ul v" using v(1) ru by simp
  then have again: "dga_new 0 8 (refill u') = Done ul v" if "refill u' = u" for u' using that ru by simp
  note new = takesD [OF takes_dga(1) _ again [OF ru]]
  have "granted 1 u" using granted_refill [of 1 u] ru by simp
  from new(1) [OF this] have more: "requests v = Suc (requests u)" by simp
  define k where "k = requests v"
  let ?s = "all_but k s" and ?u = "all_but k u" and ?t = "all_but k v"
  have start: "?s\<lparr>err_code := No_Error\<rparr> = all_but k (s\<lparr>err_code := No_Error\<rparr>)" by (simp add: all_but_def)
  have dir: "dir_content P mp (?s\<lparr>err_code := No_Error\<rparr>) = Done r ?u"
  proof -
    have "dir_content P mp (refill (all_but k (s\<lparr>err_code := No_Error\<rparr>))) = Done r u" using u(1) hs by simp
    from thriftyD(3) [OF thrifty_dir_content this] granted_before [of "requests u - requests s" k "s\<lparr>err_code := No_Error\<rparr>"] more
    show ?thesis unfolding start by (simp add: k_def) (simp add: all_but_def)
  qed
  have make: "dga_new 0 8 ?u = Done ul ?t"
  proof -
    have "granted 1 ?u" using more by (simp add: k_def)
    from takesD(3) [OF takes_dga(1) this, of 0 8 ul v] again [of ?u] ru show ?thesis by (simp add: all_but_def)
  qed
  have heap: "heap_only u v" using v(3) by (simp add: heap_ext_def)
  have w: "env u = env s" "dl_error u = None" "stdout_of u = stdout_of s" "stderr_of u = stderr_of s" "env v = env s" "dl_error v = None"
    using step assms(4) heap_only_world [OF heap] by (simp_all add: proc_step_def)
  have "blocks ?t b = blocks ?u b" if "b \<in> name_bases p ps" for b
  proof -
    have "b \<noteq> pbase ul" using names_at_live [OF at that] v(5) by auto
    then show ?thesis using v(6) by (simp add: untouched_def)
  qed
  moreover have "names_at ?u p (n # ns) ps" using at by simp
  ultimately have at_t: "names_at ?t p (n # ns) ps" using names_at_cong [of ?u] by blast
  have "never_oom (?t\<lparr>requests := Suc (requests ?t)\<rparr>)" by (auto simp: never_oom_def k_def)
  moreover have "mem_ok (?t\<lparr>requests := Suc (requests ?t)\<rparr>)" using heap_ext_mem_ok [OF v(3)] by (simp add: mem_ok_def all_but_def)
  moreover have "dga_ok (?t\<lparr>requests := Suc (requests ?t)\<rparr>) ul 0 8 []" by (rule dga.rep_local [OF v(4)]) simp
  moreover have "outside_step ?u (?t\<lparr>requests := Suc (requests ?t)\<rparr>)"
    using load_step_heap [OF v(3)] by (simp add: outside_step_def load_step_def all_but_def mem_ok_def)
  ultimately have inv: "ul_inv ?u ul [] [] (?t\<lparr>requests := Suc (requests ?t)\<rparr>)"
    using v(5,6) w(6) by (auto simp: ul_inv_def healthy_def names_at_empty name_bases_def extends_heap_def untouched_def)
  have ext_u: "extends ?s (name_bases p ps) ?u" using ext by (simp add: extends_def untouched_def)
  have bal_u: "balanced ?s ?u" using bal by (simp add: all_but_balanced) (simp add: balanced_def defers_ok_def)
  let ?Q = "cleaned (fst (sweep P mp e1 ns)) (n # snd (sweep P mp e1 ns)) ?s"
  have "runs (clean_loop (Suc (length (n # ns))) P mp p (of_nat (length (n # ns))) ul 0) ?t ?Q"
  proof (rule runs_first_turn [OF at_t assms(11) _ _ _ _ _ inv])
    show "path_fits mp n" "mem_ok ?t" "\<not> grants ?t (requests ?t)" "dl_error ?t = None" "refused (os_dlopen P (env ?t) None)"
      using assms(12,14) heap_ext_mem_ok [OF v(3)] w by (simp_all add: k_def)
    fix u' qs' and s2 :: "'a world"
    assume s2: "ul_inv ?u u' [n] qs' s2" "env s2 = (case os_remove P (env ?t) (mp @ n) of Inl _ \<Rightarrow> env ?t | Inr e \<Rightarrow> e)"
    have env2: "env s2 = e1" using s2(2) unfolding e1 all_but_simps w(5) .
    have "runs (clean_loop (length (n # ns)) P mp p (of_nat (length (n # ns))) u' (of_nat 1)) s2 ?Q"
    proof (rule runs_clean_loop [of ?u p "n # ns" ps mp P "[n]" e1 1, OF _ assms(11-13), where rem = ns and us = "[n]" and qs = qs'])
      show "names_at ?u p (n # ns) ps" using at by simp
      fix u2 qs2 and s3 :: "'a world"
      assume s3: "ul_inv ?u u2 ([n] @ snd (sweep P mp e1 (drop 1 (n # ns)))) qs2 s3" "env s3 = fst (sweep P mp e1 (drop 1 (n # ns)))"
      have "runs (seq (free_mod_names p) (bind (dga_len u2) (\<lambda>k. ret (u2, Some k)))) s3 (cleaned (env s3) ([n] @ snd (sweep P mp e1 (drop 1 (n # ns)))) ?s)"
        by (rule runs_clean_end [OF _ ext_u bal_u _ _ s3(1) len]) (use at w in simp_all)
      then show "runs (seq (free_mod_names p) (bind (dga_len u2) (\<lambda>k. ret (u2, Some k)))) s3 ?Q"
        using s3(2) by simp
    qed (use s2(1) env2 len in simp_all)
    then show "runs (clean_loop (length (n # ns)) P mp p (of_nat (length (n # ns))) u' 1) s2 ?Q" by simp
  qed
  moreover have "unat (of_nat (length (n # ns)) :: u64) = length (n # ns)" using fits_names [OF len] by simp
  ultimately have "runs (bind (reads (\<lambda>s. snd r)) (\<lambda>len_names. clean_loop (Suc (unat len_names)) P mp (fst r) len_names ul 0)) ?t ?Q"
    by (simp add: r runs_bind runs_reads del: clean_loop.simps)
  then have "runs (clean_ul_mod_names P mp) ?s ?Q"
    unfolding clean_ul_mod_names_def mod_names_def errm_clear_def
    using dir make v(2) e0
    by (simp add: runs_seq runs_modify runs_bind [of "dir_content _ _"] runs_on_error runs_bind [of "dga_new _ _"] del: clean_loop.simps)
      (simp add: runs_def [of "dir_content _ _"] runs_def [of "dga_new _ _"] runs_on_error all_but_def runs_bind [of "dga_new _ _"] runs_seq runs_ret del: clean_loop.simps)
  moreover have "requests s \<le> k" using run(1) more by (simp add: k_def)
  ultimately show thesis by (rule that [rotated])
qed

section \<open>The command\<close>

text \<open>C30: \<open>list --clean\<close> loses a working module to one refused request of memory. Take a modules directory whose first module
  can be loaded, in a world with memory enough, where what \<open>dlopen(NULL)\<close> opens, the program itself, is no module. There is a
  request of memory such that, where the allocator refuses it and no other, the command removes the link of that module, reports it
  as removed like the ones that are broken, and returns 0 without an error; what it does to the other names is what it always does. The
  request is the one of \<open>get_mod_path\<close>, whose result \<open>load_module\<close> passes to \<open>dlopen\<close> unchecked.\<close>

theorem clean_loses_module:
  fixes s :: "'a world"
  assumes "stack_ok s" "curr s < 8" "mem_ok s" "dl_error s = None" "os_wordexp P (env s) modules_path = Some (x # ws)"
    and "c_string x" "Suc (length x) < 2 ^ 64" "length (x # ws) < 2 ^ 64"
    and "os_opendir P (env s) x = Inr names" "visible names = n # ns" "name_room (n # ns)"
    and "decided P modules_path (n # ns)"
    and "loads (os_dlopen P (env s) (Some (modules_path @ n)))" "refused (os_dlopen P (env s) None)"
    and "''--clean'' \<in> set argv" "os_remove P (env s) (modules_path @ n) = Inr e"
  shows "\<exists>k\<ge>requests s. runs (cmd_arg_list P argv) (all_but k s) (\<lambda>r s'. r = 0 \<and>
    env s' = fst (sweep P modules_path e ns) \<and>
    stdout_of s' = stdout_of s @ concat (map removed_line (n # snd (sweep P modules_path e ns))) \<and>
    extends_heap (all_but k s) {} s' \<and> balanced s s')"
proof -
  obtain k where k: "requests s \<le> k" "runs (clean_ul_mod_names P modules_path) (all_but k s)
      (cleaned (fst (sweep P modules_path e ns)) (n # snd (sweep P modules_path e ns)) (all_but k s))"
    using runs_clean_scarce [OF assms(1-11) names_fit [OF assms(11)] assms(12,14), of e] assms(16) by auto
  have "name_room (n # snd (sweep P modules_path e ns))"
    using assms(11) sweep_names [of P modules_path e ns] by (auto simp: name_room_def)
  from runs_list_cleaned [OF k(2) this] show ?thesis
    using assms(15) k(1) by (auto simp: cmd_arg_list_def list_ex_iff all_but_balanced intro!: exI [of _ k])
qed

theorem clean_loses_module_witness:
  "\<exists>k. runs (cmd_arg_list half_posix [''list'', ''--clean'']) (all_but k (start_at [])) (\<lambda>r s'. r = 0 \<and>
     env s' = [modules_path @ ''a.so'', modules_path @ ''b.so''] \<and>
     stdout_of s' = ''Removed: a.so'' @ nl @ ''Removed: b.so'' @ nl)"
proof -
  have loaded: "loads (Inr sample_so)" "\<not> loads (Inl m)" "refused (Inl m)" for m
    using sample_mods(1,2) by (simp_all add: loads_def refused_def)
  have d: "os_dlopen half_posix e (Some (modules_path @ ''a.so'')) = Inr sample_so"
    "os_dlopen half_posix e (Some (modules_path @ ''b.so'')) = Inl ''not found''" "os_dlopen half_posix e None = Inl ''not found''" for e
    by (simp_all add: half_posix_def)
  have sw: "sweep half_posix modules_path [modules_path @ ''a.so''] [''b.so''] =
      ([modules_path @ ''a.so'', modules_path @ ''b.so''], [''b.so''])"
    by (simp add: d loaded) (simp add: half_posix_def)
  have dir: "os_wordexp half_posix [] modules_path = Some (modules_path # [])"
    "os_opendir half_posix [] modules_path = Inr [''.'', ''a.so'', ''b.so'']"
    "os_remove half_posix [] (modules_path @ ''a.so'') = Inr [modules_path @ ''a.so'']" by (simp_all add: half_posix_def)
  have path: "c_string modules_path" "Suc (length modules_path) < 2 ^ 64" "length [modules_path] < 2 ^ 64"
    by (simp_all add: modules_path_def c_string_def)
  have vis: "visible [''.'', ''a.so'', ''b.so''] = ''a.so'' # [''b.so'']" by simp
  have room: "name_room (''a.so'' # [''b.so''])" by (simp add: name_room_def c_string_def)
  have dec: "decided half_posix modules_path (''a.so'' # [''b.so''])" by (simp add: decided_def d loaded)
  let ?s = "start_at [] :: string list world"
  have "\<exists>k\<ge>requests ?s. runs (cmd_arg_list half_posix [''list'', ''--clean'']) (all_but k ?s) (\<lambda>r s'. r = 0 \<and>
    env s' = fst (sweep half_posix modules_path [modules_path @ ''a.so''] [''b.so'']) \<and>
    stdout_of s' = stdout_of ?s @ concat (map removed_line (''a.so'' #
      snd (sweep half_posix modules_path [modules_path @ ''a.so''] [''b.so'']))) \<and>
    extends_heap (all_but k ?s) {} s' \<and> balanced ?s s')"
    by (rule clean_loses_module [OF start_at_ok(1) _ _ _ _ path _ vis room dec])
      (use start_at_ok(3) in \<open>simp_all add: start_at_ok dir d loaded healthy_def\<close>, simp add: start_at_def)
  then obtain k where "runs (cmd_arg_list half_posix [''list'', ''--clean'']) (all_but k ?s) (\<lambda>r s'. r = 0 \<and>
    env s' = fst (sweep half_posix modules_path [modules_path @ ''a.so''] [''b.so'']) \<and>
    stdout_of s' = stdout_of ?s @ concat (map removed_line (''a.so'' #
      snd (sweep half_posix modules_path [modules_path @ ''a.so''] [''b.so'']))) \<and>
    extends_heap (all_but k ?s) {} s' \<and> balanced ?s s')" by blast
  then have "runs (cmd_arg_list half_posix [''list'', ''--clean'']) (all_but k ?s) (\<lambda>r s'. r = 0 \<and>
     env s' = [modules_path @ ''a.so'', modules_path @ ''b.so''] \<and>
     stdout_of s' = ''Removed: a.so'' @ nl @ ''Removed: b.so'' @ nl)"
    by (rule runs_mono) (use sw in \<open>simp add: removed_line_def del: sweep.simps\<close>, simp add: start_at_def)
  then show ?thesis by blast
qed

end
