(* ===== verification/Manager.thy ===== *)
theory Manager
  imports Prom_Facts Clean
begin

text \<open>
  The commands of \<open>prom module\<close> over one file system. A store of links and files is the specification; every
  sequence of commands, each a process of its own, does to the store and answers what the specification allows.
\<close>

section \<open>The specification\<close>

text \<open>What lies at a path: a file, which may be a shared object, or a link to another path.\<close>

datatype entry = File "shared_object option" | Link string

type_synonym store = "string \<Rightarrow> entry option"

fun follow :: "nat \<Rightarrow> store \<Rightarrow> string \<Rightarrow> shared_object option" where
  "follow 0 D x = None"
| "follow (Suc k) D x = (case D x of None \<Rightarrow> None | Some (File f) \<Rightarrow> f | Some (Link t) \<Rightarrow> follow k D t)"

text \<open>The kernel follows at most 40 links.\<close>

definition max_lookups :: nat where
  "max_lookups = 41"

definition texts :: "shared_object \<Rightarrow> string \<times> string" where
  "texts so = (let t = \<lambda>x. case so x of Some (Data d) \<Rightarrow> d | _ \<Rightarrow> [] in (t ''name'', t ''desc''))"

definition complete :: "shared_object option \<Rightarrow> (string \<times> string) option" where
  "complete f = (case f of Some so \<Rightarrow> if missing so = None then Some (texts so) else None | None \<Rightarrow> None)"

text \<open>Name and description of the module a path leads to.\<close>

definition module_of :: "store \<Rightarrow> string \<Rightarrow> (string \<times> string) option" where
  "module_of D x = complete (follow max_lookups D x)"

text \<open>A name of the directory that a listing shows, and the names there are.\<close>

definition plain :: "string \<Rightarrow> bool" where
  "plain n \<longleftrightarrow> n \<noteq> [] \<and> take 1 n \<noteq> ''.'' \<and> CHR ''/'' \<notin> set n \<and> c_string n \<and> length n < 256"

definition in_modules :: "string \<Rightarrow> string" where
  "in_modules n = modules_path @ n"

definition installed :: "store \<Rightarrow> string set" where
  "installed D = {n. plain n \<and> D (in_modules n) \<noteq> None}"

definition without :: "string set \<Rightarrow> store \<Rightarrow> store" where
  "without A D x = (if x \<in> A then None else D x)"

text \<open>What a command in the working directory \<open>c\<close> may answer and print, and the store after it. The order
  of a listing is the directory's.\<close>

inductive manage :: "string \<Rightarrow> store \<Rightarrow> command \<Rightarrow> int \<times> string \<Rightarrow> store \<Rightarrow> bool" for c where
  add: "module_of D (resolved c p) = Some (nm, d) \<Longrightarrow> D (joined c nm) = None \<Longrightarrow>
    manage c D (Add_Module p) (0, []) (D(joined c nm \<mapsto> Link (resolved c p)))"
| add_taken: "module_of D (resolved c p) = Some (nm, d) \<Longrightarrow> D (joined c nm) \<noteq> None \<Longrightarrow> manage c D (Add_Module p) (1, []) D"
| add_broken: "module_of D (resolved c p) = None \<Longrightarrow> manage c D (Add_Module p) (1, []) D"
| remove: "D (in_modules n) \<noteq> None \<Longrightarrow> manage c D (Remove_Module n) (0, []) (without {in_modules n} D)"
| remove_absent: "D (in_modules n) = None \<Longrightarrow> manage c D (Remove_Module n) (1, []) D"
| list: "distinct ns \<Longrightarrow> set ns = installed D \<Longrightarrow> list_all2 (\<lambda>n td. module_of D (in_modules n) = Some td) ns tds \<Longrightarrow>
    manage c D List_Modules (0, concat (map module_lines tds) @ ''-----'' @ nl) D"
| list_broken: "n \<in> installed D \<Longrightarrow> module_of D (in_modules n) = None \<Longrightarrow> manage c D List_Modules (1, []) D"
| clean: "distinct ns \<Longrightarrow> set ns = {n \<in> installed D. module_of D (in_modules n) = None} \<Longrightarrow>
    manage c D Clean (0, concat (map removed_line ns)) (without (in_modules ` set ns) D)"

inductive manages :: "string \<Rightarrow> store \<Rightarrow> command list \<Rightarrow> (int \<times> string) list \<Rightarrow> store \<Rightarrow> bool" for c where
  no_command: "manages c D [] [] D"
| next_command: "manage c D x r D1 \<Longrightarrow> manages c D1 xs rs D2 \<Longrightarrow> manages c D (x # xs) (r # rs) D2"

inductive_simps manage_simps: "manage c D (Add_Module p) r D'" "manage c D (Remove_Module n) r D'"
inductive_simps manages_simps: "manages c D [] rs D'" "manages c D (x # xs) rs D'"

section \<open>The file system the commands run over\<close>

text \<open>A path without a character that \<open>wordexp\<close> would treat.\<close>

definition literal :: "string \<Rightarrow> bool" where
  "literal p \<longleftrightarrow> p \<noteq> [] \<and>
     list_all (\<lambda>ch. ch \<in> set ''abcdefghijklmnopqrstuvwxyzABCDEFGHIJKLMNOPQRSTUVWXYZ0123456789/._-'') p"

text \<open>A file that loads has the three symbols a module needs, its texts are strings and its name can be a name of a
  directory.\<close>

definition sane :: "store \<Rightarrow> bool" where
  "sane D \<longleftrightarrow> (\<forall>x so. D x = Some (File (Some so)) \<longrightarrow> missing so = None \<longrightarrow>
     entry so \<noteq> None \<and> has_texts so (texts so) \<and> plain (fst (texts so)))"

text \<open>The kernel and the loader over the store \<open>S e\<close>, in the working directory \<open>c\<close>.\<close>

definition keeps_store :: "'e posix \<Rightarrow> ('e \<Rightarrow> store) \<Rightarrow> string \<Rightarrow> bool" where
  "keeps_store P S c \<longleftrightarrow> (\<forall>e. sane (S e) \<and> os_getcwd P e = Inr c \<and> (\<forall>p. literal p \<longrightarrow> os_wordexp P e p = Some [p]) \<and>
     (\<forall>x. (case os_dlopen P e (Some x) of Inl _ \<Rightarrow> None | Inr so \<Rightarrow> Some so) = follow max_lookups (S e) x) \<and>
     (\<exists>names. os_opendir P e modules_path = Inr names \<and> distinct (visible names) \<and> set (visible names) = installed (S e)) \<and>
     (\<forall>t n. plain n \<longrightarrow> (case os_symlink P e t n of
        Inl err \<Rightarrow> S e (joined c n) \<noteq> None
      | Inr e' \<Rightarrow> S e (joined c n) = None \<and> S e' = (S e)(joined c n \<mapsto> Link t))) \<and>
     (\<forall>n. plain n \<longrightarrow> (case os_remove P e (in_modules n) of
        Inl err \<Rightarrow> S e (in_modules n) = None
      | Inr e' \<Rightarrow> S e (in_modules n) \<noteq> None \<and> S e' = without {in_modules n} (S e))))"

lemma keeps_storeD:
  assumes "keeps_store P S c"
  shows "sane (S e)" "os_getcwd P e = Inr c" "literal p \<Longrightarrow> os_wordexp P e p = Some [p]"
    "(case os_dlopen P e (Some x) of Inl _ \<Rightarrow> None | Inr so \<Rightarrow> Some so) = follow max_lookups (S e) x"
    "\<exists>names. os_opendir P e modules_path = Inr names \<and> distinct (visible names) \<and> set (visible names) = installed (S e)"
    "plain n \<Longrightarrow> (case os_symlink P e t n of Inl err \<Rightarrow> S e (joined c n) \<noteq> None
      | Inr e' \<Rightarrow> S e (joined c n) = None \<and> S e' = (S e)(joined c n \<mapsto> Link t))"
    "plain n \<Longrightarrow> (case os_remove P e (in_modules n) of Inl err \<Rightarrow> S e (in_modules n) = None
      | Inr e' \<Rightarrow> S e (in_modules n) \<noteq> None \<and> S e' = without {in_modules n} (S e))"
  using assms unfolding keeps_store_def by blast+

text \<open>Each command is a process of its own; the file system is what the next one finds.\<close>

definition process :: "nat \<Rightarrow> nat \<Rightarrow> 'e posix \<Rightarrow> 'e ptrace_os \<Rightarrow> 'e console \<Rightarrow> string list \<Rightarrow> 'e \<Rightarrow> ((int \<times> string) \<times> 'e) option" where
  "process k fuel P T C argv e = (case cmd_main k fuel P T C argv (start_at e) of
       Done r s \<Rightarrow> Some ((r, stdout_of s), env s)
     | Exited r s \<Rightarrow> Some ((r, stdout_of s), env s)
     | _ \<Rightarrow> None)"

fun processes :: "nat \<Rightarrow> nat \<Rightarrow> 'e posix \<Rightarrow> 'e ptrace_os \<Rightarrow> 'e console \<Rightarrow> string list list \<Rightarrow> 'e \<Rightarrow> ((int \<times> string) list \<times> 'e) option" where
  "processes k fuel P T C [] e = Some ([], e)"
| "processes k fuel P T C (a # as) e = (case process k fuel P T C a e of
       None \<Rightarrow> None
     | Some (r, e1) \<Rightarrow> (case processes k fuel P T C as e1 of None \<Rightarrow> None | Some (rs, e2) \<Rightarrow> Some (r # rs, e2)))"

text \<open>The commands this is about: those that manage modules, with arguments that are paths and names.\<close>

fun proper :: "string \<Rightarrow> command \<Rightarrow> bool" where
  "proper c (Add_Module p) \<longleftrightarrow> literal p \<and> length p + length c + 8 < 2 ^ 64"
| "proper c (Remove_Module n) \<longleftrightarrow> plain n"
| "proper c x \<longleftrightarrow> x = List_Modules \<or> x = Clean"

section \<open>Stores\<close>

lemma follow_more: "follow j D x = Some so \<Longrightarrow> j \<le> k \<Longrightarrow> follow k D x = Some so"
proof (induction k arbitrary: j x)
  case (Suc k)
  then show ?case
    by (cases j) (auto split: option.splits entry.splits)
qed simp

lemma follow_file: "follow k D x = Some so \<Longrightarrow> \<exists>y. D y = Some (File (Some so))"
  by (induction k arbitrary: x) (auto split: option.splits entry.splits)

text \<open>Without a path that leads to no module, the others lead to the modules they led to.\<close>

lemma complete_without:
  "module_of D z = None \<Longrightarrow> k \<le> max_lookups \<Longrightarrow> complete (follow k (without {z} D) x) = complete (follow k D x)"
proof (induction k arbitrary: x)
  case (Suc k)
  show ?case
  proof (cases "x = z")
    case True
    have "complete (follow (Suc k) D z) = None"
    proof (cases "follow (Suc k) D z")
      case (Some so)
      from follow_more [OF this Suc.prems(2)] have "complete (Some so) = None" using Suc.prems(1) by (simp add: module_of_def)
      with Some show ?thesis by simp
    qed (simp add: complete_def)
    with True show ?thesis by (simp add: without_def) (simp add: complete_def)
  next
    case False
    then show ?thesis using Suc by (auto simp: without_def split: option.split entry.split)
  qed
qed simp

lemma module_of_without: "module_of D z = None \<Longrightarrow> module_of (without {z} D) x = module_of D x"
  by (simp add: module_of_def complete_without)

lemma without_without: "without A (without B D) = without (A \<union> B) D"
  by (auto simp: without_def)

lemma in_modules_eq [simp]: "in_modules m = in_modules n \<longleftrightarrow> m = n"
  by (simp add: in_modules_def)

lemma installed_without: "installed (without (in_modules ` A) D) = installed D - A"
  by (auto simp: installed_def without_def)

lemma literal_c_string: "literal p \<Longrightarrow> c_string p"
  by (auto simp: literal_def c_string_def list_all_iff)

lemma literal_modules: "literal modules_path"
  by (simp add: literal_def modules_path_def)

section \<open>Each command\<close>

lemma module_opens:
  assumes "keeps_store P S c" "module_of (S e) x = Some td"
  obtains so where "os_dlopen P e (Some x) = Inr so" "missing so = None" "entry so \<noteq> None" "has_texts so td" "plain (fst td)"
proof -
  obtain so where so: "follow max_lookups (S e) x = Some so" "missing so = None" "td = texts so"
    using assms(2) by (auto simp: module_of_def complete_def split: option.splits if_splits)
  then obtain y where "S e y = Some (File (Some so))" using follow_file by blast
  then have "entry so \<noteq> None" "has_texts so td" "plain (fst td)"
    using keeps_storeD(1) [OF assms(1), of e] so(2,3) by (auto simp: sane_def)
  moreover have "os_dlopen P e (Some x) = Inr so"
    using keeps_storeD(4) [OF assms(1), of e x] so(1) by (auto split: sum.splits)
  ultimately show thesis using that so(2) by blast
qed

lemma no_module_refused:
  assumes "keeps_store P S c" "module_of (S e) x = None"
  shows "refused (os_dlopen P e (Some x))"
  using assms(2) keeps_storeD(4) [OF assms(1), of e x]
  by (auto simp: module_of_def complete_def refused_def split: sum.splits option.splits if_splits)

lemma module_loads:
  assumes "keeps_store P S c"
  shows "loads (os_dlopen P e (Some x)) \<longleftrightarrow> module_of (S e) x \<noteq> None"
proof (cases "module_of (S e) x")
  case None
  with no_module_refused [OF assms None] show ?thesis using loads_not_refused by blast
next
  case (Some td)
  then obtain so where "os_dlopen P e (Some x) = Inr so" "missing so = None" "entry so \<noteq> None"
    using module_opens [OF assms Some] by blast
  with Some show ?thesis by (simp add: loads_def)
qed

lemma plain_relative: "plain n \<Longrightarrow> resolved c n = joined c n"
  by (cases n) (auto simp: plain_def resolved_def is_absolute_def)

lemma start_at_fields: "dl_error (start_at e) = None" "libs (start_at e) k = None" "stdout_of (start_at e) = []" "syms_mapped (start_at e)"
  by (simp_all add: start_at_def syms_mapped_def)

definition does :: "('e \<Rightarrow> store) \<Rightarrow> string \<Rightarrow> 'e \<Rightarrow> command \<Rightarrow> (int, 'e world) prog \<Rightarrow> bool" where
  "does S c e x m \<longleftrightarrow> runs m (start_at e) (\<lambda>r s'. manage c (S e) x (r, stdout_of s') (S (env s')))"

lemma adds:
  assumes "keeps_store P S c" "c_string c" "literal p" "length p + length c + 8 < 2 ^ 64"
  shows "does S c e (Add_Module p) (cmd_arg_add P err [''add'', p])"
proof -
  let ?s = "start_at e"
  note laws = keeps_storeD [OF assms(1)]
  have word: "os_wordexp P (env ?s) p = Some (p # [])" and cwd: "os_getcwd P (env ?s) = Inr c" and low: "curr ?s < 9"
    using laws(2,3) assms(3) by (simp_all add: start_at_ok)
  have len: "Suc (length p) < 2 ^ 64" "length [p] < 2 ^ 64" using assms(4) by simp_all
  show ?thesis
  proof (cases "module_of (S e) (resolved c p)")
    case None
    have "refused (os_dlopen P (env ?s) (Some (resolved c p)))"
      using no_module_refused [OF assms(1) None] by (simp add: start_at_ok)
    from runs_cmd_add_refused [OF start_at_ok(1) low start_at_ok(3) start_at_fields(1) word literal_c_string [OF assms(3)]
        len cwd assms(2,4) this] show ?thesis
      unfolding does_def
      by (rule runs_mono) (use add_broken [OF None] in \<open>simp add: start_at_fields start_at_ok\<close>)
  next
    case (Some td)
    obtain nm d where td: "td = (nm, d)" by (cases td)
    obtain so where so: "os_dlopen P e (Some (resolved c p)) = Inr so" "missing so = None" "entry so \<noteq> None" "has_texts so td"
      "plain (fst td)"
      using module_opens [OF assms(1) Some] by blast
    then have nm: "so ''name'' = Some (Data nm)" "c_string nm" "plain nm" "length nm + 4 < 2 ^ 64"
      using td by (auto simp: has_texts_def plain_def)
    have lib: "os_dlopen P (env ?s) (Some (resolved c p)) = Inr so" using so(1) by (simp add: start_at_ok)
    have "runs (cmd_arg_add P err [''add'', p]) ?s (add_outcome err p nm ?s (os_symlink P (env ?s) (resolved c p) nm))"
      by (rule runs_cmd_add [OF start_at_ok(1) low start_at_ok(3) start_at_fields(1) word literal_c_string [OF assms(3)]
          len cwd assms(2,4) lib so(2,3) nm(1,2,4)]) (simp_all add: start_at_fields start_at_ok)
    then show ?thesis
      unfolding does_def
    proof (rule runs_mono)
      fix r s' assume r: "add_outcome err p nm ?s (os_symlink P (env ?s) (resolved c p) nm) r s'"
      note law = laws(6) [OF nm(3), of e "resolved c p"]
      note m = Some [unfolded td]
      show "manage c (S e) (Add_Module p) (r, stdout_of s') (S (env s'))"
      proof (cases "os_symlink P e (resolved c p) nm")
        case (Inl err')
        with r law add_taken [OF m] show ?thesis by (simp add: add_outcome_def start_at_ok start_at_fields)
      next
        case (Inr e')
        with r law add [OF m] show ?thesis by (simp add: add_outcome_def start_at_ok start_at_fields)
      qed
    qed
  qed
qed

lemma removes:
  fixes P :: "'a posix"
  assumes "keeps_store P S c" "plain n"
  shows "does S c e (Remove_Module n) (cmd_arg_remove P err [''remove'', n])"
proof -
  have n: "c_string n" "length n + 40 < 2 ^ 64" using assms(2) by (simp_all add: plain_def)
  have grant: "grants (start_at e) (requests (start_at e))" using never_oom_now [OF start_at_ok(5)] .
  note law = keeps_storeD(7) [OF assms, of e]
  show ?thesis
    unfolding does_def
  proof (rule runs_mono [OF runs_cmd_remove [OF start_at_ok(4) n]])
    fix r :: int and s' :: "'a world" assume r: "blocks s' = blocks (start_at e) \<and> libs s' = libs (start_at e) \<and> stdout_of s' = stdout_of (start_at e) \<and>
      (case if grants (start_at e) (requests (start_at e)) then os_remove P (env (start_at e)) (modules_path @ n) else Inl EFAULT of
         Inr e' \<Rightarrow> r = 0 \<and> env s' = e' \<and> stderr_of s' = stderr_of (start_at e)
       | Inl err' \<Rightarrow> r = 1 \<and> env s' = env (start_at e) \<and> stderr_of s' = stderr_of (start_at e) @
           (if err' = ENOENT then ''Module with name '' @ n @ '' doesn't exist.'' @ nl else err err' @ ''. '' @ show_int err' @ nl))"
    show "manage c (S e) (Remove_Module n) (r, stdout_of s') (S (env s'))"
    proof (cases "os_remove P e (in_modules n)")
      case (Inl err')
      with r law grant remove_absent [of "S e" n c] show ?thesis by (simp add: start_at_ok start_at_fields in_modules_def)
    next
      case (Inr e')
      with r law grant remove [of "S e" n c] show ?thesis by (simp add: start_at_ok start_at_fields in_modules_def)
    qed
  qed
qed

lemma directory:
  assumes "keeps_store P S c" "card (installed (S e)) < 2 ^ 56"
  obtains names where "os_opendir P e modules_path = Inr names" "distinct (visible names)" "set (visible names) = installed (S e)"
    "name_room (visible names)"
proof -
  obtain names where n: "os_opendir P e modules_path = Inr names" "distinct (visible names)" "set (visible names) = installed (S e)"
    using keeps_storeD(5) [OF assms(1)] by blast
  moreover have "length (visible names) < 2 ^ 56" using assms(2) n(2,3) distinct_card [of "visible names"] by simp
  then have "name_room (visible names)" using n(3) by (auto simp: name_room_def installed_def plain_def)
  ultimately show thesis using that by blast
qed

lemma answers_of:
  assumes "keeps_store P S c"
  shows "list_all2 (\<lambda>n td. module_of (S e) (in_modules n) = Some td) ns tds \<Longrightarrow>
    \<exists>sos. answers P e modules_path ns sos \<and> list_all2 has_texts sos tds"
proof (induction ns tds rule: list_all2_induct)
  case Nil
  show ?case by (rule exI [of _ "[]"]) (simp add: answers_def)
next
  case (Cons n ns td tds)
  then obtain sos where sos: "answers P e modules_path ns sos" "list_all2 has_texts sos tds" by blast
  obtain so where "os_dlopen P e (Some (in_modules n)) = Inr so" "missing so = None" "entry so \<noteq> None" "has_texts so td"
    using module_opens [OF assms Cons(1)] by blast
  with sos show ?case by (intro exI [of _ "so # sos"]) (simp add: answers_def in_modules_def)
qed

lemma lists:
  fixes P :: "'a posix"
  assumes "keeps_store P S c" "card (installed (S e)) < 2 ^ 56"
  shows "does S c e List_Modules (list_modules P)"
proof -
  let ?s = "start_at e" and ?here = "\<lambda>n. module_of (S e) (in_modules n)"
  obtain names where ns: "os_opendir P (env ?s) modules_path = Inr names" "distinct (visible names)"
    "set (visible names) = installed (S e)" "name_room (visible names)"
    using directory [OF assms] by (simp add: start_at_ok) blast
  have word: "os_wordexp P (env ?s) modules_path = Some (modules_path # [])" and low: "curr ?s < 7"
    using keeps_storeD(3) [OF assms(1) literal_modules] by (simp_all add: start_at_ok)
  have len: "Suc (length modules_path) < 2 ^ 64" "length [modules_path] < 2 ^ 64" by (simp_all add: modules_path_def)
  note start = start_at_ok(1) [of e] low start_at_ok(3) start_at_fields(1) word literal_c_string [OF literal_modules] len ns(1,4)
  show ?thesis
  proof (cases "\<exists>n\<in>set (visible names). ?here n = None")
    case True
    then obtain pre n post where split: "visible names = pre @ n # post" "?here n = None" "\<forall>m\<in>set pre. ?here m \<noteq> None"
      using split_list_first_prop [of "visible names" "\<lambda>n. ?here n = None"] by blast
    have "list_all2 (\<lambda>n td. ?here n = Some td) pre (map (the \<circ> ?here) pre)"
      using split(3) by (simp add: list_all2_conv_all_nth)
    then obtain sos where "answers P (env ?s) modules_path pre sos" using answers_of [OF assms(1)] by (simp add: start_at_ok) blast
    moreover have "refused (os_dlopen P (env ?s) (Some (modules_path @ n)))"
      using no_module_refused [OF assms(1) split(2)] by (simp add: start_at_ok in_modules_def)
    moreover have "n \<in> installed (S e)" using ns(3) split(1) by auto
    ultimately show ?thesis
      unfolding does_def
      by (intro runs_mono [OF runs_list_fails [OF start split(1)]])
        (use split(2) list_broken [of n] in \<open>simp_all add: start_at_ok start_at_fields\<close>)
  next
    case False
    let ?tds = "map (the \<circ> ?here) (visible names)"
    have all: "list_all2 (\<lambda>n td. ?here n = Some td) (visible names) ?tds"
      using False by (simp add: list_all2_conv_all_nth)
    then obtain sos where "answers P (env ?s) modules_path (visible names) sos" "list_all2 has_texts sos ?tds"
      using answers_of [OF assms(1)] by (simp add: start_at_ok) blast
    from runs_list_modules [OF start this start_at_fields(4)] show ?thesis
      unfolding does_def
      by (rule runs_mono) (use list [OF ns(2,3) all] in \<open>simp add: start_at_ok start_at_fields\<close>)
  qed
qed

lemma sweep_store:
  assumes "keeps_store P S c"
  shows "set ns \<subseteq> installed (S e) \<Longrightarrow> distinct ns \<Longrightarrow> (let bad = filter (\<lambda>n. module_of (S e) (in_modules n) = None) ns in
    snd (sweep P modules_path e ns) = bad \<and> S (fst (sweep P modules_path e ns)) = without (in_modules ` set bad) (S e))"
proof (induction ns arbitrary: e)
  case Nil
  show ?case by (simp add: without_def)
next
  case (Cons n ns)
  have n: "plain n" "S e (in_modules n) \<noteq> None" using Cons.prems(1) by (simp_all add: installed_def)
  show ?case
  proof (cases "module_of (S e) (in_modules n)")
    case (Some td)
    then have "sweep P modules_path e (n # ns) = sweep P modules_path e ns"
      using module_loads [OF assms, of e "in_modules n"] by (simp add: in_modules_def)
    then show ?thesis using Cons Some by simp
  next
    case None
    obtain e1 where e1: "os_remove P e (in_modules n) = Inr e1" "S e1 = without {in_modules n} (S e)"
      using keeps_storeD(7) [OF assms n(1), of e] n(2) by (auto split: sum.splits)
    have "set ns \<subseteq> installed (S e1)"
      using Cons.prems by (auto simp: e1(2) installed_def without_def)
    from Cons.IH [OF this] Cons.prems(2)
    have "snd (sweep P modules_path e1 ns) = filter (\<lambda>n. module_of (S e) (in_modules n) = None) ns"
      "S (fst (sweep P modules_path e1 ns)) = without (in_modules ` set (filter (\<lambda>n. module_of (S e) (in_modules n) = None) ns)) (S e1)"
      by (simp_all add: e1(2) module_of_without [OF None] Let_def)
    moreover have "sweep P modules_path e (n # ns) = (fst (sweep P modules_path e1 ns), n # snd (sweep P modules_path e1 ns))"
      using None module_loads [OF assms, of e "in_modules n"] e1(1) by (simp add: in_modules_def case_prod_unfold Let_def)
    ultimately show ?thesis using None by (simp add: e1(2) without_without del: sweep.simps)
  qed
qed

lemma cleans:
  fixes P :: "'a posix"
  assumes "keeps_store P S c" "card (installed (S e)) < 2 ^ 56"
  shows "does S c e Clean (list_clean P)"
proof -
  let ?s = "start_at e"
  obtain names where ns: "os_opendir P (env ?s) modules_path = Inr names" "distinct (visible names)"
    "set (visible names) = installed (S e)" "name_room (visible names)"
    using directory [OF assms] by (simp add: start_at_ok) blast
  let ?bad = "filter (\<lambda>n. module_of (S e) (in_modules n) = None) (visible names)"
  have word: "os_wordexp P (env ?s) modules_path = Some (modules_path # [])" and low: "curr ?s < 8"
    using keeps_storeD(3) [OF assms(1) literal_modules] by (simp_all add: start_at_ok)
  have len: "Suc (length modules_path) < 2 ^ 64" "length [modules_path] < 2 ^ 64" by (simp_all add: modules_path_def)
  have "decided P modules_path (visible names)"
    unfolding decided_def module_loads [OF assms(1)] using no_module_refused [OF assms(1)] by blast
  note run = runs_list_clean [OF start_at_ok(1) low start_at_ok(3) start_at_fields(1) word literal_c_string [OF literal_modules] len ns(1,4) this]
  have swept: "snd (sweep P modules_path e (visible names)) = ?bad"
    "S (fst (sweep P modules_path e (visible names))) = without (in_modules ` set ?bad) (S e)"
    using sweep_store [OF assms(1), of "visible names" e] ns(2,3) by (simp_all add: Let_def)
  have "manage c (S e) Clean (0, concat (map removed_line ?bad)) (without (in_modules ` set ?bad) (S e))"
    by (rule clean) (use ns(2,3) in auto)
  then show ?thesis
    unfolding does_def
    by (intro runs_mono [OF run]) (simp add: start_at_ok start_at_fields swept)
qed

section \<open>Sequences of commands\<close>

lemma commands_run:
  "command_of argv \<noteq> Launch \<Longrightarrow> (\<And>u. command_of argv \<noteq> Wrong u) \<Longrightarrow> cmd_main k fuel P T C argv = (case command_of argv of
     Clean \<Rightarrow> list_clean P | List_Modules \<Rightarrow> list_modules P | Add_Module p \<Rightarrow> cmd_arg_add P (str_error C) [''add'', p]
   | Remove_Module n \<Rightarrow> cmd_arg_remove P (str_error C) [''remove'', n] | _ \<Rightarrow> ret 0)"
  by (cases argv rule: command_of.cases)
    (auto simp: cmd_main_def module_main_command split: command.split if_splits)

lemma process_managed:
  assumes "keeps_store P S c" "c_string c" "proper c (command_of argv)" "card (installed (S e)) < 2 ^ 56"
  obtains r e' where "process k fuel P T C argv e = Some (r, e')" "manage c (S e) (command_of argv) r (S e')"
proof -
  have "command_of argv \<noteq> Launch" "\<And>u. command_of argv \<noteq> Wrong u"
    using assms(3) by (cases "command_of argv"; simp)+
  note run = commands_run [OF this, of k fuel P T C]
  have "does S c e (command_of argv) (cmd_main k fuel P T C argv)"
    unfolding run using assms adds [OF assms(1,2)] removes [OF assms(1)] lists [OF assms(1,4)] cleans [OF assms(1,4)]
    by (cases "command_of argv") simp_all
  then show thesis
    using that by (auto simp: does_def runs_iff process_def)
qed

lemma installed_grows:
  assumes "manage c D x r D'" "finite (installed D)"
  shows "finite (installed D') \<and> card (installed D') \<le> Suc (card (installed D))"
proof -
  have new: "installed (D(a \<mapsto> y)) \<subseteq> insert (drop (length modules_path) a) (installed D)" for a y
    by (auto simp: installed_def in_modules_def split: if_splits)
  have less: "installed (without A D) \<subseteq> installed D" for A
    by (auto simp: installed_def without_def split: if_splits)
  have "finite (installed (D(a \<mapsto> y))) \<and> card (installed (D(a \<mapsto> y))) \<le> Suc (card (installed D))" for a y
    using finite_subset [OF new [of a y]] card_mono [OF _ new [of a y]] assms(2) by (simp add: card_insert_if split: if_splits)
  moreover have "finite (installed (without A D)) \<and> card (installed (without A D)) \<le> Suc (card (installed D))" for A
    using finite_subset [OF less assms(2)] card_mono [OF assms(2) less [of A]] by (simp add: le_SucI)
  ultimately show ?thesis
    using assms(2) by (cases rule: manage.cases [OF assms(1)]) simp_all
qed

lemma processes_managed:
  assumes "keeps_store P S c" "c_string c"
  shows "\<forall>a\<in>set argvs. proper c (command_of a) \<Longrightarrow> card (installed (S e)) + length argvs \<le> 2 ^ 56 \<Longrightarrow>
    \<exists>rs e'. processes k fuel P T C argvs e = Some (rs, e') \<and> manages c (S e) (map command_of argvs) rs (S e')"
proof (induction argvs arbitrary: e)
  case Nil
  show ?case by (simp add: no_command)
next
  case (Cons a as)
  obtain r e1 where r: "process k fuel P T C a e = Some (r, e1)" "manage c (S e) (command_of a) r (S e1)"
  proof (rule process_managed [OF assms])
    show "proper c (command_of a)" "card (installed (S e)) < 2 ^ 56" using Cons.prems by simp_all
  qed blast
  obtain names where "set (visible names) = installed (S e)" using keeps_storeD(5) [OF assms(1)] by blast
  then have "finite (installed (S e))" using List.finite_set [of "visible names"] by simp
  from installed_grows [OF r(2) this] have "card (installed (S e1)) + length as \<le> 2 ^ 56" using Cons.prems(2) by simp
  then obtain rs e2 where "processes k fuel P T C as e1 = Some (rs, e2)" "manages c (S e1) (map command_of as) rs (S e2)"
    using Cons.IH [of e1] Cons.prems(1) by auto
  with r show ?case by (auto intro: next_command)
qed

section \<open>Properties\<close>

text \<open>C31: The module commands refine a store of links: in every sequence of \<open>add\<close>, \<open>remove\<close>, \<open>list\<close> and \<open>list --clean\<close>, each
  run as a process of its own over what the ones before left, every command comes to its end, and its exit status, its
  output and the change of the store are those the specification allows. A link is made where the command is run
  and looked for where the modules are.\<close>

theorem manager_refines:
  assumes "keeps_store P S c" "c_string c" "\<forall>a\<in>set argvs. proper c (command_of a)"
    and "card (installed (S e)) + length argvs \<le> 2 ^ 56"
  shows "\<exists>rs e'. processes k fuel P T C argvs e = Some (rs, e') \<and> manages c (S e) (map command_of argvs) rs (S e')"
  by (rule processes_managed [OF assms])

text \<open>A file system with one shared object and a list of links.\<close>

definition links_store :: "(string \<times> string) list \<Rightarrow> store" where
  "links_store e x = (case map_of e x of Some t \<Rightarrow> Some (Link t)
     | None \<Rightarrow> if x = ''/m/a.so'' then Some (File (Some sample_so)) else None)"

definition links_names :: "(string \<times> string) list \<Rightarrow> string list" where
  "links_names e = remdups (filter (\<lambda>n. plain n \<and> in_modules n \<in> set (map fst e)) (map (drop (length modules_path)) (map fst e)))"

definition links_posix :: "string \<Rightarrow> (string \<times> string) list posix" where
  "links_posix c = \<lparr>os_wordexp = (\<lambda>_ p. Some [p]), os_getcwd = (\<lambda>_. Inr c),
     os_opendir = (\<lambda>e _. Inr (''.'' # links_names e)),
     os_dlopen = (\<lambda>e p. case p of None \<Rightarrow> Inl ''?'' | Some x \<Rightarrow>
       (case follow max_lookups (links_store e) x of None \<Rightarrow> Inl ''?'' | Some so \<Rightarrow> Inr so)),
     os_nosym = (\<lambda>x. x),
     os_symlink = (\<lambda>e t l. if links_store e (joined c l) = None then Inr ((joined c l, t) # e) else Inl EEXIST),
     os_remove = (\<lambda>e x. if x \<in> set (map fst e) then Inr (filter (\<lambda>(y, t). y \<noteq> x) e) else Inl ENOENT)\<rparr>"

lemma not_the_object: "in_modules n \<noteq> ''/m/a.so''"
  by (simp add: in_modules_def modules_path_def)

lemma links_dir: "visible (''.'' # links_names e) = links_names e" "set (links_names e) = installed (links_store e)"
proof -
  show "visible (''.'' # links_names e) = links_names e"
    by (auto simp: links_names_def visible_def plain_def filter_id_conv)
  have "in_modules n \<in> set (map fst e) \<Longrightarrow> n \<in> set (map (drop (length modules_path)) (map fst e))" for n
    by (force simp: in_modules_def image_iff)
  moreover have "links_store e (in_modules n) \<noteq> None \<longleftrightarrow> in_modules n \<in> set (map fst e)" for n
    using not_the_object [of n] map_of_eq_None_iff [of e "in_modules n"] by (auto simp: links_store_def split: option.splits)
  ultimately show "set (links_names e) = installed (links_store e)"
    by (auto simp: links_names_def installed_def simp del: set_map)
qed

lemma map_of_without: "map_of (filter (\<lambda>(y, t). y \<noteq> x) e) z = (if z = x then None else map_of e z)"
  by (induction e) auto

lemma links_keep: "keeps_store (links_posix c) links_store c"
  unfolding keeps_store_def
proof (intro allI conjI impI)
  fix e :: "(string \<times> string) list" and x t n :: string
  show "sane (links_store e)"
    using sample_mods by (auto simp: sane_def links_store_def has_texts_def texts_def sample_so_def plain_def c_string_def
        split: option.splits if_splits)
  show "os_getcwd (links_posix c) e = Inr c" "os_wordexp (links_posix c) e x = Some [x]"
    by (simp_all add: links_posix_def)
  show "(case os_dlopen (links_posix c) e (Some x) of Inl _ \<Rightarrow> None | Inr so \<Rightarrow> Some so) = follow max_lookups (links_store e) x"
    by (simp add: links_posix_def split: option.split)
  show "\<exists>names. os_opendir (links_posix c) e modules_path = Inr names \<and> distinct (visible names) \<and> set (visible names) = installed (links_store e)"
    using links_dir [of e] by (auto simp: links_posix_def links_names_def intro!: exI [of _ "''.'' # links_names e"])
  show "case os_symlink (links_posix c) e t n of Inl err \<Rightarrow> links_store e (joined c n) \<noteq> None
      | Inr e' \<Rightarrow> links_store e (joined c n) = None \<and> links_store e' = (links_store e)(joined c n \<mapsto> Link t)"
    by (auto simp: links_posix_def links_store_def fun_eq_iff)
  show "case os_remove (links_posix c) e (in_modules n) of Inl err \<Rightarrow> links_store e (in_modules n) = None
      | Inr e' \<Rightarrow> links_store e (in_modules n) \<noteq> None \<and> links_store e' = without {in_modules n} (links_store e)"
    using not_the_object [of n] map_of_eq_None_iff [of e "in_modules n"]
    by (auto simp: links_posix_def links_store_def without_def fun_eq_iff map_of_without split: option.splits)
qed

theorem manager_refines_witness:
  "\<forall>T C. \<exists>rs e'. processes 0 0 (links_posix ''/home'') T C
     [[''prom'', ''module'', ''add'', ''/m/a.so''], [''prom'', ''module'', ''list''], [''prom'', ''module'', ''remove'', ''notes'']] [] = Some (rs, e') \<and>
     manages ''/home'' (links_store []) [Add_Module ''/m/a.so'', List_Modules, Remove_Module ''notes''] rs (links_store e')"
proof -
  have none: "installed (links_store []) = {}"
    using not_the_object by (auto simp: installed_def links_store_def)
  show ?thesis
    using manager_refines [OF links_keep, of "''/home''" "[[''prom'', ''module'', ''add'', ''/m/a.so''], [''prom'', ''module'', ''list''],
        [''prom'', ''module'', ''remove'', ''notes'']]" "[]"]
    by (simp add: none c_string_def literal_def plain_def)
qed

text \<open>C32: Adding a module and removing it by its name is a round trip only in the modules directory. Run from any other
  directory, both commands look at different links: the link that \<open>add\<close> made stays, and \<open>remove\<close> says that there
  is no such module, or removes another one of that name.\<close>

theorem added_then_removed:
  assumes "keeps_store P S c" "c_string c" "literal p" "length p + length c + 8 < 2 ^ 64" "card (installed (S e)) < 2 ^ 55"
    and "module_of (S e) (resolved c p) = Some (nm, d)" "S e (joined c nm) = None"
  shows "\<exists>r e'. processes k fuel P T C [[''prom'', ''module'', ''add'', p], [''prom'', ''module'', ''remove'', nm]] e = Some ([(0, []), r], e') \<and>
    (if c @ ''/'' = modules_path then r = (0, []) \<and> S e' = S e
     else r = (if S e (in_modules nm) = None then 1 else 0, []) \<and>
       S e' = (without {in_modules nm} (S e))(joined c nm \<mapsto> Link (resolved c p)))"
proof -
  have nm: "plain nm" using module_opens [OF assms(1,6)] by (metis fst_conv)
  have same: "in_modules nm = joined c nm \<longleftrightarrow> c @ ''/'' = modules_path"
    by (auto simp: in_modules_def joined_def)
  obtain rs e' where run: "processes k fuel P T C [[''prom'', ''module'', ''add'', p], [''prom'', ''module'', ''remove'', nm]] e = Some (rs, e')"
    "manages c (S e) [Add_Module p, Remove_Module nm] rs (S e')"
    using processes_managed [OF assms(1,2), of "[[''prom'', ''module'', ''add'', p], [''prom'', ''module'', ''remove'', nm]]" e k fuel T C] assms(3-5) nm
    by auto
  then obtain r where r: "rs = [(0, []), r]" "manage c ((S e)(joined c nm \<mapsto> Link (resolved c p))) (Remove_Module nm) r (S e')"
    using assms(6,7) by (auto simp: manages_simps manage_simps)
  show ?thesis
  proof (cases "c @ ''/'' = modules_path")
    case True
    then have "r = (0, [])" "S e' = without {in_modules nm} ((S e)(joined c nm \<mapsto> Link (resolved c p)))"
      using r(2) same by (auto simp: manage_simps)
    moreover have "without {in_modules nm} ((S e)(joined c nm \<mapsto> Link (resolved c p))) = S e"
      using True same assms(7) by (auto simp: without_def fun_eq_iff)
    ultimately show ?thesis using run(1) r(1) True by auto
  next
    case False
    then have ne: "in_modules nm \<noteq> joined c nm" using same by simp
    have "without {in_modules nm} (S e) = S e" if "S e (in_modules nm) = None" using that by (auto simp: without_def fun_eq_iff)
    moreover have "without {in_modules nm} ((S e)(joined c nm \<mapsto> y)) = (without {in_modules nm} (S e))(joined c nm \<mapsto> y)" for y
      using ne by (auto simp: without_def fun_eq_iff)
    ultimately have "r = (if S e (in_modules nm) = None then 1 else 0, [])"
      "S e' = (without {in_modules nm} (S e))(joined c nm \<mapsto> Link (resolved c p))"
      using r(2) ne by (auto simp: manage_simps)
    with run(1) r(1) False show ?thesis by auto
  qed
qed

theorem added_then_removed_witness:
  "\<forall>T C. \<exists>e'. processes 0 0 (links_posix ''/home'') T C
     [[''prom'', ''module'', ''add'', ''/m/a.so''], [''prom'', ''module'', ''remove'', ''notes'']] [] = Some ([(0, []), (1, [])], e') \<and>
     links_store e' ''/home/notes'' = Some (Link ''/m/a.so'')"
proof -
  have none: "installed (links_store []) = {}" "links_store [] (in_modules ''notes'') = None"
    using not_the_object by (auto simp: installed_def links_store_def)
  have "module_of (links_store []) ''/m/a.so'' = Some (''notes'', ''takes notes'')"
    using sample_mods(1)
    by (simp add: module_of_def max_lookups_def links_store_def complete_def eval_nat_numeral) (simp add: texts_def sample_so_def)
  then have here: "module_of (links_store []) (resolved ''/home'' ''/m/a.so'') = Some (''notes'', ''takes notes'')"
    by (simp add: resolved_def is_absolute_def)
  have side: "c_string ''/home''" "literal ''/m/a.so''" "length ''/m/a.so'' + length ''/home'' + 8 < 2 ^ 64"
    "card (installed (links_store [])) < 2 ^ 55" "links_store [] (joined ''/home'' ''notes'') = None" "''/home'' @ ''/'' \<noteq> modules_path"
    by (simp_all add: none c_string_def literal_def joined_def modules_path_def) (simp add: links_store_def)
  have j: "joined ''/home'' ''notes'' = ''/home/notes''" by (simp add: joined_def)
  show ?thesis
  proof (intro allI)
    fix T :: "(string \<times> string) list ptrace_os" and C
    note other = if_not_P [OF side(6)]
    note both = added_then_removed [OF links_keep, where e = "[]", OF side(1-4) here side(5), of 0 0 T C, unfolded other none(2) j]
    let ?run = "processes 0 0 (links_posix ''/home'') T C
      [[''prom'', ''module'', ''add'', ''/m/a.so''], [''prom'', ''module'', ''remove'', ''notes'']] []"
    obtain r e' where run: "?run = Some ([(0, []), r], e')" and rest: "r = (if (None :: entry option) = None then 1 else 0, []) \<and>
        links_store e' = (without {in_modules ''notes''} (links_store []))(''/home/notes'' \<mapsto> Link (resolved ''/home'' ''/m/a.so''))"
      using both by (elim exE conjE) (rule that, assumption, rule conjI)
    have "r = (1, [])" using rest by simp
    with run have "?run = Some ([(0, []), (1, [])], e')" by (simp only:)
    moreover have "links_store e' ''/home/notes'' = Some (Link ''/m/a.so'')"
      unfolding conjunct2 [OF rest] by (simp add: resolved_def is_absolute_def)
    ultimately show "\<exists>e'. ?run = Some ([(0, []), (1, [])], e') \<and> links_store e' ''/home/notes'' = Some (Link ''/m/a.so'')"
      by (intro exI [where x = e'] conjI)
  qed
qed

end
