(* ===== verification/Conduit.thy ===== *)
theory Conduit
  imports Session
begin

text \<open>
  What a session of the shell passes on: the bytes read from the child reach the virtual terminal, and the output of
  the virtual terminal reaches the child, in order and without another byte, over the whole loop of the parent.
\<close>

section \<open>The wires\<close>

text \<open>The bytes that have gone each part of the two ways: read from the pseudo terminal and given to the virtual
  terminal; taken from the virtual terminal and given to \<open>write\<close> on the pseudo terminal, each time with the part that was
  taken; and what the child has got.\<close>

record 'e wire =
  from_child :: "'e \<Rightarrow> string"
  to_screen :: "'e \<Rightarrow> string"
  from_term :: "'e \<Rightarrow> string"
  given :: "'e \<Rightarrow> (string \<times> string) list"
  to_child :: "'e \<Rightarrow> string"

type_synonym marks = "string \<times> string \<times> string \<times> (string \<times> string) list \<times> string"

definition marks_of :: "'e wire \<Rightarrow> 'e \<Rightarrow> marks" where
  "marks_of W e = (from_child W e, to_screen W e, from_term W e, given W e, to_child W e)"

definition at_wire :: "'e wire \<Rightarrow> marks \<Rightarrow> 'e \<Rightarrow> bool" where
  "at_wire W A e \<longleftrightarrow> marks_of W e = A"

definition level :: "marks \<Rightarrow> bool" where
  "level A = (case A of (a, b, c, d, x) \<Rightarrow> b = a \<and> concat (map fst d) = c \<and> x = concat (map snd d) \<and>
     list_all (\<lambda>(bs, part). part = take (length part) bs) d)"

text \<open>The libraries without the four calls that move bytes.\<close>

definition hush :: "'e console \<Rightarrow> 'e console" where
  "hush C = C\<lparr>act := (\<lambda>e a. case a of Vt_input v bs \<Rightarrow> (Inr 0, e) | Write fd bs \<Rightarrow> (Inr 0, e) | _ \<Rightarrow> act C e a),
     out_read := (\<lambda>e v n. ([], e)), fd_read := (\<lambda>e fd n. (Inr [], e))\<rparr>"

text \<open>Those four move the bytes they are given or give back, a \<open>write\<close> as many as it answers; and no other call of a library
  or of the kernel moves any.\<close>

definition wired :: "'e ptrace_os \<Rightarrow> 'e console \<Rightarrow> 'e wire \<Rightarrow> ptr \<Rightarrow> int \<Rightarrow> bool" where
  "wired T C W v fd \<longleftrightarrow> (\<forall>A. kernel_follows T (at_wire W A) (\<lambda>_. 0)) \<and> (\<forall>A. console_follows (hush C) v fd (at_wire W A) (\<lambda>_. 0)) \<and>
     (\<forall>A e. at_wire W A e \<longrightarrow> at_wire W A (snd (fd_poll C e fd STDIN_FILENO))) \<and>
     (\<forall>a b c d x e. at_wire W (a, b, c, d, x) e \<longrightarrow>
       (\<forall>n. case fd_read C e fd n of (r, e') \<Rightarrow> at_wire W (a @ (case r of Inl _ \<Rightarrow> [] | Inr bs \<Rightarrow> bs), b, c, d, x) e') \<and>
       (\<forall>bs. at_wire W (a, b @ bs, c, d, x) (did C (Vt_input v bs) e)) \<and>
       (\<forall>n. case out_read C e v n of (bs, e') \<Rightarrow> at_wire W (a, b, c @ bs, d, x) e') \<and>
       (\<forall>bs. case act C e (Write fd bs) of (r, e') \<Rightarrow> at_wire W (a, b, c, d @ [(bs, taken r bs)], x @ taken r bs) e'))"

lemma wiredD:
  assumes "wired T C W v fd"
  shows "kernel_follows T (at_wire W A) (\<lambda>_. 0)" "console_follows (hush C) v fd (at_wire W A) (\<lambda>_. 0)"
    "at_wire W A e \<Longrightarrow> at_wire W A (snd (fd_poll C e fd STDIN_FILENO))"
    "at_wire W (a, b, c, d, x) e \<Longrightarrow> fd_read C e fd n = (r, e') \<Longrightarrow>
       at_wire W (a @ (case r of Inl _ \<Rightarrow> [] | Inr bs \<Rightarrow> bs), b, c, d, x) e'"
    "at_wire W (a, b, c, d, x) e \<Longrightarrow> at_wire W (a, b @ bs, c, d, x) (did C (Vt_input v bs) e)"
    "at_wire W (a, b, c, d, x) e \<Longrightarrow> out_read C e v n = (bs, e') \<Longrightarrow> at_wire W (a, b, c @ bs, d, x) e'"
    "at_wire W (a, b, c, d, x) e \<Longrightarrow> act C e (Write fd bs) = (w, e') \<Longrightarrow> at_wire W (a, b, c, d @ [(bs, taken w bs)], x @ taken w bs) e'"
proof -
  note parts = assms [unfolded wired_def]
  note rest = parts [THEN conjunct2, THEN conjunct2]
  show "kernel_follows T (at_wire W A) (\<lambda>_. 0)" "console_follows (hush C) v fd (at_wire W A) (\<lambda>_. 0)"
    by (rule parts [THEN conjunct1, THEN spec], rule parts [THEN conjunct2, THEN conjunct1, THEN spec])
  show "at_wire W A e \<Longrightarrow> at_wire W A (snd (fd_poll C e fd STDIN_FILENO))"
    using rest [THEN conjunct1, THEN spec, THEN spec] by (rule mp)
  note moves = rest [THEN conjunct2, THEN spec, THEN spec, THEN spec, THEN spec, THEN spec, THEN spec, THEN mp]
  show "at_wire W (a @ (case r of Inl _ \<Rightarrow> [] | Inr bs \<Rightarrow> bs), b, c, d, x) e'" if "at_wire W (a, b, c, d, x) e" "fd_read C e fd n = (r, e')"
    using moves [OF that(1), THEN conjunct1, THEN spec, of n] that(2) by simp
  show "at_wire W (a, b @ bs, c, d, x) (did C (Vt_input v bs) e)" if "at_wire W (a, b, c, d, x) e"
    using moves [OF that, THEN conjunct2, THEN conjunct1] by blast
  show "at_wire W (a, b, c @ bs, d, x) e'" if "at_wire W (a, b, c, d, x) e" "out_read C e v n = (bs, e')"
    using moves [OF that(1), THEN conjunct2, THEN conjunct2, THEN conjunct1, THEN spec, of n] that(2) by simp
  show "at_wire W (a, b, c, d @ [(bs, taken w bs)], x @ taken w bs) e'" if "at_wire W (a, b, c, d, x) e" "act C e (Write fd bs) = (w, e')"
    using moves [OF that(1), THEN conjunct2, THEN conjunct2, THEN conjunct2, THEN spec, of bs] that(2) by simp
qed

section \<open>Code that keeps the wires level\<close>

definition levels :: "'e wire \<Rightarrow> ptr \<Rightarrow> int \<Rightarrow> 'e world \<Rightarrow> bool" where
  "levels W v fd s \<longleftrightarrow> g_vterm (globe s) = v \<and> fd_master (globe s) = fd \<and> fd_slave (globe s) \<noteq> fd \<and> level (marks_of W (env s))"

definition conducts :: "'e wire \<Rightarrow> ptr \<Rightarrow> int \<Rightarrow> ('a, 'e world) prog \<Rightarrow> bool" where
  "conducts W v fd m \<longleftrightarrow> (\<forall>s a s'. m s = Done a s' \<longrightarrow> levels W v fd s \<longrightarrow> levels W v fd s')"

named_theorems conducts_intros

lemma conducts_bind [conducts_intros]: "conducts W v fd m \<Longrightarrow> (\<And>a. conducts W v fd (f a)) \<Longrightarrow> conducts W v fd (bind m f)"
  by (fastforce simp: conducts_def bind_def split: outcome.splits)

lemma conducts_seq [conducts_intros]: "conducts W v fd m \<Longrightarrow> conducts W v fd n \<Longrightarrow> conducts W v fd (seq m n)"
  by (simp add: seq_def conducts_bind)

lemma conducts_basic [conducts_intros]:
  "conducts W v fd (ret a)" "conducts W v fd (gets f)" "conducts W v fd (set_errno e)" "conducts W v fd (\<lambda>s. OutOfFuel)"
  by (auto simp: conducts_def prog_defs set_errno_def levels_def)

lemma conducts_gets:
  "(\<And>s. fd_slave (globe s) \<noteq> fd \<Longrightarrow> conducts W v fd (k (f s))) \<Longrightarrow> conducts W v fd (bind (gets f) k)"
  unfolding conducts_def levels_def bind_gets by blast

lemma conducts_if [conducts_intros]: "conducts W v fd m \<Longrightarrow> conducts W v fd n \<Longrightarrow> conducts W v fd (if b then m else n)"
  by simp

lemma calm_conducts:
  assumes "\<And>A. calm v fd (at_wire W A) (\<lambda>_. 0) m"
  shows "conducts W v fd m"
  unfolding conducts_def
proof (intro allI impI)
  fix s a s' assume m: "m s = Done a s'" and s: "levels W v fd s"
  have "held (at_wire W (marks_of W (env s))) (\<lambda>_. 0) s s'" using assms m s by (simp add: calm_def levels_def)
  then have "marks_of W (env s') = marks_of W (env s)" "g_vterm (globe s') = g_vterm (globe s)" "fd_master (globe s') = fd_master (globe s)"
    "fd_slave (globe s') = fd_slave (globe s)"
    by (auto simp: held_def follows_def at_wire_def)
  with s show "levels W v fd s'" by (simp add: levels_def)
qed

section \<open>The code of the parent\<close>

lemma hush_fields [simp]:
  "screen_rows (hush C) = screen_rows C" "screen_cols (hush C) = screen_cols C" "cursor (hush C) = cursor C"
  "get_key (hush C) = get_key C" "vt_screen (hush C) = vt_screen C" "out_room (hush C) = out_room C"
  "file_append (hush C) = file_append C" "winch (hush C) = winch C"
  by (simp_all add: hush_def)

lemma hush_perform:
  assumes "\<And>u bs. a \<noteq> Vt_input u bs" "\<And>fd bs. a \<noteq> Write fd bs"
  shows "perform (hush C) a = perform C a"
proof -
  have "act (hush C) e a = act C e a" for e using assms by (simp add: hush_def split: action.split)
  then show ?thesis by (simp add: perform_def)
qed

lemma hush_code:
  "shell_cbs (hush C) = shell_cbs C" "resize_if_asked (hush C) = resize_if_asked C" "status_bar (hush C) = status_bar C"
  "getch (hush C) = getch C" "vterm_key (hush C) = vterm_key C" "vterm_unichar (hush C) = vterm_unichar C"
proof -
  have "oflogf (hush C) lvl f m = oflogf C lvl f m" for lvl f m by (simp add: oflogf_def)
  then have "file_read_cb (hush C) = file_read_cb C" "file_write_cb (hush C) = file_write_cb C"
    by (auto simp: file_read_cb_def file_write_cb_def)
  then show "shell_cbs (hush C) = shell_cbs C" by (simp add: shell_cbs_def)
  have "window_resize (hush C) v fd = window_resize C v fd" for v fd
    by (simp add: window_resize_def maxyx_def hush_perform)
  moreover have "signals (hush C) = signals C" by (simp add: signals_def cong: if_cong)
  ultimately show "resize_if_asked (hush C) = resize_if_asked C" by (simp add: resize_if_asked_def cong: if_cong)
  have "draw_status_bar (hush C) bar = draw_status_bar C bar" for bar
    by (simp add: draw_status_bar_def hush_perform)
  then show "status_bar (hush C) = status_bar C" by (simp add: status_bar_def cong: if_cong)
  show "getch (hush C) = getch C" by (simp add: getch_def)
  show "vterm_key (hush C) = vterm_key C" "vterm_unichar (hush C) = vterm_unichar C"
    by (rule ext, simp add: vterm_key_def vterm_unichar_def hush_perform)+
qed

lemma hush_input: "input_loop k (hush C) = input_loop k C"
proof (induction k)
  case (Suc k)
  have "skip_resize j (hush C) = skip_resize j C" for j
    by (induction j) (rule ext, simp add: hush_code)+
  moreover have "handle_arrows (hush C) = handle_arrows C" by (simp add: handle_arrows_def hush_code cong: if_cong)
  ultimately show ?case using Suc by (simp only: input_loop.simps hush_fields hush_code)
qed simp

section \<open>The loop keeps the wires level\<close>

lemma conducts_handle_output:
  assumes "wired T C W v fd"
  shows "conducts W v fd (handle_output C)"
  unfolding conducts_def
proof (intro allI impI)
  fix s r s' assume run: "handle_output C s = Done r s'" and s: "levels W v fd s"
  obtain x e where x: "fd_read C (env s) fd BUFSZ = (x, e)" by fastforce
  let ?b = "case x of Inl _ \<Rightarrow> [] | Inr bs \<Rightarrow> bs"
  obtain f c d y where m: "at_wire W (f, f, c, d, y) (env s)" "level (f, f, c, d, y)"
    using s by (cases "marks_of W (env s)") (auto simp: levels_def level_def at_wire_def)
  have g: "g_vterm (globe s) = v" "fd_master (globe s) = fd" "fd_slave (globe s) \<noteq> fd" using s by (simp_all add: levels_def)
  have e: "at_wire W (f @ ?b, f, c, d, y) e" by (rule wiredD(4) [OF assms m(1) x])
  have "env s' = (if ?b = [] then e else did C (Vt_input v ?b) e) \<and> globe s' = globe s"
    using run g(1,2) x by (auto simp: handle_output_def perform_def did_def prog_defs set_errno_def split: sum.splits prod.splits if_splits)
  then show "levels W v fd s'"
    using g e m(2) wiredD(5) [OF assms e, of ?b] by (auto simp: levels_def level_def at_wire_def split: if_splits)
qed

lemma conducts_flush:
  assumes "wired T C W v fd"
  shows "conducts W v fd (flush_loop k C)"
  unfolding conducts_def
proof (intro allI impI)
  show "levels W v fd s'" if "flush_loop k C s = Done r s'" "levels W v fd s" for s r s'
    using that
  proof (induction k arbitrary: s)
    case 0
    then show ?case by simp
  next
    case (Suc k)
    let ?n = "minimum (out_fill C (env s) v) BUFSZ"
    obtain bs e where x: "out_read C (env s) v ?n = (bs, e)" by fastforce
    obtain w e2 where w: "act C e (Write fd bs) = (w, e2)" by fastforce
    let ?s1 = "s\<lparr>env := e\<rparr>"
    obtain a b c d y where m: "at_wire W (a, b, c, d, y) (env s)" "level (a, b, c, d, y)"
      using Suc.prems(2) by (cases "marks_of W (env s)") (auto simp: levels_def at_wire_def)
    have g: "g_vterm (globe s) = v" "fd_master (globe s) = fd" "fd_slave (globe s) \<noteq> fd" using Suc.prems(2) by (simp_all add: levels_def)
    have e: "at_wire W (a, b, c @ bs, d, y) e" by (rule wiredD(6) [OF assms m(1) x])
    note e2 = wiredD(7) [OF assms e w]
    have "runs (perform C (Write fd bs)) ?s1 (\<lambda>_ s2. env s2 = e2 \<and> globe s2 = globe s)"
      by (simp add: runs_perform did_def w split: sum.split)
    then obtain u s2 where s2: "perform C (Write fd bs) ?s1 = Done u s2" "env s2 = e2" "globe s2 = globe s"
      by (auto simp: runs_iff)
    have "taken w bs = take (length (taken w bs)) bs" by (auto simp: taken_def min_def split: sum.split)
    then have "level (a, b, c @ bs, d @ [(bs, taken w bs)], y @ taken w bs)" using m(2) by (simp add: level_def)
    then have "levels W v fd s2" using g s2(2,3) e2 by (simp add: levels_def at_wire_def)
    moreover have "s' = s \<or> flush_loop k C s2 = Done r s'"
      using Suc.prems(1) g(1,2) x s2(1)
      by (auto simp: bind_gets seq_modify undefined_prog_def ret_def seq_def [of "perform _ _"] bind_def [of "perform _ _"] split: if_splits)
    ultimately show ?case using Suc.IH Suc.prems(2) by blast
  qed
qed

lemma conducts_code:
  assumes "wired T C W v fd"
  shows "conducts W v fd (tracer_loop k T \<lparr>t_cbs = shell_cbs C\<rparr>)" "conducts W v fd (resize_if_asked C)" "conducts W v fd (status_bar C)"
    "conducts W v fd (input_loop k C)" "conducts W v fd (perform C Refresh)" "n \<noteq> fd \<Longrightarrow> conducts W v fd (perform C (Close n))"
    "conducts W v fd (tracer_init T cbs pid)"
proof -
  note K = wiredD(1) [OF assms] and H = wiredD(2) [OF assms]
  show "conducts W v fd (tracer_loop k T \<lparr>t_cbs = shell_cbs C\<rparr>)"
    using calm_tracer_loop [OF K H, where k = k] by (intro calm_conducts) (simp add: hush_code)
  show "conducts W v fd (resize_if_asked C)" "conducts W v fd (status_bar C)" "conducts W v fd (input_loop k C)"
    using calm_resize [OF H] calm_status_bar [OF H] calm_input_loop [OF H, where k = k] by (simp_all add: calm_conducts hush_code hush_input)
  show "conducts W v fd (perform C Refresh)" "n \<noteq> fd \<Longrightarrow> conducts W v fd (perform C (Close n))"
    using calm_perform [OF H, where a = Refresh] calm_perform [OF H, where a = "Close n"] by (simp_all add: calm_conducts hush_perform)
  show "conducts W v fd (tracer_init T cbs pid)"
    by (rule calm_conducts [OF calm_tracer_init [OF K]])
qed

lemma conducts_poll_turn:
  assumes "wired T C W v fd"
  shows "conducts W v fd (poll_turn k C)"
proof -
  note code = conducts_code [OF assms] and out = conducts_handle_output [OF assms]
  have input: "conducts W v fd (handle_input k C)"
    unfolding handle_input_def by (intro conducts_intros code conducts_flush [OF assms])
  have rest: "conducts W v fd (case answer of
       Poll_failed e \<Rightarrow> seq (set_errno e) (if e = EINTR then ret Again else ret (Leave (- 1)))
     | Poll_none \<Rightarrow> ret Again
     | Poll_ready m i \<Rightarrow> bind (if m AND POLLIN \<noteq> 0 then handle_output C else ret 0) (\<lambda>r.
         if r < 0 then ret (Leave 0) else if m AND POLLHUP \<noteq> 0 then ret (Leave 0)
         else bind (if i AND POLLIN \<noteq> 0 then handle_input k C else ret 0) (\<lambda>r.
           if r < 0 then ret (Leave 0) else seq (perform C Refresh) (ret Again))))" for answer
    by (cases answer) (simp_all only: poll_answer.case, (intro conducts_intros code out input)+)
  show ?thesis
    unfolding conducts_def
  proof (intro allI impI)
    fix s t s' assume run: "poll_turn k C s = Done t s'" and s: "levels W v fd s"
    obtain a e where p: "fd_poll C (env s) fd STDIN_FILENO = (a, e)" by fastforce
    have "marks_of W e = marks_of W (env s)" using wiredD(3) [OF assms, of "marks_of W (env s)" "env s"] p by (simp add: at_wire_def)
    then have s1: "levels W v fd (s\<lparr>env := e\<rparr>)" using s by (simp add: levels_def)
    have "fd_master (globe s) = fd" using s by (simp add: levels_def)
    with run p have "(case a of
       Poll_failed e \<Rightarrow> seq (set_errno e) (if e = EINTR then ret Again else ret (Leave (- 1)))
     | Poll_none \<Rightarrow> ret Again
     | Poll_ready m i \<Rightarrow> bind (if m AND POLLIN \<noteq> 0 then handle_output C else ret 0) (\<lambda>r.
         if r < 0 then ret (Leave 0) else if m AND POLLHUP \<noteq> 0 then ret (Leave 0)
         else bind (if i AND POLLIN \<noteq> 0 then handle_input k C else ret 0) (\<lambda>r.
           if r < 0 then ret (Leave 0) else seq (perform C Refresh) (ret Again)))) (s\<lparr>env := e\<rparr>) = Done t s'"
      by (simp only: poll_turn_def bind_gets prod.case seq_modify)
    with rest [of a] s1 show "levels W v fd s'" unfolding conducts_def by blast
  qed
qed

lemma conducts_master_loop:
  assumes "wired T C W v fd"
  shows "conducts W v fd (master_loop j k T C \<lparr>t_cbs = shell_cbs C\<rparr>)"
proof (induction j)
  case 0
  show ?case by (simp add: conducts_basic)
next
  case (Suc j)
  have "conducts W v fd (case t of Again \<Rightarrow> master_loop j k T C \<lparr>t_cbs = shell_cbs C\<rparr> | Leave r \<Rightarrow> ret r)" for t
    using Suc by (cases t) (simp_all add: conducts_basic)
  then show ?case
    unfolding master_loop.simps by (intro conducts_intros conducts_code [OF assms] conducts_poll_turn [OF assms])
qed

lemma conducts_master_process:
  assumes "wired T C W v fd"
  shows "conducts W v fd (master_process j k T C)"
proof -
  have "conducts W v fd (bind (tracer_init T (shell_cbs C) pid) (\<lambda>(tr, _). master_loop j k T C tr))" for pid
    unfolding conducts_def
  proof (intro allI impI)
    fix s r s' assume run: "bind (tracer_init T (shell_cbs C) pid) (\<lambda>(tr, _). master_loop j k T C tr) s = Done r s'" and s: "levels W v fd s"
    obtain x s1 where x: "tracer_init T (shell_cbs C) pid s = Done x s1" "fst x = \<lparr>t_cbs = shell_cbs C\<rparr>"
      using runs_tracer_init [of T "shell_cbs C" pid s] by (auto simp: runs_iff)
    then have "levels W v fd s1" using conducts_code(7) [OF assms] s unfolding conducts_def by blast
    moreover have "master_loop j k T C \<lparr>t_cbs = shell_cbs C\<rparr> s1 = Done r s'"
      using run x by (cases x) (simp add: bind_def)
    ultimately show "levels W v fd s'" using conducts_master_loop [OF assms] unfolding conducts_def by blast
  qed
  then show ?thesis
    unfolding master_process_def by (intro conducts_gets conducts_seq [OF conducts_code(6) [OF assms]])
qed

section \<open>Property\<close>

text \<open>C15: Over a whole session, on each of its ends, the virtual terminal has been given exactly the bytes that were read from
  the child, in their order. What the virtual terminal had to say has been given to \<open>write\<close> once, in order and without
  another byte, and the child has got of each call the part at its beginning that the call took: the rest of that call is
  lost, and nothing else is. The tracer, the status bar, the keys and the changes of the window in between move no byte.\<close>

theorem session_conducts:
  assumes "session k T C v fd ok left wait" "in_session v fd ok s" "left (env s) < j" "wired T C W v fd"
    and "to_screen W (env s) = from_child W (env s)" "concat (map fst (given W (env s))) = from_term W (env s)"
    and "to_child W (env s) = concat (map snd (given W (env s)))" "list_all (\<lambda>(bs, part). part = take (length part) bs) (given W (env s))"
  shows "runs (master_process j k T C) s (\<lambda>r s'. r \<in> {0, - 1} \<and> to_screen W (env s') = from_child W (env s') \<and>
    concat (map fst (given W (env s'))) = from_term W (env s') \<and> to_child W (env s') = concat (map snd (given W (env s'))) \<and>
    list_all (\<lambda>(bs, part). part = take (length part) bs) (given W (env s')))"
proof -
  have "levels W v fd s" using assms(2,5-8) by (simp add: levels_def level_def marks_of_def in_session_def)
  moreover obtain r s' where "master_process j k T C s = Done r s'" "r \<in> {0, - 1}"
    using runs_master_process [OF assms(1-3)] by (auto simp: runs_iff)
  ultimately show ?thesis
    using conducts_master_process [OF assms(4), of j k] by (auto simp: conducts_def runs_def levels_def level_def marks_of_def)
qed

text \<open>A child that has written some text, and a virtual terminal that has something to answer; a \<open>write\<close> takes two bytes.\<close>

record tube =
  ticks :: nat
  unread :: string
  reply :: string
  marks :: marks

definition tube_act :: "tube \<Rightarrow> action \<Rightarrow> (int + int) \<times> tube" where
  "tube_act e a = (case marks e of (f, s, t, g, c) \<Rightarrow> (case a of
       Vt_input v bs \<Rightarrow> (Inr (int (length bs)), e\<lparr>marks := (f, s @ bs, t, g, c)\<rparr>)
     | Write fd bs \<Rightarrow> (Inr (min 2 (int (length bs))), e\<lparr>marks := (f, s, t, g @ [(bs, take 2 bs)], c @ take 2 bs)\<rparr>)
     | _ \<Rightarrow> (Inr 0, e)))"

definition tube_console :: "tube console" where
  "tube_console = (plain_console True)\<lparr>act := tube_act,
     out_room := (\<lambda>_ _. 1), out_fill := (\<lambda>e _. of_nat (length (take 8 (reply e)))),
     out_read := (\<lambda>e _ n. case marks e of (f, s, t, g, c) \<Rightarrow> let x = take (unat n) (take 8 (reply e)) in
       (x, e\<lparr>reply := drop (unat n) (take 8 (reply e)), marks := (f, s, t @ x, g, c)\<rparr>)),
     fd_read := (\<lambda>e _ n. case marks e of (f, s, t, g, c) \<Rightarrow> let x = take (unat n) (unread e) in
       (if x = [] then (Inl EAGAIN, e) else (Inr x, e\<lparr>unread := drop (unat n) (unread e), marks := (f @ x, s, t, g, c)\<rparr>))),
     fd_poll := (\<lambda>e _ _. if ticks e = 0 then (Poll_ready POLLHUP 0, e) else (Poll_ready POLLIN POLLIN, e\<lparr>ticks := ticks e - 1\<rparr>))\<rparr>"

definition tube_wire :: "tube wire" where
  "tube_wire = \<lparr>from_child = fst \<circ> marks, to_screen = fst \<circ> snd \<circ> marks, from_term = fst \<circ> snd \<circ> snd \<circ> marks,
     given = fst \<circ> snd \<circ> snd \<circ> snd \<circ> marks, to_child = snd \<circ> snd \<circ> snd \<circ> snd \<circ> marks\<rparr>"

lemma tube_marks: "marks_of tube_wire e = marks e"
  by (simp add: marks_of_def tube_wire_def)

lemma tube_fields:
  "act tube_console = tube_act" "get_key tube_console e = (- 1, e)" "winch tube_console e = (False, e)" "file_append tube_console e f m = Some e"
  "screen_cols tube_console e = 39"
  by (simp_all add: tube_console_def plain_console_def)

lemma tube_ticks: "ticks (did tube_console a e) = ticks e" "reply (did tube_console a e) = reply e"
  by (cases a; cases "marks e"; simp add: did_def tube_fields tube_act_def)+

lemma tube_quiet: "marks (did (hush tube_console) a e) = marks e"
  by (cases a; cases "marks e"; simp add: did_def hush_def tube_fields tube_act_def)

lemma tube_wired: "wired idle_kernel tube_console tube_wire v fd"
proof -
  have follows: "follows (at_wire tube_wire A) (\<lambda>_. 0) e e'" if "marks e' = marks e" for A e e'
    using that by (simp add: follows_def at_wire_def tube_marks)
  have "console_follows (hush tube_console) v fd (at_wire tube_wire A) (\<lambda>_. 0)" for A
    by (simp add: console_follows_def follows [OF tube_quiet]) (simp add: tube_fields hush_def)
  moreover have "kernel_follows idle_kernel (at_wire tube_wire A) (\<lambda>_. 0)" for A
    by (simp add: kernel_follows_def idle_kernel_def)
  ultimately show ?thesis
    by (auto simp: wired_def at_wire_def tube_marks tube_console_def tube_act_def did_def taken_def min_def Let_def split: prod.splits)
qed

lemma tube_session: "session 2 idle_kernel tube_console v fd (\<lambda>_. True) ticks (\<lambda>_. 0)"
proof -
  have "appends tube_console ms e = Some e" for ms and e :: tube
    by (induction ms) (simp_all add: tube_fields)
  then have log: "log_ok tube_console e" for e by (simp add: log_ok_def)
  have "console_follows tube_console v fd (\<lambda>_. True) ticks"
    by (simp add: console_follows_def follows_def tube_ticks tube_fields) (simp add: tube_console_def Let_def split: prod.split)
  moreover have "kernel_follows idle_kernel (\<lambda>_. True) ticks"
    by (simp add: kernel_follows_def idle_kernel_def)
  moreover have "terminal_laws tube_console v fd (\<lambda>_. True) (\<lambda>_. 0)"
  proof -
    have fill: "out_fill tube_console e v = of_nat (length (take 8 (reply e)))" for e by (simp add: tube_console_def)
    have small: "unat (of_nat (min (length x) 8) :: u64) = min (length x) 8" for x :: string
      by (rule unat_of_nat_small) simp
    have "case out_read tube_console e v n of (bs, e') \<Rightarrow> length bs = min (unat n) (unat (out_fill tube_console e v)) \<and>
        unat (out_fill tube_console e' v) = unat (out_fill tube_console e v) - length bs" for e n
      by (cases "marks e") (auto simp: fill small tube_console_def Let_def)
    moreover have "out_fill tube_console (did tube_console (Write fd bs) e) v = out_fill tube_console e v" for bs e
      by (simp only: fill tube_ticks)
    moreover have "unat (out_fill tube_console e v) \<le> 8192" for e unfolding fill length_take small by simp
    ultimately show ?thesis by (simp add: terminal_laws_def tube_fields)
  qed
  moreover have "peek_reports idle_kernel" "tracer_ready 2 idle_kernel tube_console e" for e
    by (simp_all add: peek_reports_def tracer_ready_def log idle_kernel_def numeral_2_eq_2)
  moreover have "case fd_poll tube_console e fd STDIN_FILENO of (a, e') \<Rightarrow>
      ticks e' < ticks e \<or> (\<exists>m i. a = Poll_ready m i \<and> m AND POLLHUP \<noteq> 0)" for e
    by (simp add: tube_console_def POLLHUP_def)
  ultimately show ?thesis by (simp add: session_def tube_fields INT_MAX_def)
qed

definition tube_start :: "tube world" where
  "tube_start = (start_at \<lparr>ticks = 3, unread = ''hello'', reply = ''abc'', marks = ([], [], [], [], [])\<rparr>)\<lparr>globe := start_globe\<lparr>fd_slave := 4\<rparr>\<rparr>"

theorem session_conducts_witness:
  "runs (master_process 4 2 idle_kernel tube_console) tube_start (\<lambda>r s'. r \<in> {0, - 1} \<and>
     fst (snd (marks (env s'))) = fst (marks (env s')))"
proof -
  let ?e = "\<lparr>ticks = 3, unread = ''hello'', reply = ''abc'', marks = ([], [], [], [], [])\<rparr> :: tube"
  have "mem_ok tube_start" "never_oom tube_start" using start_at_ok(4,5) [of ?e] by (simp_all add: tube_start_def mem_ok_def never_oom_def)
  then have "in_session null 0 (\<lambda>_. True) tube_start"
    by (simp add: in_session_def tube_start_def start_globe_def)
  from runs_mono [OF session_conducts [OF tube_session this _ tube_wired, where j = 4]] show ?thesis
    by (simp add: tube_start_def start_at_ok tube_wire_def)
qed

end
