(* ===== verification/Check_Fs.thy ===== *)
theory Check_Fs
  imports Manager
begin

text \<open>
  \<open>tests/check_fs.c\<close>: the three tests of \<open>filesystem.c\<close>, run one after the other over a file system of which only what
  the manuals promise is known. \<open>tests/check_mods.c\<close> has a single test, whose body is empty.
\<close>

section \<open>The calls of the tests\<close>

text \<open>What the tests use of the kernel beside what the program does: \<open>mkstemp\<close> gives a descriptor and a name, \<open>mkdtemp\<close> a
  name, \<open>stat\<close> the number of the inode; \<open>fopen\<close> for writing and \<open>fclose\<close> make a file.\<close>

record 'e temp_fs =
  tf_mkstemp :: "'e \<Rightarrow> string \<Rightarrow> int + int \<times> string \<times> 'e"
  tf_mkdtemp :: "'e \<Rightarrow> string \<Rightarrow> int + string \<times> 'e"
  tf_stat :: "'e \<Rightarrow> string \<Rightarrow> int + u64"
  tf_create :: "'e \<Rightarrow> string \<Rightarrow> int + 'e"
  tf_rmdir :: "'e \<Rightarrow> string \<Rightarrow> int + 'e"

definition mkstemp :: "'e temp_fs \<Rightarrow> string \<Rightarrow> (int \<times> string, 'e world) prog" where
  "mkstemp F tmp = bind (gets (\<lambda>s. tf_mkstemp F (env s) tmp)) (\<lambda>r. case r of
       Inl e \<Rightarrow> seq (set_errno e) (ret (- 1, tmp))
     | Inr (fd, name, e') \<Rightarrow> seq (modify (\<lambda>s. s\<lparr>env := e'\<rparr>)) (ret (fd, name)))"

definition mkdtemp :: "'e temp_fs \<Rightarrow> string \<Rightarrow> (string option, 'e world) prog" where
  "mkdtemp F tmp = bind (gets (\<lambda>s. tf_mkdtemp F (env s) tmp)) (\<lambda>r. case r of
       Inl e \<Rightarrow> seq (set_errno e) (ret None)
     | Inr (name, e') \<Rightarrow> seq (modify (\<lambda>s. s\<lparr>env := e'\<rparr>)) (ret (Some name)))"

text \<open>The field \<open>st_ino\<close> of the struct \<open>stat\<close> fills, which stays indeterminate where the call fails.\<close>

definition stat_ino :: "'e temp_fs \<Rightarrow> string \<Rightarrow> (u64 option, 'e world) prog" where
  "stat_ino F x = bind (gets (\<lambda>s. tf_stat F (env s) x)) (\<lambda>r. case r of
       Inl e \<Rightarrow> seq (set_errno e) (ret None)
     | Inr i \<Rightarrow> ret (Some i))"

text \<open>The result of \<open>fopen\<close> is not looked at: \<open>fclose\<close> of NULL where it fails.\<close>

definition make_file :: "'e temp_fs \<Rightarrow> string \<Rightarrow> (unit, 'e world) prog" where
  "make_file F x = bind (gets (\<lambda>s. tf_create F (env s) x)) (\<lambda>r. case r of
       Inl e \<Rightarrow> undefined_prog
     | Inr e' \<Rightarrow> modify (\<lambda>s. s\<lparr>env := e'\<rparr>))"

definition remove_named :: "'e posix \<Rightarrow> string \<Rightarrow> (int, 'e world) prog" where
  "remove_named P x = bind (gets (\<lambda>s. os_remove P (env s) x)) os_result"

definition rmdir :: "'e temp_fs \<Rightarrow> string \<Rightarrow> (int, 'e world) prog" where
  "rmdir F x = bind (gets (\<lambda>s. tf_rmdir F (env s) x)) os_result"

section \<open>The tests\<close>

text \<open>A test ends with the first assertion that does not hold; its value says whether all did.\<close>

definition assert_that :: "bool \<Rightarrow> (bool, 's) prog \<Rightarrow> (bool, 's) prog" where
  "assert_that b k = (if b then k else ret False)"

definition test_abs_path :: "'e posix \<Rightarrow> 'e temp_fs \<Rightarrow> (bool, 'e world) prog" where
  "test_abs_path P F =
     bind (mkstemp F ''XXXXXX'') (\<lambda>(fd, tmp).
     assert_that (fd \<noteq> - 1)
    (bind (abs_path P tmp) (\<lambda>absolute_path.
     assert_that (absolute_path \<noteq> null)
    (bind (load_str absolute_path) (\<lambda>x.
     assert_that (is_absolute x)
    (seq (print_out (tmp @ nl))
    (seq (print_out (x @ nl))
    (bind (stat_ino F tmp) (\<lambda>path_ino.
     bind (stat_ino F x) (\<lambda>abs_ino.
     seq (remove_named P tmp)
    (seq (free absolute_path)
    (bind (reads (\<lambda>s. path_ino)) (\<lambda>i.
     bind (reads (\<lambda>s. abs_ino)) (\<lambda>j.
     assert_that (i = j) (ret True)))))))))))))))"

definition test_abs_path_unparsable :: "'e posix \<Rightarrow> (bool, 'e world) prog" where
  "test_abs_path_unparsable P =
     (let path = ''/'' @ nl @ ''~'' @ [CHR 0x22, CHR 0x27, CHR 0x22] @ ''.k'' in
      bind (abs_path P path) (\<lambda>absolute_path.
      assert_that (absolute_path = null)
     (bind errm_error_code (\<lambda>c.
      assert_that (c \<noteq> 0)
     (bind errm_error_code (\<lambda>c.
      assert_that (c = code_of PARSING_ERROR) (ret True)))))))"

text \<open>\<open>snprintf\<close> into the nine bytes of \<open>file\<close>.\<close>

definition numbered :: "string \<Rightarrow> nat \<Rightarrow> string" where
  "numbered dir i = take 8 (dir @ ''/'' @ show_int (int i))"

definition test_dir_content :: "'e posix \<Rightarrow> 'e temp_fs \<Rightarrow> (bool, 'e world) prog" where
  "test_dir_content P F =
     bind (mkdtemp F ''XXXXXX'') (\<lambda>tmp_folder. case tmp_folder of
       None \<Rightarrow> ret False
     | Some dir \<Rightarrow>
         seq (for_each (\<lambda>i. make_file F (numbered dir i)) [0..<10])
        (bind (dir_content P dir) (\<lambda>(content, content_size).
         seq (free_dir_content content)
        (seq (for_each (\<lambda>i. seq (remove_named P (numbered dir i)) (ret ())) [0..<10])
        (seq (rmdir F dir)
        (bind (reads (\<lambda>s. content_size)) (\<lambda>n.
         assert_that (n = 10) (ret True))))))))"

text \<open>The group \<open>main\<close> hands to the runner, in its order.\<close>

definition check_fs :: "'e posix \<Rightarrow> 'e temp_fs \<Rightarrow> (bool list, 'e world) prog" where
  "check_fs P F =
     bind (test_abs_path P F) (\<lambda>a.
     bind (test_dir_content P F) (\<lambda>b.
     bind (test_abs_path_unparsable P) (\<lambda>c. ret [a, b, c])))"

section \<open>The file system\<close>

datatype node = Leaf u64 | Folder u64

text \<open>A name \<open>mkstemp\<close> and \<open>mkdtemp\<close> make of six characters.\<close>

definition temp_name :: "string \<Rightarrow> bool" where
  "temp_name n \<longleftrightarrow> length n = 6 \<and> literal n \<and> plain n"

text \<open>A newline no quote or escape comes before: \<open>wordexp\<close> refuses a word with one.\<close>

definition bare_newline :: "string \<Rightarrow> bool" where
  "bare_newline p \<longleftrightarrow> CHR 0x0A \<in> set (takeWhile (\<lambda>c. c \<notin> set [CHR 0x22, CHR 0x27, CHR 0x5C, CHR 0x24, CHR 0x60]) p)"

text \<open>The paths the tests use: a new name in the working directory, or a name in a new directory there.\<close>

definition own_path :: "string \<Rightarrow> bool" where
  "own_path x \<longleftrightarrow> temp_name x \<or> (\<exists>d m. x = joined d m \<and> temp_name d \<and> plain m)"

text \<open>\<open>V e\<close> is what lies at the absolute paths, and \<open>c\<close> the working directory. \<open>ok\<close> are the states of the kernel in which the
  process may change that directory and nothing goes wrong, and \<open>room\<close> is how many files there is still room for: as long as
  there is room a file can be made, and what the tests have made they can remove again.\<close>

definition temp_laws ::
  "'e posix \<Rightarrow> 'e temp_fs \<Rightarrow> ('e \<Rightarrow> string \<Rightarrow> node option) \<Rightarrow> string \<Rightarrow> ('e \<Rightarrow> bool) \<Rightarrow> ('e \<Rightarrow> nat) \<Rightarrow> bool" where
  "temp_laws P F V c ok room \<longleftrightarrow> (\<forall>e. ok e \<longrightarrow> os_getcwd P e = Inr c \<and> (\<forall>p. literal p \<longrightarrow> os_wordexp P e p = Some [p]) \<and>
     (\<forall>p. bare_newline p \<longrightarrow> os_wordexp P e p = None) \<and>
     (\<forall>x i. own_path x \<longrightarrow> V e (joined c x) = Some (Leaf i) \<longrightarrow> tf_stat F e x = Inr i \<and> tf_stat F e (joined c x) = Inr i \<and>
       (\<exists>e'. os_remove P e x = Inr e' \<and> ok e' \<and> room e \<le> room e' \<and> V e' = (V e)(joined c x := None))) \<and>
     (0 < room e \<longrightarrow> (\<exists>fd n e' i. tf_mkstemp F e ''XXXXXX'' = Inr (fd, n, e') \<and> 0 \<le> fd \<and> temp_name n \<and>
       V e (joined c n) = None \<and> ok e' \<and> room e \<le> Suc (room e') \<and> V e' = (V e)(joined c n \<mapsto> Leaf i))) \<and>
     (0 < room e \<longrightarrow> (\<exists>n e' i. tf_mkdtemp F e ''XXXXXX'' = Inr (n, e') \<and> temp_name n \<and> V e (joined c n) = None \<and>
       (\<forall>m. V e (joined c (joined n m)) = None) \<and> ok e' \<and> room e \<le> Suc (room e') \<and> V e' = (V e)(joined c n \<mapsto> Folder i))) \<and>
     (\<forall>d i. temp_name d \<longrightarrow> V e (joined c d) = Some (Folder i) \<longrightarrow>
       (\<forall>m. plain m \<longrightarrow> V e (joined c (joined d m)) = None \<longrightarrow> 0 < room e \<longrightarrow>
         (\<exists>j e'. tf_create F e (joined d m) = Inr e' \<and> ok e' \<and> room e \<le> Suc (room e') \<and>
           V e' = (V e)(joined c (joined d m) \<mapsto> Leaf j))) \<and>
       (\<exists>names. os_opendir P e d = Inr names \<and> distinct (visible names) \<and>
         set (visible names) = {m. plain m \<and> V e (joined c (joined d m)) \<noteq> None}) \<and>
       ((\<forall>m. V e (joined c (joined d m)) = None) \<longrightarrow>
         (\<exists>e'. tf_rmdir F e d = Inr e' \<and> ok e' \<and> V e' = (V e)(joined c d := None)))))"

lemma temp_lawsD:
  assumes "temp_laws P F V c ok room" "ok e"
  shows "os_getcwd P e = Inr c" "literal p \<Longrightarrow> os_wordexp P e p = Some [p]" "bare_newline p \<Longrightarrow> os_wordexp P e p = None"
    "own_path x \<Longrightarrow> V e (joined c x) = Some (Leaf i) \<Longrightarrow> tf_stat F e x = Inr i \<and> tf_stat F e (joined c x) = Inr i"
    "own_path x \<Longrightarrow> V e (joined c x) = Some (Leaf i) \<Longrightarrow>
       \<exists>e'. os_remove P e x = Inr e' \<and> ok e' \<and> room e \<le> room e' \<and> V e' = (V e)(joined c x := None)"
    "0 < room e \<Longrightarrow> \<exists>fd n e' i. tf_mkstemp F e ''XXXXXX'' = Inr (fd, n, e') \<and> 0 \<le> fd \<and> temp_name n \<and>
       V e (joined c n) = None \<and> ok e' \<and> room e \<le> Suc (room e') \<and> V e' = (V e)(joined c n \<mapsto> Leaf i)"
    "0 < room e \<Longrightarrow> \<exists>n e' i. tf_mkdtemp F e ''XXXXXX'' = Inr (n, e') \<and> temp_name n \<and> V e (joined c n) = None \<and>
       (\<forall>m. V e (joined c (joined n m)) = None) \<and> ok e' \<and> room e \<le> Suc (room e') \<and> V e' = (V e)(joined c n \<mapsto> Folder i)"
    "temp_name d \<Longrightarrow> V e (joined c d) = Some (Folder i) \<Longrightarrow> plain m \<Longrightarrow> V e (joined c (joined d m)) = None \<Longrightarrow> 0 < room e \<Longrightarrow>
       \<exists>j e'. tf_create F e (joined d m) = Inr e' \<and> ok e' \<and> room e \<le> Suc (room e') \<and> V e' = (V e)(joined c (joined d m) \<mapsto> Leaf j)"
    "temp_name d \<Longrightarrow> V e (joined c d) = Some (Folder i) \<Longrightarrow> \<exists>names. os_opendir P e d = Inr names \<and> distinct (visible names) \<and>
       set (visible names) = {m. plain m \<and> V e (joined c (joined d m)) \<noteq> None}"
    "temp_name d \<Longrightarrow> V e (joined c d) = Some (Folder i) \<Longrightarrow> (\<And>m. V e (joined c (joined d m)) = None) \<Longrightarrow>
       \<exists>e'. tf_rmdir F e d = Inr e' \<and> ok e' \<and> V e' = (V e)(joined c d := None)"
proof -
  note laws = assms(1) [unfolded temp_laws_def, rule_format, OF assms(2)]
  note rest = laws [THEN conjunct2, THEN conjunct2, THEN conjunct2]
  note more = rest [THEN conjunct2, THEN conjunct2, THEN conjunct2]
  show "os_getcwd P e = Inr c" "literal p \<Longrightarrow> os_wordexp P e p = Some [p]" "bare_newline p \<Longrightarrow> os_wordexp P e p = None"
    using laws by blast+
  show "own_path x \<Longrightarrow> V e (joined c x) = Some (Leaf i) \<Longrightarrow> tf_stat F e x = Inr i \<and> tf_stat F e (joined c x) = Inr i"
    "own_path x \<Longrightarrow> V e (joined c x) = Some (Leaf i) \<Longrightarrow>
       \<exists>e'. os_remove P e x = Inr e' \<and> ok e' \<and> room e \<le> room e' \<and> V e' = (V e)(joined c x := None)"
    using rest [THEN conjunct1] by blast+
  show "0 < room e \<Longrightarrow> \<exists>fd n e' i. tf_mkstemp F e ''XXXXXX'' = Inr (fd, n, e') \<and> 0 \<le> fd \<and> temp_name n \<and>
       V e (joined c n) = None \<and> ok e' \<and> room e \<le> Suc (room e') \<and> V e' = (V e)(joined c n \<mapsto> Leaf i)"
    using rest [THEN conjunct2, THEN conjunct1] by (rule mp)
  show "0 < room e \<Longrightarrow> \<exists>n e' i. tf_mkdtemp F e ''XXXXXX'' = Inr (n, e') \<and> temp_name n \<and> V e (joined c n) = None \<and>
       (\<forall>m. V e (joined c (joined n m)) = None) \<and> ok e' \<and> room e \<le> Suc (room e') \<and> V e' = (V e)(joined c n \<mapsto> Folder i)"
    using rest [THEN conjunct2, THEN conjunct2, THEN conjunct1] by (rule mp)
  assume d: "temp_name d" "V e (joined c d) = Some (Folder i)"
  note folder = more [rule_format, OF d]
  show "plain m \<Longrightarrow> V e (joined c (joined d m)) = None \<Longrightarrow> 0 < room e \<Longrightarrow>
       \<exists>j e'. tf_create F e (joined d m) = Inr e' \<and> ok e' \<and> room e \<le> Suc (room e') \<and> V e' = (V e)(joined c (joined d m) \<mapsto> Leaf j)"
    using folder [THEN conjunct1] by blast
  show "\<exists>names. os_opendir P e d = Inr names \<and> distinct (visible names) \<and>
       set (visible names) = {m. plain m \<and> V e (joined c (joined d m)) \<noteq> None}"
    by (rule folder [THEN conjunct2, THEN conjunct1])
  show "(\<And>m. V e (joined c (joined d m)) = None) \<Longrightarrow> \<exists>e'. tf_rmdir F e d = Inr e' \<and> ok e' \<and> V e' = (V e)(joined c d := None)"
    using folder [THEN conjunct2, THEN conjunct2] by blast
qed

text \<open>What a test leaves as it found it.\<close>

definition leaves :: "('e \<Rightarrow> string \<Rightarrow> node option) \<Rightarrow> ('e \<Rightarrow> bool) \<Rightarrow> 'e world \<Rightarrow> 'e world \<Rightarrow> bool" where
  "leaves V ok s s' \<longleftrightarrow> V (env s') = V (env s) \<and> ok (env s') \<and> blocks s' = blocks s \<and> healthy s' \<and> balanced s s'"

lemma leaves_trans: "leaves V ok s s1 \<Longrightarrow> leaves V ok s1 s2 \<Longrightarrow> leaves V ok s s2"
  by (auto simp: leaves_def intro: balanced_trans)

lemma defers_ok_env: "defers_ok (s\<lparr>env := e\<rparr>) F \<longleftrightarrow> defers_ok s F" for s :: "'e world"
  by (simp add: defers_ok_def)

lemma temp_name_path: "temp_name n \<Longrightarrow> resolved c n = joined c n" "temp_name n \<Longrightarrow> c_string n"
  by (simp_all add: temp_name_def plain_relative literal_c_string)

lemma absolute_resolved: "is_absolute c \<Longrightarrow> resolved c' (joined c n) = joined c n"
  by (simp add: resolved_def is_absolute_joined)

section \<open>The test of \<open>abs_path\<close>\<close>

lemma runs_test_abs_path:
  fixes s :: "'e world"
  assumes "temp_laws P F V c ok room" "is_absolute c" "c_string c" "length c < 2 ^ 63" "stack_ok s" "curr s < 9" "healthy s"
    and "ok (env s)" "0 < room (env s)"
  shows "runs (test_abs_path P F) s (\<lambda>r s'. r \<and> leaves V ok s s' \<and> room (env s) \<le> Suc (room (env s')))"
proof -
  obtain fd n e1 i where new: "tf_mkstemp F (env s) ''XXXXXX'' = Inr (fd, n, e1)" "ok e1" "room (env s) \<le> Suc (room e1)"
    and n: "0 \<le> fd" "temp_name n" "V (env s) (joined c n) = None" "V e1 = (V (env s))(joined c n \<mapsto> Leaf i)"
    using temp_lawsD(6) [OF assms(1,8,9)] by blast
  note laws = temp_lawsD [OF assms(1) new(2)]
  let ?s = "s\<lparr>env := e1\<rparr>" and ?R = "joined c n"
  have R: "resolved c n = ?R" "c_string n" "literal n" "length n = 6" using n(2) temp_name_path by (simp_all add: temp_name_def)
  have fits: "c_string ?R" using R(2) assms(3) by (auto simp: joined_def c_string_def)
  have here: "own_path n" "V e1 ?R = Some (Leaf i)" using n(2,4) by (simp_all add: own_path_def)
  obtain e2 where e2: "os_remove P e1 n = Inr e2" "V e2 = V (env s)" "ok e2" "room e1 \<le> room e2"
    using laws(5) [OF here] n(3,4) by (auto simp: fun_upd_idem)
  have ok: "stack_ok ?s" "curr ?s < 9" "mem_ok ?s" "never_oom ?s"
    using assms(5-7) by (simp_all add: stack_ok_def healthy_def mem_ok_def never_oom_def)
  have rel: "is_absolute n \<or> never_oom ?s \<and> os_getcwd P (env ?s) = Inr c \<and> c_string c \<and> length n + length c + 8 < 2 ^ 64"
    using ok laws(1) assms(3,4) R(4) by simp
  have word: "os_wordexp P (env ?s) n = Some (n # [])" using laws(2) R(3) by simp
  let ?rest = "\<lambda>absolute_path.
     assert_that (absolute_path \<noteq> null)
    (bind (load_str absolute_path) (\<lambda>x.
     assert_that (is_absolute x)
    (seq (print_out (n @ nl))
    (seq (print_out (x @ nl))
    (bind (stat_ino F n) (\<lambda>path_ino.
     bind (stat_ino F x) (\<lambda>abs_ino.
     seq (remove_named P n)
    (seq (free absolute_path)
    (bind (reads (\<lambda>s. path_ino)) (\<lambda>i.
     bind (reads (\<lambda>s. abs_ino)) (\<lambda>j.
     assert_that (i = j) (ret True))))))))))))"
  have "runs (abs_path P n) ?s (\<lambda>p s1. runs (?rest p) s1 (\<lambda>r s'. r \<and> leaves V ok s s' \<and> room (env s) \<le> Suc (room (env s'))))"
  proof (rule runs_mono [OF runs_abs_path [OF ok(1-3) word R(2) _ _ rel]])
    show "Suc (length n) < 2 ^ 64" "length [n] < 2 ^ 64" using R(4) by simp_all
    fix p and s1 :: "'e world"
    assume "called ?s s1 \<and> string_result ?s (resolved c n) p s1 \<and> (never_oom ?s \<longrightarrow> err_code s1 = No_Error)"
    then have s1: "called ?s s1" "made_string ?s ?R p s1" using ok(4) R(1) by (auto simp: string_result_def)
    then have w1: "env s1 = e1" "mem_ok s1" "never_oom s1" "balanced s s1" "next_blk s \<le> next_blk s1"
      using quiet_never_oom [OF ok(4)] by (simp_all add: called_def quiet_def proc_step_def balanced_def defers_ok_env)
    obtain b pad where p: "p = Ptr (Blk b) 0" "blocks s (Blk b) = None" "blocks s1 = (blocks s)(Blk b \<mapsto> cstr ?R @ replicate pad Undef)"
      using s1(2) by (auto simp: made_string_def)
    have restored: "(blocks s1)(Blk b := None) = blocks s" using p(2,3) by (simp add: fun_upd_idem)
    have str: "str_of_ptr s1 p = Some ?R" "p \<noteq> null" using made_string_str [OF s1(2) fits] by simp_all
    have "leaves V ok s (s1\<lparr>stdout_of := x, env := e2, blocks := (blocks s1)(Blk b := None)\<rparr>)" for x
      using w1 assms(7) e2(2,3) by (auto simp: leaves_def restored healthy_def mem_ok_def never_oom_def balanced_def)
    moreover have "room (env s) \<le> Suc (room e2)" using new(3) e2(4) by simp
    ultimately show "runs (?rest p) s1 (\<lambda>r s'. r \<and> leaves V ok s s' \<and> room (env s) \<le> Suc (room (env s')))"
      using str w1(1) p(1,3) laws(4) [OF here] e2(1) is_absolute_joined [OF assms(2), of n]
      by (simp add: assert_that_def runs_simps stat_ino_def remove_named_def os_result_def)
  qed
  then show ?thesis
    using n(1) new(1)
    by (simp add: test_abs_path_def mkstemp_def runs_bind [of "gets _"] runs_bind [of "seq _ _"] runs_seq runs_gets runs_modify runs_ret
        runs_bind [of "bind _ _"] assert_that_def [of "_ \<noteq> (- 1)"] runs_bind [of "abs_path _ _"])
qed

section \<open>The test of \<open>dir_content\<close>\<close>

definition digit :: "nat \<Rightarrow> string" where
  "digit i = [char_of (48 + i)]"

lemma digits: "i < 10 \<Longrightarrow> plain (digit i)" "i < 10 \<Longrightarrow> j < 10 \<Longrightarrow> digit i = digit j \<longleftrightarrow> i = j"
proof -
  have few: "i = 0 \<or> i = 1 \<or> i = 2 \<or> i = 3 \<or> i = 4 \<or> i = 5 \<or> i = 6 \<or> i = 7 \<or> i = 8 \<or> i = 9" if "i < 10" for i :: nat
    using that by auto
  show "plain (digit i)" if "i < 10"
    using few [OF that] by (auto simp: plain_def digit_def c_string_def char_of_def)
  show "digit i = digit j \<longleftrightarrow> i = j" if "i < 10" "j < 10"
    using that by (simp add: digit_def char_of_eq_iff take_bit_nat_eq_self)
qed

lemma numbered_digit: "temp_name d \<Longrightarrow> i < 10 \<Longrightarrow> numbered d i = joined d (digit i)"
  by (simp add: numbered_def joined_def digit_def temp_name_def show_int_def)

definition file_at :: "string \<Rightarrow> string \<Rightarrow> nat \<Rightarrow> string" where
  "file_at c d i = joined c (joined d (digit i))"

lemma file_at_eq: "i < 10 \<Longrightarrow> j < 10 \<Longrightarrow> file_at c d i = file_at c d j \<longleftrightarrow> i = j"
  by (simp add: file_at_def joined_def digits)

lemma relative_file: "temp_name d \<Longrightarrow> resolved c (joined d m) = joined c (joined d m)"
  by (cases d) (auto simp: temp_name_def plain_def resolved_def is_absolute_def joined_def)

lemma not_folder: "joined c d \<noteq> joined c (joined d m)"
  by (simp add: joined_def)

text \<open>Making the files one after the other, and removing them.\<close>

definition with_files :: "string set \<Rightarrow> (string \<Rightarrow> node option) \<Rightarrow> (string \<Rightarrow> node option) \<Rightarrow> bool" where
  "with_files A D D' \<longleftrightarrow> (\<forall>x. if x \<in> A then \<exists>i. D' x = Some (Leaf i) else D' x = D x)"

lemma with_files_more: "with_files A (D(x \<mapsto> Leaf k)) D' \<Longrightarrow> with_files (insert x A) D D'"
  unfolding with_files_def
proof (intro allI)
  fix y assume "\<forall>y. if y \<in> A then \<exists>i. D' y = Some (Leaf i) else D' y = (D(x \<mapsto> Leaf k)) y"
  then have "if y \<in> A then \<exists>i. D' y = Some (Leaf i) else D' y = (D(x \<mapsto> Leaf k)) y" ..
  then show "if y \<in> insert x A then \<exists>i. D' y = Some (Leaf i) else D' y = D y"
    by (cases "y \<in> A"; cases "y = x") auto
qed

lemma runs_make_files:
  fixes s :: "'e world"
  assumes "temp_laws P F V c ok room" "temp_name d"
  shows "V (env s) (joined c d) = Some (Folder j) \<Longrightarrow> distinct ks \<Longrightarrow> \<forall>i\<in>set ks. i < 10 \<and> V (env s) (file_at c d i) = None \<Longrightarrow>
    ok (env s) \<Longrightarrow> length ks \<le> room (env s) \<Longrightarrow>
    runs (for_each (\<lambda>i. make_file F (numbered d i)) ks) s (\<lambda>_ s'. \<exists>e'. s' = s\<lparr>env := e'\<rparr> \<and> ok e' \<and>
      with_files (file_at c d ` set ks) (V (env s)) (V e'))"
proof (induction ks arbitrary: s)
  case Nil
  show ?case using Nil.prems(4) by (auto simp: runs_ret with_files_def intro: exI [of _ "env s"])
next
  case (Cons i ks)
  have i: "i < 10" "V (env s) (file_at c d i) = None" using Cons.prems(3) by simp_all
  have pos: "0 < room (env s)" using Cons.prems(5) by simp
  obtain k e1 where e1: "tf_create F (env s) (joined d (digit i)) = Inr e1" "V e1 = (V (env s))(file_at c d i \<mapsto> Leaf k)"
      "ok e1" "room (env s) \<le> Suc (room e1)"
    using temp_lawsD(8) [OF assms(1) Cons.prems(4) assms(2) Cons.prems(1) digits(1) [OF i(1)]] i(2) pos unfolding file_at_def by blast
  have "runs (for_each (\<lambda>i. make_file F (numbered d i)) ks) (s\<lparr>env := e1\<rparr>) (\<lambda>_ s'. \<exists>e'. s' = s\<lparr>env := e1\<rparr>\<lparr>env := e'\<rparr> \<and> ok e' \<and>
      with_files (file_at c d ` set ks) (V (env (s\<lparr>env := e1\<rparr>))) (V e'))"
  proof (rule Cons.IH)
    show "V (env (s\<lparr>env := e1\<rparr>)) (joined c d) = Some (Folder j)"
      using Cons.prems(1) not_folder [of c d "digit i"] by (simp add: e1(2) file_at_def)
    show "\<forall>i\<in>set ks. i < 10 \<and> V (env (s\<lparr>env := e1\<rparr>)) (file_at c d i) = None"
      using Cons.prems(2,3) i(1) by (auto simp: e1(2) file_at_eq)
  qed (use Cons.prems(2,5) e1(3,4) in simp_all)
  then show ?case
    using e1(1) numbered_digit [OF assms(2) i(1)]
    by (simp add: runs_seq make_file_def runs_bind runs_gets runs_modify e1(2)) (auto dest: with_files_more elim!: runs_mono)
qed

lemma runs_remove_files:
  fixes s :: "'e world"
  assumes "temp_laws P F V c ok room" "temp_name d"
  shows "distinct ks \<Longrightarrow> \<forall>i\<in>set ks. i < 10 \<and> (\<exists>k. V (env s) (file_at c d i) = Some (Leaf k)) \<Longrightarrow> ok (env s) \<Longrightarrow>
    runs (for_each (\<lambda>i. seq (remove_named P (numbered d i)) (ret ())) ks) s (\<lambda>_ s'. \<exists>e'. s' = s\<lparr>env := e'\<rparr> \<and> ok e' \<and>
      V e' = (\<lambda>x. if x \<in> file_at c d ` set ks then None else V (env s) x))"
proof (induction ks arbitrary: s)
  case Nil
  show ?case using Nil.prems(3) by (auto simp: runs_ret intro: exI [of _ "env s"])
next
  case (Cons i ks)
  then obtain k where i: "i < 10" "V (env s) (joined c (joined d (digit i))) = Some (Leaf k)"
    by (auto simp: file_at_def)
  have "own_path (joined d (digit i))" using assms(2) digits(1) [OF i(1)] by (auto simp: own_path_def)
  then obtain e1 where e1: "os_remove P (env s) (joined d (digit i)) = Inr e1" "V e1 = (V (env s))(file_at c d i := None)" "ok e1"
    using temp_lawsD(5) [OF assms(1) Cons.prems(3) _ i(2)] unfolding file_at_def by blast
  have "runs (for_each (\<lambda>i. seq (remove_named P (numbered d i)) (ret ())) ks) (s\<lparr>env := e1\<rparr>) (\<lambda>_ s'. \<exists>e'. s' = s\<lparr>env := e1\<rparr>\<lparr>env := e'\<rparr> \<and> ok e' \<and>
      V e' = (\<lambda>x. if x \<in> file_at c d ` set ks then None else V (env (s\<lparr>env := e1\<rparr>)) x))"
    by (rule Cons.IH) (use Cons.prems i(1) e1(3) in \<open>auto simp: e1(2) file_at_eq\<close>)
  then show ?case
    using e1(1) numbered_digit [OF assms(2) i(1)]
    by (auto simp: runs_seq runs_ret remove_named_def os_result_def runs_bind runs_gets runs_modify e1(2) fun_eq_iff elim!: runs_mono)
qed

text \<open>The directory with its ten files, as \<open>dir_content\<close> finds it.\<close>

lemma ten_names:
  assumes "temp_laws P F V c ok room" "ok e'" "temp_name d" "V e (joined c d) = Some (Folder j)" "\<forall>m. V e (joined c (joined d m)) = None"
    and "with_files (file_at c d ` {..<10}) (V e) (V e')"
  obtains names where "os_opendir P e' d = Inr names" "name_room (visible names)" "length (visible names) = 10"
proof -
  have off: "joined c d \<notin> file_at c d ` {..<10}" using not_folder by (auto simp: file_at_def)
  then have folder: "V e' (joined c d) = Some (Folder j)"
    using assms(4,6) by (auto simp: with_files_def)
  have "V e' (joined c (joined d m)) \<noteq> None \<longleftrightarrow> m \<in> digit ` {..<10}" for m
  proof -
    have mem: "joined c (joined d m) \<in> file_at c d ` {..<10} \<longleftrightarrow> m \<in> digit ` {..<10}"
      by (auto simp: file_at_def joined_def)
    have "if joined c (joined d m) \<in> file_at c d ` {..<10} then \<exists>i. V e' (joined c (joined d m)) = Some (Leaf i)
        else V e' (joined c (joined d m)) = V e (joined c (joined d m))"
      using assms(6) unfolding with_files_def by blast
    then show ?thesis using assms(5) unfolding mem by (auto split: if_splits)
  qed
  then have "{m. plain m \<and> V e' (joined c (joined d m)) \<noteq> None} = digit ` {..<10}"
    using digits(1) by auto
  then obtain names where names: "os_opendir P e' d = Inr names" "distinct (visible names)" "set (visible names) = digit ` {..<10}"
    using temp_lawsD(9) [OF assms(1,2,3) folder] by auto
  have "card (digit ` {..<10}) = 10"
    by (subst card_image) (auto simp: inj_on_def digits(2))
  then have "length (visible names) = 10" using names(2,3) distinct_card [of "visible names"] by simp
  moreover have "name_room (visible names)"
    using digits(1) names(3) \<open>length (visible names) = 10\<close> by (auto simp: name_room_def plain_def)
  ultimately show thesis using that names(1) by blast
qed

text \<open>From the listing on.\<close>

lemma runs_clear_up:
  fixes s :: "'e world"
  assumes "temp_laws P F V c ok room" "temp_name d" "V (env s) (joined c d) = None" "\<forall>m. V (env s) (joined c (joined d m)) = None"
    and "V e1 = (V (env s))(joined c d \<mapsto> Folder j)" "with_files (file_at c d ` {..<10}) (V e1) (V (env s1))"
    and "blocks s1 = blocks s" "healthy s1" "balanced s s1" "ok (env s1)"
  shows "runs (seq (for_each (\<lambda>i. seq (remove_named P (numbered d i)) (ret ())) [0..<10])
        (seq (rmdir F d)
        (bind (reads (\<lambda>s. Some (10 :: u64))) (\<lambda>n. assert_that (n = 10) (ret True))))) s1 (\<lambda>r s'. r \<and> leaves V ok s s')"
proof -
  have ten: "set [0..<10] = {..<10 :: nat}" by auto
  have off: "joined c d \<notin> file_at c d ` {..<10}" using not_folder by (auto simp: file_at_def)
  have at: "if x \<in> file_at c d ` {..<10} then \<exists>i. V (env s1) x = Some (Leaf i) else V (env s1) x = V e1 x" for x
    using assms(6) unfolding with_files_def by blast
  have files: "\<exists>k. V (env s1) (file_at c d i) = Some (Leaf k)" if "i < 10" for i
    using at [of "file_at c d i"] that by auto
  have "runs (for_each (\<lambda>i. seq (remove_named P (numbered d i)) (ret ())) [0..<10]) s1 (\<lambda>_ s'. \<exists>e'. s' = s1\<lparr>env := e'\<rparr> \<and> ok e' \<and>
      V e' = (\<lambda>x. if x \<in> file_at c d ` set [0..<10] then None else V (env s1) x))"
    by (rule runs_remove_files [OF assms(1,2)]) (use files assms(10) in auto)
  then have "runs (for_each (\<lambda>i. seq (remove_named P (numbered d i)) (ret ())) [0..<10]) s1 (\<lambda>_ s'. runs (rmdir F d) s'
      (\<lambda>_ s'. leaves V ok s s'))"
  proof (rule runs_mono)
    fix u s' assume "\<exists>e'. s' = s1\<lparr>env := e'\<rparr> \<and> ok e' \<and> V e' = (\<lambda>x. if x \<in> file_at c d ` set [0..<10] then None else V (env s1) x)"
    then obtain e2 where e2: "s' = s1\<lparr>env := e2\<rparr>" "V e2 = (\<lambda>x. if x \<in> file_at c d ` {..<10} then None else V (env s1) x)" "ok e2"
      unfolding ten by blast
    have below: "V (env s) (file_at c d i) = None" for i using assms(4) by (simp add: file_at_def)
    have V2: "V e2 = V e1"
    proof
      fix x show "V e2 x = V e1 x"
      proof (cases "x \<in> file_at c d ` {..<10}")
        case True
        then have "x \<noteq> joined c d" "V (env s) x = None" using off below by (blast, auto)
        with True show ?thesis by (simp add: e2(2) assms(5))
      next
        case False
        with at [of x] show ?thesis by (simp add: e2(2))
      qed
    qed
    have "V e2 (joined c d) = Some (Folder j)" "\<And>m. V e2 (joined c (joined d m)) = None"
      using assms(4) not_folder [symmetric] by (simp_all add: V2 assms(5))
    then obtain e3 where e3: "tf_rmdir F e2 d = Inr e3" "V e3 = (V e2)(joined c d := None)" "ok e3"
      using temp_lawsD(10) [OF assms(1) e2(3) assms(2)] by blast
    have "V e3 = V (env s)" using assms(3) by (auto simp: e3(2) V2 assms(5) fun_eq_iff)
    moreover have "healthy (s1\<lparr>env := e3\<rparr>)" "balanced s (s1\<lparr>env := e3\<rparr>)"
      using assms(8,9) by (simp_all add: healthy_def mem_ok_def never_oom_def balanced_def)
    ultimately show "runs (rmdir F d) s' (\<lambda>_ s'. leaves V ok s s')"
      using e3(1,3) assms(7) by (simp add: e2(1) rmdir_def os_result_def runs_simps leaves_def)
  qed
  then show ?thesis
    unfolding runs_seq
    by (rule runs_mono) (auto simp: runs_bind runs_reads assert_that_def runs_ret elim!: runs_mono)
qed

lemma runs_test_dir_content:
  fixes s :: "'e world"
  assumes "temp_laws P F V c ok room" "stack_ok s" "curr s < 8" "healthy s" "ok (env s)" "11 \<le> room (env s)"
  shows "runs (test_dir_content P F) s (\<lambda>r s'. r \<and> leaves V ok s s')"
proof -
  have "0 < room (env s)" using assms(6) by simp
  then obtain d e1 j where new: "tf_mkdtemp F (env s) ''XXXXXX'' = Inr (d, e1)" "ok e1" "room (env s) \<le> Suc (room e1)"
    and d: "temp_name d" "V (env s) (joined c d) = None" "\<forall>m. V (env s) (joined c (joined d m)) = None"
    "V e1 = (V (env s))(joined c d \<mapsto> Folder j)"
    using temp_lawsD(7) [OF assms(1,5)] by blast
  have empty: "V e1 (joined c d) = Some (Folder j)" "\<forall>m. V e1 (joined c (joined d m)) = None"
    using d(3) not_folder [symmetric] by (simp_all add: d(4))
  let ?tail = "\<lambda>content_size. seq (for_each (\<lambda>i. seq (remove_named P (numbered d i)) (ret ())) [0..<10])
        (seq (rmdir F d) (bind (reads (\<lambda>s. content_size)) (\<lambda>n. assert_that (n = (10 :: u64)) (ret True))))"
  let ?rest = "bind (dir_content P d) (\<lambda>(content, content_size). seq (free_dir_content content) (?tail content_size))"
  have "runs (for_each (\<lambda>i. make_file F (numbered d i)) [0..<10]) (s\<lparr>env := e1\<rparr>) (\<lambda>_ s'. \<exists>e'. s' = s\<lparr>env := e1\<rparr>\<lparr>env := e'\<rparr> \<and> ok e' \<and>
      with_files (file_at c d ` set [0..<10]) (V (env (s\<lparr>env := e1\<rparr>))) (V e'))"
    by (rule runs_make_files [OF assms(1) d(1)]) (use empty new(2,3) assms(6) in \<open>auto simp: file_at_def\<close>)
  then have "runs (for_each (\<lambda>i. make_file F (numbered d i)) [0..<10]) (s\<lparr>env := e1\<rparr>)
      (\<lambda>_ s'. runs ?rest s' (\<lambda>r s'. r \<and> leaves V ok s s'))"
  proof (rule runs_mono)
    fix u s' assume "\<exists>e'. s' = s\<lparr>env := e1\<rparr>\<lparr>env := e'\<rparr> \<and> ok e' \<and> with_files (file_at c d ` set [0..<10]) (V (env (s\<lparr>env := e1\<rparr>))) (V e')"
    moreover have ten: "set [0..<10] = {..<10 :: nat}" by auto
    ultimately obtain e2 where e2: "s' = s\<lparr>env := e2\<rparr>" "with_files (file_at c d ` {..<10}) (V e1) (V e2)" "ok e2"
      unfolding ten by auto
    obtain names where names: "os_opendir P e2 d = Inr names" "name_room (visible names)" "length (visible names) = 10"
      using ten_names [OF assms(1) e2(3) d(1) empty e2(2)] by blast
    let ?s2 = "s\<lparr>env := e2\<rparr>"
    have ok: "stack_ok ?s2" "curr ?s2 < 8" "healthy ?s2" "os_wordexp P (env ?s2) d = Some (d # [])" "os_opendir P (env ?s2) d = Inr names"
      using assms(2-4) temp_lawsD(2) [OF assms(1) e2(3)] d(1) names(1) by (simp_all add: stack_ok_def healthy_def mem_ok_def never_oom_def temp_name_def)
    have len: "Suc (length d) < 2 ^ 64" "length [d] < 2 ^ 64" using d(1) by (simp_all add: temp_name_def)
    have "runs (dir_content P d) ?s2 (\<lambda>(content, content_size) s3. runs (seq (free_dir_content content) (?tail content_size)) s3
        (\<lambda>r s'. r \<and> leaves V ok s s'))"
    proof (rule runs_mono [OF runs_dir_content [OF ok(1-4) temp_name_path(2) [OF d(1)] len ok(5) names(2)]])
      fix r s3 assume "listing ?s2 (visible names) r s3"
      then obtain q ps where q: "r = (q, Some 10)" "names_at s3 q (visible names) ps" "extends ?s2 (name_bases q ps) s3"
        and s3: "balanced ?s2 s3" "proc_step ?s2 s3"
        using names(3) by (auto simp: listing_def)
      let ?s4 = "s3\<lparr>blocks := clear_all (name_bases q ps) (blocks s3)\<rparr>"
      have b4: "blocks ?s4 = blocks s" using extends_restores [OF q(3)] by simp
      have "healthy ?s4" "balanced s ?s4" "env ?s4 = e2"
        using s3 assms(4) b4 by (auto simp: healthy_def mem_ok_def never_oom_def balanced_def defers_ok_env proc_step_def)
      with b4 runs_clear_up [OF assms(1) d(1-4), of ?s4] e2(2,3)
      have "runs (?tail (Some 10)) ?s4 (\<lambda>r s'. r \<and> leaves V ok s s')" by simp
      moreover have "length (visible names) < 2 ^ 56" using names(3) by simp
      note free = runs_free_dir_content [OF q(2) this]
      ultimately show "(case r of (content, content_size) \<Rightarrow> \<lambda>s3. runs (seq (free_dir_content content) (?tail content_size)) s3
        (\<lambda>r s'. r \<and> leaves V ok s s')) s3"
        unfolding q(1) prod.case runs_seq [of "free_dir_content _"] by (intro runs_mono [OF free]) simp
    qed
    then show "runs ?rest s' (\<lambda>r s'. r \<and> leaves V ok s s')"
      by (simp add: e2(1) runs_bind [of "dir_content _ _"] case_prod_unfold)
  qed
  then show ?thesis
    unfolding test_dir_content_def mkdtemp_def
    using new(1) by (simp add: runs_bind [of "bind _ _"] runs_bind [of "gets _"] runs_gets runs_seq runs_modify runs_ret
        runs_bind [of "seq _ _"])
qed

section \<open>All tests\<close>

lemma runs_test_unparsable:
  fixes s :: "'e world"
  assumes "temp_laws P F V c ok room" "stack_ok s" "curr s < 9" "healthy s" "ok (env s)"
  shows "runs (test_abs_path_unparsable P) s (\<lambda>r s'. r \<and> V (env s') = V (env s) \<and> blocks s' = blocks s \<and> balanced s s')"
proof -
  let ?path = "''/'' @ nl @ ''~'' @ [CHR 0x22, CHR 0x27, CHR 0x22] @ ''.k''"
  have "os_wordexp P (env s) ?path = None" by (rule temp_lawsD(3) [OF assms(1,5)]) (simp add: bare_newline_def nl_def newline_def)
  with abs_path_bad_expansion [OF assms(2,3), of P ?path] assms(4)
  have "runs (abs_path P ?path) s (\<lambda>p s'. p = null \<and> err_code s' = PARSING_ERROR \<and> blocks s' = blocks s \<and>
      balanced s s' \<and> env s' = env s)"
    by (simp add: healthy_def)
  then show ?thesis
    unfolding test_abs_path_unparsable_def Let_def runs_bind [of "abs_path _ _"]
    by (rule runs_mono) (auto simp: assert_that_def errm_error_code_def runs_simps)
qed

text \<open>C38: Where the kernel does what the manuals say of the calls used, the working directory may be written and has room
  for twelve files, all tests of \<open>check_fs\<close> hold, and they leave the file system, the heap and the defer stack as they were:
  the path \<open>abs_path\<close> gives leads to the file its argument names, \<open>dir_content\<close> counts ten files, and a path with a newline
  outside of quotes, which \<open>wordexp\<close> refuses, is an error.\<close>

theorem check_fs_passes:
  fixes s :: "'e world"
  assumes "temp_laws P F V c ok room" "is_absolute c" "c_string c" "length c < 2 ^ 63" "stack_ok s" "curr s < 8" "healthy s"
    and "ok (env s)" "12 \<le> room (env s)"
  shows "runs (check_fs P F) s (\<lambda>r s'. r = [True, True, True] \<and> V (env s') = V (env s) \<and> blocks s' = blocks s \<and> balanced s s')"
proof -
  have start: "curr s < 9" "0 < room (env s)" using assms(6,9) by simp_all
  note first = runs_test_abs_path [OF assms(1-5) start(1) assms(7,8) start(2)]
  have "runs (test_dir_content P F) s1 (\<lambda>r s2. r \<and> runs (test_abs_path_unparsable P) s2 (\<lambda>r s'. r \<and> V (env s') = V (env s) \<and>
      blocks s' = blocks s \<and> balanced s s'))" if s1: "leaves V ok s s1" "room (env s) \<le> Suc (room (env s1))" for s1 :: "'e world"
  proof -
    have "stack_ok s1" "curr s1 < 8" "healthy s1" "ok (env s1)" "11 \<le> room (env s1)"
      using s1 balanced_stack_ok [OF assms(5)] assms(6,9) by (auto simp: leaves_def balanced_def)
    then have "runs (test_dir_content P F) s1 (\<lambda>r s'. r \<and> leaves V ok s1 s')"
      by (intro runs_test_dir_content [OF assms(1)])
    then show ?thesis
    proof (rule runs_mono)
      fix r s2 assume "r \<and> leaves V ok s1 s2"
      then have s2: "r" "leaves V ok s s2" using leaves_trans [OF s1(1)] by simp_all
      then have "stack_ok s2" "curr s2 < 9" "healthy s2" "ok (env s2)"
        using balanced_stack_ok [OF assms(5)] start(1) by (auto simp: leaves_def balanced_def)
      from runs_test_unparsable [OF assms(1) this] s2
      show "r \<and> runs (test_abs_path_unparsable P) s2 (\<lambda>r s'. r \<and> V (env s') = V (env s) \<and> blocks s' = blocks s \<and> balanced s s')"
        by (auto simp: leaves_def intro: balanced_trans elim!: runs_mono)
    qed
  qed
  with first have "runs (test_abs_path P F) s (\<lambda>r s1. r \<and> runs (test_dir_content P F) s1 (\<lambda>r s2. r \<and>
      runs (test_abs_path_unparsable P) s2 (\<lambda>r s'. r \<and> V (env s') = V (env s) \<and> blocks s' = blocks s \<and> balanced s s')))"
    by (auto elim!: runs_mono)
  then show ?thesis
    unfolding check_fs_def runs_bind by (auto simp: runs_ret elim!: runs_mono)
qed

text \<open>A file system as a list of paths, in the working directory \<open>/home\<close>.\<close>

type_synonym tree = "(string \<times> node) list"

definition tree_at :: "tree \<Rightarrow> string \<Rightarrow> node option" where
  "tree_at e x = map_of e (resolved ''/home'' x)"

definition tree_below :: "string \<Rightarrow> tree \<Rightarrow> string list" where
  "tree_below d e = remdups (filter (\<lambda>m. plain m \<and> joined ''/home'' (joined d m) \<in> set (map fst e))
     (map (drop (length (joined ''/home'' d) + 1)) (map fst e)))"

definition tree_posix :: "tree posix" where
  "tree_posix = \<lparr>os_wordexp = (\<lambda>_ p. if bare_newline p then None else Some [p]), os_getcwd = (\<lambda>_. Inr ''/home''),
     os_opendir = (\<lambda>e d. Inr (''.'' # tree_below d e)), os_dlopen = (\<lambda>_ _. Inl ''?''), os_nosym = (\<lambda>x. x),
     os_symlink = (\<lambda>_ _ _. Inl EEXIST),
     os_remove = (\<lambda>e x. if tree_at e x = None then Inl ENOENT else Inr (filter (\<lambda>(y, _). y \<noteq> resolved ''/home'' x) e))\<rparr>"

text \<open>The names there are for temporary files, and those of them nothing bears or lies below.\<close>

definition temp_names :: "string list" where
  "temp_names = map (\<lambda>ch. ''aaaaa'' @ [ch]) ''abcdefghijklmnopqrstuvwxyz''"

definition unused :: "tree \<Rightarrow> string \<Rightarrow> bool" where
  "unused e n \<longleftrightarrow> list_all (\<lambda>(y, _). y \<noteq> joined ''/home'' n \<and> take (length (joined ''/home'' n) + 1) y \<noteq> joined ''/home'' n @ ''/'') e"

definition tree_room :: "tree \<Rightarrow> nat" where
  "tree_room e = length (filter (unused e) temp_names)"

definition tree_temp :: "tree temp_fs" where
  "tree_temp =
     \<lparr>tf_mkstemp = (\<lambda>e _. case filter (unused e) temp_names of [] \<Rightarrow> Inl EEXIST | n # _ \<Rightarrow> Inr (3, n, (joined ''/home'' n, Leaf 7) # e)),
      tf_mkdtemp = (\<lambda>e _. case filter (unused e) temp_names of [] \<Rightarrow> Inl EEXIST | n # _ \<Rightarrow> Inr (n, (joined ''/home'' n, Folder 8) # e)),
      tf_stat = (\<lambda>e x. case tree_at e x of Some (Leaf i) \<Rightarrow> Inr i | Some (Folder i) \<Rightarrow> Inr i | None \<Rightarrow> Inl ENOENT),
      tf_create = (\<lambda>e x. Inr ((resolved ''/home'' x, Leaf 9) # e)),
      tf_rmdir = (\<lambda>e x. Inr (filter (\<lambda>(y, _). y \<noteq> resolved ''/home'' x) e))\<rparr>"

lemma tree_removed: "map_of (filter (\<lambda>(y, _). y \<noteq> x) e) = (map_of e)(x := None)" for e :: tree
  by (induction e) (auto simp: fun_eq_iff)

lemma tree_names: "set (tree_below d e) = {m. plain m \<and> map_of e (joined ''/home'' (joined d m)) \<noteq> None}"
proof -
  have "joined ''/home'' (joined d m) \<in> set (map fst e) \<Longrightarrow> m \<in> set (map (drop (length (joined ''/home'' d) + 1)) (map fst e))" for m
    by (force simp: joined_def image_iff)
  moreover have "map_of e x \<noteq> None \<longleftrightarrow> x \<in> set (map fst e)" for x using map_of_eq_None_iff [of e x] by simp
  ultimately show ?thesis by (auto simp: tree_below_def simp del: set_map)
qed

lemma tree_visible: "visible (''.'' # tree_below d e) = tree_below d e" "distinct (tree_below d e)"
  by (auto simp: tree_below_def visible_def plain_def filter_id_conv)

lemma unused_free: "unused e n \<Longrightarrow> map_of e (joined ''/home'' n) = None" "unused e n \<Longrightarrow> map_of e (joined ''/home'' (joined n m)) = None"
proof -
  have "x \<noteq> joined ''/home'' n \<and> x \<noteq> joined ''/home'' (joined n m)" if "unused e n" "map_of e x = Some v" for x v
    using that by (fastforce simp: unused_def list_all_iff joined_def dest!: map_of_SomeD)
  then show "unused e n \<Longrightarrow> map_of e (joined ''/home'' n) = None" "unused e n \<Longrightarrow> map_of e (joined ''/home'' (joined n m)) = None"
    by (metis not_None_eq)+
qed

lemma temp_names_ok: "n \<in> set temp_names \<Longrightarrow> temp_name n" "distinct temp_names"
proof -
  have "list_all temp_name temp_names" "distinct temp_names" by code_simp+
  then show "n \<in> set temp_names \<Longrightarrow> temp_name n" "distinct temp_names" by (auto simp: list_all_iff)
qed

lemma room_mono: "(\<And>n. n \<in> set temp_names \<Longrightarrow> unused e n \<Longrightarrow> unused e' n) \<Longrightarrow> tree_room e \<le> tree_room e'"
proof -
  have "(\<And>n. n \<in> set ns \<Longrightarrow> A n \<Longrightarrow> B n) \<Longrightarrow> length (filter A ns) \<le> length (filter B ns)" for A B and ns :: "string list"
    by (induction ns) auto
  then show "(\<And>n. n \<in> set temp_names \<Longrightarrow> unused e n \<Longrightarrow> unused e' n) \<Longrightarrow> tree_room e \<le> tree_room e'"
    unfolding tree_room_def by blast
qed

lemma room_taken:
  assumes "n \<in> set temp_names"
  shows "tree_room e \<le> Suc (tree_room ((joined ''/home'' n, k) # e))"
proof -
  have len: "length x = length n" if "x \<in> set temp_names" for x
    using temp_names_ok(1) [OF that] temp_names_ok(1) [OF assms] by (simp add: temp_name_def)
  have "unused ((joined ''/home'' n, k) # e) x \<longleftrightarrow> unused e x \<and> x \<noteq> n" if "x \<in> set temp_names" for x
    using len [OF that] by (auto simp: unused_def joined_def)
  then have "filter (unused ((joined ''/home'' n, k) # e)) temp_names = filter (\<lambda>x. unused e x \<and> x \<noteq> n) temp_names"
    by (rule filter_cong [OF refl])
  also have "\<dots> = filter (\<lambda>x. x \<noteq> n) (filter (unused e) temp_names)" by (simp add: conj_commute)
  also have "\<dots> = remove1 n (filter (unused e) temp_names)"
    using distinct_filter [OF temp_names_ok(2)] by (simp add: distinct_remove1_removeAll removeAll_filter_not_eq eq_commute)
  finally have "tree_room ((joined ''/home'' n, k) # e) = length (remove1 n (filter (unused e) temp_names))"
    unfolding tree_room_def by simp
  moreover have "length xs \<le> Suc (length (remove1 n xs))" for xs :: "string list" by (induction xs) auto
  ultimately show ?thesis unfolding tree_room_def by simp
qed

lemma room_below:
  assumes "temp_name d" "map_of e (joined ''/home'' d) = Some (Folder i)"
  shows "tree_room e \<le> tree_room ((joined ''/home'' (joined d m), k) # e)"
proof (rule room_mono)
  fix n assume n: "n \<in> set temp_names" "unused e n"
  then have "n \<noteq> d" using unused_free(1) assms(2) by auto
  moreover have "length n = length d" using temp_names_ok(1) [OF n(1)] assms(1) by (simp add: temp_name_def)
  ultimately show "unused ((joined ''/home'' (joined d m), k) # e) n"
    using n(2) by (auto simp: unused_def joined_def)
qed

lemma room_removed: "tree_room e \<le> tree_room (filter (\<lambda>(y, _). y \<noteq> x) e)"
  by (rule room_mono) (auto simp: unused_def list_all_iff)

lemma pick_name:
  assumes "0 < tree_room e"
  obtains n ns where "filter (unused e) temp_names = n # ns" "unused e n" "temp_name n" "n \<in> set temp_names"
proof -
  obtain n ns where n: "filter (unused e) temp_names = n # ns" using assms by (cases "filter (unused e) temp_names") (auto simp: tree_room_def)
  then have "n \<in> set (filter (unused e) temp_names)" by (metis list.set_intros(1))
  then have "n \<in> set temp_names" "unused e n" by (simp_all only: set_filter mem_Collect_eq)
  then show thesis using that n temp_names_ok(1) by blast
qed

lemma literal_line: "literal p \<Longrightarrow> \<not> bare_newline p"
proof
  let ?A = "set ''abcdefghijklmnopqrstuvwxyzABCDEFGHIJKLMNOPQRSTUVWXYZ0123456789/._-''"
  assume "literal p" "bare_newline p"
  then have "CHR 0x0A \<in> set p" by (auto simp: bare_newline_def dest: set_takeWhileD)
  with \<open>literal p\<close> have "CHR 0x0A \<in> ?A" unfolding literal_def list_all_iff by (elim conjE) (erule bspec)
  moreover have "CHR 0x0A \<notin> ?A" by simp
  ultimately show False by (rule notE [rotated])
qed

lemma own_resolved: "own_path x \<Longrightarrow> resolved c x = joined c x"
  using temp_name_path(1) relative_file by (auto simp: own_path_def)

lemma tree_at_own: "own_path x \<Longrightarrow> tree_at e x = map_of e (joined ''/home'' x)" "tree_at e (joined ''/home'' x) = map_of e (joined ''/home'' x)"
  by (simp_all add: tree_at_def own_resolved absolute_resolved is_absolute_def)

lemma tree_laws: "temp_laws tree_posix tree_temp map_of ''/home'' (\<lambda>_. True) tree_room"
  unfolding temp_laws_def
proof (intro allI conjI impI)
  fix e :: tree and p x d m :: string and i :: u64
  show "os_getcwd tree_posix e = Inr ''/home''" by (simp add: tree_posix_def)
  show "os_wordexp tree_posix e p = Some [p]" if "literal p"
    using literal_line [OF that] by (simp add: tree_posix_def)
  show "os_wordexp tree_posix e p = None" if "bare_newline p" using that by (simp add: tree_posix_def)
  show "tf_stat tree_temp e x = Inr i" "tf_stat tree_temp e (joined ''/home'' x) = Inr i"
    "\<exists>e'. os_remove tree_posix e x = Inr e' \<and> True \<and> tree_room e \<le> tree_room e' \<and> map_of e' = (map_of e)(joined ''/home'' x := None)"
    if "own_path x" "map_of e (joined ''/home'' x) = Some (Leaf i)"
    using that by (simp_all add: tree_temp_def tree_posix_def tree_at_own tree_removed own_resolved room_removed)
  show "\<exists>fd n e' i. tf_mkstemp tree_temp e ''XXXXXX'' = Inr (fd, n, e') \<and> 0 \<le> fd \<and> temp_name n \<and>
      map_of e (joined ''/home'' n) = None \<and> True \<and> tree_room e \<le> Suc (tree_room e') \<and> map_of e' = (map_of e)(joined ''/home'' n \<mapsto> Leaf i)"
    if "0 < tree_room e"
    using that by (rule pick_name) (auto simp: tree_temp_def unused_free room_taken)
  show "\<exists>n e' i. tf_mkdtemp tree_temp e ''XXXXXX'' = Inr (n, e') \<and> temp_name n \<and> map_of e (joined ''/home'' n) = None \<and>
      (\<forall>m. map_of e (joined ''/home'' (joined n m)) = None) \<and> True \<and> tree_room e \<le> Suc (tree_room e') \<and>
      map_of e' = (map_of e)(joined ''/home'' n \<mapsto> Folder i)"
    if "0 < tree_room e"
    using that by (rule pick_name) (auto simp: tree_temp_def unused_free room_taken)
  assume d: "temp_name d" "map_of e (joined ''/home'' d) = Some (Folder i)"
  show "\<exists>j e'. tf_create tree_temp e (joined d m) = Inr e' \<and> True \<and> tree_room e \<le> Suc (tree_room e') \<and>
      map_of e' = (map_of e)(joined ''/home'' (joined d m) \<mapsto> Leaf j)"
    using room_below [OF d] relative_file [OF d(1), of "''/home''" m] by (auto simp: tree_temp_def le_SucI)
  show "\<exists>names. os_opendir tree_posix e d = Inr names \<and> distinct (visible names) \<and>
      set (visible names) = {m. plain m \<and> map_of e (joined ''/home'' (joined d m)) \<noteq> None}"
    by (rule exI [of _ "''.'' # tree_below d e"])
      (simp only: tree_visible tree_names, simp add: tree_posix_def)
  show "\<exists>e'. tf_rmdir tree_temp e d = Inr e' \<and> True \<and> map_of e' = (map_of e)(joined ''/home'' d := None)"
    by (simp add: tree_temp_def tree_removed temp_name_path(1) [OF d(1)])
qed

theorem check_fs_passes_witness:
  "runs (check_fs tree_posix tree_temp) (start_at []) (\<lambda>r s'. r = [True, True, True] \<and> env s' = [])"
proof -
  let ?s = "start_at [] :: tree world"
  have "tree_room [] = 26" by (simp add: tree_room_def unused_def temp_names_def)
  then have "runs (check_fs tree_posix tree_temp) ?s (\<lambda>r s'. r = [True, True, True] \<and>
      map_of (env s') = map_of (env ?s) \<and> blocks s' = blocks ?s \<and> balanced ?s s')"
    by (intro check_fs_passes [OF tree_laws])
      (auto simp: start_at_ok c_string_def is_absolute_def)
  then show ?thesis by (rule runs_mono) (simp add: start_at_ok)
qed

end
