(* ===== verification/Spec2Isabelle.thy ===== *)
theory Spec2Isabelle
  imports Prelude Memory Errm Errm_Refine Errm_Tests Dga Dga_Example Posix Edf Filesystem Mods Tracer Tracing Stops
    Trace_Reads Terminal Shell Shell_Facts Shell_Child Shell_Main Session Repaint Prom Shell_Whole Prom_Facts Listing
    Templates Clean Low_Memory Scarce Manager Conduit Check_Fs
begin

text \<open>
  A model of \<open>prom\<close>, a shell wrapper in C. \<open>prom shell\<close> starts \<open>bash\<close> under a virtual terminal
  of its own and traces it: a callback is asked before every \<open>openat\<close> of the traced processes. \<open>prom module\<close>
  manages the shared objects a user has linked into a directory. The program's parts lie in \<open>src/\<close>; the lower
  ones are libraries the upper ones call.

  \<^bold>\<open>Reading the models.\<close> A C function is a HOL function of the same name. It maps a state to an \<open>outcome\<close>: it
  returned a value, called \<open>exit\<close>, called \<open>abort\<close>, became another program, has undefined behaviour, or the model
  of a loop ran out of fuel. \<open>runs m s Q\<close> says that \<open>m\<close> started in \<open>s\<close> returns and that \<open>Q\<close> holds of the result
  and the state after it; it excludes every other outcome. Each statement of a function is one combinator
  (\<open>bind\<close>, \<open>seq\<close>, \<open>if\<close>) in the order of the code. Integers with a width are words; \<open>int\<close> of C is \<open>int\<close> where the
  code does no arithmetic that could overflow.

  \<^bold>\<open>Theories and sources, from the bottom up.\<close>
  \<^item> \<open>Prelude\<close>: outcomes, combinators, \<open>runs\<close> with one rewrite rule for each combinator, lists and words.
  \<^item> \<open>Memory\<close>: the heap as objects made of bytes, with \<open>malloc\<close>, \<open>realloc\<close>, \<open>free\<close> and C strings. An access
    outside a live object, a second \<open>free\<close> or the read of an uninitialised byte is undefined; every allocation
    may fail, as \<open>grants\<close> of the state says.
  \<^item> \<open>Errm\<close> (\<open>errm/errm.c\<close>, \<open>errm/errm.h\<close>): the thread's error code and its defer stack, twelve frames of deferred calls
    with a pool for copied objects; \<open>edf\<close> is the wrapper that the macros \<open>edf_func1\<close> and its like generate. The
    locale \<open>defer_handlers\<close> is what the stack asks of the handlers; \<open>Filesystem\<close> interprets it for those the
    program defers. \<open>Errm_Tests\<close> has the functions of \<open>errm/tests.c\<close>, with \<open>p\<close> as the field \<open>tp\<close>. \<open>Errm_Refine\<close> states the stack's specification, a stack of lists
    on which each operation, with its handler and argument, is a function (\<open>calls_do\<close>), and shows that the frames simulate it
    operation by operation (locale \<open>simulation\<close>, interpreted as \<open>defer_stack\<close>).
  \<^item> \<open>Dga\<close> (\<open>dga/dga.c\<close>, \<open>dga/dga.h\<close>): arrays with their length in a header in front. The locale \<open>dyn_array\<close> is the
    interface the other parts use, with the laws of growing, of the elements and of memory left alone;
    \<open>resizable_array\<close> adds resizing. \<open>Dga_Example\<close> is \<open>dga/example.c\<close>: its structs as bytes, \<open>fread\<close> and \<open>getchar\<close> over
    the buffer of \<open>stdin\<close> and \<open>read\<close> and \<open>write\<close> past it as the parameter \<open>stdio\<close>, and what those promise as
    \<open>kernel_laws\<close> and \<open>buffer_laws\<close>: a \<open>read\<close> or \<open>write\<close> may fail or fall short. \<open>relay\<close> says what the copy does with them.
  \<^item> \<open>Posix\<close>: the state of the process (\<open>world\<close>, with the shell's \<open>globe\<close> and the tracer's static variable) and
    the calls of \<open>wordexp\<close>, directories, links and the loader; what those answer is the parameter \<open>posix\<close>.
    \<open>Edf\<close> has the rules for code inside an \<open>edf\<close> function.
  \<^item> \<open>Filesystem\<close> (\<open>filesystem/filesystem.c\<close>): \<open>abs_path\<close> and \<open>dir_content\<close>, both \<open>edf\<close> functions over deferred frees.
  \<^item> \<open>Mods\<close> (\<open>modules/mods.c\<close>, \<open>mods.h\<close>, \<open>api.h\<close>): loading and unloading a module, linking and removing it, and the
    loops over all modules of the directory.
  \<^item> \<open>Tracer\<close>, \<open>Tracing\<close>, \<open>Stops\<close> (\<open>libtracer/tracer.c\<close>, \<open>tracer.h\<close>): reading a string of a tracee, deciding its
    \<open>openat\<close>, and what a stop of a tracee leads to. The kernel is the parameter \<open>ptrace_os\<close>. The locale
    \<open>file_policy\<close> is what the tracer asks of its callbacks; the shell's are its interpretation \<open>shell\<close>.
    \<open>Trace_Reads\<close> is \<open>libtracer/examples/trace_file_reads.c\<close>; \<open>traced\<close> is what its session prints, a function of the
    kernel alone.
  \<^item> \<open>Terminal\<close> (\<open>shell/terminal.c\<close>, \<open>terminal.h\<close>, \<open>shell/pty.c\<close>, \<open>utils/logger.h\<close>): the glue to curses and libvterm, which
    are the parameter \<open>console\<close>; a call of theirs that only has an effect is an \<open>action\<close> with its arguments.
    \<open>Repaint\<close> shows what the damage callback draws, \<open>draws\<close> being what curses documents of a character one column wide.
  \<^item> \<open>Shell\<close> (\<open>shell/shell.c\<close>): the keyboard, the status bar, the callbacks of the tracer, the parent's loop, the
    child and the entry function. \<open>Shell_Facts\<close>, \<open>Shell_Child\<close> and \<open>Shell_Main\<close> hold their properties,
    \<open>Session\<close> those of the tracer's start, which may fail unseen, and of a run of the parent's loop, and \<open>Shell_Whole\<close> that of \<open>prom shell\<close> from start to end.
    The keyboard of \<open>Shell_Facts\<close> (\<open>key_laws\<close>, \<open>output_laws\<close>) has an output buffer that fills up and a \<open>write\<close> that may take
    less than it is given, and \<open>pass_on\<close> says what happens then; a session asks less (\<open>terminal_laws\<close>), and only of its own
    two terminals and of the states in which they are there. \<open>opens\<close> says how the set-up comes by them.
    \<open>Conduit\<close> shows what such a run passes on: \<open>wired\<close> says which calls of the libraries move bytes, and \<open>conducts\<close> is
    the invariant of the code between them.
  \<^item> \<open>Prom\<close> (\<open>prom-module.c\<close>, \<open>prom.c\<close>, \<open>prom-shell.c\<close>, \<open>main.c\<close>): the commands. \<open>Prom_Facts\<close>, \<open>Listing\<close> and \<open>Clean\<close>
    show what each of them does from the command line down to the links, the memory and the output. \<open>Templates\<close> types
    the array of modules and models \<open>examples/modules\<close>, the two templates of a module. \<open>Low_Memory\<close> runs the
    listing on a heap that runs out: \<open>takes\<close> carries the rules for a heap that never does over to the requests granted.
    \<open>Scarce\<close> refuses one request alone: \<open>thrifty\<close> is for code whose number of requests depends on its data.
    \<open>Manager\<close> runs sequences of these commands, each a process of its own, over one file system: \<open>manages\<close> is the
    specification, a step relation on a store of links, and \<open>keeps_store\<close> what the kernel and the loader promise of it.
  \<^item> \<open>Check_Fs\<close> (\<open>tests/check_fs.c\<close>): the tests of \<open>filesystem.c\<close> over a kernel of which \<open>temp_laws\<close> says what the
    manuals do of the calls used, in a directory that may be written and has room.

  \<^bold>\<open>What is shown.\<close> Of the defer stack: what runs and in which order, that copied objects arrive whole, that
  every reachable stack is well formed, and that it refines a stack of lists. Of arrays, paths, listings and modules:
  the value of each function on each branch, that nothing leaks and no other object is touched, and where
  an allocation that fails goes unseen. Of the tracer: that the path it shows the callbacks is the tracee's, that the
  callbacks decide, that one tracee's stops are told apart and two tracees' are not, and that signals pass. Of
  the shell: what keys, window changes, damage and the status bar lead to, and every way it ends. Of the commands: which
  one runs, all it changes, and that a sequence of them refines a store of links. Several of these say that
  the code does something its authors cannot have wanted, such as undefined behaviour without memory
  or a working module removed by \<open>list --clean\<close> because one request was refused; their texts say so. Of \<open>prom shell\<close> as a whole: every turn of the tracer
  and of the loop returns, and parent and child come to one of their ends; what the child
  writes reaches the virtual terminal, and what that puts out is offered to the child once, in order, and lost where a \<open>write\<close>
  does not take it. Of the examples: what they print and copy, for all
  inputs their outside can give; of the tests: that those of \<open>errm\<close> hold for every number of
  calls, but for one that is undefined, and those of \<open>filesystem\<close> wherever the files they need can be made.

  \<^bold>\<open>Fuel.\<close> Only loops whose end depends on the outside have fuel. \<open>run_defers\<close> in \<open>edf\<close> has \<open>defer_fuel\<close> turns, one
  more than a frame has slots, enough for handlers that do not defer. \<open>read_string\<close> needs \<open>k\<close> turns for a string that
  ends in the first \<open>k\<close> words. \<open>handle_input\<close> needs two more than there are keys waiting. The loops over a
  directory run over the list of its names. \<open>master_loop\<close> has two, the turns of the loop and the fuel of what it
  calls: one turn more than there are polls until the other side hangs up is enough for the first, and the second has to do
  for the keys waiting and the strings of the tracees (\<open>session\<close>). What is shown of the shell's exits holds whatever the fuel. \<open>copy_loop\<close> needs one turn more than there are
  characters left to read, \<open>trace_forever\<close> as many as there are stops up to the one that gives -1.

  \<^bold>\<open>Not modelled.\<close> The runner of the tests, \<open>check_mods.c\<close>, whose only test is empty, and \<open>main\<close>, which only calls \<open>cmd_main\<close>. When
  libvterm calls the two screen callbacks: \<open>Vt_input\<close> is one call, after which the outside may be anything.
  \<open>SIGWINCH\<close> is modelled where it can matter: the parent's loop reads its flag once a turn and clears it once, so \<open>signals\<close>
  stands before the read and before the clearing, and \<open>winch\<close> of the outside says whether one has come; a \<open>poll\<close> it
  interrupts answers \<open>EINTR\<close>. Streams do not fail, and \<open>printf\<close> leaves \<open>errno\<close>
  alone. The colours and the width of a cell are part of the model, and the code looks at neither. What curses does with a
  character of two columns or a control character is left to it; \<open>damage_repaints\<close> speaks of those that take one column.

  \<^bold>\<open>Left open.\<close> \<open>mods_loop\<close> on a heap that runs out: where the path of a module cannot be had, \<open>list\<close> takes it for
  a broken one, as \<open>Scarce\<close> shows of \<open>clean_loop\<close>.
\<close>

end
